(* ===== verification/Keys.thy ===== *)
theory Keys
  imports Prelude "HOL-Library.List_Lexorder" "HOL-Library.Char_ord"
begin

text \<open>
  The object-key scheme: the hexadecimal rendering and parsing the key builders rely on, the
  range names of merged objects and the level directories
  (\<^verbatim>\<open>crates/walrust-core/src/compaction/layout.rs\<close>), the changeset, lineage and state keys and
  the delta-envelope keys (\<^verbatim>\<open>crates/walrust-core/src/sync.rs\<close>) and the shadow segment names
  (\<^verbatim>\<open>crates/walrust-core/src/shadow.rs\<close>).  Strings are byte strings, so Isabelle's \<open>string\<close>.
\<close>

section \<open>Formatting and parsing of numbers\<close>

definition hex_digit :: "nat \<Rightarrow> char" where
  "hex_digit d = ''0123456789abcdef'' ! d"

fun hex_str :: "nat \<Rightarrow> string" where
  "hex_str n = (if n < 16 then [hex_digit n] else hex_str (n div 16) @ [hex_digit (n mod 16)])"

declare hex_str.simps [simp del]

text \<open>Rust's \<^verbatim>\<open>{:0wx}\<close>: lower-case hexadecimal, padded with zeros to at least \<open>w\<close> digits.\<close>

definition hex_pad :: "nat \<Rightarrow> nat \<Rightarrow> string" where
  "hex_pad w n = replicate (w - length (hex_str n)) (CHR ''0'') @ hex_str n"

fun dec_str :: "nat \<Rightarrow> string" where
  "dec_str n = (if n < 10 then [hex_digit n] else dec_str (n div 10) @ [hex_digit (n mod 10)])"

declare dec_str.simps [simp del]

text \<open>\<^verbatim>\<open>char::to_digit(16)\<close>.\<close>

definition hex_digit_val :: "char \<Rightarrow> nat option" where
  "hex_digit_val c =
     (let k = of_char c :: nat in
      if 48 \<le> k \<and> k \<le> 57 then Some (k - 48)
      else if 97 \<le> k \<and> k \<le> 102 then Some (k - 87)
      else if 65 \<le> k \<and> k \<le> 70 then Some (k - 55)
      else None)"

fun parse_hex_digits :: "nat \<Rightarrow> string \<Rightarrow> nat option" where
  "parse_hex_digits acc [] = Some acc"
| "parse_hex_digits acc (c # cs) =
     (case hex_digit_val c of
        None \<Rightarrow> None
      | Some d \<Rightarrow> if 16 * acc + d < 2 ^ 64 then parse_hex_digits (16 * acc + d) cs else None)"

text \<open>
  \<^verbatim>\<open>u64::from_str_radix(s, 16).ok()\<close>: an optional leading plus sign, at least one digit, no
  overflow.  A lone sign is rejected and so is a leading minus (the type is unsigned).
\<close>

definition from_str_radix16 :: "string \<Rightarrow> u64 option" where
  "from_str_radix16 s =
     (case s of
        [] \<Rightarrow> None
      | c # cs \<Rightarrow>
          if c = CHR ''+'' then
            (if cs = [] then None else map_option word_of_nat (parse_hex_digits 0 cs))
          else map_option word_of_nat (parse_hex_digits 0 s))"

section \<open>String operations\<close>

definition strip_prefix :: "string \<Rightarrow> string \<Rightarrow> string option" where
  "strip_prefix s p = (if take (length p) s = p then Some (drop (length p) s) else None)"

definition strip_suffix :: "string \<Rightarrow> string \<Rightarrow> string option" where
  "strip_suffix s p =
     (if length p \<le> length s \<and> drop (length s - length p) s = p
      then Some (take (length s - length p) s) else None)"

fun split_once :: "string \<Rightarrow> char \<Rightarrow> (string \<times> string) option" where
  "split_once [] d = None"
| "split_once (c # cs) d =
     (if c = d then Some ([], cs)
      else map_option (\<lambda>(a, b). (c # a, b)) (split_once cs d))"

text \<open>\<^verbatim>\<open>key.rsplit('/').next()\<close>: the part after the last separator.\<close>

definition rsplit_last :: "string \<Rightarrow> char \<Rightarrow> string" where
  "rsplit_last s d = rev (takeWhile (\<lambda>c. c \<noteq> d) (rev s))"

section \<open>Range names and level directories\<close>

type_synonym level = u32

record seq_range =
  rmin :: u64
  rmax :: u64

definition point :: "u64 \<Rightarrow> seq_range" where
  "point s = \<lparr>rmin = s, rmax = s\<rparr>"

definition SEQ_HEX_WIDTH :: nat where
  "SEQ_HEX_WIDTH = 16"

definition level_subpath :: "level \<Rightarrow> string" where
  "level_subpath l = (if l = 0 then ''0000'' else ''levels'' @ ''/L'' @ dec_str (unat l))"

definition format_range_name :: "seq_range \<Rightarrow> string \<Rightarrow> string" where
  "format_range_name r ext =
     hex_pad SEQ_HEX_WIDTH (unat (rmin r)) @ ''-'' @ hex_pad SEQ_HEX_WIDTH (unat (rmax r)) @ ''.'' @ ext"

definition parse_range_name :: "string \<Rightarrow> string \<Rightarrow> seq_range option" where
  "parse_range_name filename ext =
     (case strip_suffix filename (''.'' @ ext) of
        None \<Rightarrow> None
      | Some stem \<Rightarrow>
          (case split_once stem (CHR ''-'') of
             Some (lo, hi) \<Rightarrow>
               (case from_str_radix16 lo of
                  None \<Rightarrow> None
                | Some mn \<Rightarrow>
                    (case from_str_radix16 hi of
                       None \<Rightarrow> None
                     | Some mx \<Rightarrow> if mx < mn then None else Some \<lparr>rmin = mn, rmax = mx\<rparr>))
           | None \<Rightarrow>
               (case from_str_radix16 stem of
                  None \<Rightarrow> None
                | Some s \<Rightarrow> Some (point s))))"

section \<open>Changeset, lineage, state, delta and segment keys\<close>

text \<open>
  The generation of live incrementals and the generation of snapshots are constants of the
  \<^verbatim>\<open>hadb_changeset\<close> crate; the comments of \<^verbatim>\<open>sync.rs\<close> document their values.
\<close>

definition GENERATION_LIVE :: u64 where
  "GENERATION_LIVE = 0"

definition GENERATION_SNAPSHOT :: u64 where
  "GENERATION_SNAPSHOT = 1"

definition build_lineage_changeset_key ::
    "string \<Rightarrow> string \<Rightarrow> string \<Rightarrow> u64 \<Rightarrow> u64 \<Rightarrow> string \<Rightarrow> string" where
  "build_lineage_changeset_key prefix db_name lineage_id generation seq ext =
     prefix @ db_name @ ''/lineages/'' @ lineage_id @ ''/'' @ hex_pad 4 (unat generation) @ ''/'' @
     hex_pad 16 (unat seq) @ ''.'' @ ext"

definition lineage_generation_prefix :: "string \<Rightarrow> string \<Rightarrow> string \<Rightarrow> u64 \<Rightarrow> string" where
  "lineage_generation_prefix prefix db_name lineage_id generation =
     prefix @ db_name @ ''/lineages/'' @ lineage_id @ ''/'' @ hex_pad 4 (unat generation) @ ''/''"

definition state_key :: "string \<Rightarrow> string \<Rightarrow> string" where
  "state_key prefix db_name = prefix @ db_name @ ''/state.json''"

definition DELTA_ENVELOPE_EXT :: string where
  "DELTA_ENVELOPE_EXT = ''tlmd''"

definition delta_envelope_key :: "string \<Rightarrow> string \<Rightarrow> u64 \<Rightarrow> string" where
  "delta_envelope_key prefix db_name seq =
     prefix @ db_name @ ''/'' @ hex_pad 4 (unat GENERATION_LIVE) @ ''/'' @
     hex_pad 16 (unat seq) @ ''.'' @ DELTA_ENVELOPE_EXT"

definition parse_delta_envelope_seq :: "string \<Rightarrow> u64 option" where
  "parse_delta_envelope_seq key =
     (case strip_suffix (rsplit_last key (CHR ''/'')) (''.'' @ DELTA_ENVELOPE_EXT) of
        None \<Rightarrow> None
      | Some hex \<Rightarrow> if length hex \<noteq> 16 then None else from_str_radix16 hex)"

definition format_segment_name :: "u64 \<Rightarrow> u64 \<Rightarrow> string" where
  "format_segment_name generation idx =
     hex_pad 16 (unat generation) @ ''-'' @ hex_pad 16 (unat idx) @ ''.wal''"

section \<open>Hexadecimal lemmas\<close>

fun hex_fixed :: "nat \<Rightarrow> nat \<Rightarrow> string" where
  "hex_fixed 0 n = []"
| "hex_fixed (Suc w) n = hex_fixed w (n div 16) @ [hex_digit (n mod 16)]"

lemma length_hex_fixed [simp]: "length (hex_fixed w n) = w"
  by (induction w arbitrary: n) simp_all

lemma hex_digit_cases: "d < 16 \<Longrightarrow> d \<in> {0, 1, 2, 3, 4, 5, 6, 7, 8, 9, 10, 11, 12, 13, 14, 15 :: nat}"
  by (simp, presburger)

lemma hex_digit_val_hex_digit [simp]: "d < 16 \<Longrightarrow> hex_digit_val (hex_digit d) = Some d"
  by (drule hex_digit_cases) (auto simp: hex_digit_val_def hex_digit_def)

lemma hex_digit_code: "d < 16 \<Longrightarrow> (of_char (hex_digit d) :: nat) = (if d < 10 then 48 + d else 87 + d)"
  by (drule hex_digit_cases) (auto simp: hex_digit_def)

lemma hex_digit_not_special:
  "d < 16 \<Longrightarrow> hex_digit d \<notin> {CHR ''-'', CHR ''+'', CHR ''/'', CHR ''.''}"
  by (drule hex_digit_cases) (auto simp: hex_digit_def)

lemma hex_digit_mono: "m < n \<Longrightarrow> n < 16 \<Longrightarrow> hex_digit m < hex_digit n"
  by (simp add: less_char_def hex_digit_code)

lemma set_hex_fixed: "set (hex_fixed w n) \<subseteq> hex_digit ` {..<16}"
  by (induction w arbitrary: n) auto

lemma hex_fixed_zero: "hex_fixed w 0 = replicate w (CHR ''0'')"
  by (induction w) (simp_all add: hex_digit_def replicate_append_same)

lemma hex_fixed_small: "n < 16 \<Longrightarrow> hex_fixed (Suc w) n = replicate w (CHR ''0'') @ [hex_digit n]"
  by (simp add: hex_fixed_zero)

lemma hex_pad_fixed: "n < 16 ^ Suc w \<Longrightarrow> hex_pad (Suc w) n = hex_fixed (Suc w) n"
proof (induction w arbitrary: n)
  case 0
  then show ?case
    by (simp add: hex_pad_def hex_str.simps [of n])
next
  case (Suc w)
  show ?case
  proof (cases "n < 16")
    case True
    then show ?thesis
      by (subst hex_fixed_small) (simp_all add: hex_pad_def hex_str.simps [of n])
  next
    case False
    have "n div 16 < 16 ^ Suc w"
      using Suc.prems by (simp add: less_mult_imp_div_less mult.commute)
    then have "hex_pad (Suc w) (n div 16) = hex_fixed (Suc w) (n div 16)"
      by (rule Suc.IH)
    with False show ?thesis
      by (simp add: hex_pad_def hex_str.simps [of n] del: hex_fixed.simps(2))
        (simp only: hex_fixed.simps(2) [of "Suc w" n] append_assoc [symmetric])
  qed
qed

lemma hex16: "hex_pad 16 (unat (w :: u64)) = hex_fixed 16 (unat w)"
  using hex_pad_fixed [of "unat w" 15] unsigned_less [of w, where ?'a = nat]
  by (simp del: hex_fixed.simps)

lemma parse_hex_digits_append:
  "parse_hex_digits acc (xs @ ys) =
     (case parse_hex_digits acc xs of None \<Rightarrow> None | Some a \<Rightarrow> parse_hex_digits a ys)"
  by (induction xs arbitrary: acc) (auto split: option.splits)

lemma parse_hex_fixed:
  "n < 16 ^ w \<Longrightarrow> n < 2 ^ 64 \<Longrightarrow> parse_hex_digits 0 (hex_fixed w n) = Some n"
proof (induction w arbitrary: n)
  case (Suc w)
  have "parse_hex_digits 0 (hex_fixed w (n div 16)) = Some (n div 16)"
    using Suc.prems by (intro Suc.IH) (simp_all add: less_mult_imp_div_less mult.commute)
  then show ?case
    using Suc.prems by (simp add: parse_hex_digits_append)
qed simp

lemma from_str_radix16_hex16 [simp]: "from_str_radix16 (hex_pad 16 (unat (w :: u64))) = Some w"
proof -
  have lt: "unat w < 2 ^ 64"
    using unsigned_less [of w, where ?'a = nat] by simp
  obtain c cs where s: "hex_fixed 16 (unat w) = c # cs"
    by (metis length_hex_fixed list.size(3) neq_Nil_conv zero_neq_numeral)
  with set_hex_fixed [of 16 "unat w"] have "c \<noteq> CHR ''+''"
    using hex_digit_not_special by auto
  with parse_hex_fixed [of "unat w" 16] lt show ?thesis
    by (simp add: from_str_radix16_def hex16 s del: hex_fixed.simps)
qed

lemma hex16_not_special:
  assumes "c \<in> set (hex_pad 16 (unat (w :: u64)))"
  shows "c \<notin> {CHR ''-'', CHR ''+'', CHR ''/'', CHR ''.''}"
proof -
  have "c \<in> hex_digit ` {..<16}"
    using assms set_hex_fixed unfolding hex16 by (rule subsetD [rotated])
  then obtain d where d: "d < 16" "c = hex_digit d"
    by blast
  show ?thesis
    unfolding d(2) using d(1) by (rule hex_digit_not_special)
qed

lemma hex16_no_dash [simp]: "CHR ''-'' \<notin> set (hex_pad 16 (unat (w :: u64)))"
  using hex16_not_special [of _ w] by auto

lemma hex16_no_slash [simp]: "CHR ''/'' \<notin> set (hex_pad 16 (unat (w :: u64)))"
  using hex16_not_special [of _ w] by auto

lemma length_hex16 [simp]: "length (hex_pad 16 (unat (w :: u64))) = 16"
  by (simp add: hex16)

lemma strip_suffix_append [simp]: "strip_suffix (s @ p) p = Some s"
  by (simp add: strip_suffix_def)

lemma strip_prefix_append [simp]: "strip_prefix (p @ s) p = Some s"
  by (simp add: strip_prefix_def)

lemma strip_prefix_Some: "strip_prefix s p = Some t \<longleftrightarrow> s = p @ t"
  by (auto simp: strip_prefix_def) (metis append_take_drop_id)

lemma split_once_append [simp]: "d \<notin> set a \<Longrightarrow> split_once (a @ d # b) d = Some (a, b)"
  by (induction a) auto

lemma rsplit_last_append [simp]: "d \<notin> set b \<Longrightarrow> rsplit_last (a @ d # b) d = b"
  by (simp add: rsplit_last_def takeWhile_append)

section \<open>Lexical order of fixed-width names\<close>

lemma list_less_append_same: "xs < ys \<Longrightarrow> length ys \<le> length xs \<Longrightarrow> xs @ us < ys @ (vs :: string)"
  by (simp add: list_less_def lexord_sufI)

lemma list_less_append_prefix: "us < vs \<Longrightarrow> xs @ us < xs @ (vs :: string)"
  by (simp add: list_less_def lexord_append_leftI)

lemma hex_fixed_mono: "m < n \<Longrightarrow> n < 16 ^ w \<Longrightarrow> hex_fixed w m < hex_fixed w n"
proof (induction w arbitrary: m n)
  case (Suc w)
  have n: "n div 16 < 16 ^ w"
    using Suc.prems by (simp add: less_mult_imp_div_less mult.commute)
  have "m div 16 < n div 16 \<or> m div 16 = n div 16 \<and> m mod 16 < n mod 16"
    using Suc.prems(1) div_le_mono [of m n 16] mult_div_mod_eq [of 16 m] mult_div_mod_eq [of 16 n]
    by linarith
  then consider "m div 16 < n div 16" | "m div 16 = n div 16" "m mod 16 < n mod 16"
    by blast
  then show ?case
  proof cases
    case 1
    show ?thesis
      unfolding hex_fixed.simps by (rule list_less_append_same [OF Suc.IH [OF 1 n]]) simp
  next
    case 2
    have "[hex_digit (m mod 16)] < [hex_digit (n mod 16)]"
      using hex_digit_mono [OF 2(2)] by simp
    then show ?thesis
      unfolding hex_fixed.simps 2(1) by (rule list_less_append_prefix)
  qed
qed simp

lemma hex16_mono: "a < b \<Longrightarrow> hex_pad 16 (unat (a :: u64)) < hex_pad 16 (unat b)"
  using hex_fixed_mono [of "unat a" "unat b" 16] unsigned_less [of b, where ?'a = nat]
  by (simp add: hex16 word_less_nat_alt del: hex_fixed.simps)

section \<open>Properties of the key scheme\<close>

lemma two_hex16_mono:
  fixes a b c d :: u64
  assumes "(a, b) < (c, d)"
  shows "hex_pad 16 (unat a) @ x # hex_pad 16 (unat b) @ t < hex_pad 16 (unat c) @ x # hex_pad 16 (unat d) @ t"
proof (cases "a < c")
  case True
  show ?thesis
    by (rule list_less_append_same [OF hex16_mono [OF True]]) simp
next
  case False
  with assms have "a = c" "b < d"
    by auto
  moreover from \<open>b < d\<close> have "hex_pad 16 (unat b) @ t < hex_pad 16 (unat d) @ t"
    by (intro list_less_append_same hex16_mono) simp_all
  then have "(hex_pad 16 (unat a) @ [x]) @ hex_pad 16 (unat b) @ t
      < (hex_pad 16 (unat a) @ [x]) @ hex_pad 16 (unat d) @ t"
    by (rule list_less_append_prefix)
  ultimately show ?thesis
    by simp
qed

lemma strict_mono_iff:
  fixes f :: "'a::linorder \<Rightarrow> 'b::linorder"
  assumes "\<And>x y. x < y \<Longrightarrow> f x < f y"
  shows "f x < f y \<longleftrightarrow> x < y"
  using assms by (metis less_asym linorder_neqE)

text \<open>
  The range names of merged objects survive the round trip through
  \<^verbatim>\<open>parse_range_name\<close> for every extension, and a name whose bounds are inverted is rejected.
\<close>

theorem parse_format_range_name:
  "parse_range_name (format_range_name r ext) ext = (if rmin r \<le> rmax r then Some r else None)"
proof -
  have "format_range_name r ext =
      (hex_pad 16 (unat (rmin r)) @ CHR ''-'' # hex_pad 16 (unat (rmax r))) @ (''.'' @ ext)"
    by (simp add: format_range_name_def SEQ_HEX_WIDTH_def)
  then show ?thesis
    by (simp add: parse_range_name_def not_le del: append_assoc)
qed

text \<open>
  The lexical order of range names, which is the order of an object-store listing, is
  the order of the ranges by lower and then by upper bound.
\<close>

theorem format_range_name_order:
  "format_range_name r ext < format_range_name s ext \<longleftrightarrow> (rmin r, rmax r) < (rmin s, rmax s)"
proof -
  define f where "f p = hex_pad 16 (unat (fst p :: u64)) @ CHR ''-'' # hex_pad 16 (unat (snd p :: u64)) @
      CHR ''.'' # ext" for p
  have "f p < f q \<longleftrightarrow> p < q" for p q
    by (rule strict_mono_iff) (auto simp: f_def intro: two_hex16_mono)
  from this [of "(rmin r, rmax r)" "(rmin s, rmax s)"] show ?thesis
    by (simp add: f_def format_range_name_def SEQ_HEX_WIDTH_def)
qed

lemma parse_delta_envelope_key: "parse_delta_envelope_seq (delta_envelope_key prefix db s) = Some s"
proof -
  have "delta_envelope_key prefix db s =
      (prefix @ db @ ''/'' @ hex_pad 4 (unat GENERATION_LIVE)) @ CHR ''/'' #
      (hex_pad 16 (unat s) @ ''.tlmd'')"
    by (simp add: delta_envelope_key_def DELTA_ENVELOPE_EXT_def)
  then have "rsplit_last (delta_envelope_key prefix db s) (CHR ''/'') = hex_pad 16 (unat s) @ ''.tlmd''"
    by (simp only:, intro rsplit_last_append) simp
  then show ?thesis
    using strip_suffix_append [of "hex_pad 16 (unat s)" "''.tlmd''"]
    by (simp add: parse_delta_envelope_seq_def DELTA_ENVELOPE_EXT_def)
qed

lemma delta_envelope_key_less: "delta_envelope_key prefix db s < delta_envelope_key prefix db t \<longleftrightarrow> s < t"
  unfolding delta_envelope_key_def
  by (rule strict_mono_iff, intro list_less_append_prefix list_less_append_same hex16_mono) simp_all

text \<open>
  The sequence number of a fenced delta is recovered from its object key, and the
  keys of one database list in sequence order.
\<close>

theorem delta_envelope_key_roundtrip:
  "parse_delta_envelope_seq (delta_envelope_key prefix db s) = Some s \<and>
   (delta_envelope_key prefix db s < delta_envelope_key prefix db t \<longleftrightarrow> s < t)"
  using parse_delta_envelope_key delta_envelope_key_less by simp

end
