(* ===== verification/Planner.thy ===== *)
theory Planner
  imports Keys
begin

text \<open>
  The greedy restore planner, \<^verbatim>\<open>crates/walrust-core/src/compaction/planner.rs\<close>.  The loop is a
  \<open>partial_function\<close>: on a candidate whose bounds are inverted the cursor can move backwards
  and the loop need not end, so that it returns is a theorem about well-formed candidates (the
  only ones \<^verbatim>\<open>parse_range_name\<close> produces).  A restore plan is judged against the predicate
  \<open>tiles\<close>: a list of ranges that continues the chain object by object without gap and overlap.
\<close>

section \<open>Model\<close>

record plan_candidate =
  pc_key :: string
  pc_level :: level
  pc_range :: seq_range

record restore_plan =
  pl_floor :: u64
  pl_target :: u64
  pl_files :: "plan_candidate list"

datatype plan_error =
    ChainGap u64 u64
    \<comment> \<open>needed, nearest below\<close>
  | PitrInsideMergedWindow u64 u64 u64 u64 u64
    \<comment> \<open>target, window min, window max, nearest below, nearest above\<close>
  | PitrInsideSnapshotSpan u64 u64 u64
    \<comment> \<open>target, nearest below, nearest above\<close>

definition refine_gap_with_snapshot_spans :: "plan_error \<Rightarrow> u64 list \<Rightarrow> u64 \<Rightarrow> plan_error" where
  "refine_gap_with_snapshot_spans err later_snapshot_maxes tgt =
     (case err of
        ChainGap needed nearest_below \<Rightarrow>
          (case min_by_key id (filter (\<lambda>s. tgt \<le> s) later_snapshot_maxes) of
             Some nearest_above \<Rightarrow> PitrInsideSnapshotSpan tgt nearest_below nearest_above
           | None \<Rightarrow> err)
      | _ \<Rightarrow> err)"

definition best_within :: "plan_candidate list \<Rightarrow> u64 \<Rightarrow> u64 \<Rightarrow> plan_candidate option" where
  "best_within cands need tgt =
     max_by_key (\<lambda>c. rmax (pc_range c))
       (filter (\<lambda>c. rmin (pc_range c) = need \<and> rmax (pc_range c) \<le> tgt) cands)"

definition overshoot :: "plan_candidate list \<Rightarrow> u64 \<Rightarrow> u64 \<Rightarrow> plan_candidate option" where
  "overshoot cands need tgt =
     min_by_key (\<lambda>c. rmax (pc_range c))
       (filter (\<lambda>c. rmin (pc_range c) = need \<and> tgt < rmax (pc_range c)) cands)"

partial_function (option) plan_loop ::
    "plan_candidate list \<Rightarrow> u64 \<Rightarrow> u64 \<Rightarrow> plan_candidate list \<Rightarrow> (plan_error + plan_candidate list) option" where
  "plan_loop cands tgt cursor files =
     (if cursor < tgt then
        (case best_within cands (cursor + 1) tgt of
           Some pick \<Rightarrow> plan_loop cands tgt (rmax (pc_range pick)) (files @ [pick])
         | None \<Rightarrow>
             (case overshoot cands (cursor + 1) tgt of
                Some window \<Rightarrow>
                  Some (Inl (PitrInsideMergedWindow tgt (rmin (pc_range window)) (rmax (pc_range window))
                    cursor (rmax (pc_range window))))
              | None \<Rightarrow> Some (Inl (ChainGap (cursor + 1) cursor))))
      else Some (Inr files))"

definition plan_restore :: "plan_candidate list \<Rightarrow> u64 \<Rightarrow> u64 \<Rightarrow> (plan_error + restore_plan) option" where
  "plan_restore cands floor tgt =
     map_option (map_sum id (\<lambda>files. \<lparr>pl_floor = floor, pl_target = tgt, pl_files = files\<rparr>))
       (plan_loop cands tgt floor [])"

section \<open>Tilings\<close>

text \<open>
  \<open>tiles a rs b\<close>: starting from a database at sequence \<open>a\<close>, the ranges \<open>rs\<close> applied in order
  are contiguous, non-empty and end at \<open>b\<close>.
\<close>

fun tiles :: "u64 \<Rightarrow> seq_range list \<Rightarrow> u64 \<Rightarrow> bool" where
  "tiles a [] b \<longleftrightarrow> a = b"
| "tiles a (r # rs) b \<longleftrightarrow> a < rmin r \<and> rmin r = a + 1 \<and> rmin r \<le> rmax r \<and> tiles (rmax r) rs b"

definition wf_range :: "seq_range \<Rightarrow> bool" where
  "wf_range r \<longleftrightarrow> rmin r \<le> rmax r"

abbreviation ranges_of :: "plan_candidate list \<Rightarrow> seq_range list" where
  "ranges_of cs \<equiv> map pc_range cs"

definition covers_seq :: "seq_range \<Rightarrow> u64 \<Rightarrow> bool" where
  "covers_seq r s \<longleftrightarrow> rmin r \<le> s \<and> s \<le> rmax r"

text \<open>Any two ranges are disjoint or one contains the other.\<close>

definition laminar :: "seq_range set \<Rightarrow> bool" where
  "laminar R \<longleftrightarrow>
     (\<forall>r\<in>R. \<forall>s\<in>R. rmax r < rmin s \<or> rmax s < rmin r \<or>
        (rmin r \<le> rmin s \<and> rmax s \<le> rmax r) \<or> (rmin s \<le> rmin r \<and> rmax r \<le> rmax s))"

lemma tiles_le: "tiles a rs b \<Longrightarrow> a \<le> b"
  by (induction rs arbitrary: a) (auto intro: less_imp_le order_trans)

lemma tiles_append: "tiles a (rs @ ss) b \<longleftrightarrow> (\<exists>m. tiles a rs m \<and> tiles m ss b)"
  by (induction rs arbitrary: a) auto

lemma tiles_max_le: "tiles a rs b \<Longrightarrow> r \<in> set rs \<Longrightarrow> rmax r \<le> b"
  by (induction rs arbitrary: a) (auto dest: tiles_le)

lemma tiles_min_gt: "tiles a rs b \<Longrightarrow> r \<in> set rs \<Longrightarrow> a < rmin r"
  by (induction rs arbitrary: a) (auto intro: less_le_trans less_trans)

text \<open>In a laminar family a tiling that starts like a range and reaches its end stops there.\<close>

lemma laminar_tiles_split:
  assumes lam: "laminar R" and f: "f \<in> R" "rmin f \<le> rmax f"
    and furthest: "\<forall>r\<in>R. rmin r = rmin f \<longrightarrow> rmax r \<le> rmax f"
    and b: "rmax f \<le> b"
  shows "tiles c rs b \<Longrightarrow> set rs \<subseteq> R \<Longrightarrow> rmin f \<le> c + 1 \<Longrightarrow> c < rmax f \<Longrightarrow>
    \<exists>qs. set qs \<subseteq> R \<and> tiles (rmax f) qs b"
proof (induction rs arbitrary: c)
  case Nil
  with b show ?case by simp
next
  case (Cons r rs)
  then have r: "r \<in> R" "rmin r = c + 1" "rmin r \<le> rmax r" "tiles (rmax r) rs b"
    by auto
  have le: "rmin f \<le> rmin r" "rmin r \<le> rmax f"
    using Cons.prems(3,4) r(2) by (simp_all add: less_imp_suc_le_word)
  show ?case
  proof (cases "rmax r < rmax f")
    case True
    then have "rmin f \<le> rmax r + 1"
      using le(1) r(3) le_imp_less_suc_word [OF True] by (meson less_imp_le order_trans)
    then show ?thesis
      using Cons.IH [OF r(4)] Cons.prems(2) True by auto
  next
    case False
    then have "rmax r = rmax f \<or> rmin r = rmin f"
      using lam f(1) r(1) le unfolding laminar_def by fastforce
    with furthest r(1) False have "rmax r = rmax f"
      by fastforce
    with r(4) Cons.prems(2) show ?thesis by auto
  qed
qed

section \<open>The loop\<close>

definition within :: "plan_candidate list \<Rightarrow> u64 \<Rightarrow> seq_range set" where
  "within cands tgt = {r \<in> set (ranges_of cands). rmax r \<le> tgt}"

text \<open>What the loop has established when it stops at cursor \<open>c\<close> with result \<open>res\<close>.\<close>

definition stopped :: "plan_candidate list \<Rightarrow> u64 \<Rightarrow> u64 \<Rightarrow> plan_candidate list \<Rightarrow>
    plan_error + plan_candidate list \<Rightarrow> bool" where
  "stopped cands tgt c files res \<longleftrightarrow>
     (c = tgt \<and> res = Inr files) \<or>
     (c < tgt \<and> (\<forall>r\<in>set (ranges_of cands). rmin r \<noteq> c + 1) \<and> res = Inl (ChainGap (c + 1) c)) \<or>
     (c < tgt \<and> (\<forall>r\<in>within cands tgt. rmin r \<noteq> c + 1) \<and>
        (\<exists>w\<in>set (ranges_of cands). rmin w = c + 1 \<and> tgt < rmax w \<and>
           (\<forall>r\<in>set (ranges_of cands). rmin r = c + 1 \<longrightarrow> rmax w \<le> rmax r) \<and>
           res = Inl (PitrInsideMergedWindow tgt (rmin w) (rmax w) c (rmax w))))"

lemma best_within_Some:
  assumes "best_within cands need tgt = Some p"
  shows "p \<in> set cands" "rmin (pc_range p) = need" "rmax (pc_range p) \<le> tgt"
    "\<forall>r\<in>within cands tgt. rmin r = need \<longrightarrow> rmax r \<le> rmax (pc_range p)"
  using max_by_key_Some [OF assms [unfolded best_within_def]] by (auto simp: within_def)

lemma best_within_None:
  "best_within cands need tgt = None \<longleftrightarrow> (\<forall>r\<in>within cands tgt. rmin r \<noteq> need)"
  by (auto simp: best_within_def within_def filter_empty_conv)

lemma stopped_here:
  assumes "c < tgt" "best_within cands (c + 1) tgt = None"
  shows "\<exists>res. plan_loop cands tgt c files = Some res \<and> stopped cands tgt c files res"
proof (cases "overshoot cands (c + 1) tgt")
  case None
  then have "\<forall>r\<in>set (ranges_of cands). rmin r \<noteq> c + 1"
    using assms(2) by (fastforce simp: overshoot_def best_within_None within_def filter_empty_conv not_less)
  with assms None show ?thesis
    by (simp add: plan_loop.simps [of cands tgt c] stopped_def)
next
  case (Some w)
  from min_by_key_Some [OF Some [unfolded overshoot_def]]
  have w: "w \<in> set cands" "rmin (pc_range w) = c + 1" "tgt < rmax (pc_range w)"
    and least: "\<And>d. d \<in> set cands \<Longrightarrow> rmin (pc_range d) = c + 1 \<Longrightarrow> tgt < rmax (pc_range d) \<Longrightarrow>
      rmax (pc_range w) \<le> rmax (pc_range d)"
    by auto
  from assms(2) have none: "\<forall>r\<in>within cands tgt. rmin r \<noteq> c + 1"
    by (simp add: best_within_None)
  then have "\<forall>r\<in>set (ranges_of cands). rmin r = c + 1 \<longrightarrow> rmax (pc_range w) \<le> rmax r"
    using least by (fastforce simp: within_def simp flip: not_le)
  with assms Some w none show ?thesis
    by (auto simp: plan_loop.simps [of cands tgt c] stopped_def)
qed

lemma plan_loop_spec:
  assumes wf: "\<forall>r\<in>set (ranges_of cands). wf_range r"
  shows "c \<le> tgt \<Longrightarrow> \<exists>res gs e. plan_loop cands tgt c files = Some res \<and> set gs \<subseteq> set cands \<and>
    tiles c (ranges_of gs) e \<and> e \<le> tgt \<and> stopped cands tgt e (files @ gs) res \<and>
    (laminar (set (ranges_of cands)) \<longrightarrow>
       (\<forall>hs s. set hs \<subseteq> set (ranges_of cands) \<longrightarrow> tiles c hs s \<longrightarrow> s \<le> tgt \<longrightarrow> s \<le> e))"
proof (induction "unat tgt - unat c" arbitrary: c files rule: less_induct)
  case less
  show ?case
  proof (cases "c < tgt")
    case False
    with less.prems have "c = tgt" by simp
    then show ?thesis
      by (intro exI [of _ "Inr files"] exI [of _ "[]"] exI [of _ c])
        (simp add: plan_loop.simps [of cands tgt tgt] stopped_def)
  next
    case lt: True
    show ?thesis
    proof (cases "best_within cands (c + 1) tgt")
      case None
      from stopped_here [OF lt None] obtain res where
        "plan_loop cands tgt c files = Some res" "stopped cands tgt c files res" by blast
      moreover have "s \<le> c" if "set hs \<subseteq> set (ranges_of cands)" "tiles c hs s" "s \<le> tgt" for hs s
      proof (cases hs)
        case (Cons h hs')
        with that have "h \<in> within cands tgt"
          by (auto simp: within_def dest: tiles_le intro: order_trans)
        with None that Cons show ?thesis
          by (auto simp: best_within_None)
      qed (use that in auto)
      ultimately show ?thesis
        using less.prems by (intro exI [of _ res] exI [of _ "[]"] exI [of _ c]) simp
    next
      case (Some p)
      let ?r = "pc_range p"
      note p = best_within_Some [OF Some]
      have r: "rmin ?r \<le> rmax ?r" "?r \<in> set (ranges_of cands)"
        using wf p(1) by (auto simp: wf_range_def)
      have up: "c < rmin ?r" "c < rmax ?r"
        using p(2) r(1) le_imp_less_suc_word [OF lt] by auto
      have "unat tgt - unat (rmax ?r) < unat tgt - unat c"
        using up(2) p(3) lt by (simp add: word_less_nat_alt word_le_nat_alt)
      from less.hyps [OF this p(3), of "files @ [p]"] obtain res gs e where
        IH: "plan_loop cands tgt (rmax ?r) (files @ [p]) = Some res" "set gs \<subseteq> set cands"
          "tiles (rmax ?r) (ranges_of gs) e" "e \<le> tgt" "stopped cands tgt e (files @ p # gs) res"
        and far: "laminar (set (ranges_of cands)) \<longrightarrow>
          (\<forall>hs s. set hs \<subseteq> set (ranges_of cands) \<longrightarrow> tiles (rmax ?r) hs s \<longrightarrow> s \<le> tgt \<longrightarrow> s \<le> e)"
        by auto
      have "s \<le> e" if lam: "laminar (set (ranges_of cands))" and hs: "set hs \<subseteq> set (ranges_of cands)"
        and t: "tiles c hs s" and s: "s \<le> tgt" for hs s
      proof (cases "rmax ?r \<le> s")
        case True
        have "set hs \<subseteq> within cands tgt"
          using hs tiles_max_le [OF t] s by (fastforce simp: within_def)
        moreover have "laminar (within cands tgt)"
          using lam by (auto simp: laminar_def within_def)
        moreover have "?r \<in> within cands tgt"
          using r(2) p(3) by (simp add: within_def)
        ultimately obtain qs where "set qs \<subseteq> within cands tgt" "tiles (rmax ?r) qs s"
          using laminar_tiles_split [of "within cands tgt" ?r s c hs] p(2,4) r(1) True t up(2) by auto
        with far lam s show ?thesis
          by (auto simp: within_def)
      next
        case False
        with tiles_le [OF IH(3)] show ?thesis by simp
      qed
      with IH Some lt up p r show ?thesis
        by (intro exI [of _ res] exI [of _ "p # gs"] exI [of _ e])
          (auto simp: plan_loop.simps [of cands tgt c])
    qed
  qed
qed

section \<open>Properties of the planner\<close>

definition furthest :: "plan_candidate list \<Rightarrow> u64 \<Rightarrow> u64 \<Rightarrow> u64 \<Rightarrow> bool" where
  "furthest cands floor tgt e \<longleftrightarrow>
     (\<forall>hs s. set hs \<subseteq> set (ranges_of cands) \<longrightarrow> tiles floor hs s \<longrightarrow> s \<le> tgt \<longrightarrow> s \<le> e)"

lemma plan_restore_spec:
  assumes "\<forall>r\<in>set (ranges_of cands). wf_range r" "floor \<le> tgt"
  obtains res gs e where "plan_loop cands tgt floor [] = Some res" "set gs \<subseteq> set cands"
    "tiles floor (ranges_of gs) e" "e \<le> tgt" "stopped cands tgt e gs res"
    "laminar (set (ranges_of cands)) \<longrightarrow> furthest cands floor tgt e"
  using plan_loop_spec [OF assms, of "[]"] unfolding furthest_def by auto

text \<open>A tiling that passes \<open>t\<close> has a boundary there or an object that contains it strictly.\<close>

lemma tiles_crossing:
  assumes "tiles a hs s" "a \<le> t" "t \<le> s"
  shows "(\<exists>ps. set ps \<subseteq> set hs \<and> tiles a ps t) \<or>
    (\<exists>ps r m. set ps \<subseteq> set hs \<and> r \<in> set hs \<and> tiles a ps m \<and> m < t \<and> rmin r = m + 1 \<and> t < rmax r \<and> rmax r \<le> s)"
  using assms
proof (induction hs arbitrary: a)
  case Nil
  then show ?case by (auto intro: exI [of _ "[]"])
next
  case (Cons r hs)
  then have r: "a < rmin r" "rmin r = a + 1" "rmin r \<le> rmax r" "tiles (rmax r) hs s"
    by auto
  consider "a = t" | "a < t" "t < rmax r" | "rmax r \<le> t"
    using Cons.prems(2) by fastforce
  then show ?case
  proof cases
    case 1
    then show ?thesis by (auto intro: exI [of _ "[]"])
  next
    case 2
    with r tiles_le [OF r(4)] show ?thesis
      by (intro disjI2 exI [of _ "[]"] exI [of _ r] exI [of _ a]) auto
  next
    case 3
    have ext: "tiles a (r # ps) m" if "tiles (rmax r) ps m" for ps m
      using r that by simp
    from Cons.IH [OF r(4) 3 Cons.prems(3)] show ?thesis
    proof (elim disjE exE conjE)
      fix ps
      assume "set ps \<subseteq> set hs" "tiles (rmax r) ps t"
      with ext [of ps t] show ?thesis by (intro disjI1 exI [of _ "r # ps"]) (auto simp del: tiles.simps)
    next
      fix ps q m
      assume "set ps \<subseteq> set hs" "q \<in> set hs" "tiles (rmax r) ps m" "m < t" "rmin q = m + 1" "t < rmax q"
        "rmax q \<le> s"
      with ext [of ps m] show ?thesis by (intro disjI2 exI [of _ "r # ps"] exI [of _ q] exI [of _ m])
          (auto simp del: tiles.simps)
    qed
  qed
qed

lemma tiles_unique_cover:
  assumes "tiles a rs b" "a < s" "s \<le> b"
  shows "\<exists>!i. i < length rs \<and> covers_seq (rs ! i) s"
  using assms
proof (induction rs arbitrary: a)
  case (Cons r rs)
  then have r: "rmin r = a + 1" "rmin r \<le> rmax r" "tiles (rmax r) rs b"
    by auto
  have ge: "rmin r \<le> s"
    using Cons.prems(2) r(1) by (simp add: less_imp_suc_le_word)
  show ?case
  proof (cases "s \<le> rmax r")
    case True
    have "\<not> covers_seq (rs ! i) s" if "i < length rs" for i
      using tiles_min_gt [OF r(3), of "rs ! i"] that True by (auto simp: covers_seq_def)
    then have "i = 0" if "i < length (r # rs)" "covers_seq ((r # rs) ! i) s" for i
      using that by (cases i) auto
    moreover have "covers_seq ((r # rs) ! 0) s"
      using True ge by (simp add: covers_seq_def)
    ultimately show ?thesis by (intro ex1I [of _ 0]) auto
  next
    case False
    with Cons.IH [OF r(3)] Cons.prems(3) obtain i where
      i: "i < length rs" "covers_seq (rs ! i) s" "\<And>j. j < length rs \<Longrightarrow> covers_seq (rs ! j) s \<Longrightarrow> j = i"
      by (metis not_le)
    have "j = Suc i" if "j < length (r # rs)" "covers_seq ((r # rs) ! j) s" for j
      using that False i(3) by (cases j) (auto simp: covers_seq_def)
    with i(1,2) show ?thesis by (intro ex1I [of _ "Suc i"]) auto
  qed
qed simp

text \<open>
  Claim C7: on well-formed candidates the planner terminates, and a plan it returns applies only
  listed objects, begins right after the snapshot, ends exactly at the target, and covers every
  sequence number in between by exactly one object: no gap and no double apply, whatever
  overlapping leftovers the bucket holds.
\<close>

theorem plan_restore_exact_cover:
  assumes "\<forall>r\<in>set (ranges_of cands). wf_range r" and "floor \<le> tgt"
  shows "\<exists>res. plan_restore cands floor tgt = Some res \<and>
    (\<forall>plan. res = Inr plan \<longrightarrow>
       pl_floor plan = floor \<and> pl_target plan = tgt \<and> set (pl_files plan) \<subseteq> set cands \<and>
       tiles floor (ranges_of (pl_files plan)) tgt \<and>
       (\<forall>s. floor < s \<longrightarrow> s \<le> tgt \<longrightarrow>
          (\<exists>!i. i < length (pl_files plan) \<and> covers_seq (pc_range (pl_files plan ! i)) s)))"
proof -
  obtain res gs e where
    run: "plan_loop cands tgt floor [] = Some res" "set gs \<subseteq> set cands" "tiles floor (ranges_of gs) e"
      "e \<le> tgt" "stopped cands tgt e gs res" "laminar (set (ranges_of cands)) \<longrightarrow> furthest cands floor tgt e"
    by (rule plan_restore_spec [OF assms])
  from run(5) consider "e = tgt" "res = Inr gs" | err where "res = Inl err"
    unfolding stopped_def by blast
  then show ?thesis
  proof cases
    case 1
    have "\<exists>!i. i < length gs \<and> covers_seq (pc_range (gs ! i)) s" if "floor < s" "s \<le> tgt" for s
      using tiles_unique_cover [OF run(3), of s] that 1(1)
      by (metis (no_types, lifting) length_map nth_map)
    with run(1-3) 1 show ?thesis
      unfolding plan_restore_def by simp
  next
    case 2
    with run(1) show ?thesis
      unfolding plan_restore_def by simp
  qed
qed

theorem plan_restore_exact_cover_witness:
  "\<exists>res. plan_restore
      [\<lparr>pc_key = ''L1'', pc_level = 1, pc_range = \<lparr>rmin = 4, rmax = 6\<rparr>\<rparr>,
       \<lparr>pc_key = ''a'', pc_level = 0, pc_range = point 4\<rparr>,
       \<lparr>pc_key = ''b'', pc_level = 0, pc_range = point 7\<rparr>] 3 7 = Some res"
proof -
  let ?c = "[\<lparr>pc_key = ''L1'', pc_level = 1, pc_range = \<lparr>rmin = 4, rmax = 6\<rparr>\<rparr>,
       \<lparr>pc_key = ''a'', pc_level = 0, pc_range = point 4\<rparr>,
       \<lparr>pc_key = ''b'', pc_level = 0, pc_range = point 7\<rparr>]"
  have "\<forall>r\<in>set (ranges_of ?c). wf_range r" "(3::u64) \<le> 7"
    by (simp_all add: wf_range_def point_def)
  from plan_restore_exact_cover [OF this] show ?thesis by blast
qed

text \<open>
  Claim C8: on a bucket whose ranges nest (which is what merging contiguous runs produces) the
  greedy choice loses nothing: whenever some selection of listed objects continues the chain
  from the snapshot to the target, the planner returns a plan.
\<close>

theorem plan_restore_complete:
  assumes "\<forall>r\<in>set (ranges_of cands). wf_range r" and "laminar (set (ranges_of cands))"
    and "set hs \<subseteq> set (ranges_of cands)" and "tiles floor hs tgt"
  shows "\<exists>plan. plan_restore cands floor tgt = Some (Inr plan) \<and> tiles floor (ranges_of (pl_files plan)) tgt"
proof -
  obtain res gs e where
    run: "plan_loop cands tgt floor [] = Some res" "set gs \<subseteq> set cands" "tiles floor (ranges_of gs) e"
      "e \<le> tgt" "stopped cands tgt e gs res"
    and far: "laminar (set (ranges_of cands)) \<longrightarrow> furthest cands floor tgt e"
    by (rule plan_restore_spec [OF assms(1) tiles_le [OF assms(4)]])
  have "tgt \<le> e"
    using far assms(2-4) unfolding furthest_def by blast
  with run show ?thesis
    by (auto simp: plan_restore_def stopped_def)
qed

theorem plan_restore_complete_witness:
  "\<exists>plan. plan_restore
      [\<lparr>pc_key = ''L1'', pc_level = 1, pc_range = \<lparr>rmin = 4, rmax = 5\<rparr>\<rparr>,
       \<lparr>pc_key = ''b'', pc_level = 0, pc_range = point 6\<rparr>] 3 6 = Some (Inr plan)"
proof -
  let ?c = "[\<lparr>pc_key = ''L1'', pc_level = 1, pc_range = \<lparr>rmin = 4, rmax = 5\<rparr>\<rparr>,
       \<lparr>pc_key = ''b'', pc_level = 0, pc_range = point 6\<rparr>]"
  have "\<forall>r\<in>set (ranges_of ?c). wf_range r" "laminar (set (ranges_of ?c))"
    "set [\<lparr>rmin = 4, rmax = 5\<rparr>, point 6] \<subseteq> set (ranges_of ?c)"
    "tiles 3 [\<lparr>rmin = 4, rmax = 5\<rparr>, point 6] 6"
    by (simp_all add: wf_range_def point_def laminar_def)
  from plan_restore_complete [OF this] show ?thesis by blast
qed

text \<open>The object that contains the target strictly, read off a tiling that passes it.\<close>

lemma laminar_window:
  assumes R: "R = set (ranges_of cands)" and lam: "laminar R" and w: "w \<in> R" "rmin w = e + 1" "e < tgt" "tgt < rmax w"
    and least: "\<forall>r\<in>R. rmin r = e + 1 \<longrightarrow> rmax w \<le> rmax r"
    and far: "furthest cands floor tgt e"
    and hs: "set hs \<subseteq> R" "tiles floor hs s" "floor \<le> tgt" "tgt \<le> s"
  shows "rmax w \<le> s"
proof -
  have "\<not> (\<exists>ps. set ps \<subseteq> set hs \<and> tiles floor ps tgt)"
    using far hs(1) w(3) unfolding furthest_def R by (meson not_le order_refl subset_trans)
  with tiles_crossing [OF hs(2,3,4)] obtain ps r m where
    r: "set ps \<subseteq> set hs" "r \<in> set hs" "tiles floor ps m" "m < tgt" "rmin r = m + 1" "tgt < rmax r"
      "rmax r \<le> s" by blast
  have "m \<le> e"
    using far r(1,3,4) hs(1) unfolding furthest_def R by (meson less_imp_le subset_trans)
  have "rmax w \<le> rmax r"
  proof (cases "m = e")
    case True
    with least r(2,5) hs(1) show ?thesis by auto
  next
    case False
    with \<open>m \<le> e\<close> have "rmin r < rmin w"
      using w(2) r(5) unat_suc_le [OF w(3)] unat_suc_le [OF r(4)]
      by (simp add: word_less_nat_alt word_le_nat_alt word_unat_eq_iff)
    moreover have "rmin w \<le> rmax r" "rmin r \<le> rmax w"
      using r(4,5,6) w(2,3,4) less_imp_suc_le_word [of e tgt] less_imp_suc_le_word [of m tgt]
      by (auto intro: order_trans less_imp_le)
    ultimately show ?thesis
      using lam w(1) r(2) hs(1) unfolding laminar_def by fastforce
  qed
  with r(7) show ?thesis by simp
qed

text \<open>
  A point-in-time target inside a merged window is refused, and on a nested bucket the
  two sequence numbers the error names are the nearest restorable points: the lower one is
  reachable, every reachable point up to the target is at or below it, the upper one is
  reachable, and every reachable point from the target on is at or above it.
\<close>

theorem pitr_error_names_neighbours:
  assumes "\<forall>r\<in>set (ranges_of cands). wf_range r" and "laminar (set (ranges_of cands))"
    and "floor \<le> tgt"
    and "plan_restore cands floor tgt = Some (Inl (PitrInsideMergedWindow t wmin wmax lo hi))"
  shows "t = tgt \<and> wmin \<le> tgt \<and> tgt < wmax \<and> lo < tgt \<and>
    (\<exists>hs. set hs \<subseteq> set (ranges_of cands) \<and> tiles floor hs lo) \<and>
    (\<exists>hs. set hs \<subseteq> set (ranges_of cands) \<and> tiles floor hs hi) \<and>
    (\<forall>hs s. set hs \<subseteq> set (ranges_of cands) \<longrightarrow> tiles floor hs s \<longrightarrow> (s \<le> tgt \<longrightarrow> s \<le> lo) \<and> (tgt \<le> s \<longrightarrow> hi \<le> s))"
proof -
  let ?R = "set (ranges_of cands)"
  obtain res gs e where
    run: "plan_loop cands tgt floor [] = Some res" "set gs \<subseteq> set cands" "tiles floor (ranges_of gs) e"
      "e \<le> tgt" "stopped cands tgt e gs res"
    and "laminar ?R \<longrightarrow> furthest cands floor tgt e"
    by (rule plan_restore_spec [OF assms(1,3)])
  with assms(2) have far: "furthest cands floor tgt e" by blast
  from run(1) assms(4) have "res = Inl (PitrInsideMergedWindow t wmin wmax lo hi)"
    by (cases res) (auto simp: plan_restore_def)
  with run(5) obtain w where w: "w \<in> ?R" "rmin w = e + 1" "tgt < rmax w" "e < tgt"
    and least: "\<forall>r\<in>?R. rmin r = e + 1 \<longrightarrow> rmax w \<le> rmax r"
    and eqs: "t = tgt" "wmin = rmin w" "wmax = rmax w" "lo = e" "hi = rmax w"
    by (auto simp: stopped_def)
  note window = laminar_window [OF refl assms(2) w(1,2,4,3) least far]
  have step: "e < e + 1" "e + 1 \<le> tgt"
    using w(4) by (rule le_imp_less_suc_word, intro less_imp_suc_le_word w(4))
  have lo: "set (ranges_of gs) \<subseteq> ?R" "tiles floor (ranges_of gs) e"
    using run(2,3) by auto
  have hi: "set (ranges_of gs @ [w]) \<subseteq> ?R" "tiles floor (ranges_of gs @ [w]) (rmax w)"
    using lo w step by (auto simp: tiles_append intro: less_imp_le less_le_trans)
  have near: "\<forall>hs s. set hs \<subseteq> ?R \<longrightarrow> tiles floor hs s \<longrightarrow> (s \<le> tgt \<longrightarrow> s \<le> e) \<and> (tgt \<le> s \<longrightarrow> rmax w \<le> s)"
    using far window [OF _ _ assms(3)] unfolding furthest_def by blast
  have ends: "\<exists>hs. set hs \<subseteq> ?R \<and> tiles floor hs e" "\<exists>hs. set hs \<subseteq> ?R \<and> tiles floor hs (rmax w)"
    using lo hi by blast+
  show ?thesis
    unfolding eqs w(2) by (intro conjI refl near ends w(3,4) step(2))
qed

theorem pitr_error_names_neighbours_witness:
  "plan_restore [\<lparr>pc_key = ''L1'', pc_level = 1, pc_range = \<lparr>rmin = 4, rmax = 9\<rparr>\<rparr>] 3 6 =
     Some (Inl (PitrInsideMergedWindow 6 4 9 3 9)) \<and> (4::u64) \<le> 6 \<and> (6::u64) < 9"
proof -
  let ?c = "[\<lparr>pc_key = ''L1'', pc_level = 1, pc_range = \<lparr>rmin = 4, rmax = 9\<rparr>\<rparr>]"
  have run: "plan_restore ?c 3 6 = Some (Inl (PitrInsideMergedWindow 6 4 9 3 9))"
    by (simp add: plan_restore_def plan_loop.simps best_within_def overshoot_def)
  have "\<forall>r\<in>set (ranges_of ?c). wf_range r" "laminar (set (ranges_of ?c))" "(3::u64) \<le> 6"
    by (simp_all add: wf_range_def laminar_def)
  from pitr_error_names_neighbours [OF this run] run show ?thesis by blast
qed

text \<open>
  A chain gap is only turned into a snapshot-span error when a later snapshot really
  absorbs the target, the upper neighbour it then names is the lowest such snapshot, and the
  lower neighbour is the gap's; every other error is passed on unchanged.
\<close>

theorem refine_gap_cases:
  "refine_gap_with_snapshot_spans err ss tgt =
     (if (\<exists>n b. err = ChainGap n b) \<and> (\<exists>s\<in>set ss. tgt \<le> s)
      then (case err of ChainGap n b \<Rightarrow> PitrInsideSnapshotSpan tgt b (Min {s \<in> set ss. tgt \<le> s}))
      else err)"
proof (cases err)
  case (ChainGap n b)
  show ?thesis
  proof (cases "min_by_key id (filter (\<lambda>s. tgt \<le> s) ss)")
    case None
    with ChainGap show ?thesis
      by (auto simp: refine_gap_with_snapshot_spans_def filter_empty_conv)
  next
    case (Some m)
    from min_by_key_Some [OF Some] have "m \<in> {s \<in> set ss. tgt \<le> s}" "\<forall>x\<in>{s \<in> set ss. tgt \<le> s}. m \<le> x"
      by auto
    then have "Min {s \<in> set ss. tgt \<le> s} = m"
      by (intro Min_eqI) auto
    with ChainGap Some \<open>m \<in> _\<close> show ?thesis
      by (auto simp: refine_gap_with_snapshot_spans_def)
  qed
qed (simp_all add: refine_gap_with_snapshot_spans_def)

end
