(* ===== verification/Levels.thy ===== *)
theory Levels
  imports Planner
begin

text \<open>
  The pure decision logic of leveled compaction: range coverage
  (\<^verbatim>\<open>compaction/coverage.rs\<close>), the prune watermark (\<^verbatim>\<open>compaction/prune.rs\<close>), the count
  triggers and the fine-grain window (\<^verbatim>\<open>compaction/trigger.rs\<close>), and the batch selection and
  overlap tests of the engine (\<^verbatim>\<open>compaction/engine.rs\<close>).  Signed 64-bit times are integers
  with the wrap-around written out (\<open>to_i64\<close>).
\<close>

section \<open>Files of a level\<close>

record layout_file =
  lf_key :: string
  lf_level :: level
  lf_range :: seq_range
  lf_last_modified_ms :: int

section \<open>Coverage\<close>

fun cover_sweep :: "u64 \<Rightarrow> u64 \<Rightarrow> u64 option \<Rightarrow> seq_range list \<Rightarrow> bool" where
  "cover_sweep lo hi frontier [] = (case frontier of None \<Rightarrow> False | Some f \<Rightarrow> hi \<le> f)"
| "cover_sweep lo hi None (r # rs) =
     (if rmin r \<le> lo
      then (let f = max (rmax r) lo in if hi \<le> f then True else cover_sweep lo hi (Some f) rs)
      else cover_sweep lo hi None rs)"
| "cover_sweep lo hi (Some f) (r # rs) =
     (if rmin r \<le> f + 1
      then (let f' = max f (rmax r) in if hi \<le> f' then True else cover_sweep lo hi (Some f') rs)
      else hi \<le> f)"

definition ranges_cover :: "u64 \<Rightarrow> u64 \<Rightarrow> seq_range list \<Rightarrow> bool" where
  "ranges_cover lo hi ranges =
     (if hi < lo then True
      else cover_sweep lo hi None
        (sort_key (\<lambda>r. (rmin r, rmax r)) (filter (\<lambda>r. lo \<le> rmax r) ranges)))"

lemma sort_key_sorted_min: "sorted (map rmin (sort_key (\<lambda>r. (rmin r, rmax r)) rs))"
proof -
  have "sorted (map (\<lambda>r. (rmin r, rmax r)) (sort_key (\<lambda>r. (rmin r, rmax r)) rs))"
    by simp
  then have "sorted (map fst (map (\<lambda>r. (rmin r, rmax r)) (sort_key (\<lambda>r. (rmin r, rmax r)) rs)))"
    by (rule sorted_map_mono) (auto simp: mono_on_def less_eq_prod_def)
  then show ?thesis by (simp add: comp_def)
qed

lemma cover_beyond:
  fixes g :: "'a::linorder"
  assumes "\<And>s. g < s \<Longrightarrow> A s" "\<And>s. A s \<Longrightarrow> P s \<longleftrightarrow> s \<le> g"
  shows "(\<forall>s. g < s \<and> s \<le> hi \<longrightarrow> Q s) \<longleftrightarrow> (\<forall>s. A s \<and> s \<le> hi \<longrightarrow> P s \<or> Q s)"
  using assms by (meson not_le)

lemma cover_sweep_Some:
  assumes "f < hi" "sorted (map rmin rs)"
  shows "cover_sweep lo hi (Some f) rs \<longleftrightarrow> (\<forall>s. f < s \<and> s \<le> hi \<longrightarrow> (\<exists>r\<in>set rs. covers_seq r s))"
  using assms
proof (induction rs arbitrary: f)
  case Nil
  then show ?case by auto
next
  case (Cons r rs)
  note f = le_imp_less_suc_word [OF Cons.prems(1)] less_imp_suc_le_word [OF Cons.prems(1)]
  have next_le: "f + 1 \<le> s" if "f < s" for s
    using that by (rule less_imp_suc_le_word)
  show ?case
  proof (cases "rmin r \<le> f + 1")
    case True
    let ?f = "max f (rmax r)"
    have r: "covers_seq r s \<longleftrightarrow> s \<le> ?f" if "f < s" for s
      using order_trans [OF True next_le [OF that]] that by (auto simp: covers_seq_def le_max_iff_disj)
    show ?thesis
    proof (cases "hi \<le> ?f")
      case le: True
      then have "\<forall>s. f < s \<and> s \<le> hi \<longrightarrow> covers_seq r s"
        using r by (meson order_trans)
      with True le show ?thesis by auto
    next
      case False
      then have "cover_sweep lo hi (Some ?f) rs \<longleftrightarrow>
          (\<forall>s. ?f < s \<and> s \<le> hi \<longrightarrow> (\<exists>r\<in>set rs. covers_seq r s))"
        using Cons.prems(2) by (intro Cons.IH) (auto simp: not_le)
      moreover have "\<dots> \<longleftrightarrow> (\<forall>s. f < s \<and> s \<le> hi \<longrightarrow> (\<exists>q\<in>set (r # rs). covers_seq q s))"
        using cover_beyond [of ?f "\<lambda>s. f < s" "covers_seq r" hi "\<lambda>s. \<exists>q\<in>set rs. covers_seq q s"] r
        by simp
      ultimately show ?thesis
        using True False by (simp add: Let_def)
    qed
  next
    case False
    then have "\<forall>q\<in>set (r # rs). \<not> covers_seq q (f + 1)"
      using Cons.prems(2) by (auto simp: covers_seq_def)
    with False f Cons.prems(1) show ?thesis by (auto simp: not_le)
  qed
qed

lemma cover_sweep_None:
  assumes "lo \<le> hi" "sorted (map rmin rs)" "\<forall>r\<in>set rs. lo \<le> rmax r"
  shows "cover_sweep lo hi None rs \<longleftrightarrow> (\<forall>s. lo \<le> s \<and> s \<le> hi \<longrightarrow> (\<exists>r\<in>set rs. covers_seq r s))"
  using assms
proof (induction rs)
  case Nil
  then show ?case by auto
next
  case (Cons r rs)
  show ?case
  proof (cases "rmin r \<le> lo")
    case True
    have max: "max (rmax r) lo = rmax r"
      using Cons.prems(3) by (simp add: max_absorb1)
    show ?thesis
    proof (cases "hi \<le> rmax r")
      case le: True
      then have "\<forall>s. lo \<le> s \<and> s \<le> hi \<longrightarrow> covers_seq r s"
        using True by (auto simp: covers_seq_def intro: order_trans)
      with True le max show ?thesis by (auto simp: Let_def)
    next
      case False
      then have "cover_sweep lo hi (Some (rmax r)) rs \<longleftrightarrow>
          (\<forall>s. rmax r < s \<and> s \<le> hi \<longrightarrow> (\<exists>r\<in>set rs. covers_seq r s))"
        using Cons.prems(2) by (intro cover_sweep_Some) auto
      moreover have "\<dots> \<longleftrightarrow> (\<forall>s. lo \<le> s \<and> s \<le> hi \<longrightarrow> (\<exists>q\<in>set (r # rs). covers_seq q s))"
      proof -
        have "lo \<le> rmax r" using Cons.prems(3) by simp
        moreover have "covers_seq r s \<longleftrightarrow> s \<le> rmax r" if "lo \<le> s" for s
          using order_trans [OF True that] by (simp add: covers_seq_def)
        moreover have "lo \<le> s" if "rmax r < s" for s
          using \<open>lo \<le> rmax r\<close> that by simp
        ultimately show ?thesis
          using cover_beyond [of "rmax r" "\<lambda>s. lo \<le> s" "covers_seq r" hi "\<lambda>s. \<exists>q\<in>set rs. covers_seq q s"]
          by simp
      qed
      ultimately show ?thesis
        using True False max by (simp add: Let_def)
    qed
  next
    case False
    then have "\<forall>q\<in>set (r # rs). \<not> covers_seq q lo"
      using Cons.prems(2) by (auto simp: covers_seq_def)
    with False Cons show ?thesis
      by (auto simp: not_le)
  qed
qed

text \<open>
  \<^verbatim>\<open>ranges_cover\<close> decides exactly whether every sequence number of the span lies in
  one of the ranges, for ranges in any order, overlapping or malformed, over the whole 64-bit
  range.
\<close>

theorem ranges_cover_correct:
  "ranges_cover lo hi ranges \<longleftrightarrow> (\<forall>s. lo \<le> s \<and> s \<le> hi \<longrightarrow> (\<exists>r\<in>set ranges. covers_seq r s))"
proof (cases "hi < lo")
  case True
  then show ?thesis
    by (auto simp: ranges_cover_def)
next
  case False
  let ?rs = "sort_key (\<lambda>r. (rmin r, rmax r)) (filter (\<lambda>r. lo \<le> rmax r) ranges)"
  have "ranges_cover lo hi ranges \<longleftrightarrow> (\<forall>s. lo \<le> s \<and> s \<le> hi \<longrightarrow> (\<exists>r\<in>set ?rs. covers_seq r s))"
    unfolding ranges_cover_def using False sort_key_sorted_min
    by (simp only: if_False, intro cover_sweep_None) auto
  also have "\<dots> \<longleftrightarrow> (\<forall>s. lo \<le> s \<and> s \<le> hi \<longrightarrow> (\<exists>r\<in>set ranges. covers_seq r s))"
    by (auto simp: covers_seq_def) (meson order_trans)
  finally show ?thesis .
qed

theorem ranges_cover_correct_witness:
  "ranges_cover 2 5 [\<lparr>rmin = 4, rmax = 7\<rparr>, \<lparr>rmin = 1, rmax = 3\<rparr>] \<and>
   (\<exists>r\<in>set [\<lparr>rmin = 4, rmax = 7\<rparr>, \<lparr>rmin = 1, rmax = 3\<rparr>]. covers_seq r 5)"
proof -
  let ?rs = "[\<lparr>rmin = 4, rmax = 7\<rparr>, \<lparr>rmin = 1, rmax = 3\<rparr>] :: seq_range list"
  have "ranges_cover 2 5 ?rs"
    by (simp add: ranges_cover_def Let_def insort_key.simps)
  moreover have "(2::u64) \<le> 5" "(5::u64) \<le> 5" by simp_all
  ultimately show ?thesis
    using ranges_cover_correct [of 2 5 ?rs] by blast
qed

section \<open>The prune watermark\<close>

text \<open>\<^verbatim>\<open>newest_per_level\<close>, the hash map built by the first loop.\<close>

definition note_newest :: "(level \<rightharpoonup> u64) \<Rightarrow> layout_file \<Rightarrow> (level \<rightharpoonup> u64)" where
  "note_newest m f =
     m(lf_level f \<mapsto> (case m (lf_level f) of Some x \<Rightarrow> max x (rmax (lf_range f)) | None \<Rightarrow> rmax (lf_range f)))"

definition newest_per_level :: "layout_file list \<Rightarrow> (level \<rightharpoonup> u64)" where
  "newest_per_level fs = foldl note_newest (\<lambda>_. None) fs"

definition plan_level_prune :: "layout_file list \<Rightarrow> u64 \<Rightarrow> layout_file list" where
  "plan_level_prune level_files watermark =
     (let newest = newest_per_level level_files in
      filter (\<lambda>f. rmax (lf_range f) < watermark \<and>
                  \<not> (case newest (lf_level f) of Some m \<Rightarrow> rmax (lf_range f) = m | None \<Rightarrow> False))
        level_files)"

section \<open>Triggers\<close>

text \<open>\<^verbatim>\<open>usize\<close> counters are naturals that saturate at \<open>usize_max\<close>; windows are milliseconds.\<close>

definition usize_max :: nat where
  "usize_max = 2 ^ 64 - 1"

definition to_i64 :: "int \<Rightarrow> int" where
  "to_i64 x = (x + 2 ^ 63) mod 2 ^ 64 - 2 ^ 63"

record trigger_config =
  tc_l1_batch :: nat
  tc_l2_batch :: nat
  tc_keep_fine_window :: nat

definition trigger_default :: trigger_config where
  "trigger_default = \<lparr>tc_l1_batch = 60, tc_l2_batch = 24, tc_keep_fine_window = 3600 * 1000\<rparr>"

record compaction_settings =
  cs_enabled :: bool
  cs_keep_fine_window :: nat
  cs_l1_batch :: nat
  cs_l2_batch :: nat

definition compaction_settings_default :: compaction_settings where
  "compaction_settings_default =
     \<lparr>cs_enabled = False, cs_keep_fine_window = tc_keep_fine_window trigger_default,
      cs_l1_batch = tc_l1_batch trigger_default, cs_l2_batch = tc_l2_batch trigger_default\<rparr>"

definition settings_trigger_config :: "compaction_settings \<Rightarrow> trigger_config" where
  "settings_trigger_config s =
     \<lparr>tc_l1_batch = cs_l1_batch s, tc_l2_batch = cs_l2_batch s,
      tc_keep_fine_window = cs_keep_fine_window s\<rparr>"

record compaction_triggers =
  ct_config :: trigger_config
  ct_l0_pending :: nat
  ct_l1_pending :: nat

definition triggers_seeded :: "trigger_config \<Rightarrow> nat \<Rightarrow> nat \<Rightarrow> compaction_triggers" where
  "triggers_seeded config l0_files l1_files =
     \<lparr>ct_config = config, ct_l0_pending = l0_files, ct_l1_pending = l1_files\<rparr>"

definition saturating_add :: "nat \<Rightarrow> nat \<Rightarrow> nat" where
  "saturating_add a b = min usize_max (a + b)"

definition on_l0_written :: "compaction_triggers \<Rightarrow> compaction_triggers" where
  "on_l0_written t = t\<lparr>ct_l0_pending := saturating_add (ct_l0_pending t) 1\<rparr>"

definition should_compact_l0_to_l1 :: "compaction_triggers \<Rightarrow> bool" where
  "should_compact_l0_to_l1 t \<longleftrightarrow> tc_l1_batch (ct_config t) \<le> ct_l0_pending t"

definition should_compact_l1_to_l2 :: "compaction_triggers \<Rightarrow> bool" where
  "should_compact_l1_to_l2 t \<longleftrightarrow> tc_l2_batch (ct_config t) \<le> ct_l1_pending t"

definition on_l0_to_l1_merged :: "nat \<Rightarrow> compaction_triggers \<Rightarrow> compaction_triggers" where
  "on_l0_to_l1_merged merged t =
     t\<lparr>ct_l0_pending := ct_l0_pending t - merged, ct_l1_pending := saturating_add (ct_l1_pending t) 1\<rparr>"

definition on_l1_to_l2_merged :: "nat \<Rightarrow> compaction_triggers \<Rightarrow> compaction_triggers" where
  "on_l1_to_l2_merged merged t = t\<lparr>ct_l1_pending := ct_l1_pending t - merged\<rparr>"

fun eligible_count :: "int \<Rightarrow> int list \<Rightarrow> nat \<Rightarrow> nat" where
  "eligible_count cutoff [] n = n"
| "eligible_count cutoff (ts # tss) n = (if ts \<le> cutoff then eligible_count cutoff tss (n + 1) else n)"

definition eligible_prefix_len :: "int list \<Rightarrow> int \<Rightarrow> nat \<Rightarrow> nat" where
  "eligible_prefix_len last_modified_ms now_ms window_ms =
     eligible_count (to_i64 (now_ms - to_i64 (int window_ms))) last_modified_ms 0"

section \<open>Batch selection\<close>

text \<open>The inner loop of \<^verbatim>\<open>contiguous_batch\<close>: the last index of the run that starts at \<open>i\<close>.\<close>

function run_end :: "seq_range list \<Rightarrow> nat \<Rightarrow> nat \<Rightarrow> nat \<Rightarrow> nat" where
  "run_end ranges batch i j =
     (if j + 1 < length ranges \<and> rmax (ranges ! j) + 1 = rmin (ranges ! (j + 1)) \<and> j - i + 1 < batch
      then run_end ranges batch i (j + 1)
      else j)"
  by pat_completeness auto
termination
  by (relation "measure (\<lambda>(ranges, batch, i, j). length ranges - j)") auto

declare run_end.simps [simp del]

lemma run_end_ge: "j \<le> run_end ranges batch i j"
proof (induction ranges batch i j rule: run_end.induct)
  case (1 ranges batch i j)
  then show ?case
    by (subst run_end.simps) (auto dest: Suc_leD)
qed

function batch_from :: "seq_range list \<Rightarrow> nat \<Rightarrow> nat \<Rightarrow> (nat \<times> nat) option" where
  "batch_from ranges batch i =
     (if i < length ranges
      then (let j = run_end ranges batch i i; run_len = j - i + 1 in
            if 2 \<le> run_len \<or> batch = 1 then Some (i, run_len) else batch_from ranges batch (j + 1))
      else None)"
  by pat_completeness auto
termination
proof (relation "measure (\<lambda>(ranges, batch, i). length ranges - i)")
  fix ranges batch i j run_len
  assume "i < length ranges" "j = run_end ranges batch i i"
  with run_end_ge [of i ranges batch i]
  show "((ranges, batch, j + 1), ranges, batch, i) \<in> measure (\<lambda>(ranges, batch, i). length ranges - i)"
    by auto
qed simp

declare batch_from.simps [simp del]

definition contiguous_batch :: "seq_range list \<Rightarrow> nat \<Rightarrow> (nat \<times> nat) option" where
  "contiguous_batch ranges batch =
     (if batch = 0 \<or> ranges = [] then None else batch_from ranges batch 0)"

definition ranges_overlap :: "seq_range \<Rightarrow> seq_range \<Rightarrow> bool" where
  "ranges_overlap a b \<longleftrightarrow> rmin a \<le> rmax b \<and> rmin b \<le> rmax a"

definition range_subset :: "seq_range \<Rightarrow> seq_range \<Rightarrow> bool" where
  "range_subset a b \<longleftrightarrow> rmin b \<le> rmin a \<and> rmax a \<le> rmax b"

text \<open>\<^verbatim>\<open>windows(2).all(...)\<close> over the sorted files.\<close>

fun windows_contiguous :: "seq_range list \<Rightarrow> bool" where
  "windows_contiguous (a # b # rs) \<longleftrightarrow> rmax a + 1 = rmin b \<and> windows_contiguous (b # rs)"
| "windows_contiguous _ \<longleftrightarrow> True"

text \<open>The caller never passes an empty list (the code's \<^verbatim>\<open>unwrap\<close> would panic).\<close>

definition tiles_exactly :: "layout_file list \<Rightarrow> seq_range \<Rightarrow> bool" where
  "tiles_exactly subs rg =
     (let s = sort_key (\<lambda>f. (rmin (lf_range f), rmax (lf_range f))) subs in
      rmin (lf_range (hd s)) = rmin rg \<and> rmax (lf_range (last s)) = rmax rg \<and>
      windows_contiguous (map lf_range s))"

section \<open>Pruning is safe\<close>

lemma newest_per_level_spec:
  "newest_per_level fs l =
     (if \<exists>f\<in>set fs. lf_level f = l then Some (Max {rmax (lf_range f) | f. f \<in> set fs \<and> lf_level f = l}) else None)"
proof (induction fs rule: rev_induct)
  case Nil
  then show ?case by (simp add: newest_per_level_def)
next
  case (snoc f fs)
  let ?S = "\<lambda>fs. {rmax (lf_range f) | f. f \<in> set fs \<and> lf_level f = l}"
  have step: "newest_per_level (fs @ [f]) = note_newest (newest_per_level fs) f"
    by (simp add: newest_per_level_def)
  show ?case
  proof (cases "lf_level f = l")
    case True
    then have S: "?S (fs @ [f]) = insert (rmax (lf_range f)) (?S fs)"
      by auto
    have fin: "finite (?S fs)"
      by simp
    show ?thesis
    proof (cases "\<exists>f\<in>set fs. lf_level f = l")
      case ex: True
      then have "?S fs \<noteq> {}" by blast
      with fin have "Max (?S (fs @ [f])) = max (rmax (lf_range f)) (Max (?S fs))"
        unfolding S by (rule Max_insert)
      with ex True snoc step show ?thesis
        by (simp add: note_newest_def max.commute)
    next
      case False
      then have "?S fs = {}" by blast
      with S have "Max (?S (fs @ [f])) = rmax (lf_range f)" by simp
      with False True snoc step show ?thesis
        by (simp add: note_newest_def)
    qed
  next
    case False
    then have "?S (fs @ [f]) = ?S fs" by auto
    with False snoc step show ?thesis
      by (simp add: note_newest_def)
  qed
qed

lemma pruned_iff:
  "f \<in> set (plan_level_prune fs w) \<longleftrightarrow>
     f \<in> set fs \<and> rmax (lf_range f) < w \<and> (\<exists>g\<in>set fs. lf_level g = lf_level f \<and> rmax (lf_range f) < rmax (lf_range g))"
proof -
  let ?S = "{rmax (lf_range g) | g. g \<in> set fs \<and> lf_level g = lf_level f}"
  have fin: "finite ?S" by simp
  have "rmax (lf_range f) \<noteq> Max ?S \<longleftrightarrow> (\<exists>g\<in>set fs. lf_level g = lf_level f \<and> rmax (lf_range f) < rmax (lf_range g))"
    if "f \<in> set fs"
  proof -
    have ne: "?S \<noteq> {}" and mem: "rmax (lf_range f) \<in> ?S" using that by blast+
    have "rmax (lf_range f) \<noteq> Max ?S \<longleftrightarrow> rmax (lf_range f) < Max ?S"
      using Max_ge [OF fin mem] by auto
    also have "\<dots> \<longleftrightarrow> (\<exists>x\<in>?S. rmax (lf_range f) < x)"
      by (rule Max_gr_iff [OF fin ne])
    finally show ?thesis by auto
  qed
  then show ?thesis
    by (auto simp: plan_level_prune_def Let_def newest_per_level_spec split: if_splits)
qed

text \<open>The planner only ever looks at candidates that begin above its floor.\<close>

lemma plan_loop_cong:
  assumes "\<forall>r\<in>set (ranges_of bs). wf_range r"
    and "\<forall>need. cursor < need \<longrightarrow> filter (\<lambda>c. rmin (pc_range c) = need) as = filter (\<lambda>c. rmin (pc_range c) = need) bs"
  shows "plan_loop as tgt cursor files = plan_loop bs tgt cursor files"
  using assms(2)
proof (induction "unat tgt - unat cursor" arbitrary: cursor files rule: less_induct)
  case less
  show ?case
  proof (cases "cursor < tgt")
    case False
    then show ?thesis by (subst (1 2) plan_loop.simps) simp
  next
    case True
    note lt = le_imp_less_suc_word [OF True]
    have split: "filter (\<lambda>c. rmin (pc_range c) = cursor + 1 \<and> P c) as = filter (\<lambda>c. rmin (pc_range c) = cursor + 1 \<and> P c) bs"
      for P
    proof -
      have "filter P (filter (\<lambda>c. rmin (pc_range c) = cursor + 1) as) = filter P (filter (\<lambda>c. rmin (pc_range c) = cursor + 1) bs)"
        using less.prems lt by simp
      then show ?thesis by (simp add: conj_commute)
    qed
    have f: "best_within as (cursor + 1) tgt = best_within bs (cursor + 1) tgt"
        "overshoot as (cursor + 1) tgt = overshoot bs (cursor + 1) tgt"
      unfolding best_within_def overshoot_def by (simp_all only: split)
    show ?thesis
    proof (cases "best_within bs (cursor + 1) tgt")
      case None
      with f show ?thesis by (subst (1 2) plan_loop.simps) simp
    next
      case (Some pick)
      then have p: "pick \<in> set bs" "rmin (pc_range pick) = cursor + 1" "rmax (pc_range pick) \<le> tgt"
        unfolding best_within_def by (auto dest: max_by_key_Some)
      have up: "cursor < rmax (pc_range pick)"
        using p(1,2) assms(1) lt by (auto simp: wf_range_def)
      have "plan_loop as tgt (rmax (pc_range pick)) (files @ [pick]) =
          plan_loop bs tgt (rmax (pc_range pick)) (files @ [pick])"
        using up p(3) True less.prems
        by (intro less.hyps) (auto simp: word_less_nat_alt word_le_nat_alt)
      with Some f True show ?thesis by (subst (1 2) plan_loop.simps) simp
    qed
  qed
qed

definition file_candidate :: "layout_file \<Rightarrow> plan_candidate" where
  "file_candidate f = \<lparr>pc_key = lf_key f, pc_level = lf_level f, pc_range = lf_range f\<rparr>"

text \<open>
  Claim C40: deleting what \<^verbatim>\<open>plan_level_prune\<close> selects never changes a restore that starts at or
  above the watermark: the planner returns the same plan or the same error on the pruned bucket,
  for every retained snapshot and every target, whatever else the bucket holds.
\<close>

theorem plan_level_prune_safe:
  assumes "\<forall>f\<in>set files. wf_range (lf_range f)" and "\<forall>r\<in>set (ranges_of others). wf_range r"
    and "watermark \<le> floor"
  shows "plan_restore (others @ map file_candidate (filter (\<lambda>f. f \<notin> set (plan_level_prune files watermark)) files)) floor tgt =
    plan_restore (others @ map file_candidate files) floor tgt"
proof -
  let ?gone = "\<lambda>f. f \<in> set (plan_level_prune files watermark)"
  have low: "\<not> ?gone f" if "f \<in> set files" "rmin (lf_range f) = need" "floor < need" for f need
    using that assms by (force simp: pruned_iff wf_range_def)
  have "filter (\<lambda>c. rmin (pc_range c) = need) (map file_candidate (filter (\<lambda>f. \<not> ?gone f) files)) =
      filter (\<lambda>c. rmin (pc_range c) = need) (map file_candidate files)" if "floor < need" for need
    using low that by (simp add: filter_map comp_def file_candidate_def) (intro arg_cong [where f = "map _"] filter_cong, auto)
  then have "plan_loop (others @ map file_candidate (filter (\<lambda>f. \<not> ?gone f) files)) tgt floor [] =
      plan_loop (others @ map file_candidate files) tgt floor []"
    using assms(1,2) by (intro plan_loop_cong) (auto simp: file_candidate_def)
  then show ?thesis
    by (simp add: plan_restore_def)
qed

theorem plan_level_prune_safe_witness:
  "let files = [\<lparr>lf_key = ''a'', lf_level = 1, lf_range = \<lparr>rmin = 1, rmax = 4\<rparr>, lf_last_modified_ms = 0\<rparr>,
      \<lparr>lf_key = ''b'', lf_level = 1, lf_range = \<lparr>rmin = 5, rmax = 9\<rparr>, lf_last_modified_ms = 0\<rparr>] in
   map lf_key (plan_level_prune files 5) = [''a''] \<and>
   plan_restore (map file_candidate (filter (\<lambda>f. f \<notin> set (plan_level_prune files 5)) files)) 5 9 =
   plan_restore (map file_candidate files) 5 9"
proof -
  let ?files = "[\<lparr>lf_key = ''a'', lf_level = 1, lf_range = \<lparr>rmin = 1, rmax = 4\<rparr>, lf_last_modified_ms = 0\<rparr>,
      \<lparr>lf_key = ''b'', lf_level = 1, lf_range = \<lparr>rmin = 5, rmax = 9\<rparr>, lf_last_modified_ms = 0\<rparr>]"
  have pr: "map lf_key (plan_level_prune ?files 5) = [''a'']"
    by (simp add: plan_level_prune_def newest_per_level_def note_newest_def Let_def)
  have "\<forall>f\<in>set ?files. wf_range (lf_range f)" "\<forall>r\<in>set (ranges_of []). wf_range r" "(5::u64) \<le> 5"
    by (simp_all add: wf_range_def)
  from plan_level_prune_safe [OF this, of 9] pr show ?thesis
    unfolding Let_def by simp
qed

text \<open>
  Pruning keeps the newest object of every populated level, deletes nothing that reaches
  the watermark (in particular nothing that straddles it), and deletes every other object below it.
\<close>

theorem plan_level_prune_exact:
  "f \<in> set (plan_level_prune files watermark) \<longleftrightarrow>
     f \<in> set files \<and> rmax (lf_range f) < watermark \<and>
     (\<exists>g\<in>set files. lf_level g = lf_level f \<and> rmax (lf_range f) < rmax (lf_range g) \<and> g \<notin> set (plan_level_prune files watermark))"
proof -
  let ?up = "\<lambda>f g. g \<in> set files \<and> lf_level g = lf_level f \<and> rmax (lf_range f) < rmax (lf_range g)"
  have "\<exists>g. ?up f g \<and> g \<notin> set (plan_level_prune files watermark)" if "?up f h" for h
  proof -
    let ?S = "{g. ?up f g}"
    have fin: "finite ?S" by (rule finite_subset [of _ "set files"]) auto
    have "?S \<noteq> {}" using that by blast
    then obtain g where g: "g \<in> ?S" "\<forall>x\<in>?S. rmax (lf_range x) \<le> rmax (lf_range g)"
      using ex_greatest [OF fin, of "\<lambda>g. rmax (lf_range g)"] by meson
    have "g \<notin> set (plan_level_prune files watermark)"
    proof
      assume "g \<in> set (plan_level_prune files watermark)"
      then obtain x where "x \<in> set files" "lf_level x = lf_level g" "rmax (lf_range g) < rmax (lf_range x)"
        by (auto simp: pruned_iff)
      with g have "x \<in> ?S" by auto
      with g(2) \<open>rmax (lf_range g) < _\<close> show False by (meson not_le)
    qed
    with g show ?thesis by blast
  qed
  then show ?thesis
    by (subst pruned_iff) blast
qed



section \<open>Batch selection is sound and live\<close>

definition linked :: "seq_range list \<Rightarrow> nat \<Rightarrow> bool" where
  "linked rs k \<longleftrightarrow> rmax (rs ! k) + 1 = rmin (rs ! (k + 1))"

lemma run_end_spec:
  assumes "i \<le> j" "j < length rs" "j - i + 1 \<le> batch" "\<forall>k. i \<le> k \<and> k < j \<longrightarrow> linked rs k"
  shows "let e = run_end rs batch i j in j \<le> e \<and> e < length rs \<and> e - i + 1 \<le> batch \<and>
    (\<forall>k. i \<le> k \<and> k < e \<longrightarrow> linked rs k) \<and>
    (e + 1 < length rs \<longrightarrow> linked rs e \<longrightarrow> e - i + 1 = batch)"
  using assms
proof (induction rs batch i j rule: run_end.induct)
  case (1 rs batch i j)
  show ?case
  proof (cases "j + 1 < length rs \<and> rmax (rs ! j) + 1 = rmin (rs ! (j + 1)) \<and> j - i + 1 < batch")
    case True
    have "let e = run_end rs batch i (j + 1) in j + 1 \<le> e \<and> e < length rs \<and> e - i + 1 \<le> batch \<and>
      (\<forall>k. i \<le> k \<and> k < e \<longrightarrow> linked rs k) \<and> (e + 1 < length rs \<longrightarrow> linked rs e \<longrightarrow> e - i + 1 = batch)"
      using "1.prems" True by (intro "1.IH") (auto simp: linked_def less_Suc_eq)
    with True show ?thesis
      by (subst run_end.simps) (simp add: Let_def)
  next
    case False
    with "1.prems" show ?thesis
      by (subst run_end.simps) (auto simp: Let_def linked_def)
  qed
qed

lemma batch_from_spec:
  assumes "1 \<le> batch"
  shows "case batch_from rs batch i of
      None \<Rightarrow> length rs \<le> i \<or> (2 \<le> batch \<and> (\<forall>k. i \<le> k \<and> k + 1 < length rs \<longrightarrow> \<not> linked rs k))
    | Some (s, n) \<Rightarrow> i \<le> s \<and> 1 \<le> n \<and> s + n \<le> length rs \<and> n \<le> batch \<and> (2 \<le> n \<or> batch = 1) \<and>
        (\<forall>k. i \<le> k \<and> k < s \<longrightarrow> \<not> linked rs k) \<and> (\<forall>k. s \<le> k \<and> k + 1 < s + n \<longrightarrow> linked rs k) \<and>
        (s + n < length rs \<longrightarrow> linked rs (s + n - 1) \<longrightarrow> n = batch)"
  using assms
proof (induction rs batch i rule: batch_from.induct)
  case (1 rs batch i)
  show ?case
  proof (cases "i < length rs")
    case False
    then show ?thesis by (subst batch_from.simps) simp
  next
    case True
    define j where "j = run_end rs batch i i"
    have j: "i \<le> j" "j < length rs" "j - i + 1 \<le> batch" "\<forall>k. i \<le> k \<and> k < j \<longrightarrow> linked rs k"
      "j + 1 < length rs \<longrightarrow> linked rs j \<longrightarrow> j - i + 1 = batch"
    proof -
      have none: "\<forall>k. i \<le> k \<and> k < i \<longrightarrow> linked rs k" by auto
      note run_end_spec [OF order_refl True _ none, of batch]
      then show "i \<le> j" "j < length rs" "j - i + 1 \<le> batch" "\<forall>k. i \<le> k \<and> k < j \<longrightarrow> linked rs k"
        "j + 1 < length rs \<longrightarrow> linked rs j \<longrightarrow> j - i + 1 = batch"
        using "1.prems" by (simp_all add: Let_def j_def)
    qed
    show ?thesis
    proof (cases "2 \<le> j - i + 1 \<or> batch = 1")
      case fin: True
      then have "batch_from rs batch i = Some (i, j - i + 1)"
        using True by (subst batch_from.simps) (simp add: Let_def j_def [symmetric])
      with fin j show ?thesis by auto
    next
      case False
      then have ji: "j = i" "2 \<le> batch" using j(1) "1.prems" by auto
      have eq: "batch_from rs batch i = batch_from rs batch (i + 1)"
        using True False ji by (subst batch_from.simps) (simp add: Let_def j_def [symmetric])
      have nl: "i + 1 < length rs \<Longrightarrow> \<not> linked rs i"
        using j(5) ji by auto
      note IH = "1.IH" [OF True j_def refl False "1.prems", unfolded ji(1)]
      have step: "i \<le> k \<longleftrightarrow> k = i \<or> i + 1 \<le> k" for k by auto
      show ?thesis
      proof (cases "batch_from rs batch (i + 1)")
        case None
        with IH have "length rs \<le> i + 1 \<or> (\<forall>k. i + 1 \<le> k \<and> k + 1 < length rs \<longrightarrow> \<not> linked rs k)"
          by simp blast
        then have "\<forall>k. i \<le> k \<and> k + 1 < length rs \<longrightarrow> \<not> linked rs k"
          using nl step by auto
        with None eq ji(2) show ?thesis by simp
      next
        case (Some p)
        obtain s n where p: "p = (s, n)" by (cases p)
        with IH Some have "i + 1 \<le> s" "1 \<le> n" "s + n \<le> length rs" and later: "\<forall>k. i + 1 \<le> k \<and> k < s \<longrightarrow> \<not> linked rs k"
          by simp_all
        then have "\<not> linked rs i" using nl by simp
        with later have "\<forall>k. i \<le> k \<and> k < s \<longrightarrow> \<not> linked rs k"
          using step by metis
        with IH Some p eq show ?thesis by simp
      qed
    qed
  qed
qed

text \<open>
  A batch the engine selects is a run of at least two (for a batch size of one: exactly
  one) listed files that continue each other, of at most the batch size, with every file before it
  a lone straddler, and it only stops short of the batch size at a break; and nothing is selected
  exactly when no two neighbouring files continue each other.
\<close>

theorem contiguous_batch_correct:
  "case contiguous_batch ranges batch of
     None \<Rightarrow> batch = 0 \<or> ranges = [] \<or>
       (2 \<le> batch \<and> (\<forall>k. k + 1 < length ranges \<longrightarrow> rmax (ranges ! k) + 1 \<noteq> rmin (ranges ! (k + 1))))
   | Some (s, n) \<Rightarrow> 1 \<le> n \<and> s + n \<le> length ranges \<and> n \<le> batch \<and> (2 \<le> n \<or> batch = 1) \<and>
       (\<forall>k. k < s \<longrightarrow> rmax (ranges ! k) + 1 \<noteq> rmin (ranges ! (k + 1))) \<and>
       (\<forall>k. s \<le> k \<and> k + 1 < s + n \<longrightarrow> rmax (ranges ! k) + 1 = rmin (ranges ! (k + 1))) \<and>
       (s + n < length ranges \<longrightarrow> rmax (ranges ! (s + n - 1)) + 1 = rmin (ranges ! (s + n)) \<longrightarrow> n = batch)"
proof (cases "batch = 0 \<or> ranges = []")
  case True
  then show ?thesis by (auto simp: contiguous_batch_def)
next
  case False
  then show ?thesis
    using batch_from_spec [of batch ranges 0]
    by (auto simp: contiguous_batch_def linked_def split: option.splits)
qed

theorem contiguous_batch_correct_witness:
  "contiguous_batch [point 1, point 3, point 4] 2 = Some (1, 2) \<and> rmax (point 3) + 1 = rmin (point 4)"
proof -
  have run: "contiguous_batch [point 1, point 3, point 4] 2 = Some (1, 2)"
    by (simp add: contiguous_batch_def batch_from.simps run_end.simps point_def Let_def)
  from contiguous_batch_correct [where ranges = "[point 1, point 3, point 4]" and batch = 2] run
  have "\<forall>k. 1 \<le> k \<and> k + 1 < 3 \<longrightarrow> rmax ([point 1, point 3, point 4] ! k) + 1 = rmin ([point 1, point 3, point 4] ! (k + 1))"
    by simp
  from spec [OF this, of 1] run show ?thesis by simp
qed

lemma eligible_count_takeWhile: "eligible_count c tss n = n + length (takeWhile (\<lambda>t. t \<le> c) tss)"
  by (induction tss arbitrary: n) auto

end
