(* ===== verification/Wal.thy ===== *)
theory Wal
  imports Prelude
begin

text \<open>
  The SQLite WAL reader, \<^verbatim>\<open>crates/walrust-core/src/wal.rs\<close>: the header and frame checksums, the
  unchecked and the checked frame readers, the reset detection after a read, and the commit
  counter.

  The file is read while SQLite may append to it or restart it, so a reader gets \<open>wal_views\<close>: the
  content the file had at each moment the code looks at it (at a header read before open, at open, when frame \<open>i\<close> is read in the
  first and in the second pass, and at the two looks of the stability check).  \<open>stable\<close> is the run
  in which nothing changes the file.  File offsets are naturals.  The frame sequence a reader may
  accept is specified independently by \<open>chain_prefix\<close> and \<open>committed\<close>.
\<close>

section \<open>Data\<close>

record wal_header =
  wh_magic :: u32
  wh_format_version :: u32
  wh_page_size :: u32
  wh_checkpoint_seq :: u32
  wh_salt1 :: u32
  wh_salt2 :: u32
  wh_checksum1 :: u32
  wh_checksum2 :: u32

definition header_salt :: "wal_header \<Rightarrow> u32 \<times> u32" where
  "header_salt h = (wh_salt1 h, wh_salt2 h)"

definition is_different_generation :: "wal_header \<Rightarrow> wal_header \<Rightarrow> bool" where
  "is_different_generation h other \<longleftrightarrow> wh_salt1 h \<noteq> wh_salt1 other \<or> wh_salt2 h \<noteq> wh_salt2 other"

definition WAL_HEADER_SIZE :: nat where "WAL_HEADER_SIZE = 32"
definition FRAME_HEADER_SIZE :: nat where "FRAME_HEADER_SIZE = 24"
definition WAL_MAGIC_LE :: u32 where "WAL_MAGIC_LE = 0x377F0682"
definition WAL_MAGIC_BE :: u32 where "WAL_MAGIC_BE = 0x377F0683"

datatype wal_error =
    NotFound
  | UnexpectedEof
  | InvalidHeaderChecksum
  | InvalidMagic u32
  | ReverifyFailed nat
  | ShrankDuringRead nat nat nat
  | SaltChanged "u32 \<times> u32" "u32 \<times> u32"

type_synonym chain = "u32 \<times> u32"

record parsed_frame =
  pf_page_number :: u32
  pf_db_size :: u32
  pf_data :: bytes

section \<open>Checksums\<close>

definition read_u32 :: "bytes \<Rightarrow> bool \<Rightarrow> u32" where
  "read_u32 b big_endian = (if big_endian then u32_from_be (take 4 b) else u32_from_le (take 4 b))"

function wal_checksum :: "chain \<Rightarrow> bytes \<Rightarrow> bool \<Rightarrow> chain" where
  "wal_checksum seed data big_endian =
     (if 8 \<le> length data
      then (let x0 = read_u32 (slice data 0 4) big_endian;
                x1 = read_u32 (slice data 4 4) big_endian;
                s0 = fst seed + x0 + snd seed;
                s1 = snd seed + x1 + s0
            in wal_checksum (s0, s1) (drop 8 data) big_endian)
      else seed)"
  by pat_completeness auto
termination
  by (relation "measure (\<lambda>(seed, data, be). length data)") auto

declare wal_checksum.simps [simp del]

definition magic_is_big_endian :: "u32 \<Rightarrow> bool" where
  "magic_is_big_endian magic \<longleftrightarrow> magic mod 2 = 1"

definition be32_at :: "bytes \<Rightarrow> nat \<Rightarrow> u32" where
  "be32_at b i = u32_from_be (slice b i 4)"

definition validate_header_checksum :: "bytes \<Rightarrow> bool \<Rightarrow> wal_error + chain" where
  "validate_header_checksum header_bytes big_endian =
     (let stored = (be32_at header_bytes 24, be32_at header_bytes 28) in
      if stored = (0, 0) then Inl InvalidHeaderChecksum
      else if wal_checksum (0, 0) (slice header_bytes 0 24) big_endian = stored then Inr stored
      else Inl InvalidHeaderChecksum)"

definition verify_frame_checksum :: "chain \<Rightarrow> bytes \<Rightarrow> bytes \<Rightarrow> bool \<Rightarrow> chain option" where
  "verify_frame_checksum seed frame_header page_body big_endian =
     (let stored = (be32_at frame_header 16, be32_at frame_header 20);
          running = wal_checksum (wal_checksum seed (slice frame_header 0 8) big_endian) page_body big_endian
      in if running = stored then Some running else None)"

section \<open>Files\<close>

definition read_exact :: "bytes \<Rightarrow> nat \<Rightarrow> nat \<Rightarrow> wal_error + bytes" where
  "read_exact file pos n = (if pos + n \<le> length file then Inr (slice file pos n) else Inl UnexpectedEof)"

definition read_header :: "bytes option \<Rightarrow> wal_error + wal_header option" where
  "read_header file =
     (case file of
        None \<Rightarrow> Inr None
      | Some buf \<Rightarrow>
          if length buf < WAL_HEADER_SIZE then Inr None
          else let magic = be32_at buf 0 in
            if magic \<noteq> 0x377F0682 \<and> magic \<noteq> 0x377F0683 then Inl (InvalidMagic magic)
            else Inr (Some \<lparr>wh_magic = magic, wh_format_version = be32_at buf 4, wh_page_size = be32_at buf 8,
              wh_checkpoint_seq = be32_at buf 12, wh_salt1 = be32_at buf 16, wh_salt2 = be32_at buf 20,
              wh_checksum1 = be32_at buf 24, wh_checksum2 = be32_at buf 28\<rparr>))"

definition get_wal_size :: "bytes option \<Rightarrow> nat" where
  "get_wal_size file = (case file of None \<Rightarrow> 0 | Some b \<Rightarrow> length b)"

definition read_wal :: "bytes option \<Rightarrow> bytes" where
  "read_wal file = (case file of None \<Rightarrow> [] | Some b \<Rightarrow> b)"

record wal_views =
  v_header :: "bytes option"
  v_open :: "bytes option"
  v_pass1 :: "nat \<Rightarrow> bytes"
  v_pass2 :: "nat \<Rightarrow> bytes"
  v_after_size :: "bytes option"
  v_after_header :: "bytes option"

definition stable :: "bytes \<Rightarrow> wal_views" where
  "stable f =
     \<lparr>v_header = Some f, v_open = Some f, v_pass1 = (\<lambda>_. f), v_pass2 = (\<lambda>_. f), v_after_size = Some f, v_after_header = Some f\<rparr>"

definition read_frames_from :: "bytes option \<Rightarrow> u32 \<Rightarrow> nat \<Rightarrow> wal_error + (bytes \<times> nat \<times> nat)" where
  "read_frames_from file page_size start_offset =
     (case file of
        None \<Rightarrow> Inl NotFound
      | Some f \<Rightarrow>
          let file_size = length f;
              frame_size = FRAME_HEADER_SIZE + unat page_size;
              start_pos = (if start_offset = 0 \<or> file_size < start_offset then WAL_HEADER_SIZE else start_offset)
          in if file_size \<le> start_pos then Inr ([], start_pos, 0)
             else let full_frames = (file_size - start_pos) div frame_size in
               if full_frames = 0 then Inr ([], start_pos, 0)
               else rbind (read_exact f start_pos (full_frames * frame_size)) (\<lambda>data.
                 Inr (data, start_pos + full_frames * frame_size, full_frames)))"

definition detect_reset_during_read ::
    "bytes option \<Rightarrow> bytes option \<Rightarrow> nat \<Rightarrow> nat \<Rightarrow> (u32 \<times> u32) option \<Rightarrow> wal_error + unit" where
  "detect_reset_during_read after_size after_header size_before committed_end salt_before =
     (let size_after = get_wal_size after_size in
      if size_after < committed_end then Inl (ShrankDuringRead size_before size_after committed_end)
      else case salt_before of
          None \<Rightarrow> Inr ()
        | Some old \<Rightarrow>
            rbind (read_header after_header) (\<lambda>h.
              case h of
                None \<Rightarrow> Inr ()
              | Some header \<Rightarrow>
                  if header_salt header \<noteq> old then Inl (SaltChanged old (header_salt header)) else Inr ()))"

section \<open>The checked readers\<close>

text \<open>
  \<^verbatim>\<open>header_seed\<close> of both checked readers: the chain seed, the endianness and the salt, when the file
  has a header with a WAL magic.
\<close>

definition header_seed :: "bytes \<Rightarrow> wal_error + (chain \<times> bool \<times> (u32 \<times> u32)) option" where
  "header_seed f =
     (if WAL_HEADER_SIZE \<le> length f then
        (let header_bytes = slice f 0 WAL_HEADER_SIZE; magic = be32_at header_bytes 0 in
         if magic = WAL_MAGIC_BE \<or> magic = WAL_MAGIC_LE then
           (let be = magic_is_big_endian magic in
            rbind (validate_header_checksum header_bytes be) (\<lambda>seed.
              Inr (Some (seed, be, (be32_at header_bytes 16, be32_at header_bytes 20)))))
         else Inr None)
      else Inr None)"

text \<open>The quadruple \<^verbatim>\<open>(running, big_endian, validate, header_salt)\<close>.\<close>

record chain_mode =
  cm_running :: chain
  cm_big_endian :: bool
  cm_validate :: bool
  cm_salt :: "u32 \<times> u32"

definition chain_mode_of :: "(chain \<times> bool \<times> (u32 \<times> u32)) option \<Rightarrow> nat \<Rightarrow> chain option \<Rightarrow> chain_mode" where
  "chain_mode_of hseed start_pos chain_seed =
     (case hseed of
        Some (hdr_seed, be, salt) \<Rightarrow>
          \<lparr>cm_running = (if start_pos = WAL_HEADER_SIZE then hdr_seed else case chain_seed of Some c \<Rightarrow> c | None \<Rightarrow> (0, 0)),
           cm_big_endian = be,
           cm_validate = (start_pos = WAL_HEADER_SIZE \<or> chain_seed \<noteq> None),
           cm_salt = salt\<rparr>
      | None \<Rightarrow> \<lparr>cm_running = (0, 0), cm_big_endian = True, cm_validate = False, cm_salt = (0, 0)\<rparr>)"

text \<open>The chain value before the first frame: \<^verbatim>\<open>seed_chain\<close>, the initial \<^verbatim>\<open>out_chain\<close>.\<close>

definition seed_chain_of :: "(chain \<times> bool \<times> (u32 \<times> u32)) option \<Rightarrow> nat \<Rightarrow> chain option \<Rightarrow> chain option" where
  "seed_chain_of hseed start_pos chain_seed =
     (case hseed of
        Some (hdr_seed, be, salt) \<Rightarrow> if start_pos = WAL_HEADER_SIZE then Some hdr_seed else chain_seed
      | None \<Rightarrow> chain_seed)"

text \<open>Reading the next frame: 24 header bytes, then the page.\<close>

definition read_frame :: "bytes \<Rightarrow> nat \<Rightarrow> nat \<Rightarrow> wal_error + (bytes \<times> bytes)" where
  "read_frame f ps pos =
     rbind (read_exact f pos FRAME_HEADER_SIZE) (\<lambda>h.
     rbind (read_exact f (pos + FRAME_HEADER_SIZE) ps) (\<lambda>d. Inr (h, d)))"

definition frame_salt :: "bytes \<Rightarrow> u32 \<times> u32" where
  "frame_salt h = (be32_at h 8, be32_at h 12)"

text \<open>The check of one frame: \<open>None\<close> is the \<^verbatim>\<open>break\<close> at a stale or torn frame.\<close>

definition check_frame :: "chain_mode \<Rightarrow> chain \<Rightarrow> bytes \<times> bytes \<Rightarrow> chain option" where
  "check_frame m running fr =
     (if cm_validate m then
        if frame_salt (fst fr) \<noteq> cm_salt m then None
        else verify_frame_checksum running (fst fr) (snd fr) (cm_big_endian m)
      else Some running)"

text \<open>First pass of the page-map reader: \<open>n\<close> frames left, next frame index \<open>i\<close>.\<close>

fun scan_headers ::
    "(nat \<Rightarrow> bytes) \<Rightarrow> nat \<Rightarrow> nat \<Rightarrow> chain_mode \<Rightarrow> nat \<Rightarrow> nat \<Rightarrow> chain \<Rightarrow> wal_error + (nat \<times> u32 \<times> u32) list" where
  "scan_headers v ps start m i 0 running = Inr []"
| "scan_headers v ps start m i (Suc n) running =
     rbind (read_frame (v i) ps (start + i * (FRAME_HEADER_SIZE + ps))) (\<lambda>fr.
       case check_frame m running fr of
         None \<Rightarrow> Inr []
       | Some next \<Rightarrow>
           rbind (scan_headers v ps start m (i + 1) n next) (\<lambda>rest.
             Inr ((i + 1, be32_at (fst fr) 0, be32_at (fst fr) 4) # rest)))"

text \<open>Second pass: the committed frames once more, into the page map.\<close>

fun fill_page_map ::
    "(nat \<Rightarrow> bytes) \<Rightarrow> nat \<Rightarrow> nat \<Rightarrow> chain_mode \<Rightarrow> nat \<Rightarrow> (nat \<times> u32 \<times> u32) list \<Rightarrow> chain option \<Rightarrow>
     (u32 \<rightharpoonup> bytes) \<Rightarrow> wal_error + ((u32 \<rightharpoonup> bytes) \<times> chain option)" where
  "fill_page_map v ps start m i [] out pm = Inr (pm, out)"
| "fill_page_map v ps start m i (h # hs) out pm =
     rbind (read_frame (v i) ps (start + i * (FRAME_HEADER_SIZE + ps))) (\<lambda>fr.
     rbind (if cm_validate m then
              (case out of
                 Some seed \<Rightarrow>
                   (case verify_frame_checksum seed (fst fr) (snd fr) (cm_big_endian m) of
                      Some next \<Rightarrow> Inr (Some next)
                    | None \<Rightarrow> Inl (ReverifyFailed (i + 1)))
               | None \<Rightarrow> Inr None)
            else Inr out) (\<lambda>out'.
       fill_page_map v ps start m (i + 1) hs out' (pm(fst (snd h) \<mapsto> snd fr))))"

record page_map_read =
  pm_map :: "u32 \<rightharpoonup> bytes"
  pm_frames :: nat
  pm_offset :: nat
  pm_db_size :: u32
  pm_commits :: nat
  pm_chain :: "chain option"

definition empty_page_map_read :: "nat \<Rightarrow> chain option \<Rightarrow> page_map_read" where
  "empty_page_map_read pos c = \<lparr>pm_map = Map.empty, pm_frames = 0, pm_offset = pos, pm_db_size = 0, pm_commits = 0, pm_chain = c\<rparr>"

definition last_commit :: "(nat \<times> u32 \<times> u32) list \<Rightarrow> (nat \<times> u32 \<times> u32) option" where
  "last_commit hs = find (\<lambda>(_, _, db_size). 0 < db_size) (rev hs)"

definition read_frames_as_page_map_checked ::
    "wal_views \<Rightarrow> u32 \<Rightarrow> nat \<Rightarrow> chain option \<Rightarrow> wal_error + page_map_read" where
  "read_frames_as_page_map_checked v page_size start_offset chain_seed =
     (case v_open v of
        None \<Rightarrow> Inl NotFound
      | Some f \<Rightarrow>
        let ps = unat page_size;
            file_size = length f;
            frame_size = FRAME_HEADER_SIZE + ps;
            start_pos = (if start_offset = 0 then WAL_HEADER_SIZE else start_offset)
        in rbind (header_seed f) (\<lambda>hseed.
          if file_size \<le> start_pos then Inr (empty_page_map_read start_pos chain_seed)
          else let full_frames = (file_size - start_pos) div frame_size in
          if full_frames = 0 then Inr (empty_page_map_read start_pos chain_seed)
          else let m = chain_mode_of hseed start_pos chain_seed in
            rbind (scan_headers (v_pass1 v) ps start_pos m 0 full_frames (cm_running m)) (\<lambda>frame_headers.
              case last_commit frame_headers of
                None \<Rightarrow> Inr (empty_page_map_read start_pos chain_seed)
              | Some (committed_frames, _, final_db_size) \<Rightarrow>
                  let commit_count = length (filter (\<lambda>(_, _, db_size). 0 < db_size) (take committed_frames frame_headers));
                      new_offset = start_pos + committed_frames * frame_size
                  in rbind (fill_page_map (v_pass2 v) ps start_pos m 0 (take committed_frames frame_headers)
                         (seed_chain_of hseed start_pos chain_seed) Map.empty) (\<lambda>(page_map, out_chain).
                     rbind (detect_reset_during_read (v_after_size v) (v_after_header v) file_size new_offset
                         (map_option (\<lambda>(_, _, salt). salt) hseed)) (\<lambda>_.
                       Inr \<lparr>pm_map = page_map, pm_frames = committed_frames, pm_offset = new_offset,
                            pm_db_size = final_db_size, pm_commits = commit_count, pm_chain = out_chain\<rparr>)))))"

definition read_frames_as_page_map :: "wal_views \<Rightarrow> u32 \<Rightarrow> nat \<Rightarrow> wal_error + ((u32 \<rightharpoonup> bytes) \<times> nat \<times> nat \<times> u32 \<times> nat)" where
  "read_frames_as_page_map v page_size start_offset =
     rbind (read_frames_as_page_map_checked v page_size start_offset None) (\<lambda>r.
       Inr (pm_map r, pm_frames r, pm_offset r, pm_db_size r, pm_commits r))"

text \<open>
  The loop of \<^verbatim>\<open>read_frames_as_pages_checked\<close>, with its running commit boundary: the number of
  committed frames, the chain value and the database size there.
\<close>

record commit_mark =
  mk_count :: nat
  mk_chain :: "chain option"
  mk_db_size :: u32

fun scan_pages ::
    "(nat \<Rightarrow> bytes) \<Rightarrow> nat \<Rightarrow> nat \<Rightarrow> chain_mode \<Rightarrow> chain option \<Rightarrow> nat \<Rightarrow> nat \<Rightarrow> chain \<Rightarrow>
     parsed_frame list \<Rightarrow> commit_mark \<Rightarrow> wal_error + (parsed_frame list \<times> commit_mark)" where
  "scan_pages v ps start m seed_chain i 0 running frames mark = Inr (frames, mark)"
| "scan_pages v ps start m seed_chain i (Suc n) running frames mark =
     rbind (read_frame (v i) ps (start + i * (FRAME_HEADER_SIZE + ps))) (\<lambda>fr.
       case check_frame m running fr of
         None \<Rightarrow> Inr (frames, mark)
       | Some next \<Rightarrow>
           let db_size = be32_at (fst fr) 4;
               frames' = frames @ [\<lparr>pf_page_number = be32_at (fst fr) 0, pf_db_size = db_size, pf_data = snd fr\<rparr>];
               mark' = (if 0 < db_size
                        then \<lparr>mk_count = length frames', mk_chain = (if cm_validate m then Some next else seed_chain),
                              mk_db_size = db_size\<rparr>
                        else mark)
           in scan_pages v ps start m seed_chain (i + 1) n next frames' mark')"

record pages_read =
  pr_frames :: "parsed_frame list"
  pr_offset :: nat
  pr_db_size :: u32
  pr_chain :: "chain option"

definition empty_pages_read :: "nat \<Rightarrow> chain option \<Rightarrow> pages_read" where
  "empty_pages_read pos c = \<lparr>pr_frames = [], pr_offset = pos, pr_db_size = 0, pr_chain = c\<rparr>"

definition read_frames_as_pages_checked ::
    "wal_views \<Rightarrow> u32 \<Rightarrow> nat \<Rightarrow> chain option \<Rightarrow> wal_error + pages_read" where
  "read_frames_as_pages_checked v page_size start_offset chain_seed =
     (case v_open v of
        None \<Rightarrow> Inl NotFound
      | Some f \<Rightarrow>
        let ps = unat page_size;
            file_size = length f;
            frame_size = FRAME_HEADER_SIZE + ps;
            start_pos = (if start_offset = 0 then WAL_HEADER_SIZE else start_offset)
        in rbind (header_seed f) (\<lambda>hseed.
          if file_size \<le> start_pos then Inr (empty_pages_read start_pos chain_seed)
          else let full_frames = (file_size - start_pos) div frame_size in
          if full_frames = 0 then Inr (empty_pages_read start_pos chain_seed)
          else let m = chain_mode_of hseed start_pos chain_seed;
                   seed_chain = seed_chain_of hseed start_pos chain_seed
            in rbind (scan_pages (v_pass1 v) ps start_pos m seed_chain 0 full_frames (cm_running m) []
                   \<lparr>mk_count = 0, mk_chain = seed_chain, mk_db_size = 0\<rparr>) (\<lambda>(frames, mark).
              if mk_count mark = 0 then Inr (empty_pages_read start_pos chain_seed)
              else let new_offset = start_pos + mk_count mark * frame_size in
                rbind (detect_reset_during_read (v_after_size v) (v_after_header v) file_size new_offset
                    (map_option (\<lambda>(_, _, salt). salt) hseed)) (\<lambda>_.
                  Inr \<lparr>pr_frames = take (mk_count mark) frames, pr_offset = new_offset,
                       pr_db_size = mk_db_size mark, pr_chain = mk_chain mark\<rparr>))))"

section \<open>The unchecked readers\<close>

definition count_wal_commits :: "wal_views \<Rightarrow> u32 \<Rightarrow> wal_error + nat" where
  "count_wal_commits v page_size =
     (case v_open v of
        None \<Rightarrow> Inr 0
      | Some f \<Rightarrow>
          if length f < WAL_HEADER_SIZE then Inr 0
          else let frame_size = FRAME_HEADER_SIZE + unat page_size;
                   full_frames = (length f - WAL_HEADER_SIZE) div frame_size
            in foldl (\<lambda>acc i. rbind acc (\<lambda>n.
                 rbind (read_exact (v_pass1 v i) (WAL_HEADER_SIZE + i * frame_size) 8) (\<lambda>header_buf.
                   Inr (if 0 < be32_at header_buf 4 then n + 1 else n))))
               (Inr 0) [0..<full_frames])"

fun read_all_pages :: "(nat \<Rightarrow> bytes) \<Rightarrow> nat \<Rightarrow> nat \<Rightarrow> nat \<Rightarrow> nat \<Rightarrow> wal_error + parsed_frame list" where
  "read_all_pages v ps start i 0 = Inr []"
| "read_all_pages v ps start i (Suc n) =
     rbind (read_frame (v i) ps (start + i * (FRAME_HEADER_SIZE + ps))) (\<lambda>fr.
     rbind (read_all_pages v ps start (i + 1) n) (\<lambda>rest.
       Inr (\<lparr>pf_page_number = be32_at (fst fr) 0, pf_db_size = be32_at (fst fr) 4, pf_data = snd fr\<rparr> # rest)))"

definition read_frames_as_pages :: "wal_views \<Rightarrow> u32 \<Rightarrow> nat \<Rightarrow> wal_error + (parsed_frame list \<times> nat \<times> u32)" where
  "read_frames_as_pages v page_size start_offset =
     (case v_open v of
        None \<Rightarrow> Inl NotFound
      | Some f \<Rightarrow>
        let ps = unat page_size;
            file_size = length f;
            frame_size = FRAME_HEADER_SIZE + ps;
            start_pos = (if start_offset = 0 then WAL_HEADER_SIZE else start_offset)
        in if file_size \<le> start_pos then Inr ([], start_pos, 0)
          else let full_frames = (file_size - start_pos) div frame_size in
          if full_frames = 0 then Inr ([], start_pos, 0)
          else rbind (read_all_pages (v_pass1 v) ps start_pos 0 full_frames) (\<lambda>frames.
            let committed_frames = (case rposition (\<lambda>fr. 0 < pf_db_size fr) frames of Some idx \<Rightarrow> idx + 1 | None \<Rightarrow> 0) in
            if committed_frames = 0 then Inr ([], start_pos, 0)
            else let frames' = take committed_frames frames;
                     final_db_size = (case find (\<lambda>fr. 0 < pf_db_size fr) (rev frames') of Some fr \<Rightarrow> pf_db_size fr | None \<Rightarrow> 0)
              in Inr (frames', start_pos + committed_frames * frame_size, final_db_size)))"

record wal_read_result =
  wr_frames :: "parsed_frame list"
  wr_new_offset :: nat
  wr_max_db_size :: u32
  wr_salt :: "u32 \<times> u32"
  wr_truncated_during_read :: bool

text \<open>The loop of \<^verbatim>\<open>read_frames_with_metadata\<close>: an early end of file stops it and sets the flag.\<close>

fun read_pages_until_eof :: "(nat \<Rightarrow> bytes) \<Rightarrow> nat \<Rightarrow> nat \<Rightarrow> nat \<Rightarrow> nat \<Rightarrow> parsed_frame list \<times> bool" where
  "read_pages_until_eof v ps start i 0 = ([], False)"
| "read_pages_until_eof v ps start i (Suc n) =
     (case read_frame (v i) ps (start + i * (FRAME_HEADER_SIZE + ps)) of
        Inl _ \<Rightarrow> ([], True)
      | Inr fr \<Rightarrow>
          (let (rest, truncated) = read_pages_until_eof v ps start (i + 1) n in
           (\<lparr>pf_page_number = be32_at (fst fr) 0, pf_db_size = be32_at (fst fr) 4, pf_data = snd fr\<rparr> # rest, truncated)))"

definition read_frames_with_metadata ::
    "wal_views \<Rightarrow> u32 \<Rightarrow> nat \<Rightarrow> (u32 \<times> u32) option \<Rightarrow> wal_error + wal_read_result" where
  "read_frames_with_metadata v page_size start_offset expected_salt =
     rbind (read_header (v_header v)) (\<lambda>header_opt.
       case header_opt of
         None \<Rightarrow> Inr \<lparr>wr_frames = [], wr_new_offset = start_offset, wr_max_db_size = 0, wr_salt = (0, 0), wr_truncated_during_read = False\<rparr>
       | Some header \<Rightarrow>
         let current_salt = header_salt header;
             empty = (\<lambda>pos. \<lparr>wr_frames = [], wr_new_offset = pos, wr_max_db_size = 0, wr_salt = current_salt, wr_truncated_during_read = False\<rparr>);
             checkpoint_detected = (case expected_salt of Some expected \<Rightarrow> expected \<noteq> current_salt \<and> expected \<noteq> (0, 0) | None \<Rightarrow> False)
         in if checkpoint_detected then Inr (empty 0)
         else (case v_open v of
             None \<Rightarrow> Inl NotFound
           | Some f \<Rightarrow>
             let ps = unat page_size;
                 file_size_before = length f;
                 frame_size = FRAME_HEADER_SIZE + ps;
                 start_pos = (if start_offset = 0 then WAL_HEADER_SIZE else start_offset)
             in if file_size_before \<le> start_pos then Inr (empty start_pos)
             else let full_frames = (file_size_before - start_pos) div frame_size in
             if full_frames = 0 then Inr (empty start_pos)
             else let (frames, truncated) = read_pages_until_eof (v_pass1 v) ps start_pos 0 full_frames;
                      file_size_after = get_wal_size (v_after_size v)
               in Inr \<lparr>wr_frames = frames,
                       wr_new_offset = start_pos + length frames * frame_size,
                       wr_max_db_size = fold (\<lambda>fr m. if m < pf_db_size fr then pf_db_size fr else m) frames 0,
                       wr_salt = current_salt,
                       wr_truncated_during_read = (truncated \<or> file_size_after < file_size_before)\<rparr>))"

section \<open>Specification: raw frames, the valid prefix, the committed prefix\<close>

type_synonym raw_frame = "bytes \<times> bytes"

definition raw_frame_at :: "bytes \<Rightarrow> nat \<Rightarrow> nat \<Rightarrow> nat \<Rightarrow> raw_frame" where
  "raw_frame_at f ps start i =
     (slice f (start + i * (FRAME_HEADER_SIZE + ps)) FRAME_HEADER_SIZE,
      slice f (start + i * (FRAME_HEADER_SIZE + ps) + FRAME_HEADER_SIZE) ps)"

definition frame_count :: "bytes \<Rightarrow> nat \<Rightarrow> nat \<Rightarrow> nat" where
  "frame_count f ps start = (length f - start) div (FRAME_HEADER_SIZE + ps)"

definition raw_frames :: "bytes \<Rightarrow> nat \<Rightarrow> nat \<Rightarrow> raw_frame list" where
  "raw_frames f ps start = map (raw_frame_at f ps start) [0..<frame_count f ps start]"

fun chain_prefix :: "chain_mode \<Rightarrow> chain \<Rightarrow> raw_frame list \<Rightarrow> raw_frame list" where
  "chain_prefix m running [] = []"
| "chain_prefix m running (fr # frs) =
     (case check_frame m running fr of None \<Rightarrow> [] | Some next \<Rightarrow> fr # chain_prefix m next frs)"

fun chain_after :: "chain_mode \<Rightarrow> chain \<Rightarrow> raw_frame list \<Rightarrow> chain" where
  "chain_after m running [] = running"
| "chain_after m running (fr # frs) =
     (case check_frame m running fr of None \<Rightarrow> running | Some next \<Rightarrow> chain_after m next frs)"

definition parse_frame :: "raw_frame \<Rightarrow> parsed_frame" where
  "parse_frame fr = \<lparr>pf_page_number = be32_at (fst fr) 0, pf_db_size = be32_at (fst fr) 4, pf_data = snd fr\<rparr>"

definition is_commit :: "raw_frame \<Rightarrow> bool" where
  "is_commit fr \<longleftrightarrow> 0 < be32_at (fst fr) 4"

text \<open>The frames up to and including the last commit frame.\<close>

fun committed :: "raw_frame list \<Rightarrow> raw_frame list" where
  "committed [] = []"
| "committed (fr # frs) = (if committed frs = [] then (if is_commit fr then [fr] else []) else fr # committed frs)"

definition page_map_of :: "raw_frame list \<Rightarrow> (u32 \<rightharpoonup> bytes)" where
  "page_map_of frs = map_of (rev (map (\<lambda>fr. (be32_at (fst fr) 0, snd fr)) frs))"

lemma committed_Nil_iff: "committed frs = [] \<longleftrightarrow> (\<forall>fr\<in>set frs. \<not> is_commit fr)"
  by (induction frs) auto

lemma last_committed: "committed frs \<noteq> [] \<Longrightarrow> is_commit (last (committed frs))"
  by (induction frs) auto

lemma committed_prefix: "\<exists>rest. frs = committed frs @ rest \<and> (\<forall>fr\<in>set rest. \<not> is_commit fr)"
proof (induction frs)
  case (Cons fr frs)
  then obtain rest where "frs = committed frs @ rest" "\<forall>fr\<in>set rest. \<not> is_commit fr" by blast
  then show ?case
    by (cases "committed frs = []"; cases "is_commit fr") (auto intro: exI [of _ rest])
qed simp

lemma committed_append: "committed (xs @ ys) = (if committed ys = [] then committed xs else xs @ committed ys)"
  by (induction xs) auto

text \<open>A committed prefix can be consumed first, the rest later.\<close>

lemma committed_split: "committed (committed xs @ ys) = committed xs @ committed ys"
proof -
  have "committed (committed xs) = committed xs"
    by (induction xs) auto
  then show ?thesis by (simp add: committed_append)
qed

lemma committed_extend: "committed (xs @ ys) = committed xs @ committed (drop (length (committed xs)) (xs @ ys))"
proof -
  obtain rest where rest: "xs = committed xs @ rest" using committed_prefix by blast
  then have "drop (length (committed xs)) (xs @ ys) = rest @ ys"
    by (metis append_assoc append_eq_conv_conj)
  then show ?thesis
    using committed_split [of xs "rest @ ys"] rest by (metis append_assoc)
qed

section \<open>Stable reads meet the specification\<close>

lemma find_append: "find P (xs @ ys) = (case find P xs of None \<Rightarrow> find P ys | Some x \<Rightarrow> Some x)"
  by (induction xs) auto

lemma frame_in_file:
  assumes "i < frame_count f ps start"
  shows "start + i * (FRAME_HEADER_SIZE + ps) + (FRAME_HEADER_SIZE + ps) \<le> length f"
proof -
  let ?n = "FRAME_HEADER_SIZE + ps"
  have "Suc i * ?n \<le> frame_count f ps start * ?n"
    using assms by (intro mult_le_mono1) simp
  also have "\<dots> \<le> length f - start"
    by (simp add: frame_count_def)
  finally have "Suc i * ?n \<le> length f - start" .
  moreover have "0 < ?n" by (simp add: FRAME_HEADER_SIZE_def)
  then have "0 < Suc i * ?n" by simp
  ultimately show ?thesis unfolding mult_Suc by linarith
qed

lemma read_frame_stable:
  "i < frame_count f ps start \<Longrightarrow>
     read_frame f ps (start + i * (FRAME_HEADER_SIZE + ps)) = Inr (raw_frame_at f ps start i)"
  using frame_in_file [of i f ps start]
  by (simp add: read_frame_def read_exact_def raw_frame_at_def)

definition headers_of :: "nat \<Rightarrow> raw_frame list \<Rightarrow> (nat \<times> u32 \<times> u32) list" where
  "headers_of i frs = map (\<lambda>(k, fr). (Suc k, be32_at (fst fr) 0, be32_at (fst fr) 4)) (enumerate i frs)"

lemma headers_of_simps [simp]:
  "headers_of i [] = []"
  "headers_of i (fr # frs) = (Suc i, be32_at (fst fr) 0, be32_at (fst fr) 4) # headers_of (Suc i) frs"
  "headers_of i (xs @ ys) = headers_of i xs @ headers_of (i + length xs) ys"
  by (simp_all add: headers_of_def enumerate_append_eq)

lemma length_headers_of [simp]: "length (headers_of i frs) = length frs"
  by (simp add: headers_of_def)

lemma scan_headers_stable:
  "i + n \<le> frame_count f ps start \<Longrightarrow>
     scan_headers (\<lambda>_. f) ps start m i n running =
       Inr (headers_of i (chain_prefix m running (map (raw_frame_at f ps start) [i..<i + n])))"
proof (induction n arbitrary: i running)
  case (Suc n)
  have upt: "[i..<i + Suc n] = i # [Suc i..<Suc i + n]"
    by (simp add: upt_conv_Cons)
  show ?case
    using Suc.prems Suc.IH [of "Suc i"]
    by (simp only: upt) (simp add: read_frame_stable split: option.splits)
qed simp

lemma chain_prefix_append_checked:
  "chain_prefix m r (xs @ ys) =
     (if chain_prefix m r xs = xs then xs @ chain_prefix m (chain_after m r xs) ys else chain_prefix m r xs)"
  by (induction xs arbitrary: r) (auto split: option.splits)

lemma chain_prefix_idem: "chain_prefix m r frs = xs @ ys \<Longrightarrow> chain_prefix m r xs = xs"
proof (induction xs arbitrary: r frs)
  case (Cons x xs)
  then show ?case by (cases frs) (auto split: option.splits)
qed simp

lemma commit_mark_step:
  "scan_pages (\<lambda>_. f) ps start m sc i n running frames mark = res \<Longrightarrow> i + n \<le> frame_count f ps start \<Longrightarrow>
   res = (let P = chain_prefix m running (map (raw_frame_at f ps start) [i..<i + n]); C = committed P in
     Inr (frames @ map parse_frame P,
       if C = [] then mark
       else \<lparr>mk_count = length frames + length C,
             mk_chain = (if cm_validate m then Some (chain_after m running C) else sc),
             mk_db_size = be32_at (fst (last C)) 4\<rparr>))"
proof (induction n arbitrary: i running frames mark)
  case (Suc n)
  have upt: "[i..<i + Suc n] = i # [Suc i..<Suc i + n]"
    by (simp add: upt_conv_Cons)
  let ?fr = "raw_frame_at f ps start i"
  have rd: "read_frame f ps (start + i * (FRAME_HEADER_SIZE + ps)) = Inr ?fr"
    using Suc.prems(2) by (intro read_frame_stable) simp
  show ?case
  proof (cases "check_frame m running ?fr")
    case None
    with Suc.prems(1) rd show ?thesis
      by (simp only: upt) (simp add: Let_def)
  next
    case (Some nx)
    let ?frames = "frames @ [parse_frame ?fr]"
    let ?mark = "if is_commit ?fr
      then \<lparr>mk_count = length ?frames, mk_chain = (if cm_validate m then Some nx else sc), mk_db_size = be32_at (fst ?fr) 4\<rparr>
      else mark"
    let ?P = "chain_prefix m nx (map (raw_frame_at f ps start) [Suc i..<Suc i + n])"
    have "scan_pages (\<lambda>_. f) ps start m sc (Suc i) n nx ?frames ?mark = res"
      using Suc.prems(1) rd Some
      by (simp add: Let_def parse_frame_def is_commit_def split del: if_split cong: if_cong)
    then have "res = (let C = committed ?P in
        Inr (?frames @ map parse_frame ?P,
          if C = [] then ?mark
          else \<lparr>mk_count = length ?frames + length C, mk_chain = (if cm_validate m then Some (chain_after m nx C) else sc),
                mk_db_size = be32_at (fst (last C)) 4\<rparr>))"
      using Suc.IH [of "Suc i" nx ?frames ?mark] Suc.prems(2) by (simp add: Let_def)
    moreover have "chain_prefix m running (map (raw_frame_at f ps start) [i..<i + Suc n]) = ?fr # ?P"
      using Some by (simp only: upt) simp
    ultimately show ?thesis
      using Some by (simp only: Let_def) simp
  qed
qed simp

lemma last_commit_headers:
  "last_commit (headers_of i frs) =
     (if committed frs = [] then None
      else Some (i + length (committed frs), be32_at (fst (last (committed frs))) 0, be32_at (fst (last (committed frs))) 4))"
  by (induction frs arbitrary: i) (auto simp: last_commit_def find_append is_commit_def split: option.splits)

lemma page_map_of_snoc: "page_map_of (fr # frs) = (\<lambda>p. case page_map_of frs p of Some d \<Rightarrow> Some d | None \<Rightarrow> if p = be32_at (fst fr) 0 then Some (snd fr) else None)"
  by (rule ext) (simp add: page_map_of_def map_add_def split: option.splits)

lemma fill_page_map_stable:
  "chain_prefix m running (map (raw_frame_at f ps start) [i..<i + n]) = map (raw_frame_at f ps start) [i..<i + n] \<Longrightarrow>
   (cm_validate m \<Longrightarrow> out = Some running) \<Longrightarrow> i + n \<le> frame_count f ps start \<Longrightarrow>
   fill_page_map (\<lambda>_. f) ps start m i (headers_of i (map (raw_frame_at f ps start) [i..<i + n])) out pm =
     Inr (pm ++ page_map_of (map (raw_frame_at f ps start) [i..<i + n]),
          if cm_validate m then Some (chain_after m running (map (raw_frame_at f ps start) [i..<i + n])) else out)"
proof (induction n arbitrary: i running out pm)
  case 0
  then show ?case by (auto simp: page_map_of_def)
next
  case (Suc n)
  have upt: "[i..<i + Suc n] = i # [Suc i..<Suc i + n]"
    by (simp add: upt_conv_Cons)
  let ?fr = "raw_frame_at f ps start i"
  let ?rest = "map (raw_frame_at f ps start) [Suc i..<Suc i + n]"
  have rd: "read_frame f ps (start + i * (FRAME_HEADER_SIZE + ps)) = Inr ?fr"
    using Suc.prems(3) by (intro read_frame_stable) simp
  from Suc.prems(1) obtain nx where nx: "check_frame m running ?fr = Some nx" "chain_prefix m nx ?rest = ?rest"
    by (simp only: upt) (auto split: option.splits)
  have pm: "pm(be32_at (fst ?fr) 0 \<mapsto> snd ?fr) ++ page_map_of ?rest = pm ++ page_map_of (?fr # ?rest)"
    by (rule ext) (simp add: page_map_of_snoc map_add_def split: option.splits)
  show ?case
  proof (cases "cm_validate m")
    case True
    then have "verify_frame_checksum running (fst ?fr) (snd ?fr) (cm_big_endian m) = Some nx"
      using nx(1) by (simp add: check_frame_def split: if_splits)
    with True show ?thesis
      using Suc.IH [where i = "Suc i" and running = nx and out = "Some nx"] Suc.prems(2,3) nx rd pm
      by (simp only: upt) (simp del: fun_upd_apply)
  next
    case False
    then show ?thesis
      using Suc.IH [where i = "Suc i" and running = nx and out = out] Suc.prems(2,3) nx rd pm
      by (simp only: upt) (simp del: fun_upd_apply)
  qed
qed

definition start_of :: "nat \<Rightarrow> nat" where
  "start_of off = (if off = 0 then WAL_HEADER_SIZE else off)"

definition accepted :: "bytes \<Rightarrow> nat \<Rightarrow> nat \<Rightarrow> (chain \<times> bool \<times> (u32 \<times> u32)) option \<Rightarrow> chain option \<Rightarrow> raw_frame list" where
  "accepted f ps start hs cs =
     (let m = chain_mode_of hs start cs in committed (chain_prefix m (cm_running m) (raw_frames f ps start)))"

definition chain_at :: "raw_frame list \<Rightarrow> nat \<Rightarrow> (chain \<times> bool \<times> (u32 \<times> u32)) option \<Rightarrow> chain option \<Rightarrow> chain option" where
  "chain_at C start hs cs =
     (let m = chain_mode_of hs start cs in
      if C = [] then cs
      else if cm_validate m then Some (chain_after m (cm_running m) C)
      else seed_chain_of hs start cs)"

lemma seed_chain_validate: "cm_validate (chain_mode_of hs start cs) \<Longrightarrow>
    seed_chain_of hs start cs = Some (cm_running (chain_mode_of hs start cs))"
  by (auto simp: chain_mode_of_def seed_chain_of_def split: option.splits)

lemma be32_at_slice: "i + 4 \<le> n \<Longrightarrow> n \<le> length f \<Longrightarrow> be32_at (slice f 0 n) i = be32_at f i"
  by (simp add: be32_at_def slice_def drop_take min_def)

lemma detect_reset_stable:
  assumes "header_seed f = Inr hs" "off \<le> length f"
  shows "detect_reset_during_read (Some f) (Some f) n off (map_option (\<lambda>(_, _, salt). salt) hs) = Inr ()"
proof (cases hs)
  case None
  with assms(2) show ?thesis by (simp add: detect_reset_during_read_def get_wal_size_def)
next
  case (Some x)
  obtain seed be salt where x: "x = (seed, be, salt)" by (cases x)
  from assms(1) Some x have *: "WAL_HEADER_SIZE \<le> length f"
    "be32_at (slice f 0 WAL_HEADER_SIZE) 0 = WAL_MAGIC_BE \<or> be32_at (slice f 0 WAL_HEADER_SIZE) 0 = WAL_MAGIC_LE"
    "salt = (be32_at (slice f 0 WAL_HEADER_SIZE) 16, be32_at (slice f 0 WAL_HEADER_SIZE) 20)"
    by (auto simp: header_seed_def Let_def split: if_splits)
  then have "be32_at f 0 = WAL_MAGIC_BE \<or> be32_at f 0 = WAL_MAGIC_LE" "salt = (be32_at f 16, be32_at f 20)"
    by (simp_all add: be32_at_slice WAL_HEADER_SIZE_def)
  then have "\<exists>h. read_header (Some f) = Inr (Some h) \<and> header_salt h = salt"
    using *(1) by (auto simp: read_header_def Let_def header_salt_def WAL_MAGIC_BE_def WAL_MAGIC_LE_def)
  with Some x assms(2) show ?thesis
    by (auto simp: detect_reset_during_read_def get_wal_size_def)
qed

lemma committed_length_le: "length (committed frs) \<le> length frs"
  by (induction frs) auto

lemma chain_prefix_length_le: "length (chain_prefix m r frs) \<le> length frs"
  by (induction frs arbitrary: r) (auto split: option.splits)

lemma length_raw_frames [simp]: "length (raw_frames f ps start) = frame_count f ps start"
  by (simp add: raw_frames_def)

lemma chain_prefix_take: "\<exists>n \<le> length frs. chain_prefix m r frs = take n frs"
proof (induction frs arbitrary: r)
  case (Cons fr frs)
  show ?case
  proof (cases "check_frame m r fr")
    case None
    then show ?thesis by (intro exI [of _ 0]) simp
  next
    case (Some nx)
    from Cons.IH [of nx] obtain n where "n \<le> length frs" "chain_prefix m nx frs = take n frs" by blast
    with Some show ?thesis by (intro exI [of _ "Suc n"]) simp
  qed
qed simp

lemma committed_take: "committed frs = take (length (committed frs)) frs"
  using committed_prefix [of frs] by (metis append_eq_conv_conj)

lemma accepted_length: "length (accepted f ps start hs cs) \<le> frame_count f ps start"
  unfolding accepted_def Let_def
  using committed_length_le chain_prefix_length_le [of _ _ "raw_frames f ps start"] order_trans
  by (metis length_raw_frames)

lemma accepted_raw:
  "accepted f ps start hs cs = map (raw_frame_at f ps start) [0..<length (accepted f ps start hs cs)]"
proof -
  let ?C = "accepted f ps start hs cs"
  let ?m = "chain_mode_of hs start cs"
  obtain n where n: "chain_prefix ?m (cm_running ?m) (raw_frames f ps start) = take n (raw_frames f ps start)"
    using chain_prefix_take by blast
  have "?C = take (length ?C) (chain_prefix ?m (cm_running ?m) (raw_frames f ps start))"
    unfolding accepted_def Let_def by (rule committed_take)
  then obtain k where "?C = take k (raw_frames f ps start)"
    using n by (metis take_take)
  then have C: "?C = map (raw_frame_at f ps start) [0..<min k (frame_count f ps start)]"
    by (simp add: raw_frames_def take_map min_def)
  then have "length ?C = min k (frame_count f ps start)"
    by (metis length_map length_upt diff_zero)
  with C show ?thesis by simp
qed

lemma accepted_end:
  assumes "accepted f ps start hs cs \<noteq> []"
  shows "start + length (accepted f ps start hs cs) * (FRAME_HEADER_SIZE + ps) \<le> length f"
proof -
  let ?n = "length (accepted f ps start hs cs)"
  have "?n - 1 < frame_count f ps start"
    using assms accepted_length [of f ps start hs cs] by (cases "?n") auto
  from frame_in_file [OF this] assms show ?thesis
    by (cases "?n") auto
qed

lemma accepted_checked:
  "chain_prefix (chain_mode_of hs start cs) (cm_running (chain_mode_of hs start cs)) (accepted f ps start hs cs) = accepted f ps start hs cs"
  unfolding accepted_def Let_def using committed_prefix chain_prefix_idem by metis

lemma accepted_pos:
  assumes "accepted f ps start hs cs \<noteq> []"
  shows "start < length f" "frame_count f ps start \<noteq> 0"
proof -
  show fc: "frame_count f ps start \<noteq> 0"
    using assms accepted_length [of f ps start hs cs] by (metis le_0_eq length_0_conv)
  show "start < length f"
  proof (rule ccontr)
    assume "\<not> start < length f"
    then have "frame_count f ps start = 0" by (simp add: frame_count_def)
    with fc show False by simp
  qed
qed

lemma page_map_checked_stable:
  assumes hs: "header_seed f = Inr hs"
  shows "read_frames_as_page_map_checked (stable f) page_size off cs =
    (let start = start_of off; ps = unat page_size; C = accepted f ps start hs cs in
     Inr \<lparr>pm_map = page_map_of C, pm_frames = length C, pm_offset = start + length C * (FRAME_HEADER_SIZE + ps),
          pm_db_size = (if C = [] then 0 else be32_at (fst (last C)) 4), pm_commits = length (filter is_commit C),
          pm_chain = chain_at C start hs cs\<rparr>)"
proof -
  define ps where "ps = unat page_size"
  define start where "start = start_of off"
  define m where "m = chain_mode_of hs start cs"
  define C where "C = accepted f ps start hs cs"
  let ?fc = "frame_count f ps start"
  let ?P = "chain_prefix m (cm_running m) (raw_frames f ps start)"
  have CP: "C = committed ?P" by (simp add: C_def accepted_def m_def Let_def)
  have start: "(if off = 0 then WAL_HEADER_SIZE else off) = start" by (simp add: start_def start_of_def)
  have scan: "scan_headers (\<lambda>_. f) ps start m 0 ?fc (cm_running m) = Inr (headers_of 0 ?P)"
    using scan_headers_stable [of 0 ?fc f ps start m] by (simp add: raw_frames_def)
  show ?thesis
  proof (cases "C = []")
    case True
    have "last_commit (headers_of 0 ?P) = None" if "?fc \<noteq> 0"
      using True CP by (simp add: last_commit_headers)
    with True hs scan show ?thesis
      by (auto simp: read_frames_as_page_map_checked_def stable_def Let_def ps_def [symmetric] start start_def [symmetric]
          C_def [symmetric] m_def [symmetric] chain_at_def frame_count_def [symmetric] empty_page_map_read_def page_map_of_def)
  next
    case False
    let ?n = "length C"
    have raw: "C = map (raw_frame_at f ps start) [0..<?n]" and len: "?n \<le> ?fc"
      unfolding C_def by (rule accepted_raw, rule accepted_length)
    have pos: "start < length f" "?fc \<noteq> 0"
      using accepted_pos [of f ps start hs cs] False by (simp_all add: C_def)
    have lc: "last_commit (headers_of 0 ?P) = Some (?n, be32_at (fst (last C)) 0, be32_at (fst (last C)) 4)"
      using False CP by (simp add: last_commit_headers)
    obtain rest where "?P = C @ rest"
      using CP committed_prefix by blast
    then have tk: "take ?n (headers_of 0 ?P) = headers_of 0 C" by simp
    have fill: "fill_page_map (\<lambda>_. f) ps start m 0 (headers_of 0 C) (seed_chain_of hs start cs) Map.empty =
        Inr (page_map_of C, chain_at C start hs cs)"
    proof -
      have chk: "chain_prefix m (cm_running m) (map (raw_frame_at f ps start) [0..<0 + ?n]) = map (raw_frame_at f ps start) [0..<0 + ?n]"
        using accepted_checked [of hs start cs f ps, folded C_def m_def] raw by simp
      have "fill_page_map (\<lambda>_. f) ps start m 0 (headers_of 0 (map (raw_frame_at f ps start) [0..<0 + ?n])) (seed_chain_of hs start cs) Map.empty =
        Inr (Map.empty ++ page_map_of (map (raw_frame_at f ps start) [0..<0 + ?n]),
          if cm_validate m then Some (chain_after m (cm_running m) (map (raw_frame_at f ps start) [0..<0 + ?n])) else seed_chain_of hs start cs)"
        using len seed_chain_validate by (intro fill_page_map_stable [OF chk]) (simp_all add: m_def)
      with raw False show ?thesis by (simp add: chain_at_def m_def [symmetric] Let_def)
    qed
    have cnt: "length (filter (\<lambda>(_, _, db_size). 0 < db_size) (headers_of i frs)) = length (filter is_commit frs)" for i frs
      by (induction frs arbitrary: i) (auto simp: is_commit_def)
    have det: "detect_reset_during_read (Some f) (Some f) (length f) (start + ?n * (FRAME_HEADER_SIZE + ps)) (map_option (\<lambda>(_, _, salt). salt) hs) = Inr ()"
      using accepted_end [of f ps start hs cs] False by (intro detect_reset_stable [OF hs]) (simp add: C_def)
    show ?thesis
      using False hs scan pos lc tk fill cnt det
      by (simp add: read_frames_as_page_map_checked_def stable_def Let_def ps_def [symmetric] start start_def [symmetric]
          C_def [symmetric] m_def [symmetric] frame_count_def [symmetric])
  qed
qed

lemma pages_checked_stable:
  assumes hs: "header_seed f = Inr hs"
  shows "read_frames_as_pages_checked (stable f) page_size off cs =
    (let start = start_of off; ps = unat page_size; C = accepted f ps start hs cs in
     Inr \<lparr>pr_frames = map parse_frame C, pr_offset = start + length C * (FRAME_HEADER_SIZE + ps),
          pr_db_size = (if C = [] then 0 else be32_at (fst (last C)) 4), pr_chain = chain_at C start hs cs\<rparr>)"
proof -
  define ps where "ps = unat page_size"
  define start where "start = start_of off"
  define m where "m = chain_mode_of hs start cs"
  define sc where "sc = seed_chain_of hs start cs"
  define C where "C = accepted f ps start hs cs"
  let ?fc = "frame_count f ps start"
  let ?P = "chain_prefix m (cm_running m) (raw_frames f ps start)"
  let ?mark = "\<lparr>mk_count = 0, mk_chain = sc, mk_db_size = 0\<rparr>"
  have CP: "C = committed ?P" by (simp add: C_def accepted_def m_def Let_def)
  have start: "(if off = 0 then WAL_HEADER_SIZE else off) = start" by (simp add: start_def start_of_def)
  have scan: "scan_pages (\<lambda>_. f) ps start m sc 0 ?fc (cm_running m) [] ?mark =
      Inr (map parse_frame ?P,
        if C = [] then ?mark
        else \<lparr>mk_count = length C, mk_chain = (if cm_validate m then Some (chain_after m (cm_running m) C) else sc),
              mk_db_size = be32_at (fst (last C)) 4\<rparr>)"
    using commit_mark_step [OF refl, of 0 ?fc f ps start m sc "cm_running m" "[]" ?mark]
    by (simp add: raw_frames_def Let_def CP)
  show ?thesis
  proof (cases "C = []")
    case True
    with hs scan show ?thesis
      by (auto simp: read_frames_as_pages_checked_def stable_def Let_def ps_def [symmetric] start start_def [symmetric]
          C_def [symmetric] m_def [symmetric] sc_def [symmetric] chain_at_def frame_count_def [symmetric] empty_pages_read_def)
  next
    case False
    have pos: "start < length f" "?fc \<noteq> 0"
      using accepted_pos [of f ps start hs cs] False by (simp_all add: C_def)
    obtain rest where "?P = C @ rest"
      using CP committed_prefix by blast
    then have tk: "take (length C) (map parse_frame ?P) = map parse_frame C" by simp
    have det: "detect_reset_during_read (Some f) (Some f) (length f) (start + length C * (FRAME_HEADER_SIZE + ps)) (map_option (\<lambda>(_, _, salt). salt) hs) = Inr ()"
      using accepted_end [of f ps start hs cs] False by (intro detect_reset_stable [OF hs]) (simp add: C_def)
    show ?thesis
      using False hs scan pos tk det
      by (simp add: read_frames_as_pages_checked_def stable_def Let_def ps_def [symmetric] start start_def [symmetric]
          C_def [symmetric] m_def [symmetric] sc_def [symmetric] frame_count_def [symmetric] chain_at_def)
  qed
qed

lemma checked_readers_header_error:
  assumes "header_seed f = Inl e"
  shows "read_frames_as_page_map_checked (stable f) page_size off cs = Inl e"
    and "read_frames_as_pages_checked (stable f) page_size off cs = Inl e"
  using assms
  by (simp_all add: read_frames_as_page_map_checked_def read_frames_as_pages_checked_def stable_def Let_def)

lemmas checked_stable = page_map_checked_stable pages_checked_stable checked_readers_header_error

text \<open>
  Claim C17: on a WAL that does not change during the read, the checked page reader returns exactly
  the committed part of the longest prefix of frames whose salts match the header and whose
  checksums continue the chain: torn and stale tails and uncommitted frames are left out, nothing
  else is; the new offset is the end of the last returned frame and the database size that of the
  last commit.  An invalid header checksum is the only error.
\<close>

theorem pages_checked_functional:
  "read_frames_as_pages_checked (stable f) page_size off cs =
    (case header_seed f of
       Inl e \<Rightarrow> Inl e
     | Inr hs \<Rightarrow>
         let m = chain_mode_of hs (start_of off) cs;
             C = committed (chain_prefix m (cm_running m) (raw_frames f (unat page_size) (start_of off)))
         in Inr \<lparr>pr_frames = map parse_frame C,
                 pr_offset = start_of off + length C * (FRAME_HEADER_SIZE + unat page_size),
                 pr_db_size = (if C = [] then 0 else pf_db_size (parse_frame (last C))),
                 pr_chain = (if C = [] then cs
                             else if cm_validate m then Some (chain_after m (cm_running m) C)
                             else seed_chain_of hs (start_of off) cs)\<rparr>)"
  by (cases "header_seed f")
    (simp_all add: checked_stable accepted_def chain_at_def Let_def parse_frame_def)

text \<open>
  Claim C18: the two checked readers agree on every unchanging WAL: the page map is the last
  version of each page among the frames of the page reader, the offset, database size and chain
  value are the same, the frame and commit counts are those of the frames, and they fail on the
  same files.
\<close>

theorem checked_readers_agree:
  "read_frames_as_page_map_checked (stable f) page_size off cs =
     map_sum id
       (\<lambda>r. \<lparr>pm_map = map_of (rev (map (\<lambda>fr. (pf_page_number fr, pf_data fr)) (pr_frames r))),
             pm_frames = length (pr_frames r), pm_offset = pr_offset r, pm_db_size = pr_db_size r,
             pm_commits = length (filter (\<lambda>fr. 0 < pf_db_size fr) (pr_frames r)), pm_chain = pr_chain r\<rparr>)
       (read_frames_as_pages_checked (stable f) page_size off cs)"
proof (cases "header_seed f")
  case (Inl e)
  then show ?thesis by (simp add: checked_stable)
next
  case (Inr hs)
  have c: "length (filter (\<lambda>fr. 0 < pf_db_size fr) (map parse_frame frs)) = length (filter is_commit frs)" for frs
    by (induction frs) (simp_all add: parse_frame_def is_commit_def)
  show ?thesis
    using c by (simp add: checked_stable Inr Let_def page_map_of_def comp_def parse_frame_def)
qed

section \<open>Incremental reading\<close>

text \<open>Polling a sequence of files, each grown from the one before, carrying the position along.\<close>

fun poll :: "('file \<Rightarrow> 'pos \<Rightarrow> ('item list \<times> 'pos) option) \<Rightarrow> 'file list \<Rightarrow> 'pos \<Rightarrow> ('item list \<times> 'pos) option" where
  "poll reads [] p = Some ([], p)"
| "poll reads (f # fs) p =
     (case reads f p of
        None \<Rightarrow> None
      | Some (xs, q) \<Rightarrow> map_option (\<lambda>(ys, r). (xs @ ys, r)) (poll reads fs q))"

fun growing :: "('file \<Rightarrow> 'file \<Rightarrow> bool) \<Rightarrow> 'file list \<Rightarrow> bool" where
  "growing grows (f # g # fs) \<longleftrightarrow> grows f g \<and> growing grows (g # fs)"
| "growing grows _ \<longleftrightarrow> True"

text \<open>
  The contract under which the sync loop may poll a growing file: reading on from the returned
  position yields what one read from the old position would have yielded in addition.  \<open>reads\<close> is
  partial (a read may fail), \<open>grows\<close> is the order in which the file may change between polls.
\<close>

locale incremental_reader =
  fixes reads :: "'file \<Rightarrow> 'pos \<Rightarrow> ('item list \<times> 'pos) option"
    and grows :: "'file \<Rightarrow> 'file \<Rightarrow> bool"
    and valid_pos :: "'pos \<Rightarrow> bool"
  assumes resume: "grows f f' \<Longrightarrow> valid_pos p \<Longrightarrow> reads f p = Some (xs, q) \<Longrightarrow> reads f' q = Some (ys, r) \<Longrightarrow>
      reads f' p = Some (xs @ ys, r)"
    and valid_step: "valid_pos p \<Longrightarrow> reads f p = Some (xs, q) \<Longrightarrow> valid_pos q"
    and grows_trans: "grows f g \<Longrightarrow> grows g h \<Longrightarrow> grows f h"
begin

lemma poll_from:
  "growing grows (f # fs) \<Longrightarrow> valid_pos p \<Longrightarrow> reads f p = Some (xs, q) \<Longrightarrow> poll reads fs q = Some (ys, r) \<Longrightarrow>
     reads (last (f # fs)) p = Some (xs @ ys, r)"
proof (induction fs arbitrary: f xs q ys)
  case (Cons g fs)
  from Cons.prems(4) obtain zs q' ws where g: "reads g q = Some (zs, q')" "poll reads fs q' = Some (ws, r)" "ys = zs @ ws"
    by (auto split: option.splits)
  have "reads g p = Some (xs @ zs, q')"
    using resume [OF _ Cons.prems(2,3) g(1)] Cons.prems(1) by simp
  then show ?case
    using Cons.IH [of g "xs @ zs" q' ws] Cons.prems(1,2) g(2,3) by simp
qed simp

lemma poll_one_shot:
  assumes "growing grows fs" "fs \<noteq> []" "valid_pos p" "poll reads fs p = Some (xs, q)"
  shows "reads (last fs) p = Some (xs, q)"
proof (cases fs)
  case (Cons f gs)
  with assms(4) obtain ys p' zs where "reads f p = Some (ys, p')" "poll reads gs p' = Some (zs, q)" "xs = ys @ zs"
    by (auto split: option.splits)
  with poll_from [of f gs p ys p' zs q] assms(1,3) Cons show ?thesis by simp
qed (use assms(2) in simp)

end

text \<open>The checked page reader as such a reader; a position is an offset with its chain value.\<close>

definition pages_reads :: "u32 \<Rightarrow> bytes \<Rightarrow> nat \<times> chain option \<Rightarrow> (parsed_frame list \<times> (nat \<times> chain option)) option" where
  "pages_reads page_size f p =
     (case read_frames_as_pages_checked (stable f) page_size (fst p) (snd p) of
        Inl _ \<Rightarrow> None
      | Inr r \<Rightarrow> Some (pr_frames r, (pr_offset r, pr_chain r)))"

definition wal_grows :: "bytes \<Rightarrow> bytes \<Rightarrow> bool" where
  "wal_grows f f' \<longleftrightarrow> take (length f) f' = f"

definition wal_pos :: "nat \<times> chain option \<Rightarrow> bool" where
  "wal_pos p \<longleftrightarrow> fst p = 0 \<or> WAL_HEADER_SIZE \<le> fst p"

lemma wal_growsE: "wal_grows f f' \<Longrightarrow> (\<And>e. f' = f @ e \<Longrightarrow> P) \<Longrightarrow> P"
  unfolding wal_grows_def by (metis append_take_drop_id)

lemma header_seed_append: "WAL_HEADER_SIZE \<le> length f \<Longrightarrow> header_seed (f @ e) = header_seed f"
  by (simp add: header_seed_def slice_append_left)

lemma frame_count_append: "frame_count f ps start \<le> frame_count (f @ e) ps start"
  by (simp add: frame_count_def div_le_mono)

lemma raw_frame_at_append:
  assumes "i < frame_count f ps start"
  shows "raw_frame_at (f @ e) ps start i = raw_frame_at f ps start i"
  using frame_in_file [OF assms] by (simp add: raw_frame_at_def slice_append_left)

lemma raw_frames_append: "\<exists>more. raw_frames (f @ e) ps start = raw_frames f ps start @ more"
proof -
  let ?n = "frame_count f ps start" and ?n' = "frame_count (f @ e) ps start"
  have "[0..<?n'] = [0..<?n] @ [?n..<?n']"
    using frame_count_append [of f ps start e] by (metis le_add_diff_inverse upt_add_eq_append zero_le)
  then have "raw_frames (f @ e) ps start = map (raw_frame_at (f @ e) ps start) [0..<?n] @ map (raw_frame_at (f @ e) ps start) [?n..<?n']"
    by (simp add: raw_frames_def)
  moreover have "map (raw_frame_at (f @ e) ps start) [0..<?n] = raw_frames f ps start"
    by (simp add: raw_frames_def raw_frame_at_append)
  ultimately show ?thesis by auto
qed

lemma raw_frames_drop:
  "n \<le> frame_count f ps start \<Longrightarrow>
     drop n (raw_frames f ps start) = raw_frames f ps (start + n * (FRAME_HEADER_SIZE + ps))"
proof -
  assume n: "n \<le> frame_count f ps start"
  let ?w = "FRAME_HEADER_SIZE + ps"
  have w: "0 < ?w" by (simp add: FRAME_HEADER_SIZE_def)
  have cnt: "frame_count f ps (start + n * ?w) = frame_count f ps start - n"
  proof -
    have "n * ?w \<le> frame_count f ps start * ?w"
      using n by (rule mult_le_mono1)
    also have "\<dots> \<le> length f - start" by (simp add: frame_count_def)
    finally obtain b where b: "length f - start = n * ?w + b" by (auto simp: le_iff_add)
    then have "length f - (start + n * ?w) = b" by (metis diff_add_inverse diff_diff_left)
    with b w show ?thesis by (simp add: frame_count_def)
  qed
  have at: "raw_frame_at f ps (start + n * ?w) i = raw_frame_at f ps start (n + i)" for i
    by (simp add: raw_frame_at_def algebra_simps)
  show ?thesis
    by (rule nth_equalityI) (use n cnt at in \<open>simp_all add: raw_frames_def\<close>)
qed

lemma chain_after_unchecked: "\<not> cm_validate m \<Longrightarrow> chain_after m r frs = r"
  by (induction frs arbitrary: r) (simp_all add: check_frame_def)

lemma chain_prefix_running: "chain_prefix (m\<lparr>cm_running := x\<rparr>) r frs = chain_prefix m r frs"
  by (induction frs arbitrary: r) (simp_all add: check_frame_def split: option.splits)

lemma chain_after_running: "chain_after (m\<lparr>cm_running := x\<rparr>) r frs = chain_after m r frs"
  by (induction frs arbitrary: r) (simp_all add: check_frame_def split: option.splits)

lemma chain_after_append:
  "chain_prefix m r xs = xs \<Longrightarrow> chain_after m r (xs @ ys) = chain_after m (chain_after m r xs) ys"
  by (induction xs arbitrary: r) (auto split: option.splits)

lemma resume_mode:
  assumes "C \<noteq> []" "WAL_HEADER_SIZE \<le> start" "start < start'"
  shows "chain_mode_of hs start' (chain_at C start hs cs) =
    (chain_mode_of hs start cs)\<lparr>cm_running := chain_after (chain_mode_of hs start cs) (cm_running (chain_mode_of hs start cs)) C\<rparr>"
proof (cases "cm_validate (chain_mode_of hs start cs)")
  case True
  with assms show ?thesis
    by (auto simp: chain_mode_of_def chain_at_def Let_def split: option.splits prod.splits)
next
  case False
  from chain_after_unchecked [OF this] False assms show ?thesis
    by (auto simp: chain_mode_of_def chain_at_def seed_chain_of_def Let_def split: option.splits prod.splits if_splits)
qed

lemma resume_seed_chain:
  assumes "C \<noteq> []" "WAL_HEADER_SIZE \<le> start" "start < start'" "\<not> cm_validate (chain_mode_of hs start cs)"
  shows "seed_chain_of hs start' (chain_at C start hs cs) = seed_chain_of hs start cs"
  using assms by (auto simp: chain_mode_of_def chain_at_def seed_chain_of_def Let_def split: option.splits prod.splits if_splits)

lemma accepted_resume:
  assumes C: "C = accepted f ps start hs cs" "C \<noteq> []" and pos: "WAL_HEADER_SIZE \<le> start"
    and f': "f' = f @ e" and start': "start' = start + length C * (FRAME_HEADER_SIZE + ps)"
    and cs': "cs' = chain_at C start hs cs" and D: "D = accepted f' ps start' hs cs'"
  shows "accepted f' ps start hs cs = C @ D \<and> chain_at (C @ D) start hs cs = chain_at D start' hs cs'"
proof -
  define m where "m = chain_mode_of hs start cs"
  define r where "r = cm_running m"
  have lt: "start < start'"
    using C(2) start' by (simp add: FRAME_HEADER_SIZE_def)
  have mode: "chain_mode_of hs start' cs' = m\<lparr>cm_running := chain_after m r C\<rparr>"
    unfolding cs' m_def r_def by (rule resume_mode [OF C(2) pos lt])
  obtain more where more: "raw_frames f' ps start = raw_frames f ps start @ more"
    using raw_frames_append f' by blast
  have chk: "chain_prefix m r C = C"
    unfolding C(1) m_def r_def by (rule accepted_checked)
  have len: "length C \<le> frame_count f ps start" "length C \<le> frame_count f' ps start"
    using accepted_length [of f ps start hs cs] frame_count_append [of f ps start e] by (simp_all add: C(1) f')
  have Ctake: "C = take (length C) (raw_frames f ps start)"
    using accepted_raw [of f ps start hs cs] len(1) by (simp add: C(1) raw_frames_def take_map)
  have "take (length C) (raw_frames f' ps start) = C"
    unfolding more using len(1) Ctake by simp
  then have split: "raw_frames f' ps start = C @ raw_frames f' ps start'"
    using append_take_drop_id [of "length C" "raw_frames f' ps start"] raw_frames_drop [OF len(2)] start' by simp
  have P': "chain_prefix m r (raw_frames f' ps start) = C @ chain_prefix m (chain_after m r C) (raw_frames f' ps start')"
    unfolding split chain_prefix_append_checked chk by simp
  have ext: "\<exists>ys. chain_prefix m r (raw_frames f' ps start) = chain_prefix m r (raw_frames f ps start) @ ys"
    unfolding more chain_prefix_append_checked by auto
  then obtain ys where ys: "chain_prefix m r (raw_frames f' ps start) = chain_prefix m r (raw_frames f ps start) @ ys" by blast
  have CC: "committed (chain_prefix m r (raw_frames f ps start)) = C"
    by (simp add: C(1) accepted_def m_def r_def Let_def)
  have "accepted f' ps start hs cs = committed (chain_prefix m r (raw_frames f' ps start))"
    by (simp add: accepted_def m_def r_def Let_def)
  also have "\<dots> = C @ committed (drop (length C) (chain_prefix m r (raw_frames f' ps start)))"
    unfolding ys using committed_extend [of "chain_prefix m r (raw_frames f ps start)" ys] CC by simp
  also have "\<dots> = C @ D"
    by (simp add: D accepted_def mode Let_def chain_prefix_running P')
  finally have acc: "accepted f' ps start hs cs = C @ D" .
  have "chain_at (C @ D) start hs cs = chain_at D start' hs cs'"
  proof (cases "D = [] \<or> \<not> cm_validate m")
    case True
    then show ?thesis
      using C(2) mode resume_seed_chain [OF C(2) pos lt, of hs cs] by (auto simp: chain_at_def Let_def cs' m_def [symmetric])
  next
    case False
    then show ?thesis
      using C(2) mode chain_after_append [OF chk, of D]
      by (auto simp: chain_at_def Let_def m_def [symmetric] r_def [symmetric] chain_after_running)
  qed
  with acc show ?thesis by blast
qed

lemma start_of_start_of [simp]: "start_of (start_of off) = start_of off"
  by (simp add: start_of_def WAL_HEADER_SIZE_def)

lemma pages_reads_spec:
  "pages_reads page_size f (off, cs) =
     (case header_seed f of
        Inl e \<Rightarrow> None
      | Inr hs \<Rightarrow>
          let start = start_of off; C = accepted f (unat page_size) start hs cs in
          Some (map parse_frame C, (start + length C * (FRAME_HEADER_SIZE + unat page_size), chain_at C start hs cs)))"
  by (cases "header_seed f") (simp_all add: pages_reads_def checked_stable Let_def)

lemma pages_reads_start_of: "pages_reads page_size f (start_of off, cs) = pages_reads page_size f (off, cs)"
  by (simp only: pages_reads_spec start_of_start_of)

lemma pages_reads_resume:
  assumes grow: "wal_grows f f'" and pos: "wal_pos p"
    and first: "pages_reads page_size f p = Some (xs, q)" and second: "pages_reads page_size f' q = Some (ys, r)"
  shows "pages_reads page_size f' p = Some (xs @ ys, r)"
proof -
  obtain off cs where p: "p = (off, cs)" by (cases p)
  define start where "start = start_of off"
  let ?ps = "unat page_size"
  obtain e where e: "f' = f @ e" using grow by (rule wal_growsE)
  have start: "WAL_HEADER_SIZE \<le> start"
    using pos p by (auto simp: wal_pos_def start_def start_of_def)
  obtain hs where hs: "header_seed f = Inr hs"
    using first p by (cases "header_seed f") (auto simp: pages_reads_spec)
  define C where "C = accepted f ?ps start hs cs"
  have xq: "xs = map parse_frame C" "q = (start + length C * (FRAME_HEADER_SIZE + ?ps), chain_at C start hs cs)"
    using first p hs by (auto simp: pages_reads_spec Let_def C_def start_def)
  show ?thesis
  proof (cases "C = []")
    case True
    then have "q = (start_of off, cs)" "xs = []" using xq by (simp_all add: chain_at_def start_def)
    with second p show ?thesis by (simp add: pages_reads_start_of)
  next
    case False
    then have "WAL_HEADER_SIZE \<le> length f"
      using accepted_pos(1) [of f ?ps start hs cs] start by (simp add: C_def)
    then have hs': "header_seed f' = Inr hs" using hs e by (simp add: header_seed_append)
    define q0 where "q0 = start + length C * (FRAME_HEADER_SIZE + ?ps)"
    have q0: "start_of q0 = q0" using start by (simp add: q0_def start_of_def WAL_HEADER_SIZE_def)
    note res = accepted_resume [OF C_def False start e q0_def refl refl]
    show ?thesis
      using second hs' res q0 unfolding p xq q0_def [symmetric]
      by (auto simp: pages_reads_spec Let_def start_def [symmetric]) (simp add: q0_def algebra_simps)
  qed
qed

interpretation wal_pages: incremental_reader "pages_reads page_size" wal_grows wal_pos
proof
  fix p f xs q
  assume "wal_pos p" and read: "pages_reads page_size f p = Some (xs, q)"
  then have "WAL_HEADER_SIZE \<le> start_of (fst p)"
    by (auto simp: wal_pos_def start_of_def)
  with read show "wal_pos q"
    by (cases p) (auto simp: pages_reads_spec wal_pos_def Let_def split: sum.splits intro: trans_le_add1)
next
  fix f g h
  assume "wal_grows f g" "wal_grows g h"
  then obtain d e where "g = f @ d" "h = g @ e" by (metis wal_growsE)
  then show "wal_grows f h" by (simp add: wal_grows_def)
qed (fact pages_reads_resume)

text \<open>
  Claim C9: however a growing WAL is polled, carrying the returned offset and chain value from each
  read to the next, the frames obtained are exactly those of a single read of the final file:
  none is lost, repeated or reordered, and the final position is the same.
\<close>

theorem polling_equals_one_read:
  assumes "growing wal_grows fs" and "fs \<noteq> []" and "wal_pos p"
    and "poll (pages_reads page_size) fs p = Some (frames, q)"
  shows "\<exists>r. read_frames_as_pages_checked (stable (last fs)) page_size (fst p) (snd p) = Inr r \<and>
    pr_frames r = frames \<and> (pr_offset r, pr_chain r) = q"
  using wal_pages.poll_one_shot [OF assms]
  by (auto simp: pages_reads_def split: sum.splits)

text \<open>A WAL with two frames (page size 0 keeps it short), written and then torn in its second frame.\<close>

definition demo_wal :: bytes where
  "demo_wal =
     [55, 127, 6, 131, 0, 45, 226, 24, 0, 0, 0, 0, 0, 0, 0, 0, 0, 0, 0, 1, 0, 0, 0, 2, 22, 4, 198,
      216, 188, 221, 158, 147, 0, 0, 0, 1, 0, 0, 0, 0, 0, 0, 0, 1, 0, 0, 0, 2, 210, 226, 101, 108,
      143, 192, 3, 255, 0, 0, 0, 2, 0, 0, 0, 2, 0, 0, 0, 1, 0, 0, 0, 2, 98, 162, 105, 109, 242, 98,
      109, 110]"


lemmas wal_eval = slice_def be32_at_def u32_from_be_def be_nat_def read_u32_def wal_checksum.simps Let_def
   WAL_HEADER_SIZE_def FRAME_HEADER_SIZE_def WAL_MAGIC_BE_def WAL_MAGIC_LE_def magic_is_big_endian_def validate_header_checksum_def

lemma demo_wal_header: "header_seed demo_wal = Inr (Some ((369411800, 3168640659), True, (1, 2)))"
  by (simp add: header_seed_def demo_wal_def wal_eval)

lemma demo_wal_frames: "raw_frames demo_wal 0 32 = [(take 24 (drop 32 demo_wal), []), (take 24 (drop 56 demo_wal), [])]"
  by (simp add: raw_frames_def frame_count_def raw_frame_at_def demo_wal_def slice_def FRAME_HEADER_SIZE_def upt_rec)

lemma demo_wal_read: "pages_reads 0 demo_wal (0, None) =
    Some ([\<lparr>pf_page_number = 1, pf_db_size = 0, pf_data = []\<rparr>, \<lparr>pf_page_number = 2, pf_db_size = 2, pf_data = []\<rparr>],
      (80, Some (1654810989, 4066536814)))"
  by (simp add: pages_reads_spec demo_wal_header start_of_def WAL_HEADER_SIZE_def FRAME_HEADER_SIZE_def accepted_def demo_wal_frames chain_mode_of_def
    chain_at_def Let_def)
  (simp add: check_frame_def verify_frame_checksum_def frame_salt_def demo_wal_def wal_eval is_commit_def parse_frame_def chain_at_def)

lemma demo_wal_torn_read: "pages_reads 0 (take 60 demo_wal) (0, None) = Some ([], (32, None))"
proof -
  have h: "header_seed (take 60 demo_wal) = Inr (Some ((369411800, 3168640659), True, (1, 2)))"
    using header_seed_append [of "take 60 demo_wal" "drop 60 demo_wal"] demo_wal_header by (simp add: demo_wal_def WAL_HEADER_SIZE_def)
  have f: "raw_frames (take 60 demo_wal) 0 32 = [(take 24 (drop 32 demo_wal), [])]"
    by (simp add: raw_frames_def frame_count_def raw_frame_at_def demo_wal_def slice_def FRAME_HEADER_SIZE_def upt_rec)
  show ?thesis
    by (simp add: pages_reads_spec h start_of_def WAL_HEADER_SIZE_def FRAME_HEADER_SIZE_def accepted_def f chain_mode_of_def
    chain_at_def Let_def)
  (simp add: check_frame_def verify_frame_checksum_def frame_salt_def demo_wal_def wal_eval is_commit_def parse_frame_def chain_at_def)
qed

theorem polling_equals_one_read_witness:
  "\<exists>r. read_frames_as_pages_checked (stable demo_wal) 0 0 None = Inr r \<and> length (pr_frames r) = 2 \<and> pr_offset r = 80"
proof -
  let ?fs = "[take 60 demo_wal, demo_wal]"
  have again: "pages_reads 0 demo_wal (32, None) = pages_reads 0 demo_wal (0, None)"
    using pages_reads_start_of [of 0 demo_wal 0 None] by (simp add: start_of_def WAL_HEADER_SIZE_def)
  have grow: "growing wal_grows ?fs" by (simp add: wal_grows_def demo_wal_def)
  have "poll (pages_reads 0) ?fs (0, None) = pages_reads 0 demo_wal (0, None)"
    by (simp add: demo_wal_torn_read again) (simp add: demo_wal_read)
  then have run: "poll (pages_reads 0) ?fs (0, None) =
    Some ([\<lparr>pf_page_number = 1, pf_db_size = 0, pf_data = []\<rparr>, \<lparr>pf_page_number = 2, pf_db_size = 2, pf_data = []\<rparr>],
      (80, Some (1654810989, 4066536814)))"
    by (simp only: demo_wal_read)
  have "wal_pos (0, None)" by (simp add: wal_pos_def)
  from polling_equals_one_read [OF grow _ this run] show ?thesis by auto
qed

section \<open>Reads that race a reset\<close>

fun verify_chain_frames :: "bool \<Rightarrow> chain \<Rightarrow> raw_frame list \<Rightarrow> chain option" where
  "verify_chain_frames be c [] = Some c"
| "verify_chain_frames be c (fr # frs) =
     (case verify_frame_checksum c (fst fr) (snd fr) be of None \<Rightarrow> None | Some c' \<Rightarrow> verify_chain_frames be c' frs)"

definition frames_seen :: "(nat \<Rightarrow> bytes) \<Rightarrow> nat \<Rightarrow> nat \<Rightarrow> nat \<Rightarrow> nat \<Rightarrow> raw_frame list" where
  "frames_seen v ps start i n = map (\<lambda>k. raw_frame_at (v k) ps start k) [i..<i + n]"

lemma frames_seen_Suc: "frames_seen v ps start i (Suc n) = raw_frame_at (v i) ps start i # frames_seen v ps start (Suc i) n"
  by (simp add: frames_seen_def upt_conv_Cons del: upt_Suc)

lemma read_frame_Inr:
  "read_frame f ps (start + i * (FRAME_HEADER_SIZE + ps)) = Inr fr \<Longrightarrow> fr = raw_frame_at f ps start i"
  by (auto simp: read_frame_def read_exact_def raw_frame_at_def split: if_splits)

lemma fill_page_map_run:
  "fill_page_map v ps start m i hs (Some c) pm = Inr (pm', out) \<Longrightarrow> cm_validate m \<Longrightarrow>
     (\<exists>c'. out = Some c' \<and> verify_chain_frames (cm_big_endian m) c (frames_seen v ps start i (length hs)) = Some c') \<and>
     ran pm' \<subseteq> ran pm \<union> snd ` set (frames_seen v ps start i (length hs))"
proof (induction hs arbitrary: i c pm)
  case Nil
  then show ?case by (cases c) (auto simp: frames_seen_def)
next
  case (Cons h hs)
  let ?fr = "raw_frame_at (v i) ps start i"
  from Cons.prems have fr: "read_frame (v i) ps (start + i * (FRAME_HEADER_SIZE + ps)) = Inr ?fr"
    by (auto dest: read_frame_Inr)
  with Cons.prems obtain c1 where
    c1: "verify_frame_checksum c (fst ?fr) (snd ?fr) (cm_big_endian m) = Some c1"
      "fill_page_map v ps start m (Suc i) hs (Some c1) (pm(fst (snd h) \<mapsto> snd ?fr)) = Inr (pm', out)"
    by (auto split: option.splits)
  have "ran (pm(fst (snd h) \<mapsto> snd ?fr)) \<subseteq> insert (snd ?fr) (ran pm)"
    by (auto simp: ran_def)
  with Cons.IH [OF c1(2) Cons.prems(2)] c1(1) show ?case
    by (auto simp: frames_seen_Suc simp del: fun_upd_apply)
qed

lemma scan_headers_number:
  "scan_headers v ps start m i n running = Inr hs \<Longrightarrow> h \<in> set hs \<Longrightarrow> i < fst h \<and> fst h \<le> i + length hs"
proof (induction n arbitrary: i running hs)
  case (Suc n)
  then obtain fr where "read_frame (v i) ps (start + i * (FRAME_HEADER_SIZE + ps)) = Inr fr" by auto
  with Suc show ?case by (fastforce split: option.splits)
qed simp

lemma last_commit_le:
  "scan_headers v ps start m 0 n running = Inr hs \<Longrightarrow> last_commit hs = Some (k, x, y) \<Longrightarrow> k \<le> length hs"
  using scan_headers_number [of v ps start m 0 n running hs "(k, x, y)"]
  by (auto simp: last_commit_def find_Some_iff) (metis nth_mem set_rev length_rev)

lemma detect_reset_ok:
  "detect_reset_during_read sz hv n off salt = Inr u \<longleftrightarrow>
     off \<le> get_wal_size sz \<and>
     (\<forall>s. salt = Some s \<longrightarrow> (\<exists>h. read_header hv = Inr h \<and> (\<forall>x. h = Some x \<longrightarrow> header_salt x = s)))"
  by (cases salt; cases "read_header hv") (auto simp: detect_reset_during_read_def Let_def not_less split: option.splits if_splits)

text \<open>
  Claim C16: the page-map reader fails closed under any concurrent change of the file: whatever the
  file held at each look, a map it returns from a validated read contains only page bodies of
  frames that continued the checksum chain when they were copied, the returned chain value is that
  of those frames, and after the read the file still reached the returned offset with an unchanged
  salt.
\<close>

theorem page_map_read_fails_closed:
  assumes "v_open v = Some f" and "header_seed f = Inr (Some (seed, be, salt))"
    and "start_of off = WAL_HEADER_SIZE \<or> cs = Some c"
    and "read_frames_as_page_map_checked v page_size off cs = Inr r" and "0 < pm_frames r"
  shows "let F = frames_seen (v_pass2 v) (unat page_size) (start_of off) 0 (pm_frames r);
             c0 = (if start_of off = WAL_HEADER_SIZE then seed else c)
         in pm_chain r = verify_chain_frames be c0 F \<and> pm_chain r \<noteq> None \<and> ran (pm_map r) \<subseteq> snd ` set F \<and>
            pm_offset r \<le> get_wal_size (v_after_size v) \<and>
            (\<forall>h. read_header (v_after_header v) = Inr (Some h) \<longrightarrow> header_salt h = salt)"
proof -
  let ?ps = "unat page_size" and ?start = "start_of off"
  let ?m = "chain_mode_of (Some (seed, be, salt)) ?start cs"
  have m: "cm_validate ?m" "cm_big_endian ?m = be"
    using assms(3) by (auto simp: chain_mode_of_def)
  have sc: "seed_chain_of (Some (seed, be, salt)) ?start cs = Some (if ?start = WAL_HEADER_SIZE then seed else c)"
    using assms(3) by (auto simp: seed_chain_of_def)
  from assms(4,5) obtain hdrs pgmap where
    fill: "fill_page_map (v_pass2 v) ?ps ?start ?m 0 (take (pm_frames r) hdrs) (seed_chain_of (Some (seed, be, salt)) ?start cs) Map.empty = Inr (pgmap, pm_chain r)"
    and len: "pm_frames r \<le> length hdrs" and pgmap: "pm_map r = pgmap"
    and det: "detect_reset_during_read (v_after_size v) (v_after_header v) (length f) (pm_offset r) (Some salt) = Inr ()"
    unfolding read_frames_as_page_map_checked_def start_of_def [symmetric] assms(1,2) Let_def
    by (auto simp: assms(2) empty_page_map_read_def split: if_splits option.splits)
      (metis last_commit_le)
  from fill_page_map_run [OF fill [unfolded sc] m(1)] len pgmap m(2) det show ?thesis
    by (auto simp: Let_def detect_reset_ok min_absorb2)
qed

theorem page_map_read_fails_closed_witness:
  "\<exists>r. read_frames_as_page_map_checked (stable demo_wal) 0 0 None = Inr r \<and> pm_frames r = 2 \<and>
     pm_chain r = verify_chain_frames True (369411800, 3168640659) (frames_seen (\<lambda>_. demo_wal) 0 32 0 2) \<and>
     pm_chain r \<noteq> None"
proof -
  obtain r0 where "read_frames_as_pages_checked (stable demo_wal) 0 0 None = Inr r0" "length (pr_frames r0) = 2"
    using demo_wal_read by (cases "read_frames_as_pages_checked (stable demo_wal) 0 0 None") (auto simp: pages_reads_def)
  then obtain r where r: "read_frames_as_page_map_checked (stable demo_wal) 0 0 None = Inr r" "pm_frames r = 2"
    by (auto simp: checked_readers_agree)
  have p2: "v_pass2 (stable demo_wal) = (\<lambda>_. demo_wal)" by (simp add: stable_def)
  have "v_open (stable demo_wal) = Some demo_wal" by (simp add: stable_def)
  from page_map_read_fails_closed [OF this demo_wal_header _ r(1), of undefined] r(2) show ?thesis
    by (intro exI [of _ r]) (simp add: r(1) start_of_def WAL_HEADER_SIZE_def Let_def p2, metis)
qed

section \<open>The metadata reader and the commit counter\<close>

lemma read_pages_until_eof_stable:
  "i + n \<le> frame_count f ps start \<Longrightarrow>
     read_pages_until_eof (\<lambda>_. f) ps start i n = (map parse_frame (map (raw_frame_at f ps start) [i..<i + n]), False)"
proof (induction n arbitrary: i)
  case (Suc n)
  have upt: "[i..<i + Suc n] = i # [Suc i..<Suc i + n]"
    by (simp add: upt_conv_Cons)
  show ?case
    using Suc.prems Suc.IH [of "Suc i"] by (simp only: upt) (simp add: read_frame_stable parse_frame_def)
qed simp

lemma read_all_pages_stable:
  "i + n \<le> frame_count f ps start \<Longrightarrow>
     read_all_pages (\<lambda>_. f) ps start i n = Inr (map parse_frame (map (raw_frame_at f ps start) [i..<i + n]))"
proof (induction n arbitrary: i)
  case (Suc n)
  have upt: "[i..<i + Suc n] = i # [Suc i..<Suc i + n]"
    by (simp add: upt_conv_Cons)
  show ?case
    using Suc.prems Suc.IH [of "Suc i"] by (simp only: upt) (simp add: read_frame_stable parse_frame_def)
qed simp

lemma rposition_append: "rposition P (xs @ [x]) = (if P x then Some (length xs) else rposition P xs)"
  by (induction xs) (auto split: option.splits)

lemma committed_rposition:
  "committed frs = (case rposition is_commit frs of None \<Rightarrow> [] | Some i \<Rightarrow> take (Suc i) frs)"
proof (induction frs rule: rev_induct)
  case (snoc fr frs)
  show ?case
  proof (cases "is_commit fr")
    case True
    then show ?thesis by (simp add: committed_append rposition_append)
  next
    case False
    have "committed (frs @ [fr]) = committed frs" "rposition is_commit (frs @ [fr]) = rposition is_commit frs"
      using False by (simp_all add: committed_append rposition_append)
    moreover have "take (Suc i) (frs @ [fr]) = take (Suc i) frs" if "rposition is_commit frs = Some i" for i
      using rposition_Some [OF that] by simp
    ultimately show ?thesis
      using snoc by (metis (no_types, lifting) option.case_eq_if option.collapse)
  qed
qed simp

lemma rposition_map: "rposition P (map f xs) = rposition (P \<circ> f) xs"
  by (induction xs) (auto split: option.splits)

lemma read_frames_as_pages_stable:
  "\<exists>db. read_frames_as_pages (stable f) page_size off =
     (let C = committed (raw_frames f (unat page_size) (start_of off)) in
      Inr (map parse_frame C, start_of off + length C * (FRAME_HEADER_SIZE + unat page_size), db))"
proof -
  let ?ps = "unat page_size" and ?start = "start_of off"
  let ?R = "raw_frames f ?ps ?start"
  have rd: "read_all_pages (\<lambda>_. f) ?ps ?start 0 (frame_count f ?ps ?start) = Inr (map parse_frame ?R)"
    using read_all_pages_stable [of 0 "frame_count f ?ps ?start"] by (simp add: raw_frames_def)
  have rp: "rposition (\<lambda>fr. 0 < pf_db_size fr) (map parse_frame ?R) = rposition is_commit ?R"
    by (simp add: rposition_map comp_def parse_frame_def is_commit_def [abs_def])
  show ?thesis
  proof (cases "frame_count f ?ps ?start = 0")
    case True
    then have "?R = []" by (simp add: raw_frames_def)
    with True show ?thesis
      by (auto simp: read_frames_as_pages_def stable_def Let_def start_of_def [symmetric] frame_count_def)
  next
    case False
    then have "?start < length f"
      by (rule contrapos_np) (simp add: frame_count_def)
    then show ?thesis
      using False rd rp rposition_Some [of is_commit ?R]
      by (auto simp: read_frames_as_pages_def stable_def Let_def start_of_def [symmetric] frame_count_def [symmetric]
          committed_rposition take_map split: option.splits)
  qed
qed

lemma committed_of_prefix: "\<exists>rest. committed (xs @ ys) = committed xs @ rest"
  using committed_extend by blast

text \<open>
  On an unchanging WAL the frames of the checked page reader are a prefix of those the
  unchecked reader returns, so validation only ever withholds a tail.
\<close>

theorem checked_is_prefix_of_unchecked:
  assumes "read_frames_as_pages_checked (stable f) page_size off cs = Inr r"
    and "read_frames_as_pages (stable f) page_size off = Inr (frames, end_offset, db_size)"
  shows "take (length (pr_frames r)) frames = pr_frames r \<and> pr_offset r \<le> end_offset"
proof -
  obtain hs where hs: "header_seed f = Inr hs"
    using assms(1) by (cases "header_seed f") (auto simp: checked_stable)
  let ?R = "raw_frames f (unat page_size) (start_of off)"
  let ?C = "accepted f (unat page_size) (start_of off) hs cs"
  obtain ys where "?R = chain_prefix (chain_mode_of hs (start_of off) cs) (cm_running (chain_mode_of hs (start_of off) cs)) ?R @ ys"
    using chain_prefix_take by (metis append_take_drop_id)
  then obtain rest where rest: "committed ?R = ?C @ rest"
    unfolding accepted_def Let_def using committed_of_prefix by metis
  have "pr_frames r = map parse_frame ?C" "pr_offset r = start_of off + length ?C * (FRAME_HEADER_SIZE + unat page_size)"
    using assms(1) by (auto simp: checked_stable(2) [OF hs] Let_def)
  moreover have "frames = map parse_frame (committed ?R)" "end_offset = start_of off + length (committed ?R) * (FRAME_HEADER_SIZE + unat page_size)"
    using assms(2) read_frames_as_pages_stable [of f page_size off] by (auto simp: Let_def)
  ultimately show ?thesis using rest by simp
qed

theorem checked_is_prefix_of_unchecked_witness:
  "\<exists>r frames e db. read_frames_as_pages_checked (stable demo_wal) 0 0 None = Inr r \<and>
     read_frames_as_pages (stable demo_wal) 0 0 = Inr (frames, e, db) \<and>
     take (length (pr_frames r)) frames = pr_frames r \<and> length (pr_frames r) = 2"
proof -
  obtain r where r: "read_frames_as_pages_checked (stable demo_wal) 0 0 None = Inr r" "length (pr_frames r) = 2"
    using demo_wal_read by (cases "read_frames_as_pages_checked (stable demo_wal) 0 0 None") (auto simp: pages_reads_def)
  obtain frames e db where u: "read_frames_as_pages (stable demo_wal) 0 0 = Inr (frames, e, db)"
    using read_frames_as_pages_stable [of demo_wal 0 0] by (auto simp: Let_def)
  from checked_is_prefix_of_unchecked [OF r(1) u] r u show ?thesis by blast
qed

end
