(* ===== verification/Changeset.thy ===== *)
theory Changeset
  imports Prelude "HOL-Library.Multiset"
begin

text \<open>
  HADBP changesets of SQLite pages, \<^verbatim>\<open>crates/walrust-core/src/ltx.rs\<close>: validation, in-place
  application to a database file, snapshot decoding, and the encoders.  A database file is its
  byte list, with the effect of \<^verbatim>\<open>seek\<close>, \<^verbatim>\<open>write_all\<close> and \<^verbatim>\<open>set_len\<close> written out; \<open>None\<close> is a file
  that cannot be opened.

  The wire codec is the third-party crate \<^verbatim>\<open>hadb_changeset\<close> and SHA-256 the crate \<^verbatim>\<open>sha2\<close>: both
  are parameters (the record \<open>codec\<close> and the function \<open>sha256\<close> on the bytes fed to the hasher).
  What the code relies on is stated as hypotheses of the theorems that need it.
\<close>

section \<open>Data\<close>

datatype page_id = PageU32 u32 | PageU64 u64

datatype page_id_size = IdU32 | IdU64

fun pid_u64 :: "page_id \<Rightarrow> u64" where
  "pid_u64 (PageU32 v) = ucast v"
| "pid_u64 (PageU64 v) = v"

fun pid_len :: "page_id_size \<Rightarrow> nat" where
  "pid_len IdU32 = 4"
| "pid_len IdU64 = 8"

record page_entry =
  pe_page_id :: page_id
  pe_data :: bytes

record physical_header =
  ph_flags :: u8
  ph_page_id_size :: page_id_size
  ph_page_size :: u32
  ph_seq :: u64
  ph_prev_checksum :: u64
  ph_page_count :: u32
  ph_created_ms :: int

record changeset =
  cs_header :: physical_header
  cs_pages :: "page_entry list"
  cs_checksum :: u64

text \<open>The functions of \<^verbatim>\<open>hadb_changeset::physical\<close> the sources call.\<close>

record codec =
  c_decode :: "bytes \<Rightarrow> string + changeset"
  c_encode :: "changeset \<Rightarrow> bytes"
  c_new :: "u64 \<Rightarrow> u64 \<Rightarrow> page_id_size \<Rightarrow> u32 \<Rightarrow> page_entry list \<Rightarrow> changeset"
  c_verify_chain :: "u64 \<Rightarrow> changeset \<Rightarrow> bool"
  c_chain_end :: "changeset \<Rightarrow> u64"
  c_is_compacted :: "changeset \<Rightarrow> bool"
  c_compute_checksum :: "u64 \<Rightarrow> page_id_size \<Rightarrow> page_entry list \<Rightarrow> u64"

datatype ltx_error =
    InvalidPageSize u32
  | UnsupportedFlags u8
  | InvalidPageIdSize
  | PageCountMismatch u32 nat
  | PageNumberZero
  | PagePastEnd u64 u64
  | PageLength u64 nat
  | EmptyWithoutFlag u64
  | MultipleMarkers
  | FlagWithoutMarker
  | OffsetOverflow u64
  | SizeOverflow
  | DecodeFailed string
  | ChainBroken
  | OpenFailed
  | SnapshotWithMarker
  | ExceedsSafetyCap nat
  | NotPageMultiple nat u32
  | TooManyPages nat
  | EndPageCountZero
  | EndPageCountTooLarge u64
  | PageCountExceedsBody nat nat

definition FLAG_END_PAGE_COUNT_MARKER :: u8 where "FLAG_END_PAGE_COUNT_MARKER = 1"
definition MIN_SQLITE_PAGE_SIZE :: u32 where "MIN_SQLITE_PAGE_SIZE = 512"
definition MAX_SQLITE_PAGE_SIZE :: u32 where "MAX_SQLITE_PAGE_SIZE = 65536"
definition MAX_DECODED_DB_BYTES :: nat where "MAX_DECODED_DB_BYTES = 2 ^ 40"
definition HADBP_HEADER_SIZE :: nat where "HADBP_HEADER_SIZE = 40"
definition HADBP_TRAILER_SIZE :: nat where "HADBP_TRAILER_SIZE = 8"

definition is_power_of_two :: "u32 \<Rightarrow> bool" where
  "is_power_of_two n \<longleftrightarrow> list_ex (\<lambda>k. n = push_bit k 1) [0..<32]"

definition marker_flag_set :: "u8 \<Rightarrow> bool" where
  "marker_flag_set fl \<longleftrightarrow> and fl FLAG_END_PAGE_COUNT_MARKER \<noteq> 0"

section \<open>Validation\<close>

definition validate_sqlite_page_size :: "u32 \<Rightarrow> ltx_error + nat" where
  "validate_sqlite_page_size page_size =
     (if \<not> (MIN_SQLITE_PAGE_SIZE \<le> page_size \<and> page_size \<le> MAX_SQLITE_PAGE_SIZE) \<or> \<not> is_power_of_two page_size
      then Inl (InvalidPageSize page_size)
      else Inr (unat page_size))"

definition preflight_hadbp_header :: "bytes \<Rightarrow> ltx_error + unit" where
  "preflight_hadbp_header data =
     (if length data < HADBP_HEADER_SIZE then Inr ()
      else let page_id_size = data ! 7 in
        if page_id_size \<noteq> 4 \<and> page_id_size \<noteq> 8 then Inr ()
        else let plen = unat page_id_size; page_size = u32_from_be (slice data 8 4) in
          rbind (validate_sqlite_page_size page_size) (\<lambda>_.
            let page_count = unat (u32_from_be (slice data 28 4));
                max_possible_pages = (length data - (HADBP_HEADER_SIZE + HADBP_TRAILER_SIZE)) div (plen + 4)
            in if max_possible_pages < page_count then Inl (PageCountExceedsBody page_count max_possible_pages)
               else Inr ()))"

fun end_marker_loop :: "u8 \<Rightarrow> page_entry list \<Rightarrow> u64 option \<Rightarrow> ltx_error + u64 option" where
  "end_marker_loop fl [] marker = Inr marker"
| "end_marker_loop fl (p # ps) marker =
     (if pe_data p \<noteq> [] then end_marker_loop fl ps marker
      else if \<not> marker_flag_set fl then Inl (EmptyWithoutFlag (pid_u64 (pe_page_id p)))
      else if pid_u64 (pe_page_id p) = 0 then Inl PageNumberZero
      else if marker \<noteq> None then Inl MultipleMarkers
      else end_marker_loop fl ps (Some (pid_u64 (pe_page_id p) - 1)))"

definition changeset_end_page_count :: "changeset \<Rightarrow> ltx_error + u64 option" where
  "changeset_end_page_count cs =
     rbind (end_marker_loop (ph_flags (cs_header cs)) (cs_pages cs) None) (\<lambda>marker.
       if marker_flag_set (ph_flags (cs_header cs)) \<and> marker = None then Inl FlagWithoutMarker
       else Inr marker)"

fun validate_pages :: "nat \<Rightarrow> u64 option \<Rightarrow> page_entry list \<Rightarrow> ltx_error + unit" where
  "validate_pages page_size epc [] = Inr ()"
| "validate_pages page_size epc (p # ps) =
     (let page_num = pid_u64 (pe_page_id p) in
      if page_num = 0 then Inl PageNumberZero
      else if pe_data p = [] then validate_pages page_size epc ps
      else if (case epc of Some e \<Rightarrow> e < page_num | None \<Rightarrow> False) then Inl (PagePastEnd page_num (the epc))
      else if length (pe_data p) \<noteq> page_size then Inl (PageLength page_num (length (pe_data p)))
      else validate_pages page_size epc ps)"

definition validate_sqlite_changeset :: "changeset \<Rightarrow> ltx_error + unit" where
  "validate_sqlite_changeset cs =
     rbind (validate_sqlite_page_size (ph_page_size (cs_header cs))) (\<lambda>page_size.
       if and (ph_flags (cs_header cs)) (not FLAG_END_PAGE_COUNT_MARKER) \<noteq> 0
       then Inl (UnsupportedFlags (ph_flags (cs_header cs)))
       else if ph_page_id_size (cs_header cs) \<noteq> IdU32 then Inl InvalidPageIdSize
       else if unat (ph_page_count (cs_header cs)) \<noteq> length (cs_pages cs)
       then Inl (PageCountMismatch (ph_page_count (cs_header cs)) (length (cs_pages cs)))
       else rbind (changeset_end_page_count cs) (\<lambda>end_page_count.
         validate_pages page_size end_page_count (cs_pages cs)))"

definition decode_sqlite_changeset :: "codec \<Rightarrow> bytes \<Rightarrow> ltx_error + changeset" where
  "decode_sqlite_changeset cd data =
     rbind (preflight_hadbp_header data) (\<lambda>_.
     rbind (map_sum DecodeFailed id (c_decode cd data)) (\<lambda>cs.
     rbind (validate_sqlite_changeset cs) (\<lambda>_. Inr cs)))"

section \<open>Files\<close>

definition zeros :: "nat \<Rightarrow> bytes" where
  "zeros n = replicate n 0"

definition set_len :: "nat \<Rightarrow> bytes \<Rightarrow> bytes" where
  "set_len n f = take n f @ zeros (n - length f)"

definition write_at :: "nat \<Rightarrow> bytes \<Rightarrow> bytes \<Rightarrow> bytes" where
  "write_at off d f =
     (if d = [] then f else take off f @ zeros (off - length f) @ d @ drop (off + length d) f)"

definition sqlite_page_offset :: "u64 \<Rightarrow> u32 \<Rightarrow> ltx_error + nat" where
  "sqlite_page_offset page_num page_size =
     (if page_num = 0 then Inl PageNumberZero
      else rbind (validate_sqlite_page_size page_size) (\<lambda>ps.
        let off = (unat page_num - 1) * ps in
        if 2 ^ 64 \<le> off then Inl (OffsetOverflow page_num) else Inr off))"

section \<open>Applying\<close>

fun write_pages :: "u32 \<Rightarrow> page_entry list \<Rightarrow> bytes \<Rightarrow> ltx_error + bytes" where
  "write_pages page_size [] f = Inr f"
| "write_pages page_size (p # ps) f =
     (if pe_data p = [] then write_pages page_size ps f
      else rbind (sqlite_page_offset (pid_u64 (pe_page_id p)) page_size) (\<lambda>off.
        write_pages page_size ps (write_at off (pe_data p) f)))"

definition apply_decoded_changeset_to_db :: "changeset \<Rightarrow> bytes option \<Rightarrow> ltx_error + bytes" where
  "apply_decoded_changeset_to_db cs db =
     rbind (validate_sqlite_changeset cs) (\<lambda>_.
       case db of
         None \<Rightarrow> Inl OpenFailed
       | Some f \<Rightarrow>
           rbind (write_pages (ph_page_size (cs_header cs)) (cs_pages cs) f) (\<lambda>f'.
           rbind (changeset_end_page_count cs) (\<lambda>epc.
             case epc of
               None \<Rightarrow> Inr f'
             | Some end_page_count \<Rightarrow>
                 rbind (validate_sqlite_page_size (ph_page_size (cs_header cs))) (\<lambda>ps.
                   let len = unat end_page_count * ps in
                   if 2 ^ 64 \<le> len then Inl SizeOverflow else Inr (set_len len f')))))"

record apply_result =
  ar_header :: physical_header
  ar_checksum :: u64

definition apply_changeset_to_db :: "codec \<Rightarrow> bytes \<Rightarrow> bytes option \<Rightarrow> u64 \<Rightarrow> ltx_error + (bytes \<times> apply_result)" where
  "apply_changeset_to_db cd data db expected_prev_checksum =
     rbind (decode_sqlite_changeset cd data) (\<lambda>cs.
       if \<not> c_verify_chain cd expected_prev_checksum cs then Inl ChainBroken
       else rbind (apply_decoded_changeset_to_db cs db) (\<lambda>f.
         Inr (f, \<lparr>ar_header = cs_header cs, ar_checksum = cs_checksum cs\<rparr>)))"

section \<open>Checksums over files\<close>

definition finalize :: "(bytes \<Rightarrow> bytes) \<Rightarrow> bytes \<Rightarrow> u64" where
  "finalize sha256 fed = u64_from_be (take 8 (sha256 fed))"

definition compute_db_checksum_raw :: "(bytes \<Rightarrow> bytes) \<Rightarrow> bytes \<Rightarrow> u64" where
  "compute_db_checksum_raw sha256 data = finalize sha256 data"

text \<open>The file is fed in blocks of at most 64 KiB.\<close>

function feed_blocks :: "bytes \<Rightarrow> bytes \<Rightarrow> bytes" where
  "feed_blocks fed rest = (if rest = [] then fed else feed_blocks (fed @ take 65536 rest) (drop 65536 rest))"
  by pat_completeness auto
termination
  by (relation "measure (\<lambda>(fed, rest). length rest)") auto

declare feed_blocks.simps [simp del]

definition compute_checksum_from_file :: "(bytes \<Rightarrow> bytes) \<Rightarrow> bytes option \<Rightarrow> ltx_error + u64" where
  "compute_checksum_from_file sha256 db =
     (case db of None \<Rightarrow> Inl OpenFailed | Some f \<Rightarrow> Inr (finalize sha256 (feed_blocks [] f)))"

section \<open>Snapshots\<close>

text \<open>
  \<^verbatim>\<open>decode_to_db\<close> writes a temporary file and renames it, so the output is either untouched (an
  error) or the complete new file (the second component).
\<close>

fun write_snapshot_pages :: "u32 \<Rightarrow> page_entry list \<Rightarrow> bytes \<Rightarrow> ltx_error + bytes" where
  "write_snapshot_pages page_size [] f = Inr f"
| "write_snapshot_pages page_size (p # ps) f =
     rbind (sqlite_page_offset (pid_u64 (pe_page_id p)) page_size) (\<lambda>off.
       write_snapshot_pages page_size ps (write_at off (pe_data p) f))"

definition write_snapshot_changeset_atomically :: "changeset \<Rightarrow> nat \<Rightarrow> ltx_error + bytes" where
  "write_snapshot_changeset_atomically cs db_size =
     write_snapshot_pages (ph_page_size (cs_header cs)) (cs_pages cs) (zeros db_size)"

definition decode_to_db :: "codec \<Rightarrow> (bytes \<Rightarrow> bytes) \<Rightarrow> bytes \<Rightarrow> ltx_error + (bytes \<times> apply_result)" where
  "decode_to_db cd sha256 data =
     rbind (decode_sqlite_changeset cd data) (\<lambda>cs.
     rbind (changeset_end_page_count cs) (\<lambda>epc.
       if epc \<noteq> None then Inl SnapshotWithMarker
       else rbind (validate_sqlite_page_size (ph_page_size (cs_header cs))) (\<lambda>page_size.
         let max_page = foldr max (map (\<lambda>p. unat (pid_u64 (pe_page_id p))) (cs_pages cs)) 0;
             db_size = max_page * page_size
         in if 2 ^ 64 \<le> db_size then Inl SizeOverflow
            else if MAX_DECODED_DB_BYTES < db_size then Inl (ExceedsSafetyCap db_size)
            else rbind (write_snapshot_changeset_atomically cs db_size) (\<lambda>f.
              rbind (compute_checksum_from_file sha256 (Some f)) (\<lambda>actual.
                Inr (f, \<lparr>ar_header = cs_header cs, ar_checksum = actual\<rparr>))))))"

definition snapshot_pages :: "nat \<Rightarrow> nat \<Rightarrow> bytes \<Rightarrow> page_entry list" where
  "snapshot_pages ps n f = map (\<lambda>i. \<lparr>pe_page_id = PageU32 (word_of_nat (i + 1)), pe_data = slice f (i * ps) ps\<rparr>) [0..<n]"

record encoded_snapshot =
  es_bytes :: bytes
  es_checksum :: u64

definition encode_snapshot_with_checksum ::
    "codec \<Rightarrow> (bytes \<Rightarrow> bytes) \<Rightarrow> bytes option \<Rightarrow> u32 \<Rightarrow> u64 \<Rightarrow> u64 \<Rightarrow> ltx_error + encoded_snapshot" where
  "encode_snapshot_with_checksum cd sha256 db page_size seq prev_checksum =
     rbind (validate_sqlite_page_size page_size) (\<lambda>ps.
       case db of
         None \<Rightarrow> Inl OpenFailed
       | Some f \<Rightarrow>
           if length f mod ps \<noteq> 0 then Inl (NotPageMultiple (length f) page_size)
           else let num_pages = length f div ps in
             if 2 ^ 32 - 1 < num_pages then Inl (TooManyPages num_pages)
             else let pages = snapshot_pages ps num_pages f;
                      cs = c_new cd seq prev_checksum IdU32 page_size pages
               in Inr \<lparr>es_bytes = c_encode cd cs, es_checksum = finalize sha256 (concat (map pe_data pages))\<rparr>)"

definition encode_snapshot :: "codec \<Rightarrow> (bytes \<Rightarrow> bytes) \<Rightarrow> bytes option \<Rightarrow> u32 \<Rightarrow> u64 \<Rightarrow> u64 \<Rightarrow> ltx_error + bytes" where
  "encode_snapshot cd sha256 db page_size seq prev_checksum =
     map_sum id es_bytes (encode_snapshot_with_checksum cd sha256 db page_size seq prev_checksum)"

section \<open>Incremental changesets\<close>

definition wal_entries :: "(u32 \<times> bytes) list \<Rightarrow> page_entry list" where
  "wal_entries pages = map (\<lambda>(n, d). \<lparr>pe_page_id = PageU32 n, pe_data = d\<rparr>) pages"

fun check_wal_pages :: "u32 \<Rightarrow> u64 \<Rightarrow> (u32 \<times> bytes) list \<Rightarrow> ltx_error + unit" where
  "check_wal_pages page_size epc [] = Inr ()"
| "check_wal_pages page_size epc ((n, d) # ps) =
     (if n = 0 then Inl PageNumberZero
      else if epc < ucast n then Inl (PagePastEnd (ucast n) epc)
      else if length d \<noteq> unat page_size then Inl (PageLength (ucast n) (length d))
      else check_wal_pages page_size epc ps)"

definition encode_wal_changes_inner ::
    "codec \<Rightarrow> (u32 \<times> bytes) list \<Rightarrow> u32 \<Rightarrow> u64 \<Rightarrow> u64 \<Rightarrow> u64 option \<Rightarrow> ltx_error + (bytes \<times> u64)" where
  "encode_wal_changes_inner cd pages page_size seq prev_checksum end_page_count =
     rbind (validate_sqlite_page_size page_size) (\<lambda>_.
     rbind (case end_page_count of
              None \<Rightarrow> Inr (wal_entries pages)
            | Some epc \<Rightarrow>
                if epc = 0 then Inl EndPageCountZero
                else if 2 ^ 32 - 1 \<le> unat epc then Inl (EndPageCountTooLarge epc)
                else rbind (check_wal_pages page_size epc pages) (\<lambda>_.
                  Inr (wal_entries pages @ [\<lparr>pe_page_id = PageU32 (ucast (epc + 1)), pe_data = []\<rparr>])))
       (\<lambda>entries.
         let cs0 = c_new cd seq prev_checksum IdU32 page_size entries;
             cs = (if end_page_count \<noteq> None
                   then cs0\<lparr>cs_header := (cs_header cs0)\<lparr>ph_flags := or (ph_flags (cs_header cs0)) FLAG_END_PAGE_COUNT_MARKER\<rparr>\<rparr>
                   else cs0)
         in Inr (c_encode cd cs, cs_checksum cs)))"

definition encode_wal_changes :: "codec \<Rightarrow> (u32 \<times> bytes) list \<Rightarrow> u32 \<Rightarrow> u64 \<Rightarrow> u64 \<Rightarrow> ltx_error + (bytes \<times> u64)" where
  "encode_wal_changes cd pages page_size seq prev_checksum =
     encode_wal_changes_inner cd pages page_size seq prev_checksum None"

definition encode_wal_changes_with_end_page_count ::
    "codec \<Rightarrow> (u32 \<times> bytes) list \<Rightarrow> u32 \<Rightarrow> u64 \<Rightarrow> u64 \<Rightarrow> u64 \<Rightarrow> ltx_error + (bytes \<times> u64)" where
  "encode_wal_changes_with_end_page_count cd pages page_size seq prev_checksum end_page_count =
     encode_wal_changes_inner cd pages page_size seq prev_checksum (Some end_page_count)"

definition chain_checksum :: "codec \<Rightarrow> u64 \<Rightarrow> (u32 \<times> bytes) list \<Rightarrow> u64" where
  "chain_checksum cd prev pages = c_compute_checksum cd prev IdU32 (wal_entries pages)"

section \<open>Databases as page lists\<close>

text \<open>
  The abstract view of a database file: the list of its pages.  \<open>set_page\<close> and \<open>resize\<close> are what a
  page write and a length change do to it.
\<close>

definition page_list :: "nat \<Rightarrow> bytes list \<Rightarrow> bool" where
  "page_list ps L \<longleftrightarrow> (\<forall>p\<in>set L. length p = ps)"

definition resize :: "nat \<Rightarrow> nat \<Rightarrow> bytes list \<Rightarrow> bytes list" where
  "resize ps n L = take n L @ replicate (n - length L) (zeros ps)"

definition set_page :: "nat \<Rightarrow> nat \<Rightarrow> bytes \<Rightarrow> bytes list \<Rightarrow> bytes list" where
  "set_page ps k d L = (resize ps (max (Suc k) (length L)) L)[k := d]"

lemma length_zeros [simp]: "length (zeros n) = n"
  by (simp add: zeros_def)

lemma zeros_add: "zeros (m + n) = zeros m @ zeros n"
  by (simp add: zeros_def replicate_add)

lemma concat_zeros: "concat (replicate n (zeros ps)) = zeros (n * ps)"
  by (induction n) (simp_all add: zeros_add, simp add: zeros_def)

lemma length_concat_pages: "page_list ps L \<Longrightarrow> length (concat L) = length L * ps"
  by (induction L) (simp_all add: page_list_def)

lemma take_concat_pages: "page_list ps L \<Longrightarrow> take (n * ps) (concat L) = concat (take n L)"
proof (induction L arbitrary: n)
  case (Cons p L)
  then show ?case by (cases n) (simp_all add: page_list_def)
qed simp

lemma drop_concat_pages: "page_list ps L \<Longrightarrow> drop (n * ps) (concat L) = concat (drop n L)"
proof (induction L arbitrary: n)
  case (Cons p L)
  then show ?case by (cases n) (simp_all add: page_list_def)
qed simp

lemma length_resize [simp]: "length (resize ps n L) = n"
  by (simp add: resize_def)

lemma page_list_resize: "page_list ps L \<Longrightarrow> page_list ps (resize ps n L)"
  by (auto simp: page_list_def resize_def dest: in_set_takeD)

lemma nth_resize: "i < n \<Longrightarrow> resize ps n L ! i = (if i < length L then L ! i else zeros ps)"
  by (auto simp: resize_def nth_append)

lemma set_len_concat: "page_list ps L \<Longrightarrow> set_len (n * ps) (concat L) = concat (resize ps n L)"
  by (simp add: set_len_def resize_def take_concat_pages length_concat_pages concat_zeros diff_mult_distrib)

lemma length_set_page [simp]: "length (set_page ps k d L) = max (Suc k) (length L)"
  by (simp add: set_page_def)

lemma page_list_set_page: "page_list ps L \<Longrightarrow> length d = ps \<Longrightarrow> page_list ps (set_page ps k d L)"
  using page_list_resize [of ps L] set_update_subset_insert [of "resize ps (max (Suc k) (length L)) L" k d]
  by (auto simp: page_list_def set_page_def)

lemma nth_set_page:
  "i < max (Suc k) (length L) \<Longrightarrow> set_page ps k d L ! i = (if i = k then d else if i < length L then L ! i else zeros ps)"
  by (auto simp: set_page_def nth_list_update nth_resize)

lemma write_at_concat:
  assumes "page_list ps L" "length d = ps" "0 < ps"
  shows "write_at (k * ps) d (concat L) = concat (set_page ps k d L)"
proof -
  have ne: "d \<noteq> []" using assms(2,3) by auto
  have len: "length (concat L) = length L * ps" by (rule length_concat_pages [OF assms(1)])
  show ?thesis
  proof (cases "k < length L")
    case True
    have "set_page ps k d L = take k L @ d # drop (Suc k) L"
      using True by (simp add: set_page_def resize_def max_def upd_conv_take_nth_drop)
    moreover have "k * ps + length d = Suc k * ps"
      using assms(2) by simp
    ultimately show ?thesis
      using ne len True take_concat_pages [OF assms(1), of k] drop_concat_pages [OF assms(1), of "Suc k"]
      by (simp add: write_at_def zeros_def add.commute)
  next
    case False
    then have "set_page ps k d L = L @ replicate (k - length L) (zeros ps) @ [d]"
      by (simp add: set_page_def resize_def max_def list_update_append replicate_append_same [symmetric] Suc_diff_le)
    moreover have "length L * ps \<le> k * ps + length d" using False by (intro trans_le_add1 mult_le_mono1) simp
    ultimately show ?thesis
      using ne len False by (simp add: write_at_def concat_zeros diff_mult_distrib)
  qed
qed

lemma feed_blocks_all: "feed_blocks fed rest = fed @ rest"
proof (induction fed rest rule: feed_blocks.induct)
  case (1 fed rest)
  then show ?case
    by (subst feed_blocks.simps) auto
qed

section \<open>Validation, characterised\<close>

definition SQLITE_PAGE_SIZES :: "u32 set" where
  "SQLITE_PAGE_SIZES = {512, 1024, 2048, 4096, 8192, 16384, 32768, 65536}"

lemma is_power_of_two_iff:
  "is_power_of_two p \<longleftrightarrow> p \<in> {1, 2, 4, 8, 16, 32, 64, 128, 256, 512, 1024, 2048, 4096, 8192, 16384, 32768, 65536,
     131072, 262144, 524288, 1048576, 2097152, 4194304, 8388608, 16777216, 33554432, 67108864, 134217728,
     268435456, 536870912, 1073741824, 2147483648}"
  by (simp add: is_power_of_two_def upt_rec push_bit_eq_mult)

lemma validate_page_size_iff:
  "validate_sqlite_page_size p = (if p \<in> SQLITE_PAGE_SIZES then Inr (unat p) else Inl (InvalidPageSize p))"
proof -
  have "\<not> (512::u32) \<le> 1" by (simp add: word_le_nat_alt)
  then show ?thesis
    unfolding validate_sqlite_page_size_def is_power_of_two_iff SQLITE_PAGE_SIZES_def MIN_SQLITE_PAGE_SIZE_def MAX_SQLITE_PAGE_SIZE_def
    by auto
qed

lemma page_size_bounds: "p \<in> SQLITE_PAGE_SIZES \<Longrightarrow> 512 \<le> unat p \<and> unat p \<le> 65536"
  by (auto simp: SQLITE_PAGE_SIZES_def)

text \<open>Every entry carries a 32-bit page id, as the decoder yields for a 32-bit id size.\<close>

definition ids_u32 :: "page_entry list \<Rightarrow> bool" where
  "ids_u32 pages \<longleftrightarrow> (\<forall>p\<in>set pages. \<exists>v. pe_page_id p = PageU32 v)"

lemma pid_u64_u32: "pe_page_id p = PageU32 v \<Longrightarrow> unat (pid_u64 (pe_page_id p)) = unat v"
  by (simp add: unat_ucast_u32)

lemma pid_bound: "ids_u32 pages \<Longrightarrow> p \<in> set pages \<Longrightarrow> unat (pid_u64 (pe_page_id p)) < 2 ^ 32"
proof -
  assume "ids_u32 pages" "p \<in> set pages"
  then obtain v where "pe_page_id p = PageU32 v" by (auto simp: ids_u32_def)
  then show ?thesis using unat_u32_less [of v] by (simp add: unat_ucast_u32)
qed

lemma sqlite_page_offset_ok:
  assumes "ps \<in> SQLITE_PAGE_SIZES" "n \<noteq> 0" "unat n < 2 ^ 32"
  shows "sqlite_page_offset n ps = Inr ((unat n - 1) * unat ps)"
proof -
  have "(unat n - 1) * unat ps \<le> 2 ^ 32 * 65536"
    using page_size_bounds [OF assms(1)] assms(3) by (intro mult_le_mono) auto
  then have "\<not> 2 ^ 64 \<le> (unat n - 1) * unat ps"
    by (simp add: not_le)
  with assms(1,2) show ?thesis
    by (simp add: sqlite_page_offset_def validate_page_size_iff Let_def)
qed

definition end_pages_ok :: "nat \<Rightarrow> u64 option \<Rightarrow> page_entry list \<Rightarrow> bool" where
  "end_pages_ok ps epc pages \<longleftrightarrow>
     (\<forall>p\<in>set pages. pid_u64 (pe_page_id p) \<noteq> 0 \<and>
        (pe_data p \<noteq> [] \<longrightarrow> length (pe_data p) = ps \<and> (case epc of Some e \<Rightarrow> pid_u64 (pe_page_id p) \<le> e | None \<Rightarrow> True)))"

lemma validate_pages_iff: "validate_pages ps epc pages = Inr () \<longleftrightarrow> end_pages_ok ps epc pages"
  by (induction pages) (auto simp: end_pages_ok_def Let_def not_less split: option.splits)

lemma validate_ok_iff:
  "validate_sqlite_changeset cs = Inr () \<longleftrightarrow>
     ph_page_size (cs_header cs) \<in> SQLITE_PAGE_SIZES \<and>
     and (ph_flags (cs_header cs)) (not FLAG_END_PAGE_COUNT_MARKER) = 0 \<and>
     ph_page_id_size (cs_header cs) = IdU32 \<and>
     unat (ph_page_count (cs_header cs)) = length (cs_pages cs) \<and>
     (\<exists>epc. changeset_end_page_count cs = Inr epc \<and> end_pages_ok (unat (ph_page_size (cs_header cs))) epc (cs_pages cs))"
  by (auto simp: validate_sqlite_changeset_def validate_page_size_iff validate_pages_iff)

section \<open>Applying a changeset\<close>

fun set_pages :: "nat \<Rightarrow> page_entry list \<Rightarrow> bytes list \<Rightarrow> bytes list" where
  "set_pages ps [] L = L"
| "set_pages ps (p # pages) L =
     set_pages ps pages
       (if pe_data p = [] then L else set_page ps (unat (pid_u64 (pe_page_id p)) - 1) (pe_data p) L)"

lemma write_pages_set_pages:
  assumes "psz \<in> SQLITE_PAGE_SIZES" "ids_u32 pages" "end_pages_ok (unat psz) epc pages" "page_list (unat psz) L"
  shows "write_pages psz pages (concat L) = Inr (concat (set_pages (unat psz) pages L)) \<and> page_list (unat psz) (set_pages (unat psz) pages L)"
  using assms(2-4)
proof (induction pages arbitrary: L)
  case (Cons p pages)
  have tl: "ids_u32 pages" "end_pages_ok (unat psz) epc pages"
    using Cons.prems by (simp_all add: ids_u32_def end_pages_ok_def)
  show ?case
  proof (cases "pe_data p = []")
    case True
    with Cons.IH [OF tl Cons.prems(3)] show ?thesis by simp
  next
    case False
    let ?k = "unat (pid_u64 (pe_page_id p)) - 1"
    have p: "pid_u64 (pe_page_id p) \<noteq> 0" "length (pe_data p) = unat psz" "unat (pid_u64 (pe_page_id p)) < 2 ^ 32"
      using Cons.prems False pid_bound [OF Cons.prems(1), of p] by (simp_all add: end_pages_ok_def)
    have off: "sqlite_page_offset (pid_u64 (pe_page_id p)) psz = Inr (?k * unat psz)"
      by (rule sqlite_page_offset_ok [OF assms(1) p(1,3)])
    have pos: "0 < unat psz" using page_size_bounds [OF assms(1)] by simp
    show ?thesis
      using False off write_at_concat [OF Cons.prems(3) p(2) pos, of ?k]
        Cons.IH [OF tl page_list_set_page [OF Cons.prems(3) p(2)], of ?k] by simp
  qed
qed simp

lemma epc_bound:
  assumes "ids_u32 pages" "end_marker_loop fl pages m = Inr (Some e)" "\<forall>x. m = Some x \<longrightarrow> unat x < 2 ^ 32"
  shows "unat e < 2 ^ 32"
  using assms
proof (induction pages arbitrary: m)
  case (Cons p pages)
  have tl: "ids_u32 pages" using Cons.prems(1) by (simp add: ids_u32_def)
  have "unat (pid_u64 (pe_page_id p) - 1) < 2 ^ 32" if "pid_u64 (pe_page_id p) \<noteq> 0"
    using pid_bound [OF Cons.prems(1), of p] that by (simp add: unat_minus_one)
  with Cons.prems(2,3) Cons.IH [OF tl] show ?case
    by (auto split: if_splits)
qed simp

text \<open>The database after a changeset, as page lists: all writes in order, then the declared size.\<close>

definition apply_spec :: "changeset \<Rightarrow> u64 option \<Rightarrow> bytes list \<Rightarrow> bytes list" where
  "apply_spec cs epc L =
     (let ps = unat (ph_page_size (cs_header cs)); L' = set_pages ps (cs_pages cs) L in
      case epc of None \<Rightarrow> L' | Some e \<Rightarrow> resize ps (unat e) L')"

lemma apply_decoded_refines:
  assumes ids: "ids_u32 (cs_pages cs)" and L: "page_list (unat (ph_page_size (cs_header cs))) L"
    and ok: "validate_sqlite_changeset cs = Inr ()" and epc: "changeset_end_page_count cs = Inr epc"
  shows "apply_decoded_changeset_to_db cs (Some (concat L)) = Inr (concat (apply_spec cs epc L)) \<and>
    page_list (unat (ph_page_size (cs_header cs))) (apply_spec cs epc L)"
proof -
  let ?psz = "ph_page_size (cs_header cs)"
  from ok epc have psz: "?psz \<in> SQLITE_PAGE_SIZES" and pages: "end_pages_ok (unat ?psz) epc (cs_pages cs)"
    by (auto simp: validate_ok_iff)
  note w = write_pages_set_pages [OF psz ids pages L]
  show ?thesis
  proof (cases epc)
    case None
    with ok epc w show ?thesis
      by (simp add: apply_decoded_changeset_to_db_def apply_spec_def Let_def)
  next
    case (Some e)
    have "unat e < 2 ^ 32"
      using epc Some ids epc_bound [of "cs_pages cs" "ph_flags (cs_header cs)" None e]
      by (auto simp: changeset_end_page_count_def split: if_splits)
    then have "unat e * unat ?psz \<le> 2 ^ 32 * 65536"
      using page_size_bounds [OF psz] by (intro mult_le_mono) auto
    then have "\<not> 2 ^ 64 \<le> unat e * unat ?psz" by (simp add: not_le)
    with ok epc w Some psz show ?thesis
      by (simp add: apply_decoded_changeset_to_db_def apply_spec_def Let_def validate_page_size_iff set_len_concat page_list_resize)
  qed
qed

definition last_version :: "page_entry list \<Rightarrow> nat \<rightharpoonup> bytes" where
  "last_version pages =
     map_of (rev (map (\<lambda>p. (unat (pid_u64 (pe_page_id p)) - 1, pe_data p)) (filter (\<lambda>p. pe_data p \<noteq> []) pages)))"

definition top_page :: "page_entry list \<Rightarrow> nat \<Rightarrow> nat" where
  "top_page pages n = foldr max (map (\<lambda>p. unat (pid_u64 (pe_page_id p))) (filter (\<lambda>p. pe_data p \<noteq> []) pages)) n"

lemma last_version_Cons:
  "last_version (p # pages) i =
     (case last_version pages i of
        Some d \<Rightarrow> Some d
      | None \<Rightarrow> if pe_data p \<noteq> [] \<and> i = unat (pid_u64 (pe_page_id p)) - 1 then Some (pe_data p) else None)"
  by (auto simp: last_version_def map_add_def split: option.splits)

lemma foldr_max: "foldr max xs (max m n) = max m (foldr max xs (n::nat))"
  by (induction xs) auto

lemma set_pages_spec:
  assumes "\<forall>p\<in>set pages. pid_u64 (pe_page_id p) \<noteq> 0"
  shows "length (set_pages ps pages L) = top_page pages (length L) \<and>
    (\<forall>i<top_page pages (length L). set_pages ps pages L ! i =
       (case last_version pages i of Some d \<Rightarrow> d | None \<Rightarrow> if i < length L then L ! i else zeros ps))"
  using assms
proof (induction pages arbitrary: L)
  case Nil
  then show ?case by (simp add: top_page_def last_version_def)
next
  case (Cons p pages)
  show ?case
  proof (cases "pe_data p = []")
    case True
    with Cons show ?thesis by (auto simp: last_version_Cons top_page_def split: option.splits)
  next
    case False
    let ?n = "unat (pid_u64 (pe_page_id p))"
    let ?L = "set_page ps (?n - 1) (pe_data p) L"
    have n: "Suc (?n - 1) = ?n"
      using Cons.prems by (simp add: unat_gt_0)
    have top: "top_page (p # pages) (length L) = top_page pages (length ?L)"
      using False n by (simp add: top_page_def foldr_max)
    have IH: "length (set_pages ps pages ?L) = top_page pages (length ?L)"
      "\<forall>i<top_page pages (length ?L). set_pages ps pages ?L ! i =
        (case last_version pages i of Some d \<Rightarrow> d | None \<Rightarrow> if i < length ?L then ?L ! i else zeros ps)"
      using Cons.IH [of ?L] Cons.prems by auto
    have old: "(if i < length ?L then ?L ! i else zeros ps) =
        (if i = ?n - 1 then pe_data p else if i < length L then L ! i else zeros ps)" for i
      using nth_set_page [of i "?n - 1" L ps "pe_data p"] by auto
    have "set_pages ps (p # pages) L ! i =
        (case last_version (p # pages) i of Some d \<Rightarrow> d | None \<Rightarrow> if i < length L then L ! i else zeros ps)"
      if "i < top_page pages (length ?L)" for i
    proof (cases "last_version pages i")
      case None
      have "set_pages ps (p # pages) L ! i = (if i < length ?L then ?L ! i else zeros ps)"
        using IH(2) that None False by simp
      then show ?thesis
        unfolding old using None False by (simp add: last_version_Cons)
    next
      case (Some d)
      with IH(2) that False show ?thesis by (simp add: last_version_Cons)
    qed
    with IH(1) top False show ?thesis by simp
  qed
qed

lemma top_page_le: "\<forall>p\<in>set pages. pe_data p \<noteq> [] \<longrightarrow> unat (pid_u64 (pe_page_id p)) \<le> m \<Longrightarrow> n \<le> m \<Longrightarrow> top_page pages n \<le> m"
  by (induction pages) (auto simp: top_page_def)

lemma top_page_ge: "n \<le> top_page pages n"
  by (induction pages) (auto simp: top_page_def)

lemma top_page_mem: "p \<in> set pages \<Longrightarrow> pe_data p \<noteq> [] \<Longrightarrow> unat (pid_u64 (pe_page_id p)) \<le> top_page pages n"
  by (induction pages) (auto simp: top_page_def)

lemma last_version_page: "last_version pages i = Some d \<Longrightarrow> \<exists>p\<in>set pages. pe_data p = d \<and> d \<noteq> [] \<and> i = unat (pid_u64 (pe_page_id p)) - 1"
  unfolding last_version_def by (drule map_of_SomeD) auto

lemma apply_spec_pages:
  assumes "end_pages_ok ps epc (cs_pages cs)" "ps = unat (ph_page_size (cs_header cs))"
  shows "length (apply_spec cs epc L) = (case epc of Some e \<Rightarrow> unat e | None \<Rightarrow> top_page (cs_pages cs) (length L)) \<and>
    (\<forall>i<length (apply_spec cs epc L). apply_spec cs epc L ! i =
       (case last_version (cs_pages cs) i of Some d \<Rightarrow> d | None \<Rightarrow> if i < length L then L ! i else zeros ps))"
proof -
  let ?pages = "cs_pages cs"
  have nz: "\<forall>p\<in>set ?pages. pid_u64 (pe_page_id p) \<noteq> 0"
    using assms(1) by (simp add: end_pages_ok_def)
  note S = set_pages_spec [OF nz, of ps L]
  show ?thesis
  proof (cases epc)
    case None
    with S assms(2) show ?thesis by (simp add: apply_spec_def Let_def)
  next
    case (Some e)
    let ?L = "set_pages ps ?pages L"
    have beyond: "last_version ?pages i = None" if "\<not> i < length ?L" for i
    proof (rule ccontr)
      assume "last_version ?pages i \<noteq> None"
      then obtain d where "last_version ?pages i = Some d" by blast
      from last_version_page [OF this] obtain p where p: "p \<in> set ?pages" "pe_data p \<noteq> []" "i = unat (pid_u64 (pe_page_id p)) - 1"
        by auto
      have "unat (pid_u64 (pe_page_id p)) \<noteq> 0"
        using p(1) nz by (simp add: unat_eq_0)
      then have "i < unat (pid_u64 (pe_page_id p))" using p(3) by simp
      with top_page_mem [OF p(1,2), of "length L"] that S show False by simp
    qed
    have "apply_spec cs epc L ! i = (case last_version ?pages i of Some d \<Rightarrow> d | None \<Rightarrow> if i < length L then L ! i else zeros ps)"
      if "i < unat e" for i
    proof (cases "i < length ?L")
      case True
      with S Some that assms(2) show ?thesis
        by (simp add: apply_spec_def Let_def nth_resize)
    next
      case False
      have "length L \<le> length ?L"
        using S top_page_ge by simp
      with False beyond [OF False] Some that assms(2) show ?thesis
        by (simp add: apply_spec_def Let_def nth_resize)
    qed
    with Some show ?thesis by (simp add: apply_spec_def Let_def)
  qed
qed

text \<open>
  Claim C22: applying a valid changeset to a database always succeeds and has exactly the intended
  effect: the file then has the declared number of pages (without a declared size: the old pages
  extended to the highest page written), every page the changeset carries has its last version,
  every other page is unchanged, and pages that did not exist are zero.
\<close>

theorem apply_changeset_functional:
  assumes "ids_u32 (cs_pages cs)" and "validate_sqlite_changeset cs = Inr ()"
    and "page_list (unat (ph_page_size (cs_header cs))) L"
  shows "\<exists>epc L'. changeset_end_page_count cs = Inr epc \<and>
    apply_decoded_changeset_to_db cs (Some (concat L)) = Inr (concat L') \<and>
    page_list (unat (ph_page_size (cs_header cs))) L' \<and>
    length L' = (case epc of Some e \<Rightarrow> unat e | None \<Rightarrow> top_page (cs_pages cs) (length L)) \<and>
    (\<forall>i<length L'. L' ! i =
       (case last_version (cs_pages cs) i of
          Some d \<Rightarrow> d
        | None \<Rightarrow> if i < length L then L ! i else zeros (unat (ph_page_size (cs_header cs)))))"
proof -
  from assms(2) obtain epc where epc: "changeset_end_page_count cs = Inr epc"
    and ok: "end_pages_ok (unat (ph_page_size (cs_header cs))) epc (cs_pages cs)"
    by (auto simp: validate_ok_iff)
  from apply_decoded_refines [OF assms(1,3,2) epc] apply_spec_pages [OF ok refl, of L] epc
  show ?thesis by blast
qed

section \<open>Encoding\<close>

text \<open>
  What the encoders rely on of the codec for one changeset: decoding inverts encoding, and the
  encoded bytes carry the id size, page size and page count at the documented offsets and hold
  all pages.
\<close>

definition codec_roundtrips :: "codec \<Rightarrow> changeset \<Rightarrow> bool" where
  "codec_roundtrips cd cs \<longleftrightarrow>
     (let b = c_encode cd cs; plen = pid_len (ph_page_id_size (cs_header cs)) in
      c_decode cd b = Inr cs \<and>
      length b = HADBP_HEADER_SIZE + sum_list (map (\<lambda>p. plen + 4 + length (pe_data p)) (cs_pages cs)) + HADBP_TRAILER_SIZE \<and>
      b ! 7 = word_of_nat plen \<and>
      u32_from_be (slice b 8 4) = ph_page_size (cs_header cs) \<and>
      u32_from_be (slice b 28 4) = ph_page_count (cs_header cs))"

text \<open>\<^verbatim>\<open>PhysicalChangeset::new\<close>: a header without flags that counts the pages, which it may reorder.\<close>

definition new_changeset_ok :: "codec \<Rightarrow> u64 \<Rightarrow> u64 \<Rightarrow> u32 \<Rightarrow> page_entry list \<Rightarrow> bool" where
  "new_changeset_ok cd seq prev psz entries \<longleftrightarrow>
     (let cs = c_new cd seq prev IdU32 psz entries; h = cs_header cs in
      ph_flags h = 0 \<and> ph_page_id_size h = IdU32 \<and> ph_page_size h = psz \<and> ph_seq h = seq \<and>
      ph_prev_checksum h = prev \<and> ph_page_count h = word_of_nat (length entries) \<and> mset (cs_pages cs) = mset entries)"

lemma preflight_encoded:
  assumes rt: "codec_roundtrips cd cs" and ids: "ph_page_id_size (cs_header cs) = IdU32"
    and psz: "ph_page_size (cs_header cs) \<in> SQLITE_PAGE_SIZES"
    and cnt: "unat (ph_page_count (cs_header cs)) = length (cs_pages cs)"
  shows "preflight_hadbp_header (c_encode cd cs) = Inr ()"
proof -
  let ?b = "c_encode cd cs"
  have b: "length ?b = HADBP_HEADER_SIZE + sum_list (map (\<lambda>p. 8 + length (pe_data p)) (cs_pages cs)) + HADBP_TRAILER_SIZE"
    "?b ! 7 = 4" "u32_from_be (slice ?b 8 4) = ph_page_size (cs_header cs)" "u32_from_be (slice ?b 28 4) = ph_page_count (cs_header cs)"
    using rt ids by (simp_all add: codec_roundtrips_def Let_def)
  have "length (cs_pages cs) * 8 \<le> sum_list (map (\<lambda>p. 8 + length (pe_data p)) (cs_pages cs))"
    by (induction "cs_pages cs" rule: list.induct) (auto simp: sum_list_addf sum_list_triv)
  then have "length (cs_pages cs) \<le> sum_list (map (\<lambda>p. 8 + length (pe_data p)) (cs_pages cs)) div 8"
    by simp
  with b cnt psz show ?thesis
    by (simp add: preflight_hadbp_header_def validate_page_size_iff Let_def)
qed

lemma decode_encoded:
  assumes "codec_roundtrips cd cs" and ok: "validate_sqlite_changeset cs = Inr ()"
  shows "decode_sqlite_changeset cd (c_encode cd cs) = Inr cs"
proof -
  have "preflight_hadbp_header (c_encode cd cs) = Inr ()"
    using assms by (intro preflight_encoded) (auto simp: validate_ok_iff)
  moreover have "c_decode cd (c_encode cd cs) = Inr cs"
    using assms(1) by (simp add: codec_roundtrips_def Let_def)
  ultimately show ?thesis
    using ok by (simp add: decode_sqlite_changeset_def)
qed

lemma pages_of_file:
  "length f = n * ps \<Longrightarrow> concat (map (\<lambda>i. slice f (i * ps) ps) [0..<n]) = f"
proof (induction n arbitrary: f)
  case (Suc n)
  have "concat (map (\<lambda>i. slice (take (n * ps) f) (i * ps) ps) [0..<n]) = take (n * ps) f"
    using Suc by simp
  moreover have "slice (take (n * ps) f) (i * ps) ps = slice f (i * ps) ps" if "i < n" for i
  proof -
    have "i * ps + ps \<le> n * ps" using that by (metis Suc_leI mult_Suc mult_le_mono1 add.commute)
    then show ?thesis by (simp add: slice_def drop_take min_def)
  qed
  ultimately have "concat (map (\<lambda>i. slice f (i * ps) ps) [0..<n]) = take (n * ps) f"
    by (metis (no_types, lifting) atLeastLessThan_iff map_eq_conv set_upt)
  moreover have "slice f (n * ps) ps = drop (n * ps) f"
    using Suc.prems by (simp add: slice_def)
  ultimately show ?case by simp
qed simp

lemma end_marker_loop_none: "\<forall>p\<in>set pages. pe_data p \<noteq> [] \<Longrightarrow> end_marker_loop fl pages m = Inr m"
  by (induction pages) auto

lemma write_snapshot_write_pages:
  "\<forall>p\<in>set pages. pe_data p \<noteq> [] \<Longrightarrow> write_snapshot_pages psz pages f = write_pages psz pages f"
  by (induction pages arbitrary: f) (auto simp: rbind_def split: sum.splits)

text \<open>With distinct page numbers the order of the pages does not matter.\<close>

lemma last_version_distinct:
  assumes "distinct (map (\<lambda>p. unat (pid_u64 (pe_page_id p))) pages)" "\<forall>p\<in>set pages. pid_u64 (pe_page_id p) \<noteq> 0"
    and "p \<in> set pages" "pe_data p \<noteq> []"
  shows "last_version pages (unat (pid_u64 (pe_page_id p)) - 1) = Some (pe_data p)"
  using assms
proof (induction pages)
  case (Cons q pages)
  show ?case
  proof (cases "p = q")
    case True
    have "last_version pages (unat (pid_u64 (pe_page_id p)) - 1) = None"
    proof (rule ccontr)
      assume "last_version pages (unat (pid_u64 (pe_page_id p)) - 1) \<noteq> None"
      then obtain d where "last_version pages (unat (pid_u64 (pe_page_id p)) - 1) = Some d" by blast
      from last_version_page [OF this] obtain x where
        x: "x \<in> set pages" "unat (pid_u64 (pe_page_id p)) - 1 = unat (pid_u64 (pe_page_id x)) - 1" by blast
      moreover have "0 < unat (pid_u64 (pe_page_id p))" "0 < unat (pid_u64 (pe_page_id x))"
        using Cons.prems(2) x(1) True by (simp_all add: unat_gt_0)
      ultimately show False
        using Cons.prems(1) True by (auto simp: image_iff)
    qed
    with True Cons.prems(4) show ?thesis by (simp add: last_version_Cons)
  next
    case False
    with Cons show ?thesis by (simp add: last_version_Cons)
  qed
qed simp

lemma last_version_none:
  "last_version pages i = None \<longleftrightarrow> \<not> (\<exists>p\<in>set pages. pe_data p \<noteq> [] \<and> i = unat (pid_u64 (pe_page_id p)) - 1)"
  by (induction pages) (auto simp: last_version_Cons last_version_def split: option.splits)

lemma snapshot_page_ids:
  assumes "n < 2 ^ 32" "i < n"
  shows "unat (pid_u64 (PageU32 (word_of_nat (Suc i)))) = Suc i"
  using assms by (simp add: unat_ucast_u32 unat_of_nat del: of_nat_Suc)

lemma snapshot_pages_ok:
  assumes f: "length f = n * ps" "0 < ps" and n: "n < 2 ^ 32" and perm: "mset pages = mset (snapshot_pages ps n f)"
  shows "ids_u32 pages" "end_pages_ok ps None pages" "\<forall>p\<in>set pages. pe_data p \<noteq> []"
    "distinct (map (\<lambda>p. unat (pid_u64 (pe_page_id p))) pages)"
    "\<forall>i<n. last_version pages i = Some (slice f (i * ps) ps)"
    "foldr max (map (\<lambda>p. unat (pid_u64 (pe_page_id p))) pages) 0 = n"
proof -
  let ?pid = "\<lambda>p. unat (pid_u64 (pe_page_id p))"
  have set: "set pages = set (snapshot_pages ps n f)"
    using perm by (metis set_mset_mset)
  have len: "length (slice f (i * ps) ps) = ps" if "i < n" for i
  proof -
    have "i * ps + ps \<le> n * ps" using that by (metis Suc_leI mult_Suc mult_le_mono1 add.commute)
    with f(1) show ?thesis by simp
  qed
  have mem: "p \<in> set pages \<longleftrightarrow> (\<exists>i<n. p = \<lparr>pe_page_id = PageU32 (word_of_nat (i + 1)), pe_data = slice f (i * ps) ps\<rparr>)" for p
    unfolding set snapshot_pages_def by auto
  have pid: "?pid p = Suc i" if "i < n" "p = \<lparr>pe_page_id = PageU32 (word_of_nat (i + 1)), pe_data = slice f (i * ps) ps\<rparr>" for p i
    using snapshot_page_ids [OF n that(1)] that(2) by simp
  show ids: "ids_u32 pages" by (auto simp: ids_u32_def mem)
  have nz: "\<forall>p\<in>set pages. pid_u64 (pe_page_id p) \<noteq> 0"
    using pid by (metis mem nat.distinct(1) unat_0)
  have ne: "slice f (i * ps) ps \<noteq> []" if "i < n" for i
    using len [OF that] f(2) by (metis less_not_refl list.size(3))
  then show "\<forall>p\<in>set pages. pe_data p \<noteq> []"
    by (auto simp: mem)
  then show "end_pages_ok ps None pages"
    using nz len by (auto simp: end_pages_ok_def mem)
  have "distinct (map ?pid (snapshot_pages ps n f))"
  proof -
    have "map ?pid (snapshot_pages ps n f) = map Suc [0..<n]"
      using snapshot_page_ids [OF n] by (simp add: snapshot_pages_def)
    then show ?thesis by (simp add: distinct_map)
  qed
  moreover have "mset (map ?pid pages) = mset (map ?pid (snapshot_pages ps n f))"
    using perm by simp
  ultimately show dist: "distinct (map ?pid pages)"
    by (metis mset_eq_imp_distinct_iff)
  show "\<forall>i<n. last_version pages i = Some (slice f (i * ps) ps)"
  proof (intro allI impI)
    fix i
    assume i: "i < n"
    let ?p = "\<lparr>pe_page_id = PageU32 (word_of_nat (i + 1)), pe_data = slice f (i * ps) ps\<rparr>"
    have "?p \<in> set pages" using i mem by blast
    moreover have "pe_data ?p \<noteq> []" using ne [OF i] by simp
    ultimately show "last_version pages i = Some (slice f (i * ps) ps)"
      using last_version_distinct [OF dist nz, of ?p] pid [OF i refl] by simp
  qed
  have fold: "foldr max xs 0 = (if xs = [] then 0 else Max (set xs))" for xs :: "nat list"
    by (induction xs) (auto simp: max_def)
  have "set (map ?pid pages) = Suc ` {..<n}"
  proof (intro equalityI subsetI)
    fix x
    assume "x \<in> set (map ?pid pages)"
    then obtain p where "p \<in> set pages" "x = ?pid p" by auto
    moreover from this(1) obtain i where "i < n" "p = \<lparr>pe_page_id = PageU32 (word_of_nat (i + 1)), pe_data = slice f (i * ps) ps\<rparr>"
      unfolding mem by blast
    ultimately show "x \<in> Suc ` {..<n}" using pid by blast
  next
    fix x
    assume "x \<in> Suc ` {..<n}"
    then obtain i where i: "i < n" "x = Suc i" by auto
    let ?p = "\<lparr>pe_page_id = PageU32 (word_of_nat (i + 1)), pe_data = slice f (i * ps) ps\<rparr>"
    have "?p \<in> set pages" using i(1) mem by blast
    moreover have "?pid ?p = x" using pid [OF i(1) refl] i(2) by simp
    ultimately show "x \<in> set (map ?pid pages)" unfolding set_map by (metis imageI)
  qed
  then show "foldr max (map ?pid pages) 0 = n"
    unfolding fold by (cases n) (auto intro!: Max_eqI)
qed

lemma decode_encoded_snapshot:
  assumes "encode_snapshot_with_checksum cd sha256 (Some f) psz seq prev = Inr es"
    and "new_changeset_ok cd seq prev psz (snapshot_pages (unat psz) (length f div unat psz) f)"
    and "codec_roundtrips cd (c_new cd seq prev IdU32 psz (snapshot_pages (unat psz) (length f div unat psz) f))"
    and "length f \<le> MAX_DECODED_DB_BYTES"
  shows "\<exists>r. decode_to_db cd sha256 (es_bytes es) = Inr (f, r) \<and> ar_checksum r = es_checksum es \<and>
    ph_seq (ar_header r) = seq \<and> ph_prev_checksum (ar_header r) = prev"
proof -
  define ps where "ps = unat psz"
  define n where "n = length f div ps"
  define cs where "cs = c_new cd seq prev IdU32 psz (snapshot_pages ps n f)"
  have psz: "psz \<in> SQLITE_PAGE_SIZES"
    using assms(1) by (auto simp: encode_snapshot_with_checksum_def validate_page_size_iff split: if_splits)
  then have pos: "0 < ps" using page_size_bounds by (force simp: ps_def)
  from assms(1) psz have mul: "length f mod ps = 0" and n: "n < 2 ^ 32"
    and es: "es = \<lparr>es_bytes = c_encode cd cs, es_checksum = finalize sha256 (concat (map pe_data (snapshot_pages ps n f)))\<rparr>"
    by (auto simp: encode_snapshot_with_checksum_def validate_page_size_iff ps_def n_def cs_def Let_def split: if_splits)
  then have len: "length f = n * ps" by (auto simp: n_def)
  have new: "ph_flags (cs_header cs) = 0" "ph_page_id_size (cs_header cs) = IdU32" "ph_page_size (cs_header cs) = psz"
    "ph_seq (cs_header cs) = seq" "ph_prev_checksum (cs_header cs) = prev"
    "ph_page_count (cs_header cs) = word_of_nat n" and perm: "mset (cs_pages cs) = mset (snapshot_pages ps n f)"
    using assms(2) by (simp_all add: new_changeset_ok_def Let_def cs_def n_def ps_def snapshot_pages_def)
  note P = snapshot_pages_ok [OF len pos n perm]
  have "length (cs_pages cs) = length (snapshot_pages ps n f)" using perm by (rule mset_eq_length)
  then have "length (cs_pages cs) = n" by (simp add: snapshot_pages_def)
  then have cnt: "unat (ph_page_count (cs_header cs)) = length (cs_pages cs)" using new(6) n by (simp add: unat_of_nat)
  have epc: "changeset_end_page_count cs = Inr None"
    using P(3) new(1) by (simp add: changeset_end_page_count_def end_marker_loop_none marker_flag_set_def)
  have valid: "validate_sqlite_changeset cs = Inr ()"
    using psz new(1-3) cnt epc P(2) by (auto simp: validate_ok_iff ps_def)
  have dec: "decode_sqlite_changeset cd (es_bytes es) = Inr cs"
    using decode_encoded [OF _ valid] assms(3) es by (simp add: cs_def n_def ps_def)
  have pl: "page_list ps (replicate n (zeros ps))" by (simp add: page_list_def)
  let ?L = "set_pages ps (cs_pages cs) (replicate n (zeros ps))"
  have wr: "write_snapshot_changeset_atomically cs (n * ps) = Inr (concat ?L)"
    using write_pages_set_pages [OF psz P(1) P(2) [unfolded ps_def] pl [unfolded ps_def]]
    by (simp add: write_snapshot_changeset_atomically_def write_snapshot_write_pages [OF P(3)] new(3) concat_zeros ps_def)
  have nz: "\<forall>p\<in>set (cs_pages cs). pid_u64 (pe_page_id p) \<noteq> 0" using P(2) by (simp add: end_pages_ok_def)
  have top: "top_page (cs_pages cs) n = n"
  proof -
    have "filter (\<lambda>p. pe_data p \<noteq> []) (cs_pages cs) = cs_pages cs" using P(3) by simp
    then have "top_page (cs_pages cs) n = foldr max (map (\<lambda>p. unat (pid_u64 (pe_page_id p))) (cs_pages cs)) (max n 0)"
      by (simp add: top_page_def)
    then show ?thesis unfolding foldr_max P(6) by simp
  qed
  have "?L = map (\<lambda>i. slice f (i * ps) ps) [0..<n]"
    using set_pages_spec [OF nz, of ps "replicate n (zeros ps)"] P(5) top by (intro nth_equalityI) simp_all
  then have cL: "concat ?L = f" using pages_of_file [OF len] by simp
  have chk: "es_checksum es = finalize sha256 f"
    using es pages_of_file [OF len] by (simp add: snapshot_pages_def comp_def)
  have small: "\<not> 2 ^ 64 \<le> n * ps" "\<not> MAX_DECODED_DB_BYTES < n * ps"
    using assms(4) len by (simp_all add: MAX_DECODED_DB_BYTES_def not_le)
  show ?thesis
    using dec epc psz P(6) small wr cL chk new(3-5)
    by (simp add: decode_to_db_def validate_page_size_iff Let_def compute_checksum_from_file_def feed_blocks_all ps_def [symmetric])
qed

text \<open>
  Claim C21: a snapshot restores the exact database: decoding what \<^verbatim>\<open>encode_snapshot_with_checksum\<close>
  produced writes back the identical file, and the checksum computed from the written file is the
  one returned at encoding, for every database up to the decoder's one-tebibyte cap.
\<close>

theorem snapshot_roundtrip:
  assumes "encode_snapshot_with_checksum cd sha256 (Some f) psz seq prev = Inr es"
    and "new_changeset_ok cd seq prev psz (snapshot_pages (unat psz) (length f div unat psz) f)"
    and "codec_roundtrips cd (c_new cd seq prev IdU32 psz (snapshot_pages (unat psz) (length f div unat psz) f))"
    and "length f \<le> MAX_DECODED_DB_BYTES"
  shows "\<exists>r. decode_to_db cd sha256 (es_bytes es) = Inr (f, r) \<and> ar_checksum r = es_checksum es \<and>
    ph_seq (ar_header r) = seq \<and> ph_prev_checksum (ar_header r) = prev"
  using assms by (rule decode_encoded_snapshot)

section \<open>Incremental changesets round trip\<close>

lemma end_marker_loop_filter: "end_marker_loop fl pages m = end_marker_loop fl (filter (\<lambda>p. pe_data p = []) pages) m"
  by (induction pages arbitrary: m) auto

lemma check_wal_pages_ok:
  "check_wal_pages psz epc pages = Inr () \<longleftrightarrow> (\<forall>(n, d)\<in>set pages. n \<noteq> 0 \<and> ucast n \<le> epc \<and> length d = unat psz)"
  by (induction pages) (auto simp: not_less split: if_splits)

lemma ucast_u32_eq_0: "(ucast (v :: u32) :: u64) = 0 \<longleftrightarrow> v = 0"
  by (metis unat_eq_zero unat_ucast_u32)

definition wal_marker :: "u64 \<Rightarrow> page_entry" where
  "wal_marker epc = \<lparr>pe_page_id = PageU32 (ucast (epc + 1)), pe_data = []\<rparr>"

lemma wal_marker_pid:
  assumes "unat epc < 2 ^ 32 - 1"
  shows "unat (pid_u64 (pe_page_id (wal_marker epc))) = unat epc + 1" "pid_u64 (pe_page_id (wal_marker epc)) - 1 = epc"
    "pid_u64 (pe_page_id (wal_marker epc)) \<noteq> 0"
proof -
  have "epc < (2 ^ 32 :: u64)" using assms by (simp add: word_less_nat_alt)
  then have suc: "unat (epc + 1) = unat epc + 1" by (rule unat_suc_le)
  have "unat (ucast (epc + 1) :: u32) = unat epc + 1"
    using assms suc by (simp add: unsigned_ucast_eq take_bit_nat_eq_self)
  then show u: "unat (pid_u64 (pe_page_id (wal_marker epc))) = unat epc + 1"
    by (simp add: wal_marker_def unat_ucast_u32)
  with suc have "pid_u64 (pe_page_id (wal_marker epc)) = epc + 1"
    by (metis word_unat_eq_iff)
  then show "pid_u64 (pe_page_id (wal_marker epc)) - 1 = epc" by simp
  show "pid_u64 (pe_page_id (wal_marker epc)) \<noteq> 0" using u by auto
qed

lemma wal_changeset_ok:
  assumes pages: "\<forall>(n, d)\<in>set pages. n \<noteq> 0 \<and> ucast n \<le> epc \<and> length d = ps" and ps: "0 < ps"
    and dist: "distinct (map fst pages)" and epc: "unat epc < 2 ^ 32 - 1"
    and perm: "mset qs = mset (wal_entries pages @ [wal_marker epc])"
  shows "ids_u32 qs" "end_pages_ok ps (Some epc) qs" "end_marker_loop fl qs None = (if marker_flag_set fl then Inr (Some epc) else end_marker_loop fl qs None)"
    "last_version qs i = map_of (map (\<lambda>(n, d). (unat n - 1, d)) pages) i"
proof -
  note mk = wal_marker_pid [OF epc]
  have set: "set qs = set (wal_entries pages) \<union> {wal_marker epc}"
    using perm by (metis set_mset_mset set_append list.set(1) list.set(2))
  have entry: "p \<in> set (wal_entries pages) \<longleftrightarrow> (\<exists>n d. (n, d) \<in> set pages \<and> p = \<lparr>pe_page_id = PageU32 n, pe_data = d\<rparr>)" for p
    by (auto simp: wal_entries_def)
  show "ids_u32 qs" by (auto simp: ids_u32_def set entry wal_marker_def)
  have ne: "pe_data p \<noteq> []" if "p \<in> set (wal_entries pages)" for p
    using that pages ps by (fastforce simp: entry)
  show ok: "end_pages_ok ps (Some epc) qs"
    unfolding end_pages_ok_def set using pages mk(3) by (auto simp: entry ucast_u32_eq_0) (auto simp: wal_marker_def)
  have "mset (filter (\<lambda>p. pe_data p = []) qs) = mset (filter (\<lambda>p. pe_data p = []) (wal_entries pages @ [wal_marker epc]))"
    using perm by (simp only: mset_filter)
  also have "filter (\<lambda>p. pe_data p = []) (wal_entries pages @ [wal_marker epc]) = [wal_marker epc]"
    using ne by (simp add: wal_marker_def)
  finally have "filter (\<lambda>p. pe_data p = []) qs = [wal_marker epc]"
    by (simp only: mset.simps mset_single_iff)
  then have "end_marker_loop fl qs None = end_marker_loop fl [wal_marker epc] None"
    by (subst end_marker_loop_filter) simp
  then show "end_marker_loop fl qs None = (if marker_flag_set fl then Inr (Some epc) else end_marker_loop fl qs None)"
    using mk by (simp add: wal_marker_def)
  let ?pid = "\<lambda>p. unat (pid_u64 (pe_page_id p))"
  have nz: "\<forall>p\<in>set qs. pid_u64 (pe_page_id p) \<noteq> 0" using ok by (simp add: end_pages_ok_def)
  have "map ?pid (wal_entries pages) = map (unat \<circ> fst) pages"
    by (auto simp: wal_entries_def unat_ucast_u32)
  then have "distinct (map ?pid (wal_entries pages))"
    using dist by (simp add: distinct_map inj_on_def word_unat_eq_iff)
  moreover have "?pid (wal_marker epc) \<notin> ?pid ` set (wal_entries pages)"
    using pages mk(1) by (fastforce simp: entry word_le_nat_alt)
  ultimately have "distinct (map ?pid (wal_entries pages @ [wal_marker epc]))" by simp
  moreover have "mset (map ?pid qs) = mset (map ?pid (wal_entries pages @ [wal_marker epc]))"
    using perm by simp
  ultimately have dq: "distinct (map ?pid qs)" by (metis mset_eq_imp_distinct_iff)
  show "last_version qs i = map_of (map (\<lambda>(n, d). (unat n - 1, d)) pages) i"
  proof (cases "map_of (map (\<lambda>(n, d). (unat n - 1, d)) pages) i")
    case None
    then have "\<not> (\<exists>p\<in>set qs. pe_data p \<noteq> [] \<and> i = ?pid p - 1)"
      by (force simp: set entry map_of_eq_None_iff unat_ucast_u32 wal_marker_def)
    with None show ?thesis by (simp add: last_version_none)
  next
    case (Some d)
    then obtain n where n: "(n, d) \<in> set pages" "i = unat n - 1" by (auto dest!: map_of_SomeD)
    then have "\<lparr>pe_page_id = PageU32 n, pe_data = d\<rparr> \<in> set qs" by (auto simp: set entry)
    from last_version_distinct [OF dq nz this] n ne [of "\<lparr>pe_page_id = PageU32 n, pe_data = d\<rparr>"] Some
    show ?thesis by (auto simp: entry unat_ucast_u32)
  qed
qed

lemma apply_encoded_changes:
  assumes "encode_wal_changes_with_end_page_count cd pages psz seq prev epc = Inr (b, c)"
    and "distinct (map fst pages)" and "page_list (unat psz) L"
    and "new_changeset_ok cd seq prev psz (wal_entries pages @ [wal_marker epc])"
    and "cs = (let cs0 = c_new cd seq prev IdU32 psz (wal_entries pages @ [wal_marker epc])
               in cs0\<lparr>cs_header := (cs_header cs0)\<lparr>ph_flags := 1\<rparr>\<rparr>)"
    and "codec_roundtrips cd cs" and "c_verify_chain cd prev cs" and "length pages < 2 ^ 32 - 1"
  shows "\<exists>L' r. apply_changeset_to_db cd b (Some (concat L)) prev = Inr (concat L', r) \<and>
    page_list (unat psz) L' \<and> length L' = unat epc \<and>
    (\<forall>i<unat epc. L' ! i =
       (case map_of (map (\<lambda>(n, d). (unat n - 1, d)) pages) i of
          Some d \<Rightarrow> d | None \<Rightarrow> if i < length L then L ! i else zeros (unat psz))) \<and>
    ar_checksum r = c \<and> ph_seq (ar_header r) = seq"
proof -
  note enc = assms(1) [unfolded encode_wal_changes_with_end_page_count_def encode_wal_changes_inner_def]
  have psz: "psz \<in> SQLITE_PAGE_SIZES"
    using enc by (auto simp: validate_page_size_iff split: if_splits)
  then have pos: "0 < unat psz" using page_size_bounds by force
  let ?E = "wal_entries pages @ [wal_marker epc]"
  let ?cs0 = "c_new cd seq prev IdU32 psz ?E"
  have new: "ph_flags (cs_header ?cs0) = 0" "ph_page_id_size (cs_header ?cs0) = IdU32" "ph_page_size (cs_header ?cs0) = psz"
    "ph_seq (cs_header ?cs0) = seq" "ph_page_count (cs_header ?cs0) = word_of_nat (length ?E)" "mset (cs_pages ?cs0) = mset ?E"
    using assms(4) by (simp_all add: new_changeset_ok_def Let_def)
  have cs: "cs_pages cs = cs_pages ?cs0" "cs_checksum cs = cs_checksum ?cs0"
      "cs_header cs = (cs_header ?cs0)\<lparr>ph_flags := 1\<rparr>"
    using assms(5) by (simp_all add: Let_def)
  from enc psz new(1) have chk: "check_wal_pages psz epc pages = Inr ()" and epc: "unat epc < 2 ^ 32 - 1"
    and b: "b = c_encode cd cs" and c: "c = cs_checksum ?cs0"
    using assms(5) by (auto simp: validate_page_size_iff wal_marker_def [symmetric] FLAG_END_PAGE_COUNT_MARKER_def Let_def not_le split: if_splits)
  note P = wal_changeset_ok [OF chk [unfolded check_wal_pages_ok] pos assms(2) epc, of "cs_pages cs", unfolded cs(1), OF new(6)]
  have len: "length (cs_pages cs) = Suc (length pages)"
    using mset_eq_length [OF new(6)] by (simp add: cs(1) wal_entries_def)
  have count: "unat (ph_page_count (cs_header cs)) = length (cs_pages cs)"
    unfolding len using new(5) assms(8) by (simp add: cs(3) wal_entries_def unat_of_nat del: of_nat_Suc)
  have fl: "marker_flag_set 1" by (simp add: marker_flag_set_def FLAG_END_PAGE_COUNT_MARKER_def)
  have ec: "changeset_end_page_count cs = Inr (Some epc)"
    using P(3) [of 1] fl by (simp add: changeset_end_page_count_def cs)
  have valid: "validate_sqlite_changeset cs = Inr ()"
    using psz new P(2) ec count by (simp add: validate_ok_iff cs FLAG_END_PAGE_COUNT_MARKER_def)
  have dec: "decode_sqlite_changeset cd b = Inr cs"
    unfolding b by (rule decode_encoded [OF assms(6) valid])
  have hp: "ph_page_size (cs_header cs) = psz" using new(3) by (simp add: cs)
  note A = apply_decoded_refines [OF P(1) [folded cs(1)] assms(3) [folded hp] valid ec]
  note S = apply_spec_pages [OF P(2) [folded cs(1)] hp [symmetric, THEN arg_cong], of L]
  show ?thesis
    using dec assms(7) A S P(4) c new(4) hp
    by (intro exI [of _ "apply_spec cs (Some epc) L"] exI [of _ "\<lparr>ar_header = cs_header cs, ar_checksum = cs_checksum cs\<rparr>"])
      (simp add: apply_changeset_to_db_def cs)
qed

text \<open>
  Claim C20: an incremental changeset written with an end page count does on the replica what the
  commit did on the primary: applying the encoded bytes yields a database of exactly
  \<open>end_page_count\<close> pages in which every encoded page has its new content, every other old page
  that still exists is unchanged and pages added without content are zero, and the reported
  checksum is the one the writer chained on.
\<close>

theorem wal_changes_roundtrip:
  assumes "encode_wal_changes_with_end_page_count cd pages psz seq prev epc = Inr (b, c)"
    and "distinct (map fst pages)" and "page_list (unat psz) L"
    and "new_changeset_ok cd seq prev psz (wal_entries pages @ [wal_marker epc])"
    and "cs = (let cs0 = c_new cd seq prev IdU32 psz (wal_entries pages @ [wal_marker epc])
               in cs0\<lparr>cs_header := (cs_header cs0)\<lparr>ph_flags := 1\<rparr>\<rparr>)"
    and "codec_roundtrips cd cs" and "c_verify_chain cd prev cs" and "length pages < 2 ^ 32 - 1"
  shows "\<exists>L' r. apply_changeset_to_db cd b (Some (concat L)) prev = Inr (concat L', r) \<and>
    page_list (unat psz) L' \<and> length L' = unat epc \<and>
    (\<forall>i<unat epc. L' ! i =
       (case map_of (map (\<lambda>(n, d). (unat n - 1, d)) pages) i of
          Some d \<Rightarrow> d | None \<Rightarrow> if i < length L then L ! i else zeros (unat psz))) \<and>
    ar_checksum r = c \<and> ph_seq (ar_header r) = seq"
  using assms by (rule apply_encoded_changes)

section \<open>Witnesses\<close>

text \<open>A one-page database of 512 zero bytes, and a codec that encodes its changesets.\<close>

definition demo_header :: "u8 \<Rightarrow> nat \<Rightarrow> physical_header" where
  "demo_header fl n =
     \<lparr>ph_flags = fl, ph_page_id_size = IdU32, ph_page_size = 512, ph_seq = 1, ph_prev_checksum = 0,
      ph_page_count = word_of_nat n, ph_created_ms = 0\<rparr>"

definition demo_changeset :: "page_entry list \<Rightarrow> changeset" where
  "demo_changeset pages = \<lparr>cs_header = demo_header 0 (length pages), cs_pages = pages, cs_checksum = 7\<rparr>"

definition demo_encode :: "changeset \<Rightarrow> bytes" where
  "demo_encode cs =
     [0, 0, 0, 0, 0, 1, 0, 4, 0, 0, 2, 0] @ zeros 16 @ u32_to_be (ph_page_count (cs_header cs)) @ zeros 8 @
     concat (map (\<lambda>p. zeros 8 @ pe_data p) (cs_pages cs)) @ zeros 8"

definition demo_codec :: "changeset \<Rightarrow> codec" where
  "demo_codec cs =
     \<lparr>c_decode = (\<lambda>_. Inr cs), c_encode = demo_encode, c_new = (\<lambda>_ _ _ _ pages. demo_changeset pages),
      c_verify_chain = (\<lambda>prev c. ph_prev_checksum (cs_header c) = prev), c_chain_end = cs_checksum,
      c_is_compacted = (\<lambda>_. False), c_compute_checksum = (\<lambda>_ _ _. 7)\<rparr>"

lemma demo_roundtrips:
  assumes "ph_page_id_size (cs_header cs) = IdU32" "ph_page_size (cs_header cs) = 512"
  shows "codec_roundtrips (demo_codec cs) cs"
proof -
  have "length (concat (map (\<lambda>p. zeros 8 @ pe_data p) pages)) = sum_list (map (\<lambda>p. 8 + length (pe_data p)) pages)" for pages
    by (induction pages) simp_all
  moreover have "u32_from_be [0, 0, 2, 0] = 512" by (simp add: u32_from_be_def be_nat_def)
  ultimately show ?thesis
    using assms
    by (simp add: codec_roundtrips_def demo_codec_def demo_encode_def Let_def HADBP_HEADER_SIZE_def HADBP_TRAILER_SIZE_def
        slice_def zeros_def numeral_eq_Suc)
qed

lemma demo_new_ok: "new_changeset_ok (demo_codec cs) 1 0 512 entries"
  by (simp add: new_changeset_ok_def demo_codec_def demo_changeset_def demo_header_def)

theorem snapshot_roundtrip_witness:
  "let entries = snapshot_pages 512 1 (zeros 512) in
   \<exists>es r. encode_snapshot_with_checksum (demo_codec (demo_changeset entries)) (\<lambda>b. b) (Some (zeros 512)) 512 1 0 = Inr es \<and>
     decode_to_db (demo_codec (demo_changeset entries)) (\<lambda>b. b) (es_bytes es) = Inr (zeros 512, r)"
proof -
  let ?E = "snapshot_pages 512 1 (zeros 512)"
  let ?cd = "demo_codec (demo_changeset ?E)"
  have u: "unat (512 :: u32) = 512" by simp
  obtain es where es: "encode_snapshot_with_checksum ?cd (\<lambda>b. b) (Some (zeros 512)) 512 1 0 = Inr es"
    by (simp add: encode_snapshot_with_checksum_def validate_page_size_iff SQLITE_PAGE_SIZES_def Let_def)
  have "c_new ?cd 1 0 IdU32 512 ?E = demo_changeset ?E" by (simp add: demo_codec_def)
  moreover have "codec_roundtrips ?cd (demo_changeset ?E)"
    by (rule demo_roundtrips) (simp_all add: demo_changeset_def demo_header_def)
  ultimately have "\<exists>r. decode_to_db ?cd (\<lambda>b. b) (es_bytes es) = Inr (zeros 512, r)"
    using snapshot_roundtrip [OF es] demo_new_ok by (simp add: u MAX_DECODED_DB_BYTES_def) blast
  with es show ?thesis unfolding Let_def by blast
qed

theorem apply_changeset_functional_witness:
  "let cs = demo_changeset [\<lparr>pe_page_id = PageU32 2, pe_data = replicate 512 1\<rparr>] in
   \<exists>L'. apply_decoded_changeset_to_db cs (Some (concat [zeros 512])) = Inr (concat L') \<and> length L' = 2 \<and>
     L' ! 0 = zeros 512 \<and> L' ! 1 = replicate 512 1"
proof -
  let ?cs = "demo_changeset [\<lparr>pe_page_id = PageU32 2, pe_data = replicate 512 1\<rparr>]"
  have "ids_u32 (cs_pages ?cs)" by (simp add: ids_u32_def demo_changeset_def)
  moreover have "validate_sqlite_changeset ?cs = Inr ()"
    by (simp add: validate_sqlite_changeset_def validate_page_size_iff SQLITE_PAGE_SIZES_def demo_changeset_def demo_header_def
        changeset_end_page_count_def marker_flag_set_def Let_def)
  moreover have "page_list (unat (ph_page_size (cs_header ?cs))) [zeros 512]"
    by (simp add: page_list_def demo_changeset_def demo_header_def)
  ultimately show ?thesis
    unfolding Let_def using apply_changeset_functional [of ?cs "[zeros 512]"]
    by (auto simp: demo_changeset_def demo_header_def changeset_end_page_count_def marker_flag_set_def top_page_def last_version_def)
qed

theorem wal_changes_roundtrip_witness:
  "let E = wal_entries [(1, replicate 512 1)] @ [wal_marker 2];
       cs = (demo_changeset E)\<lparr>cs_header := demo_header 1 2\<rparr>
   in \<exists>b c L' r. encode_wal_changes_with_end_page_count (demo_codec cs) [(1, replicate 512 1)] 512 1 0 2 = Inr (b, c) \<and>
     apply_changeset_to_db (demo_codec cs) b (Some (concat [zeros 512])) 0 = Inr (concat L', r) \<and> length L' = 2 \<and>
     L' ! 0 = replicate 512 1 \<and> L' ! 1 = zeros 512"
proof -
  let ?E = "wal_entries [(1, replicate 512 1)] @ [wal_marker 2]"
  let ?cs = "(demo_changeset ?E)\<lparr>cs_header := demo_header 1 2\<rparr>"
  let ?cd = "demo_codec ?cs"
  obtain b c where enc: "encode_wal_changes_with_end_page_count ?cd [(1, replicate 512 1)] 512 1 0 2 = Inr (b, c)"
    by (simp add: encode_wal_changes_with_end_page_count_def encode_wal_changes_inner_def validate_page_size_iff SQLITE_PAGE_SIZES_def Let_def
        word_less_nat_alt unat_ucast_u32)
  have cs: "?cs = (let cs0 = c_new ?cd 1 0 IdU32 512 ?E in cs0\<lparr>cs_header := (cs_header cs0)\<lparr>ph_flags := 1\<rparr>\<rparr>)"
    by (simp add: demo_codec_def demo_changeset_def demo_header_def wal_entries_def Let_def)
  have pl: "page_list (unat (512 :: u32)) [zeros 512]" by (simp add: page_list_def)
  have rt: "codec_roundtrips ?cd ?cs" by (rule demo_roundtrips) (simp_all add: demo_header_def)
  have vc: "c_verify_chain ?cd 0 ?cs" by (simp add: demo_codec_def demo_header_def)
  from wal_changes_roundtrip [OF enc _ pl demo_new_ok cs rt vc] enc show ?thesis
    unfolding Let_def by (fastforce simp: nth_Cons')
qed

end
