(* ===== verification/Merge.thy ===== *)
theory Merge
  imports Changeset Levels
begin

text \<open>
  The streaming k-way merge of compaction: the changeset header of
  \<^verbatim>\<open>compaction/layout.rs\<close> (\<^verbatim>\<open>SourceHeader\<close>, \<^verbatim>\<open>parse_source_header\<close>) and all of
  \<^verbatim>\<open>compaction/merge.rs\<close>.  A source stream is a handle of any type; reading from it is the
  operation \<open>nxt\<close>, which also threads the state of whatever it reads from, so that the same merge
  runs over storage (theory \<open>Layout\<close>) and over page lists.  The frontier heap is the list of its
  elements; a pop takes the least page id and, among equal ids, the least source index, which is
  the order \<^verbatim>\<open>HeapPage\<close> implements.  The loop is a \<open>partial_function\<close>: that it ends is proved.
  SHA-256 is a parameter; a hasher is the bytes fed to it.
\<close>

section \<open>Errors and headers\<close>

datatype compaction_error =
    EmptySourceSet
  | MixedGeometry string
  | NonContiguous nat
  | VerificationFailed string
  | OverlappingExisting layout_file
  | MalformedChangeset string string
  | BadRangeKey string
  | StorageError string

record source_header =
  sh_page_id_size :: page_id_size
  sh_page_size :: u32
  sh_seq :: u64
  sh_prev_checksum :: u64
  sh_page_count :: u32
  sh_created_ms :: int
  sh_declared_end :: "u64 option"

definition OFF_VERSION :: nat where "OFF_VERSION = 5"
definition OFF_FLAGS :: nat where "OFF_FLAGS = 6"
definition OFF_PAGE_ID_SIZE :: nat where "OFF_PAGE_ID_SIZE = 7"
definition OFF_PAGE_SIZE :: nat where "OFF_PAGE_SIZE = 8"
definition OFF_SEQ :: nat where "OFF_SEQ = 12"
definition OFF_PREV :: nat where "OFF_PREV = 20"
definition OFF_PAGE_COUNT :: nat where "OFF_PAGE_COUNT = 28"
definition OFF_CREATED :: nat where "OFF_CREATED = 32"
definition HEADER_V1_SIZE :: nat where "HEADER_V1_SIZE = 40"
definition DECLARED_FIELD :: nat where "DECLARED_FIELD = 8"
definition FLAG_COMPACTED :: u8 where "FLAG_COMPACTED = 0x80"

lemmas header_offsets = OFF_VERSION_def OFF_FLAGS_def OFF_PAGE_ID_SIZE_def OFF_PAGE_SIZE_def OFF_SEQ_def OFF_PREV_def
  OFF_PAGE_COUNT_def OFF_CREATED_def HEADER_V1_SIZE_def DECLARED_FIELD_def FLAG_COMPACTED_def

definition HADBP_MAGIC :: bytes where
  "HADBP_MAGIC = [0x48, 0x41, 0x44, 0x42, 0x50]"

definition i64_to_be :: "int \<Rightarrow> bytes" where
  "i64_to_be x = u64_to_be (word_of_int x)"

definition i64_from_be :: "bytes \<Rightarrow> int" where
  "i64_from_be bs = sint (u64_from_be bs)"

definition parse_source_header :: "bytes \<Rightarrow> compaction_error + source_header" where
  "parse_source_header head =
     (if length head < HEADER_V1_SIZE then Inl (MixedGeometry ''header truncated'')
      else if slice head 0 5 \<noteq> HADBP_MAGIC then Inl (MixedGeometry ''bad magic'')
      else let version = head ! OFF_VERSION; fl = head ! OFF_FLAGS in
        rbind (if version = 1 then Inr False
               else if version = 2 then
                 (if and fl FLAG_COMPACTED = 0 then Inl (MixedGeometry ''v2 without compacted flag'') else Inr True)
               else Inl (MixedGeometry ''unsupported version'')) (\<lambda>compacted.
        rbind (if head ! OFF_PAGE_ID_SIZE = 4 then Inr IdU32
               else if head ! OFF_PAGE_ID_SIZE = 8 then Inr IdU64
               else Inl (MixedGeometry ''bad page_id_size'')) (\<lambda>page_id_size.
        rbind (if compacted then
                 (if length head < HEADER_V1_SIZE + DECLARED_FIELD then Inl (MixedGeometry ''v2 header missing declared field'')
                  else Inr (Some (u64_from_be (slice head HEADER_V1_SIZE 8))))
               else Inr None) (\<lambda>declared_end.
          Inr \<lparr>sh_page_id_size = page_id_size,
               sh_page_size = u32_from_be (slice head OFF_PAGE_SIZE 4),
               sh_seq = u64_from_be (slice head OFF_SEQ 8),
               sh_prev_checksum = u64_from_be (slice head OFF_PREV 8),
               sh_page_count = u32_from_be (slice head OFF_PAGE_COUNT 4),
               sh_created_ms = i64_from_be (slice head OFF_CREATED 8),
               sh_declared_end = declared_end\<rparr>))))"

definition body_offset :: "source_header \<Rightarrow> nat" where
  "body_offset header = (if sh_declared_end header \<noteq> None then HEADER_V1_SIZE + DECLARED_FIELD else HEADER_V1_SIZE)"

section \<open>Pages on the wire\<close>

fun encode_page_id :: "page_id \<Rightarrow> bytes" where
  "encode_page_id (PageU32 v) = u32_to_be v"
| "encode_page_id (PageU64 v) = u64_to_be v"

definition page_bytes :: "page_entry \<Rightarrow> bytes" where
  "page_bytes p = encode_page_id (pe_page_id p) @ u32_to_be (word_of_nat (length (pe_data p))) @ pe_data p"

definition hash_source_page :: "page_id_size \<Rightarrow> page_entry \<Rightarrow> bytes" where
  "hash_source_page ids p =
     (case ids of IdU32 \<Rightarrow> u32_to_be (ucast (pid_u64 (pe_page_id p))) | IdU64 \<Rightarrow> u64_to_be (pid_u64 (pe_page_id p))) @
     u32_to_be (word_of_nat (length (pe_data p))) @ pe_data p"

definition should_emit :: "page_entry \<Rightarrow> u64 option \<Rightarrow> bool" where
  "should_emit page final_end_page_count \<longleftrightarrow>
     pe_data page \<noteq> [] \<and>
     (case final_end_page_count of Some epc \<Rightarrow> pid_u64 (pe_page_id page) \<le> epc | None \<Rightarrow> True)"

section \<open>The merge\<close>

record heap_page =
  hp_order :: nat
  hp_page :: page_entry

abbreviation hp_id :: "heap_page \<Rightarrow> page_id" where
  "hp_id h \<equiv> pe_page_id (hp_page h)"

definition hp_key :: "heap_page \<Rightarrow> u64 \<times> nat" where
  "hp_key h = (pid_u64 (hp_id h), hp_order h)"

definition heap_pop :: "heap_page list \<Rightarrow> (heap_page \<times> heap_page list) option" where
  "heap_pop heap = map_option (\<lambda>tp. (tp, remove1 tp heap)) (min_by_key hp_key heap)"

text \<open>\<^verbatim>\<open>PeakPages\<close>: the number of buffered pages and its high-water mark.\<close>

record peak_pages =
  pk_current :: nat
  pk_peak :: nat

definition peak_inc :: "peak_pages \<Rightarrow> peak_pages" where
  "peak_inc t = \<lparr>pk_current = pk_current t + 1, pk_peak = max (pk_peak t) (pk_current t + 1)\<rparr>"

definition peak_dec :: "peak_pages \<Rightarrow> peak_pages" where
  "peak_dec t = t\<lparr>pk_current := pk_current t - 1\<rparr>"

record ('s, 'h) merge_state =
  ms_store :: 's
  ms_streams :: "'h list"
  ms_hashers :: "bytes list"
  ms_final_epc :: "u64 option"
  ms_heap :: "heap_page list"
  ms_pending :: "heap_page option"
  ms_body :: bytes
  ms_count :: nat
  ms_tracker :: peak_pages

type_synonym ('s, 'h) next_page_op = "'s \<Rightarrow> 'h \<Rightarrow> 's \<times> (compaction_error + (page_entry \<times> 'h) option)"

text \<open>Reading the next page of source \<open>k\<close> of \<open>n\<close> into the frontier.\<close>

definition fetch_page ::
    "('s, 'h) next_page_op \<Rightarrow> page_id_size \<Rightarrow> nat \<Rightarrow> nat \<Rightarrow> ('s, 'h) merge_state \<Rightarrow> (compaction_error \<times> 's) + ('s, 'h) merge_state" where
  "fetch_page nxt ids n k st =
     (case nxt (ms_store st) (ms_streams st ! k) of
        (s', Inl e) \<Rightarrow> Inl (e, s')
      | (s', Inr None) \<Rightarrow> Inr (st\<lparr>ms_store := s'\<rparr>)
      | (s', Inr (Some (page, h'))) \<Rightarrow>
          Inr (st\<lparr>ms_store := s',
                  ms_streams := (ms_streams st)[k := h'],
                  ms_hashers := (ms_hashers st)[k := ms_hashers st ! k @ hash_source_page ids page],
                  ms_final_epc := (if k = n - 1 \<and> pe_data page = []
                                   then Some (pid_u64 (pe_page_id page) - (if pid_u64 (pe_page_id page) = 0 then 0 else 1))
                                   else ms_final_epc st),
                  ms_heap := ms_heap st @ [\<lparr>hp_order = k, hp_page = page\<rparr>],
                  ms_tracker := peak_inc (ms_tracker st)\<rparr>))"

fun prime_frontier ::
    "('s, 'h) next_page_op \<Rightarrow> page_id_size \<Rightarrow> nat \<Rightarrow> nat list \<Rightarrow> ('s, 'h) merge_state \<Rightarrow> (compaction_error \<times> 's) + ('s, 'h) merge_state" where
  "prime_frontier nxt ids n [] st = Inr st"
| "prime_frontier nxt ids n (k # ks) st = rbind (fetch_page nxt ids n k st) (prime_frontier nxt ids n ks)"

definition emit_page :: "page_entry \<Rightarrow> ('s, 'h) merge_state \<Rightarrow> ('s, 'h) merge_state" where
  "emit_page page st = st\<lparr>ms_body := ms_body st @ page_bytes page, ms_count := ms_count st + 1\<rparr>"

definition flush_pending :: "('s, 'h) merge_state \<Rightarrow> ('s, 'h) merge_state" where
  "flush_pending st =
     (case ms_pending st of
        None \<Rightarrow> st
      | Some p \<Rightarrow>
          (let st' = (if should_emit (hp_page p) (ms_final_epc st) then emit_page (hp_page p) st else st)
           in st'\<lparr>ms_pending := None, ms_tracker := peak_dec (ms_tracker st')\<rparr>))"

text \<open>Resolving the winner of a page id with the page just popped.\<close>

definition resolve_top :: "heap_page \<Rightarrow> ('s, 'h) merge_state \<Rightarrow> ('s, 'h) merge_state" where
  "resolve_top tp st =
     (case ms_pending st of
        Some p \<Rightarrow>
          if hp_id p = hp_id tp then
            (if hp_order p \<le> hp_order tp then st\<lparr>ms_pending := Some tp, ms_tracker := peak_dec (ms_tracker st)\<rparr>
             else st\<lparr>ms_tracker := peak_dec (ms_tracker st)\<rparr>)
          else (flush_pending st)\<lparr>ms_pending := Some tp\<rparr>
      | None \<Rightarrow> st\<lparr>ms_pending := Some tp\<rparr>)"

partial_function (option) merge_loop ::
    "('s, 'h) next_page_op \<Rightarrow> page_id_size \<Rightarrow> nat \<Rightarrow> ('s, 'h) merge_state \<Rightarrow> ((compaction_error \<times> 's) + ('s, 'h) merge_state) option" where
  "merge_loop nxt ids n st =
     (case heap_pop (ms_heap st) of
        None \<Rightarrow> Some (Inr st)
      | Some (tp, heap') \<Rightarrow>
          (case fetch_page nxt ids n (hp_order tp) (resolve_top tp (st\<lparr>ms_heap := heap'\<rparr>)) of
             Inl e \<Rightarrow> Some (Inl e)
           | Inr st' \<Rightarrow> merge_loop nxt ids n st'))"

record 'h merge_input =
  mi_header :: source_header
  mi_range :: seq_range
  mi_stream :: 'h

record merge_result =
  mr_bytes :: bytes
  mr_range :: seq_range
  mr_out_seq :: u64
  mr_prev_checksum :: u64
  mr_declared_end :: u64
  mr_page_count :: u32

text \<open>The canonical end-page-count marker.\<close>

definition final_marker :: "page_id_size \<Rightarrow> u64 \<Rightarrow> page_entry" where
  "final_marker ids epc =
     \<lparr>pe_page_id = (case ids of IdU32 \<Rightarrow> PageU32 (ucast (epc + 1)) | IdU64 \<Rightarrow> PageU64 (epc + 1)), pe_data = []\<rparr>"

definition emit_marker :: "page_id_size \<Rightarrow> ('s, 'h) merge_state \<Rightarrow> ('s, 'h) merge_state" where
  "emit_marker ids st = (case ms_final_epc st of Some epc \<Rightarrow> emit_page (final_marker ids epc) st | None \<Rightarrow> st)"

definition first_break :: "source_header list \<Rightarrow> u64 list \<Rightarrow> nat option" where
  "first_break hs ends = find (\<lambda>i. sh_prev_checksum (hs ! i) \<noteq> ends ! (i - 1)) [1..<length hs]"

definition merged_header_bytes :: "page_id_size \<Rightarrow> u32 \<Rightarrow> u64 \<Rightarrow> u64 \<Rightarrow> u32 \<Rightarrow> int \<Rightarrow> u64 \<Rightarrow> bool \<Rightarrow> bytes" where
  "merged_header_bytes ids page_size out_seq prev pcount created_ms declared marker =
     HADBP_MAGIC @ [2, if marker then or FLAG_COMPACTED FLAG_END_PAGE_COUNT_MARKER else FLAG_COMPACTED, word_of_nat (pid_len ids)] @
     u32_to_be page_size @ u64_to_be out_seq @ u64_to_be prev @ u32_to_be pcount @ i64_to_be created_ms @ u64_to_be declared"

definition merge_finish ::
    "(bytes \<Rightarrow> bytes) \<Rightarrow> int \<Rightarrow> 'h merge_input list \<Rightarrow> ('s, 'h) merge_state \<Rightarrow> compaction_error + merge_result" where
  "merge_finish sha256 now_ms sources st0 =
     (let hs = map mi_header sources;
          ids = sh_page_id_size (hd hs);
          prev = sh_prev_checksum (hd hs);
          st = emit_marker ids (flush_pending st0);
          ends = map2 (\<lambda>h fed. case sh_declared_end h of Some e \<Rightarrow> e | None \<Rightarrow> finalize sha256 fed) hs (ms_hashers st)
      in case first_break hs ends of
           Some i \<Rightarrow> Inl (NonContiguous i)
         | None \<Rightarrow>
             let declared = last ends;
                 pcount = word_of_nat (ms_count st);
                 content = finalize sha256 (u64_to_be prev @ ms_body st)
             in Inr \<lparr>mr_bytes = merged_header_bytes ids (sh_page_size (hd hs)) (sh_seq (last hs)) prev pcount now_ms declared
                                  (ms_final_epc st \<noteq> None) @ ms_body st @ u64_to_be content,
                     mr_range = \<lparr>rmin = foldr min (map (rmin \<circ> mi_range) (butlast sources)) (rmin (mi_range (last sources))),
                                 rmax = foldr max (map (rmax \<circ> mi_range) (butlast sources)) (rmax (mi_range (last sources)))\<rparr>,
                     mr_out_seq = sh_seq (last hs), mr_prev_checksum = prev, mr_declared_end = declared, mr_page_count = pcount\<rparr>)"

definition initial_merge_state :: "'s \<Rightarrow> 'h merge_input list \<Rightarrow> ('s, 'h) merge_state" where
  "initial_merge_state s sources =
     \<lparr>ms_store = s, ms_streams = map mi_stream sources,
      ms_hashers = map (\<lambda>i. u64_to_be (sh_prev_checksum (mi_header i))) sources,
      ms_final_epc = None, ms_heap = [], ms_pending = None, ms_body = [], ms_count = 0,
      ms_tracker = \<lparr>pk_current = 0, pk_peak = 0\<rparr>\<rparr>"

definition merge_changesets ::
    "('s, 'h) next_page_op \<Rightarrow> (bytes \<Rightarrow> bytes) \<Rightarrow> int \<Rightarrow> 'h merge_input list \<Rightarrow> 's \<Rightarrow> ('s \<times> (compaction_error + merge_result)) option" where
  "merge_changesets nxt sha256 now_ms sources s =
     (if sources = [] then Some (s, Inl EmptySourceSet)
      else let ids = sh_page_id_size (mi_header (hd sources)); page_size = sh_page_size (mi_header (hd sources)); n = length sources in
        if list_ex (\<lambda>i. sh_page_id_size (mi_header i) \<noteq> ids \<or> sh_page_size (mi_header i) \<noteq> page_size) sources
        then Some (s, Inl (MixedGeometry ''page_id_size/page_size differ''))
        else case prime_frontier nxt ids n [0..<n] (initial_merge_state s sources) of
            Inl (e, s') \<Rightarrow> Some (s', Inl e)
          | Inr st \<Rightarrow>
              map_option (\<lambda>r. case r of Inl (e, s') \<Rightarrow> (s', Inl e) | Inr st' \<Rightarrow> (ms_store st', merge_finish sha256 now_ms sources st'))
                (merge_loop nxt ids n st))"

section \<open>Verification of merged bytes\<close>

definition verify_merged_bytes :: "codec \<Rightarrow> bytes \<Rightarrow> u64 \<Rightarrow> u64 \<Rightarrow> u32 \<Rightarrow> compaction_error + changeset" where
  "verify_merged_bytes cd bs expected_prev expected_declared_end expected_page_count =
     rbind (map_sum (MalformedChangeset ''<merged output>'') id (c_decode cd bs)) (\<lambda>cs.
       if \<not> c_is_compacted cd cs then Inl (VerificationFailed ''merged output is not marked COMPACTED'')
       else if ph_prev_checksum (cs_header cs) \<noteq> expected_prev then Inl (VerificationFailed ''prev_checksum'')
       else if c_chain_end cd cs \<noteq> expected_declared_end then Inl (VerificationFailed ''chain_end'')
       else if ph_page_count (cs_header cs) \<noteq> expected_page_count \<or> word_of_nat (length (cs_pages cs)) \<noteq> expected_page_count
       then Inl (VerificationFailed ''page_count'')
       else Inr cs)"

section \<open>Specification: last writer wins\<close>

abbreviation pg_num :: "page_entry \<Rightarrow> u64" where
  "pg_num p \<equiv> pid_u64 (pe_page_id p)"

definition pages_map :: "page_entry list \<Rightarrow> (u64 \<rightharpoonup> page_entry)" where
  "pages_map ps = map_of (map (\<lambda>p. (pg_num p, p)) ps)"

text \<open>The pages after all sources in order: a later source overrides an earlier one.\<close>

fun lww_map :: "page_entry list list \<Rightarrow> (u64 \<rightharpoonup> page_entry)" where
  "lww_map [] = Map.empty"
| "lww_map (ps # pss) = pages_map ps ++ lww_map pss"

definition declared_epc :: "page_entry list \<Rightarrow> u64 option" where
  "declared_epc ps = (case filter (\<lambda>p. pe_data p = []) ps of [] \<Rightarrow> None | m # _ \<Rightarrow> Some (pg_num m - 1))"

definition emitted :: "u64 option \<Rightarrow> (u64 \<rightharpoonup> page_entry) \<Rightarrow> page_entry list" where
  "emitted epc M = filter (\<lambda>p. should_emit p epc) (map (\<lambda>x. the (M x)) (sorted_list_of_set (dom M)))"

definition ascending :: "page_entry list \<Rightarrow> bool" where
  "ascending ps \<longleftrightarrow> sorted_wrt (<) (map pg_num ps)"

definition has_id_size :: "page_id_size \<Rightarrow> page_entry \<Rightarrow> bool" where
  "has_id_size ids p \<longleftrightarrow> (case pe_page_id p of PageU32 _ \<Rightarrow> ids = IdU32 | PageU64 _ \<Rightarrow> ids = IdU64)"

text \<open>What a source of a merge must be: canonical order, one id size, at most one marker, past page 0.\<close>

definition merge_source :: "page_id_size \<Rightarrow> page_entry list \<Rightarrow> bool" where
  "merge_source ids ps \<longleftrightarrow>
     ascending ps \<and> (\<forall>p\<in>set ps. has_id_size ids p) \<and>
     length (filter (\<lambda>p. pe_data p = []) ps) \<le> 1 \<and> (\<forall>p\<in>set ps. pe_data p = [] \<longrightarrow> pg_num p \<noteq> 0)"

text \<open>
  The contract of a merge, over the pages each source delivers: the chain value each source ends
  with, the pages of the output, and the object they make.
\<close>

definition source_end :: "(bytes \<Rightarrow> bytes) \<Rightarrow> page_id_size \<Rightarrow> source_header \<Rightarrow> page_entry list \<Rightarrow> u64" where
  "source_end sha256 ids h ps =
     (case sh_declared_end h of
        Some e \<Rightarrow> e
      | None \<Rightarrow> finalize sha256 (u64_to_be (sh_prev_checksum h) @ concat (map (hash_source_page ids) ps)))"

definition merged_pages :: "page_id_size \<Rightarrow> page_entry list list \<Rightarrow> page_entry list" where
  "merged_pages ids pss =
     emitted (declared_epc (last pss)) (lww_map pss) @
     (case declared_epc (last pss) of None \<Rightarrow> [] | Some epc \<Rightarrow> [final_marker ids epc])"

definition merged_range :: "'h merge_input list \<Rightarrow> seq_range" where
  "merged_range sources =
     \<lparr>rmin = foldr min (map (rmin \<circ> mi_range) (butlast sources)) (rmin (mi_range (last sources))),
      rmax = foldr max (map (rmax \<circ> mi_range) (butlast sources)) (rmax (mi_range (last sources)))\<rparr>"

definition merge_spec ::
    "(bytes \<Rightarrow> bytes) \<Rightarrow> int \<Rightarrow> 'h merge_input list \<Rightarrow> page_entry list list \<Rightarrow> compaction_error + merge_result" where
  "merge_spec sha256 now_ms sources pss =
     (let hs = map mi_header sources;
          ids = sh_page_id_size (hd hs);
          prev = sh_prev_checksum (hd hs);
          out = merged_pages ids pss;
          ends = map2 (source_end sha256 ids) hs pss
      in case first_break hs ends of
           Some i \<Rightarrow> Inl (NonContiguous i)
         | None \<Rightarrow>
             Inr \<lparr>mr_bytes = merged_header_bytes ids (sh_page_size (hd hs)) (sh_seq (last hs)) prev (word_of_nat (length out)) now_ms
                                (last ends) (declared_epc (last pss) \<noteq> None) @
                              concat (map page_bytes out) @ u64_to_be (finalize sha256 (u64_to_be prev @ concat (map page_bytes out))),
                  mr_range = merged_range sources, mr_out_seq = sh_seq (last hs), mr_prev_checksum = prev,
                  mr_declared_end = last ends, mr_page_count = word_of_nat (length out)\<rparr>)"

lemma ucast_u32_inj: "(ucast (v :: u32) :: u64) = ucast w \<longleftrightarrow> v = w"
  by (metis unat_ucast_u32 word_unat_eq_iff)

lemma same_num_same_id: "has_id_size ids p \<Longrightarrow> has_id_size ids q \<Longrightarrow> pg_num p = pg_num q \<Longrightarrow> pe_page_id p = pe_page_id q"
  by (cases "pe_page_id p"; cases "pe_page_id q") (auto simp: has_id_size_def ucast_u32_inj)

lemma pages_map_Cons [simp]: "pages_map (p # ps) = (pages_map ps)(pg_num p \<mapsto> p)"
  by (simp add: pages_map_def)

lemma pages_map_Nil [simp]: "pages_map [] = Map.empty"
  by (simp add: pages_map_def)

lemma dom_pages_map: "dom (pages_map ps) = pg_num ` set ps"
  by (simp add: pages_map_def dom_map_of_conv_image_fst image_image)

lemma ran_pages_map: "pages_map ps x = Some p \<Longrightarrow> p \<in> set ps \<and> pg_num p = x"
  by (induction ps) (auto split: if_splits)

lemma dom_lww_map: "dom (lww_map pss) = (\<Union>ps\<in>set pss. pg_num ` set ps)"
  by (induction pss) (auto simp: dom_pages_map)

lemma finite_dom_lww_map: "finite (dom (lww_map pss))"
  by (simp add: dom_lww_map)

lemma lww_map_num: "lww_map pss x = Some p \<Longrightarrow> pg_num p = x \<and> (\<exists>ps\<in>set pss. p \<in> set ps)"
  by (induction pss) (auto simp: map_add_Some_iff dest: ran_pages_map)

text \<open>Taking the first of the smallest pages out of its source.\<close>

lemma lww_map_pop:
  assumes "k < length pss" "pss ! k = t # ps" "pg_num t \<notin> pg_num ` set ps"
    and "\<forall>j<k. pg_num t \<notin> pg_num ` set (pss ! j)"
  shows "lww_map pss = [pg_num t \<mapsto> t] ++ lww_map (pss[k := ps])"
  using assms
proof (induction pss arbitrary: k)
  case (Cons qs pss)
  show ?case
  proof (cases k)
    case 0
    then have qs: "qs = t # ps" using Cons.prems by simp
    show ?thesis
    proof (rule ext)
      fix y
      show "lww_map (qs # pss) y = ([pg_num t \<mapsto> t] ++ lww_map ((qs # pss)[k := ps])) y"
        using Cons.prems(3) 0 qs dom_pages_map [of ps]
        by (auto simp: map_add_def domIff split: option.splits)
    qed
  next
    case (Suc j)
    have "pages_map qs (pg_num t) = None"
      using Cons.prems(4) Suc dom_pages_map [of qs] by (metis domIff nth_Cons_0 zero_less_Suc)
    moreover have "lww_map pss = [pg_num t \<mapsto> t] ++ lww_map (pss[j := ps])"
      using Cons.prems Suc by (intro Cons.IH) auto
    ultimately show ?thesis
      using Suc by (auto simp: map_add_def fun_eq_iff split: option.splits)
  qed
qed simp

lemma emitted_empty [simp]: "emitted epc Map.empty = []"
  by (simp add: emitted_def)

text \<open>The smallest page leads the output.\<close>

lemma emitted_first:
  assumes "finite (dom M)" "\<forall>y\<in>dom M. pg_num p < y"
  shows "emitted epc ([pg_num p \<mapsto> p] ++ M) = (if should_emit p epc then [p] else []) @ emitted epc M"
proof -
  have "pg_num p \<notin> dom M" using assms(2) by blast
  then have d: "dom ([pg_num p \<mapsto> p] ++ M) = insert (pg_num p) (dom M)" by auto
  have "sorted_list_of_set (insert (pg_num p) (dom M)) = insort (pg_num p) (sorted_list_of_set (dom M))"
    using assms(1) \<open>pg_num p \<notin> dom M\<close> by (rule sorted_list_of_set_insert)
  also have "\<dots> = pg_num p # sorted_list_of_set (dom M)"
    using assms by (intro insort_is_Cons) (auto intro: less_imp_le)
  finally have sl: "sorted_list_of_set (dom ([pg_num p \<mapsto> p] ++ M)) = pg_num p # sorted_list_of_set (dom M)"
    unfolding d .
  have eq: "map (\<lambda>x. the (([pg_num p \<mapsto> p] ++ M) x)) (sorted_list_of_set (dom M)) = map (\<lambda>x. the (M x)) (sorted_list_of_set (dom M))"
    using assms(1) by (intro map_cong) (auto simp: map_add_def)
  have th: "the (([pg_num p \<mapsto> p] ++ M) (pg_num p)) = p"
    using \<open>pg_num p \<notin> dom M\<close> by (auto simp: map_add_def domIff)
  show ?thesis
    unfolding emitted_def sl list.map eq th by simp
qed

section \<open>Page streams\<close>

text \<open>
  The contract of a page stream, as the merge relies on it: \<open>content\<close> is what a handle will still
  deliver; reading delivers its head and leaves the rest, an exhausted handle has nothing left,
  and reading one handle does not change what the others deliver.  Reading may fail at any time.
\<close>

locale page_source =
  fixes nxt :: "('s, 'h) next_page_op" and content :: "'s \<Rightarrow> 'h \<Rightarrow> page_entry list"
  assumes next_none: "nxt s h = (s', Inr None) \<Longrightarrow> content s h = []"
    and next_some: "nxt s h = (s', Inr (Some (p, h'))) \<Longrightarrow> content s h = p # content s' h'"
    and next_frame: "nxt s h = (s', r) \<Longrightarrow> content s' g = content s g"
begin

text \<open>What source \<open>k\<close> still has to deliver: its page in the frontier, if any, then its stream.\<close>

definition frontier :: "('s, 'h) merge_state \<Rightarrow> nat \<Rightarrow> page_entry list" where
  "frontier st k = map hp_page (filter (\<lambda>h. hp_order h = k) (ms_heap st))"

definition unread :: "('s, 'h) merge_state \<Rightarrow> nat \<Rightarrow> page_entry list" where
  "unread st k = content (ms_store st) (ms_streams st ! k)"

definition rest :: "('s, 'h) merge_state \<Rightarrow> nat \<Rightarrow> page_entry list list" where
  "rest st n = map (\<lambda>k. frontier st k @ unread st k) [0..<n]"

definition pending_map :: "('s, 'h) merge_state \<Rightarrow> (u64 \<rightharpoonup> page_entry)" where
  "pending_map st = (case ms_pending st of None \<Rightarrow> Map.empty | Some p \<Rightarrow> [pg_num (hp_page p) \<mapsto> hp_page p])"

text \<open>The parts of the invariant: the shape of the frontier, the pending page, the accounts.\<close>

definition frontier_ok :: "page_id_size \<Rightarrow> nat \<Rightarrow> ('s, 'h) merge_state \<Rightarrow> bool" where
  "frontier_ok ids n st \<longleftrightarrow>
     length (ms_streams st) = n \<and> length (ms_hashers st) = n \<and>
     distinct (map hp_order (ms_heap st)) \<and> (\<forall>h\<in>set (ms_heap st). hp_order h < n) \<and>
     (\<forall>k<n. ascending (frontier st k @ unread st k) \<and> (\<forall>p\<in>set (frontier st k @ unread st k). has_id_size ids p) \<and>
        (frontier st k = [] \<longrightarrow> unread st k = []))"

definition pending_ok :: "page_id_size \<Rightarrow> nat \<Rightarrow> ('s, 'h) merge_state \<Rightarrow> bool" where
  "pending_ok ids n st \<longleftrightarrow>
     (case ms_pending st of
        None \<Rightarrow> True
      | Some p \<Rightarrow> has_id_size ids (hp_page p) \<and>
          (\<forall>k<n. \<forall>q\<in>set (frontier st k @ unread st k). (pg_num (hp_page p), hp_order p) < (pg_num q, k)))"

definition epc_state :: "page_entry list \<Rightarrow> u64 option \<Rightarrow> u64 option \<Rightarrow> bool" where
  "epc_state U fin epc \<longleftrightarrow>
     (case filter (\<lambda>p. pe_data p = []) U of
        [] \<Rightarrow> fin = epc
      | m # ms \<Rightarrow> ms = [] \<and> fin = None \<and> pg_num m \<noteq> 0 \<and> epc = Some (pg_num m - 1))"

definition epc_ok :: "nat \<Rightarrow> u64 option \<Rightarrow> ('s, 'h) merge_state \<Rightarrow> bool" where
  "epc_ok n epc st \<longleftrightarrow> epc_state (unread st (n - 1)) (ms_final_epc st) epc"

definition output_ok :: "nat \<Rightarrow> u64 option \<Rightarrow> page_entry list \<Rightarrow> ('s, 'h) merge_state \<Rightarrow> bool" where
  "output_ok n epc whole st \<longleftrightarrow>
     (\<exists>E. ms_body st = concat (map page_bytes E) \<and> ms_count st = length E \<and>
        E @ emitted epc (pending_map st ++ lww_map (rest st n)) = whole)"

definition hashers_ok :: "page_id_size \<Rightarrow> nat \<Rightarrow> bytes list \<Rightarrow> ('s, 'h) merge_state \<Rightarrow> bool" where
  "hashers_ok ids n full st \<longleftrightarrow>
     (\<forall>k<n. ms_hashers st ! k @ concat (map (hash_source_page ids) (unread st k)) = full ! k)"

definition live_ok :: "nat \<Rightarrow> ('s, 'h) merge_state \<Rightarrow> bool" where
  "live_ok n st \<longleftrightarrow>
     pk_current (ms_tracker st) = length (ms_heap st) + (if ms_pending st = None then 0 else 1) \<and>
     pk_peak (ms_tracker st) \<le> n + 1"

lemma content_frame_unread:
  assumes "nxt s h = (s', r)"
  shows "content s' g = content s g"
  using assms by (rule next_frame)

lemma heap_pop_Some:
  "heap_pop heap = Some (t, heap') \<Longrightarrow> t \<in> set heap \<and> heap' = remove1 t heap \<and> (\<forall>h\<in>set heap. hp_key t \<le> hp_key h)"
  unfolding heap_pop_def by (auto dest: min_by_key_Some)

lemma frontier_at_most_one:
  assumes "distinct (map hp_order heap)" "h \<in> set heap"
  shows "filter (\<lambda>x. hp_order x = hp_order h) heap = [h]"
  using assms
proof (induction heap)
  case (Cons x heap)
  then show ?case by (auto simp: filter_empty_conv image_iff)
qed simp

lemma frontier_nil: "frontier st k = [] \<longleftrightarrow> k \<notin> hp_order ` set (ms_heap st)"
  by (auto simp: frontier_def filter_empty_conv)

lemma fetch_cases:
  assumes "fetch_page nxt ids n k st = Inr st'" "k < length (ms_streams st)" "k < length (ms_hashers st)"
  obtains (drained) s' where "nxt (ms_store st) (ms_streams st ! k) = (s', Inr None)" "st' = st\<lparr>ms_store := s'\<rparr>"
      "unread st k = []" "\<And>j. unread st' j = unread st j" "\<And>j. frontier st' j = frontier st j"
    | (page) p where "unread st k = p # unread st' k" "\<And>j. j \<noteq> k \<Longrightarrow> unread st' j = unread st j"
      "frontier st' k = frontier st k @ [p]" "\<And>j. j \<noteq> k \<Longrightarrow> frontier st' j = frontier st j"
      "ms_heap st' = ms_heap st @ [\<lparr>hp_order = k, hp_page = p\<rparr>]"
      "ms_hashers st' = (ms_hashers st)[k := ms_hashers st ! k @ hash_source_page ids p]"
      "length (ms_streams st') = length (ms_streams st)"
      "ms_final_epc st' = (if k = n - 1 \<and> pe_data p = [] then Some (pg_num p - (if pg_num p = 0 then 0 else 1)) else ms_final_epc st)"
      "ms_pending st' = ms_pending st" "ms_body st' = ms_body st" "ms_count st' = ms_count st"
      "ms_tracker st' = peak_inc (ms_tracker st)"
proof -
  obtain s' r where nx: "nxt (ms_store st) (ms_streams st ! k) = (s', r)" by fastforce
  note fr = next_frame [OF nx]
  from assms(1) nx consider "r = Inr None" | p h' where "r = Inr (Some (p, h'))"
    by (cases r) (auto simp: fetch_page_def split: option.splits)
  then show thesis
  proof cases
    case 1
    then have "st' = st\<lparr>ms_store := s'\<rparr>" using assms(1) nx by (simp add: fetch_page_def)
    then show thesis
      using drained [of s'] nx 1 next_none [of "ms_store st" "ms_streams st ! k" s'] fr
      by (simp add: unread_def frontier_def)
  next
    case 2
    from next_some [OF nx [unfolded 2]] have u: "unread st k = p # content s' h'"
      by (simp add: unread_def)
    have st': "st' = st\<lparr>ms_store := s', ms_streams := (ms_streams st)[k := h'],
        ms_hashers := (ms_hashers st)[k := ms_hashers st ! k @ hash_source_page ids p],
        ms_final_epc := (if k = n - 1 \<and> pe_data p = [] then Some (pg_num p - (if pg_num p = 0 then 0 else 1)) else ms_final_epc st),
        ms_heap := ms_heap st @ [\<lparr>hp_order = k, hp_page = p\<rparr>], ms_tracker := peak_inc (ms_tracker st)\<rparr>"
      using assms(1) nx 2 by (simp add: fetch_page_def)
    show thesis
    proof (rule page)
      show "unread st k = p # unread st' k"
        using u assms(2) by (simp add: st' unread_def)
      show "unread st' j = unread st j" if "j \<noteq> k" for j
        using that fr by (simp add: st' unread_def)
    qed (auto simp: st' frontier_def)
  qed
qed

lemma fetch_rest:
  assumes "fetch_page nxt ids n k st = Inr st'" "k < length (ms_streams st)" "k < length (ms_hashers st)" "frontier st k = []"
  shows "frontier st' j @ unread st' j = frontier st j @ unread st j" "frontier st' k = [] \<Longrightarrow> unread st' k = []"
  using assms by (cases rule: fetch_cases; cases "j = k"; simp)+

lemma fetch_pending:
  assumes "fetch_page nxt ids n k st = Inr st'" "k < length (ms_streams st)" "k < length (ms_hashers st)"
  shows "ms_pending st' = ms_pending st" "ms_body st' = ms_body st" "ms_count st' = ms_count st"
  using assms by (cases rule: fetch_cases; simp)+

lemma fetch_heap:
  assumes "fetch_page nxt ids n k st = Inr st'" "k < n" "frontier st k = []"
    and "length (ms_streams st) = n" "length (ms_hashers st) = n" "distinct (map hp_order (ms_heap st))"
    and "\<forall>h\<in>set (ms_heap st). hp_order h < n"
  shows "length (ms_streams st') = n" "length (ms_hashers st') = n" "distinct (map hp_order (ms_heap st'))"
    "\<forall>h\<in>set (ms_heap st'). hp_order h < n" "\<And>j. j \<noteq> k \<Longrightarrow> frontier st' j = frontier st j \<and> unread st' j = unread st j"
proof -
  have len: "k < length (ms_streams st)" "k < length (ms_hashers st)" using assms(2,4,5) by simp_all
  show "length (ms_streams st') = n" "length (ms_hashers st') = n" "distinct (map hp_order (ms_heap st'))"
    "\<forall>h\<in>set (ms_heap st'). hp_order h < n"
    using assms(1) len
    by (cases rule: fetch_cases; use assms(2-7) in \<open>auto simp: frontier_nil\<close>)+
  show "frontier st' j = frontier st j \<and> unread st' j = unread st j" if "j \<noteq> k" for j
    using assms(1) len by (cases rule: fetch_cases) (use that in auto)
qed

lemma fetch_frontier_ok:
  assumes "fetch_page nxt ids n k st = Inr st'" "k < n" "frontier st k = []"
    and "length (ms_streams st) = n" "length (ms_hashers st) = n" "distinct (map hp_order (ms_heap st))"
    and "\<forall>h\<in>set (ms_heap st). hp_order h < n"
    and "\<forall>j<n. ascending (frontier st j @ unread st j) \<and> (\<forall>p\<in>set (frontier st j @ unread st j). has_id_size ids p)"
    and "\<forall>j<n. j \<noteq> k \<longrightarrow> frontier st j = [] \<longrightarrow> unread st j = []"
  shows "frontier_ok ids n st'"
proof -
  have len: "k < length (ms_streams st)" "k < length (ms_hashers st)" using assms(2,4,5) by simp_all
  note R = fetch_rest [OF assms(1) len assms(3)] and H = fetch_heap [OF assms(1-7)]
  have "frontier st' j = [] \<longrightarrow> unread st' j = []" if "j < n" for j
    using R(2) H(5) [of j] assms(9) that by (cases "j = k") auto
  then show ?thesis
    using assms(8) R(1) H(1-4) by (simp add: frontier_ok_def)
qed

lemma fetch_epc_ok:
  assumes "fetch_page nxt ids n k st = Inr st'" "k < length (ms_streams st)" "k < length (ms_hashers st)" "epc_ok n epc st"
  shows "epc_ok n epc st'"
  using assms(1-3)
proof (cases rule: fetch_cases)
  case (drained s')
  then show ?thesis using assms(4) by (simp add: epc_ok_def)
next
  case (page p)
  show ?thesis
  proof (cases "k = n - 1")
    case True
    with page(1) assms(4) have "epc_state (p # unread st' k) (ms_final_epc st) epc"
      by (simp add: epc_ok_def)
    then show ?thesis
      using page(8) True by (auto simp: epc_ok_def epc_state_def)
  next
    case False
    with page(2) [of "n - 1"] page(8) assms(4) show ?thesis by (simp add: epc_ok_def)
  qed
qed

lemma fetch_hashers_ok:
  assumes "fetch_page nxt ids n k st = Inr st'" "k < length (ms_streams st)" "k < length (ms_hashers st)" "hashers_ok ids n full st"
  shows "hashers_ok ids n full st'"
  using assms(1-3)
proof (cases rule: fetch_cases)
  case (page p)
  have "ms_hashers st' ! j @ concat (map (hash_source_page ids) (unread st' j)) = full ! j" if "j < n" for j
  proof (cases "j = k")
    case True
    have "ms_hashers st ! k @ concat (map (hash_source_page ids) (unread st k)) = full ! k"
      using assms(4) that True by (simp add: hashers_ok_def)
    with True assms(3) page(6) show ?thesis by (simp add: page(1))
  next
    case False
    with assms(4) that page(2) [OF False] page(6) show ?thesis by (simp add: hashers_ok_def)
  qed
  then show ?thesis by (simp add: hashers_ok_def)
qed (use assms(4) in \<open>simp add: hashers_ok_def\<close>)

lemma heap_bound: "distinct (map hp_order heap) \<Longrightarrow> \<forall>h\<in>set heap. hp_order h < n \<Longrightarrow> length heap \<le> n"
proof -
  assume d: "distinct (map hp_order heap)" and lt: "\<forall>h\<in>set heap. hp_order h < n"
  have "length heap = card (hp_order ` set heap)"
    using distinct_card [OF d] by simp
  also have "\<dots> \<le> card {..<n}"
    using lt by (intro card_mono) auto
  finally show ?thesis by simp
qed

lemma fetch_live_ok:
  assumes "fetch_page nxt ids n k st = Inr st'" "k < length (ms_streams st)" "k < length (ms_hashers st)"
    and "live_ok n st" "distinct (map hp_order (ms_heap st'))" "\<forall>h\<in>set (ms_heap st'). hp_order h < n"
  shows "live_ok n st'"
  using assms(1-3)
proof (cases rule: fetch_cases)
  case (page p)
  have "length (ms_heap st') \<le> n"
    by (rule heap_bound [OF assms(5,6)])
  with page(5,9,12) assms(4) show ?thesis
    by (simp add: live_ok_def peak_inc_def split: if_splits)
qed (use assms(4) in \<open>simp add: live_ok_def\<close>)

text \<open>Popping the least page and resolving it against the pending one.\<close>

lemma flush_fields [simp]:
  "ms_store (flush_pending st) = ms_store st" "ms_streams (flush_pending st) = ms_streams st"
  "ms_hashers (flush_pending st) = ms_hashers st" "ms_final_epc (flush_pending st) = ms_final_epc st"
  "ms_heap (flush_pending st) = ms_heap st" "ms_pending (flush_pending st) = None"
  by (auto simp: flush_pending_def emit_page_def Let_def split: option.splits)

lemma resolve_fields [simp]:
  "ms_store (resolve_top t st) = ms_store st" "ms_streams (resolve_top t st) = ms_streams st"
  "ms_hashers (resolve_top t st) = ms_hashers st" "ms_final_epc (resolve_top t st) = ms_final_epc st"
  "ms_heap (resolve_top t st) = ms_heap st"
  by (auto simp: resolve_top_def split: option.splits)

lemma unread_cong: "ms_store st = ms_store st' \<Longrightarrow> ms_streams st = ms_streams st' \<Longrightarrow> unread st k = unread st' k"
  by (simp add: unread_def)

lemma frontier_cong: "ms_heap st = ms_heap st' \<Longrightarrow> frontier st k = frontier st' k"
  by (simp add: frontier_def)

lemma pop_frontier:
  assumes "frontier_ok ids n st" "heap_pop (ms_heap st) = Some (t, heap')" "st1 = st\<lparr>ms_heap := heap'\<rparr>" "k = hp_order t"
  shows "k < n" "frontier st k = [hp_page t]" "frontier st1 k = []" "\<And>j. j \<noteq> k \<Longrightarrow> frontier st1 j = frontier st j"
    "\<And>j. unread st1 j = unread st j" "distinct (map hp_order heap')" "\<forall>h\<in>set heap'. hp_order h < n"
    "\<And>j q. j < n \<Longrightarrow> q \<in> set (frontier st j @ unread st j) \<Longrightarrow> (pg_num (hp_page t), k) \<le> (pg_num q, j)"
proof -
  have t: "t \<in> set (ms_heap st)" "heap' = remove1 t (ms_heap st)" and least: "\<forall>h\<in>set (ms_heap st). hp_key t \<le> hp_key h"
    using heap_pop_Some [OF assms(2)] by auto
  have dist: "distinct (map hp_order (ms_heap st))" and ord: "\<forall>h\<in>set (ms_heap st). hp_order h < n"
    using assms(1) by (simp_all add: frontier_ok_def)
  have inj: "inj_on hp_order (set (ms_heap st))" and dh: "distinct (ms_heap st)"
    using dist by (simp_all add: distinct_map)
  show k: "k < n" using t ord assms(4) by simp
  have f: "filter (\<lambda>h. hp_order h = k) (ms_heap st) = [t]"
    unfolding assms(4) by (rule frontier_at_most_one [OF dist t(1)])
  then show "frontier st k = [hp_page t]" by (simp add: frontier_def)
  have rem: "heap' = filter (\<lambda>h. hp_order h \<noteq> k) (ms_heap st)"
    unfolding t(2) using dh inj t(1) assms(4)
    by (simp add: distinct_remove1_removeAll removeAll_filter_not_eq) (rule filter_cong, auto simp: inj_on_def)
  show "frontier st1 k = []" by (simp add: assms(3) frontier_def rem)
  show "frontier st1 j = frontier st j" if "j \<noteq> k" for j
  proof -
    have "filter (\<lambda>h. hp_order h = j) heap' = filter (\<lambda>h. hp_order h = j) (ms_heap st)"
      unfolding rem filter_filter using that by (intro filter_cong) auto
    then show ?thesis by (simp add: assms(3) frontier_def)
  qed
  show "unread st1 j = unread st j" for j by (simp add: assms(3) unread_def)
  show "distinct (map hp_order heap')" using dist by (simp add: rem distinct_map_filter)
  show "\<forall>h\<in>set heap'. hp_order h < n" using ord by (simp add: rem)
  show "(pg_num (hp_page t), k) \<le> (pg_num q, j)" if j: "j < n" and q: "q \<in> set (frontier st j @ unread st j)" for j q
  proof -
    have asc: "ascending (frontier st j @ unread st j)" and ne: "frontier st j \<noteq> []"
      using assms(1) j q by (auto simp: frontier_ok_def)
    from ne obtain h where h: "h \<in> set (ms_heap st)" "hp_order h = j" by (auto simp: frontier_nil)
    have fj: "frontier st j = [hp_page h]"
      using frontier_at_most_one [OF dist h(1)] h(2) by (simp add: frontier_def)
    have "pg_num (hp_page h) \<le> pg_num q"
      using asc q unfolding fj by (auto simp: ascending_def less_imp_le)
    moreover have "(pg_num (hp_page t), k) \<le> (pg_num (hp_page h), j)"
      using bspec [OF least h(1)] h(2) assms(4) by (auto simp: hp_key_def)
    ultimately show ?thesis by (auto simp: less_eq_prod_def)
  qed
qed

lemma rest_nth: "k < n \<Longrightarrow> rest st n ! k = frontier st k @ unread st k"
  by (simp add: rest_def)

lemma rest_eqI: "(\<And>k. k < n \<Longrightarrow> frontier st k @ unread st k = frontier st' k @ unread st' k) \<Longrightarrow> rest st n = rest st' n"
  by (simp add: rest_def)

lemma pop_lww:
  assumes ok: "frontier_ok ids n st" and pop: "heap_pop (ms_heap st) = Some (t, heap')" and st1: "st1 = st\<lparr>ms_heap := heap'\<rparr>"
  shows "lww_map (rest st n) = [pg_num (hp_page t) \<mapsto> hp_page t] ++ lww_map (rest st1 n)"
proof -
  let ?k = "hp_order t"
  note P = pop_frontier [OF ok pop st1 refl]
  have Rk: "rest st n ! ?k = hp_page t # unread st ?k" using P(1,2) by (simp add: rest_nth)
  have "ascending (hp_page t # unread st ?k)"
    using ok P(1,2) by (force simp: frontier_ok_def)
  then have notin: "pg_num (hp_page t) \<notin> pg_num ` set (unread st ?k)"
    by (auto simp: ascending_def)
  have lower: "\<forall>j<?k. pg_num (hp_page t) \<notin> pg_num ` set (rest st n ! j)"
  proof (intro allI impI notI)
    fix j
    assume j: "j < ?k" and "pg_num (hp_page t) \<in> pg_num ` set (rest st n ! j)"
    with P(1) have "pg_num (hp_page t) \<in> pg_num ` set (frontier st j @ unread st j)"
      by (simp add: rest_nth)
    then obtain q where "pg_num (hp_page t) = pg_num q" "q \<in> set (frontier st j @ unread st j)"
      by (rule imageE)
    with P(8) [of j q] j P(1) show False by (simp add: less_eq_prod_def)
  qed
  have upd: "(rest st n)[?k := unread st ?k] = rest st1 n"
  proof (rule nth_equalityI)
    fix j
    assume "j < length ((rest st n)[?k := unread st ?k])"
    then have "j < n" by (simp add: rest_def)
    with P(1,3-5) show "(rest st n)[?k := unread st ?k] ! j = rest st1 n ! j"
      by (cases "j = ?k") (simp_all add: rest_def)
  qed (simp add: rest_def)
  from lww_map_pop [OF _ Rk notin lower] P(1) upd show ?thesis by (simp add: rest_def)
qed

lemma word_less_minus_one: "(a :: u64) < b \<Longrightarrow> a \<le> b - 1"
proof -
  assume "a < b"
  then have "b \<noteq> 0" by auto
  with \<open>a < b\<close> show ?thesis
    by (simp add: word_le_nat_alt word_less_nat_alt unat_minus_one)
qed

text \<open>When a page is flushed, the final size is known or does not matter to it.\<close>

lemma decision_final:
  assumes ok: "frontier_ok ids n st" and epc: "epc_ok n epc st" and n: "0 < n"
    and below: "\<forall>k<n. \<forall>q\<in>set (frontier st k @ unread st k). pg_num p < pg_num q"
  shows "should_emit p (ms_final_epc st) = should_emit p epc"
proof (cases "filter (\<lambda>p. pe_data p = []) (unread st (n - 1))")
  case Nil
  then show ?thesis using epc by (simp add: epc_ok_def epc_state_def)
next
  case (Cons m ms)
  then have "m \<in> set (filter (\<lambda>p. pe_data p = []) (unread st (n - 1)))" by simp
  then have m: "m \<in> set (unread st (n - 1))" by simp
  from Cons epc have e: "ms_final_epc st = None" "epc = Some (pg_num m - 1)"
    by (simp_all add: epc_ok_def epc_state_def)
  have "pg_num p < pg_num m" using below [rule_format, of "n - 1" m] n m by simp
  then have "pg_num p \<le> pg_num m - 1" by (rule word_less_minus_one)
  with e show ?thesis by (simp add: should_emit_def)
qed

definition merge_inv :: "page_id_size \<Rightarrow> nat \<Rightarrow> u64 option \<Rightarrow> page_entry list \<Rightarrow> bytes list \<Rightarrow> ('s, 'h) merge_state \<Rightarrow> bool" where
  "merge_inv ids n epc whole full st \<longleftrightarrow>
     frontier_ok ids n st \<and> pending_ok ids n st \<and> epc_ok n epc st \<and> output_ok n epc whole st \<and> hashers_ok ids n full st \<and> live_ok n st"

lemma resolve_output:
  assumes inv: "merge_inv ids n epc whole full st" and n: "0 < n"
    and pop: "heap_pop (ms_heap st) = Some (t, heap')" and st1: "st1 = st\<lparr>ms_heap := heap'\<rparr>"
  shows "output_ok n epc whole (resolve_top t st1)" "pending_ok ids n (resolve_top t st1)" "live_ok n (resolve_top t st1)"
proof -
  let ?k = "hp_order t" and ?st2 = "resolve_top t st1"
  have ok: "frontier_ok ids n st" and pend: "pending_ok ids n st" and epc: "epc_ok n epc st"
    and out: "output_ok n epc whole st" and live: "live_ok n st"
    using inv by (simp_all add: merge_inv_def)
  note P = pop_frontier [OF ok pop st1 refl]
  have t: "t \<in> set (ms_heap st)" "heap' = remove1 t (ms_heap st)" using heap_pop_Some [OF pop] by auto
  have idt: "has_id_size ids (hp_page t)"
  proof -
    have "hp_page t \<in> set (frontier st ?k @ unread st ?k)" using P(2) by simp
    with ok P(1) show ?thesis unfolding frontier_ok_def by blast
  qed
  have fu: "frontier ?st2 j = frontier st1 j" "unread ?st2 j = unread st1 j" for j
    by (simp_all add: frontier_def unread_def)
  then have rest2: "rest ?st2 n = rest st1 n" by (simp add: rest_def)
  note L = pop_lww [OF ok pop st1]
  have fields1: "ms_pending st1 = ms_pending st" "ms_body st1 = ms_body st" "ms_count st1 = ms_count st"
    "ms_final_epc st1 = ms_final_epc st" "ms_tracker st1 = ms_tracker st" "ms_heap st1 = heap'" by (simp_all add: st1)
  obtain E where E: "ms_body st = concat (map page_bytes E)" "ms_count st = length E"
      "E @ emitted epc (pending_map st ++ lww_map (rest st n)) = whole"
    using out by (auto simp: output_ok_def)
  have newpend: "\<forall>k<n. \<forall>q\<in>set (frontier st1 k @ unread st1 k). (pg_num (hp_page t), ?k) < (pg_num q, k)"
  proof (intro allI impI ballI)
    fix j q
    assume j: "j < n" and q: "q \<in> set (frontier st1 j @ unread st1 j)"
    show "(pg_num (hp_page t), ?k) < (pg_num q, j)"
    proof (cases "j = ?k")
      case True
      have "ascending (hp_page t # unread st ?k)" using ok P(1,2) by (force simp: frontier_ok_def)
      with q True P(3,5) show ?thesis by (auto simp: ascending_def less_prod_def)
    next
      case False
      with P(8) [of j q] q j P(4,5) show ?thesis by (auto simp: less_prod_def less_eq_prod_def)
    qed
  qed
  have live1: "pk_current (ms_tracker st) = Suc (length heap') + (if ms_pending st = None then 0 else 1)" "pk_peak (ms_tracker st) \<le> n + 1"
    using live t by (auto simp: live_ok_def length_remove1) (metis length_pos_if_in_set Suc_pred)+
  consider (none) "ms_pending st = None"
    | (same) p where "ms_pending st = Some p" "hp_id p = hp_id t"
    | (other) p where "ms_pending st = Some p" "hp_id p \<noteq> hp_id t" by (cases "ms_pending st") auto
  then have "output_ok n epc whole ?st2 \<and> ms_pending ?st2 = Some t \<and> live_ok n ?st2"
  proof cases
    case none
    then have "?st2 = st1\<lparr>ms_pending := Some t\<rparr>" by (simp add: resolve_top_def fields1)
    then show ?thesis
      using E L none fields1 live1 rest2
      by (auto simp: output_ok_def pending_map_def live_ok_def intro!: exI [of _ E])
  next
    case same
    have "(pg_num (hp_page p), hp_order p) < (pg_num (hp_page t), ?k)"
      using pend same P(1,2) by (force simp: pending_ok_def)
    then have "hp_order p \<le> ?k" using same(2) by (auto simp: less_prod_def)
    then have st2: "?st2 = st1\<lparr>ms_pending := Some t, ms_tracker := peak_dec (ms_tracker st)\<rparr>"
      using same by (simp add: resolve_top_def fields1)
    have "pending_map st ++ lww_map (rest st n) = [pg_num (hp_page t) \<mapsto> hp_page t] ++ lww_map (rest st1 n)"
      using same unfolding L by (auto simp: pending_map_def map_add_def fun_eq_iff split: option.splits)
    then show ?thesis
      using E fields1 live1 rest2 same(1) by (auto simp: st2 output_ok_def pending_map_def live_ok_def peak_dec_def intro!: exI [of _ E])
  next
    case other
    have idp: "has_id_size ids (hp_page p)" using pend other by (simp add: pending_ok_def)
    have "(pg_num (hp_page p), hp_order p) < (pg_num (hp_page t), ?k)"
      using pend other P(1,2) by (force simp: pending_ok_def)
    moreover have "pg_num (hp_page p) \<noteq> pg_num (hp_page t)"
      using same_num_same_id [OF idp idt] other(2) by blast
    ultimately have lt: "pg_num (hp_page p) < pg_num (hp_page t)" by (auto simp: less_prod_def)
    have below: "\<forall>k<n. \<forall>q\<in>set (frontier st k @ unread st k). pg_num (hp_page p) < pg_num q"
      using P(8) lt by (fastforce simp: less_eq_prod_def)
    have dom: "\<forall>y\<in>dom (lww_map (rest st n)). pg_num (hp_page p) < y"
      using below by (auto simp: dom_lww_map rest_def)
    have dec: "should_emit (hp_page p) (ms_final_epc st) = should_emit (hp_page p) epc"
      by (rule decision_final [OF ok epc n below])
    let ?E = "E @ (if should_emit (hp_page p) epc then [hp_page p] else [])"
    have "?E @ emitted epc (lww_map (rest st n)) = whole"
      using E(3) other(1) emitted_first [OF finite_dom_lww_map dom, of epc] by (simp add: pending_map_def)
    moreover have "ms_body ?st2 = concat (map page_bytes ?E)" "ms_count ?st2 = length ?E" "ms_pending ?st2 = Some t"
      using E(1,2) other dec fields1 by (simp_all add: resolve_top_def flush_pending_def emit_page_def)
    moreover have "ms_tracker ?st2 = peak_dec (ms_tracker st)"
      using other fields1 by (simp add: resolve_top_def flush_pending_def emit_page_def)
    ultimately show ?thesis
      using L rest2 live1 other(1) fields1 by (auto simp: output_ok_def pending_map_def live_ok_def peak_dec_def)
  qed
  then show "output_ok n epc whole ?st2" "pending_ok ids n ?st2" "live_ok n ?st2"
    using newpend idt by (auto simp: pending_ok_def fu)
qed

lemma merge_step:
  assumes inv: "merge_inv ids n epc whole full st" and n: "0 < n"
    and pop: "heap_pop (ms_heap st) = Some (t, heap')"
    and fetch: "fetch_page nxt ids n (hp_order t) (resolve_top t (st\<lparr>ms_heap := heap'\<rparr>)) = Inr st'"
  shows "merge_inv ids n epc whole full st'" "length (concat (rest st' n)) < length (concat (rest st n))"
proof -
  let ?k = "hp_order t"
  define st1 where "st1 = st\<lparr>ms_heap := heap'\<rparr>"
  define st2 where "st2 = resolve_top t st1"
  have ok: "frontier_ok ids n st" and epc: "epc_ok n epc st" and hsh: "hashers_ok ids n full st"
    using inv by (simp_all add: merge_inv_def)
  note P = pop_frontier [OF ok pop st1_def refl]
  note O = resolve_output [OF inv n pop st1_def, folded st2_def]
  have f2: "frontier st2 j = frontier st1 j" "unread st2 j = unread st j" for j
    using P(5) by (simp_all add: st2_def frontier_def unread_def)
  have fetch2: "fetch_page nxt ids n ?k st2 = Inr st'" using fetch by (simp add: st2_def st1_def)
  have base: "length (ms_streams st2) = n" "length (ms_hashers st2) = n" "distinct (map hp_order (ms_heap st2))"
    "\<forall>h\<in>set (ms_heap st2). hp_order h < n" "frontier st2 ?k = []"
    using ok P(3,6,7) f2 by (simp_all add: st2_def st1_def frontier_ok_def)
  have len: "?k < length (ms_streams st2)" "?k < length (ms_hashers st2)" using base P(1) by simp_all
  have asc: "\<forall>j<n. ascending (frontier st2 j @ unread st2 j) \<and> (\<forall>p\<in>set (frontier st2 j @ unread st2 j). has_id_size ids p)"
  proof (intro allI impI)
    fix j
    assume j: "j < n"
    have "ascending (frontier st j @ unread st j) \<and> (\<forall>p\<in>set (frontier st j @ unread st j). has_id_size ids p)"
      using ok j by (simp add: frontier_ok_def)
    then show "ascending (frontier st2 j @ unread st2 j) \<and> (\<forall>p\<in>set (frontier st2 j @ unread st2 j). has_id_size ids p)"
      using P(2,3,4) f2 by (cases "j = ?k") (auto simp: ascending_def)
  qed
  have drained: "\<forall>j<n. j \<noteq> ?k \<longrightarrow> frontier st2 j = [] \<longrightarrow> unread st2 j = []"
    using ok P(4) f2 by (simp add: frontier_ok_def)
  note F = fetch_frontier_ok [OF fetch2 P(1) base(5,1-4) asc drained]
  have rest': "rest st' n = rest st2 n"
    using fetch_rest(1) [OF fetch2 len base(5)] by (intro rest_eqI) simp
  have pend': "ms_pending st' = ms_pending st2" "ms_body st' = ms_body st2" "ms_count st' = ms_count st2"
    using fetch_pending [OF fetch2 len] by simp_all
  have e2: "epc_ok n epc st2" "hashers_ok ids n full st2"
    using epc hsh f2 by (simp_all add: epc_ok_def hashers_ok_def) (simp_all add: st2_def st1_def)
  have "pending_ok ids n st'"
    using O(2) fetch_rest(1) [OF fetch2 len base(5)]
    by (cases "ms_pending st2") (simp_all add: pending_ok_def pend'(1) del: set_append)
  moreover have "output_ok n epc whole st'"
    using O(1) by (simp add: output_ok_def pending_map_def pend' rest')
  moreover have "live_ok n st'"
    using fetch_live_ok [OF fetch2 len O(3)] F by (simp add: frontier_ok_def)
  ultimately show "merge_inv ids n epc whole full st'"
    using F fetch_epc_ok [OF fetch2 len e2(1)] fetch_hashers_ok [OF fetch2 len e2(2)] by (simp add: merge_inv_def)
  have "rest st2 n = (rest st n)[?k := unread st ?k]"
    using P(1,2,3,4) f2 by (intro nth_equalityI) (auto simp: rest_def nth_list_update)
  moreover have "rest st n ! ?k = hp_page t # unread st ?k" using P(1,2) by (simp add: rest_nth)
  moreover have "length (concat (xs[k := ys])) < length (concat xs)" if "k < length xs" "xs ! k = y # ys" for xs k ys and y :: page_entry
    using that by (induction xs arbitrary: k) (auto split: nat.splits simp: nth_Cons')
  ultimately show "length (concat (rest st' n)) < length (concat (rest st n))"
    unfolding rest' using P(1) by (simp add: rest_def)
qed

lemma merge_loop_runs:
  assumes "merge_inv ids n epc whole full st" "0 < n"
  shows "(\<exists>st'. merge_loop nxt ids n st = Some (Inr st') \<and> merge_inv ids n epc whole full st' \<and> ms_heap st' = []) \<or>
    (\<exists>s0 h s1 e. nxt s0 h = (s1, Inl e) \<and> merge_loop nxt ids n st = Some (Inl (e, s1)))"
  using assms(1)
proof (induction "length (concat (rest st n))" arbitrary: st rule: less_induct)
  case less
  show ?case
  proof (cases "heap_pop (ms_heap st)")
    case None
    then have "ms_heap st = []" by (simp add: heap_pop_def)
    with None less.prems show ?thesis by (subst (1) merge_loop.simps) simp
  next
    case (Some th)
    obtain t heap' where th: "th = (t, heap')" by (cases th)
    let ?st2 = "resolve_top t (st\<lparr>ms_heap := heap'\<rparr>)"
    show ?thesis
    proof (cases "fetch_page nxt ids n (hp_order t) ?st2")
      case (Inl es)
      then have "\<exists>s0 h s1 e. nxt s0 h = (s1, Inl e) \<and> es = (e, s1)"
        by (auto simp: fetch_page_def split: prod.splits sum.splits option.splits)
      with Inl Some th show ?thesis
        by (subst (1 2) merge_loop.simps) auto
    next
      case (Inr st')
      note S = merge_step [OF less.prems assms(2) Some [unfolded th] Inr]
      have "merge_loop nxt ids n st = merge_loop nxt ids n st'"
        using Some th Inr by (subst merge_loop.simps) simp
      with less.hyps [OF S(2,1)] show ?thesis by simp
    qed
  qed
qed

text \<open>Priming the frontier with the first page of each source.\<close>

definition primed :: "page_id_size \<Rightarrow> nat \<Rightarrow> nat list \<Rightarrow> page_entry list list \<Rightarrow> u64 option \<Rightarrow> bytes list \<Rightarrow> ('s, 'h) merge_state \<Rightarrow> bool" where
  "primed ids n ks pss epc full st \<longleftrightarrow>
     length (ms_streams st) = n \<and> length (ms_hashers st) = n \<and> distinct (map hp_order (ms_heap st)) \<and>
     (\<forall>h\<in>set (ms_heap st). hp_order h < n) \<and> (\<forall>k\<in>set ks. k < n \<and> frontier st k = []) \<and>
     (\<forall>j<n. j \<notin> set ks \<longrightarrow> frontier st j = [] \<longrightarrow> unread st j = []) \<and>
     rest st n = pss \<and> ms_pending st = None \<and> ms_body st = [] \<and> ms_count st = 0 \<and>
     epc_ok n epc st \<and> hashers_ok ids n full st \<and> live_ok n st"

lemma prime_runs:
  assumes "primed ids n ks pss epc full st" "distinct ks"
  shows "(\<exists>st'. prime_frontier nxt ids n ks st = Inr st' \<and> primed ids n [] pss epc full st') \<or>
    (\<exists>s0 h s1 e. nxt s0 h = (s1, Inl e) \<and> prime_frontier nxt ids n ks st = Inl (e, s1))"
  using assms
proof (induction ks arbitrary: st)
  case (Cons k ks)
  show ?case
  proof (cases "fetch_page nxt ids n k st")
    case (Inl es)
    then have "\<exists>s0 h s1 e. nxt s0 h = (s1, Inl e) \<and> es = (e, s1)"
      by (auto simp: fetch_page_def split: prod.splits sum.splits option.splits)
    with Inl show ?thesis by auto
  next
    case (Inr st')
    have base: "k < n" "frontier st k = []" "length (ms_streams st) = n" "length (ms_hashers st) = n"
      "distinct (map hp_order (ms_heap st))" "\<forall>h\<in>set (ms_heap st). hp_order h < n"
      using Cons.prems(1) by (simp_all add: primed_def)
    have len: "k < length (ms_streams st)" "k < length (ms_hashers st)" using base by simp_all
    note H = fetch_heap [OF Inr base] and R = fetch_rest [OF Inr len base(2)] and Q = fetch_pending [OF Inr len]
    have "primed ids n ks pss epc full st'"
      unfolding primed_def
    proof (intro conjI)
      show "\<forall>j\<in>set ks. j < n \<and> frontier st' j = []"
      proof
        fix j
        assume j: "j \<in> set ks"
        then have "j \<noteq> k" using Cons.prems(2) by auto
        with j show "j < n \<and> frontier st' j = []" using Cons.prems(1) H(5) [of j] by (simp add: primed_def)
      qed
      show "\<forall>j<n. j \<notin> set ks \<longrightarrow> frontier st' j = [] \<longrightarrow> unread st' j = []"
      proof (intro allI impI)
        fix j
        assume "j < n" "j \<notin> set ks" "frontier st' j = []"
        then show "unread st' j = []"
          using R(2) H(5) [of j] Cons.prems(1) by (cases "j = k") (auto simp: primed_def)
      qed
      show "rest st' n = pss"
        using rest_eqI [of n st' st] R(1) Cons.prems(1) by (simp add: primed_def)
    qed (use Cons.prems(1) H(1-4) Q fetch_epc_ok [OF Inr len] fetch_hashers_ok [OF Inr len] fetch_live_ok [OF Inr len]
        in \<open>simp_all add: primed_def\<close>)
    from Cons.IH [OF this] Cons.prems(2) Inr show ?thesis by simp
  qed
qed simp

lemma initial_primed:
  assumes "pss = map (\<lambda>i. content s (mi_stream i)) sources" "sources \<noteq> []" "n = length sources"
    and "\<forall>ps\<in>set pss. merge_source ids ps"
    and "full = map2 (\<lambda>i ps. u64_to_be (sh_prev_checksum (mi_header i)) @ concat (map (hash_source_page ids) ps)) sources pss"
  shows "primed ids n [0..<n] pss (declared_epc (last pss)) full (initial_merge_state s sources)"
proof -
  let ?st = "initial_merge_state s sources"
  have f: "frontier ?st k = []" for k by (simp add: frontier_def initial_merge_state_def)
  have u: "unread ?st k = pss ! k" if "k < n" for k
    using that assms(1,3) by (simp add: unread_def initial_merge_state_def)
  have last: "last pss = pss ! (n - 1)" "n - 1 < n" "pss ! (n - 1) \<in> set pss"
    using assms(1-3) by (auto simp: last_conv_nth)
  have "rest ?st n = pss"
    using assms(1,3) f u by (intro nth_equalityI) (simp_all add: rest_def)
  moreover have "merge_source ids (pss ! (n - 1))" using assms(4) last(3) by blast
  then have "epc_ok n (declared_epc (last pss)) ?st"
  proof -
    assume src: "merge_source ids (pss ! (n - 1))"
    show ?thesis
    proof (cases "filter (\<lambda>p. pe_data p = []) (pss ! (n - 1))")
      case Nil
      then show ?thesis
        using u [OF last(2)] last(1) by (simp add: epc_ok_def epc_state_def declared_epc_def) (simp add: initial_merge_state_def)
    next
      case (Cons m ms)
      then have "m \<in> set (filter (\<lambda>p. pe_data p = []) (pss ! (n - 1)))" by simp
      then have "m \<in> set (pss ! (n - 1))" "pe_data m = []" by auto
      with src Cons u [OF last(2)] last(1) show ?thesis
        by (simp add: epc_ok_def epc_state_def declared_epc_def merge_source_def) (simp add: initial_merge_state_def)
    qed
  qed
  moreover have "hashers_ok ids n full ?st"
    using u assms(1,3,5) by (simp add: hashers_ok_def) (simp add: initial_merge_state_def)
  ultimately show ?thesis
    using f assms(3) by (simp add: primed_def live_ok_def) (simp add: initial_merge_state_def)
qed

lemma primed_inv:
  assumes "primed ids n [] pss epc full st" "\<forall>ps\<in>set pss. merge_source ids ps"
  shows "merge_inv ids n epc (emitted epc (lww_map pss)) full st"
proof -
  have "rest st n = pss" using assms(1) by (simp add: primed_def)
  then have "merge_source ids (frontier st j @ unread st j)" if "j < n" for j
    using assms(2) rest_nth [OF that, of st] that by (metis diff_zero length_map length_upt nth_mem rest_def)
  then have "frontier_ok ids n st"
    using assms(1) by (simp add: frontier_ok_def primed_def merge_source_def)
  moreover have "output_ok n epc (emitted epc (lww_map pss)) st"
    using assms(1) by (simp add: primed_def output_ok_def pending_map_def)
  ultimately show ?thesis
    using assms(1) by (simp add: merge_inv_def primed_def pending_ok_def)
qed

text \<open>A drained frontier leaves only the pending page: finishing writes the contract's object.\<close>

lemma drained_finish:
  assumes "merge_inv ids n epc (emitted epc (lww_map pss)) full st" "ms_heap st = []" "0 < n"
  shows "ms_body (flush_pending st) = concat (map page_bytes (emitted epc (lww_map pss)))"
    "ms_count (flush_pending st) = length (emitted epc (lww_map pss))"
    "ms_final_epc (flush_pending st) = epc" "ms_hashers (flush_pending st) = ms_hashers st"
    "length (ms_hashers st) = n" "\<forall>k<n. ms_hashers st ! k = full ! k"
proof -
  have fr: "frontier st k = []" for k using assms(2) by (simp add: frontier_def)
  have un: "unread st k = []" if "k < n" for k
    using assms(1) fr that by (simp add: merge_inv_def frontier_ok_def)
  have "rest st n = replicate n []"
    using un fr by (intro nth_equalityI) (simp_all add: rest_def)
  moreover have "lww_map (replicate m []) = Map.empty" for m by (induction m) simp_all
  ultimately have lw: "lww_map (rest st n) = Map.empty" by simp
  have epc: "ms_final_epc st = epc"
    using assms(1) un [of "n - 1"] assms(3) by (simp add: merge_inv_def epc_ok_def epc_state_def)
  show "length (ms_hashers st) = n" "\<forall>k<n. ms_hashers st ! k = full ! k"
    using assms(1) un by (simp_all add: merge_inv_def hashers_ok_def frontier_ok_def)
  obtain E where E: "ms_body st = concat (map page_bytes E)" "ms_count st = length E"
      and whole: "emitted epc (lww_map pss) = E @ emitted epc (pending_map st)"
    using assms(1) lw by (auto simp: merge_inv_def output_ok_def)
  have pend: "emitted epc (pending_map st) =
      (case ms_pending st of None \<Rightarrow> [] | Some p \<Rightarrow> if should_emit (hp_page p) epc then [hp_page p] else [])"
    using emitted_first [of Map.empty _ epc] by (simp add: pending_map_def split: option.split)
  show "ms_body (flush_pending st) = concat (map page_bytes (emitted epc (lww_map pss)))"
    "ms_count (flush_pending st) = length (emitted epc (lww_map pss))"
    "ms_final_epc (flush_pending st) = epc" "ms_hashers (flush_pending st) = ms_hashers st"
    unfolding whole pend using E epc
    by (simp_all add: flush_pending_def emit_page_def Let_def split: option.split)
qed

lemma drained_result:
  assumes "merge_inv ids n (declared_epc (last pss)) (emitted (declared_epc (last pss)) (lww_map pss)) full st"
    and "ms_heap st = []" "n = length sources" "sources \<noteq> []" "ids = sh_page_id_size (mi_header (hd sources))"
    and "length pss = n"
    and "full = map2 (\<lambda>i ps. u64_to_be (sh_prev_checksum (mi_header i)) @ concat (map (hash_source_page ids) ps)) sources pss"
  shows "merge_finish sha256 now_ms sources st = merge_spec sha256 now_ms sources pss"
proof -
  let ?epc = "declared_epc (last pss)"
  have "0 < n" using assms(3,4) by simp
  note D = drained_finish [OF assms(1,2) this]
  let ?em = "emit_marker ids (flush_pending st)"
  have em: "ms_body ?em = concat (map page_bytes (merged_pages ids pss))" "ms_count ?em = length (merged_pages ids pss)"
    "ms_final_epc ?em = ?epc" "ms_hashers ?em = ms_hashers st"
    using D(1-4) by (simp_all add: emit_marker_def emit_page_def merged_pages_def split: option.split)
  have "ms_hashers st = full"
    using D(5,6) assms(3,6,7) by (intro nth_equalityI) simp_all
  then have "map2 (\<lambda>h fed. case sh_declared_end h of Some e \<Rightarrow> e | None \<Rightarrow> finalize sha256 fed) (map mi_header sources) (ms_hashers ?em) =
      map2 (source_end sha256 ids) (map mi_header sources) pss"
    using assms(3,6,7) em(4) by (intro nth_equalityI) (simp_all add: source_end_def)
  moreover have "sh_page_id_size (hd (map mi_header sources)) = ids" using assms(4,5) by (simp add: hd_map)
  ultimately show ?thesis
    unfolding merge_finish_def merge_spec_def Let_def merged_range_def by (simp only: em)
qed

text \<open>
  A merge of well-formed sources ends.  It returns what the contract says, or the error of a
  stream that failed to deliver a page.
\<close>

lemma merge_run:
  assumes "sources \<noteq> []" "pss = map (\<lambda>i. content s (mi_stream i)) sources"
    and "ids = sh_page_id_size (mi_header (hd sources))" "page_size = sh_page_size (mi_header (hd sources))"
    and "\<forall>i\<in>set sources. sh_page_id_size (mi_header i) = ids \<and> sh_page_size (mi_header i) = page_size"
    and "\<forall>ps\<in>set pss. merge_source ids ps"
  shows "(\<exists>s'. merge_changesets nxt sha256 now_ms sources s = Some (s', merge_spec sha256 now_ms sources pss)) \<or>
    (\<exists>s0 h s1 e. nxt s0 h = (s1, Inl e) \<and> merge_changesets nxt sha256 now_ms sources s = Some (s1, Inl e))"
proof -
  define n where "n = length sources"
  define full where "full = map2 (\<lambda>i ps. u64_to_be (sh_prev_checksum (mi_header i)) @ concat (map (hash_source_page ids) ps)) sources pss"
  have n: "0 < n" "length pss = n" using assms(1,2) n_def by auto
  have geo: "\<not> list_ex (\<lambda>i. sh_page_id_size (mi_header i) \<noteq> ids \<or> sh_page_size (mi_header i) \<noteq> page_size) sources"
    using assms(5) by (auto simp: list_ex_iff)
  have mc: "merge_changesets nxt sha256 now_ms sources s =
      (case prime_frontier nxt ids n [0..<n] (initial_merge_state s sources) of
            Inl (e, s') \<Rightarrow> Some (s', Inl e)
          | Inr st \<Rightarrow>
              map_option (\<lambda>r. case r of Inl (e, s') \<Rightarrow> (s', Inl e) | Inr st' \<Rightarrow> (ms_store st', merge_finish sha256 now_ms sources st'))
                (merge_loop nxt ids n st))"
    using assms(1) geo unfolding merge_changesets_def assms(3,4) n_def by (simp add: Let_def)
  note init = initial_primed [OF assms(2,1) n_def assms(6) full_def]
  from prime_runs [OF init distinct_upt] show ?thesis
  proof (elim disjE exE conjE)
    fix st
    assume st: "prime_frontier nxt ids n [0..<n] (initial_merge_state s sources) = Inr st"
      "primed ids n [] pss (declared_epc (last pss)) full st"
    from merge_loop_runs [OF primed_inv [OF st(2) assms(6)] n(1)] show ?thesis
    proof (elim disjE exE conjE)
      fix st'
      assume "merge_loop nxt ids n st = Some (Inr st')" and inv: "merge_inv ids n (declared_epc (last pss))
          (emitted (declared_epc (last pss)) (lww_map pss)) full st'" and "ms_heap st' = []"
      then show ?thesis
        using mc st(1) drained_result [OF inv _ n_def assms(1,3) n(2) full_def] by simp
    next
      fix s0 h s1 e
      assume "nxt s0 h = (s1, Inl e)" "merge_loop nxt ids n st = Some (Inl (e, s1))"
      then show ?thesis using mc st(1) by auto
    qed
  next
    fix s0 h s1 e
    assume "nxt s0 h = (s1, Inl e)" "prime_frontier nxt ids n [0..<n] (initial_merge_state s sources) = Inl (e, s1)"
    then show ?thesis using mc by auto
  qed
qed

text \<open>
  Whatever pages the streams deliver, sorted or not, the merge ends; and it does to the outside
  world only what reading pages does.
\<close>

definition work :: "nat \<Rightarrow> ('s, 'h) merge_state \<Rightarrow> nat" where
  "work n st = length (ms_heap st) + (\<Sum>k<n. length (unread st k))"

definition wf_state :: "nat \<Rightarrow> ('s, 'h) merge_state \<Rightarrow> bool" where
  "wf_state n st \<longleftrightarrow> length (ms_streams st) = n \<and> length (ms_hashers st) = n \<and> (\<forall>h\<in>set (ms_heap st). hp_order h < n)"

lemma fetch_work:
  assumes "fetch_page nxt ids n k st = Inr st'" "k < n" "wf_state n st"
  shows "work n st' \<le> work n st" "wf_state n st'"
proof -
  have len: "k < length (ms_streams st)" "k < length (ms_hashers st)" using assms(2,3) by (simp_all add: wf_state_def)
  have "work n st' \<le> work n st \<and> wf_state n st'"
    using assms(1) len
  proof (cases rule: fetch_cases)
    case (drained s')
    have "work n st' = work n st" unfolding work_def using drained(2,4) by simp
    moreover have "wf_state n st'" using drained(2) assms(3) by (simp add: wf_state_def)
    ultimately show ?thesis by simp
  next
    case (page p)
    have "(\<Sum>j<n. length (unread st j)) = Suc (\<Sum>j<n. length (unread st' j))"
    proof -
      have "(\<Sum>j<n. length (unread s j)) = length (unread s k) + (\<Sum>j\<in>{..<n} - {k}. length (unread s j))" for s
        using assms(2) by (intro sum.remove) auto
      moreover have "(\<Sum>j\<in>{..<n} - {k}. length (unread st j)) = (\<Sum>j\<in>{..<n} - {k}. length (unread st' j))"
        using page(2) by (intro sum.cong) auto
      ultimately show ?thesis using page(1) by simp
    qed
    then show ?thesis using page assms(2,3) by (auto simp: work_def wf_state_def)
  qed
  then show "work n st' \<le> work n st" "wf_state n st'" by auto
qed

definition stable :: "('s \<Rightarrow> bool) \<Rightarrow> bool" where
  "stable I \<longleftrightarrow> (\<forall>s h s' r. I s \<longrightarrow> nxt s h = (s', r) \<longrightarrow> I s')"

lemma fetch_store:
  assumes "fetch_page nxt ids n k st = r" "I (ms_store st)" "stable I"
  shows "case r of Inl (e, s') \<Rightarrow> I s' | Inr st' \<Rightarrow> I (ms_store st')"
proof (cases "nxt (ms_store st) (ms_streams st ! k)")
  case (Pair s' x)
  with assms(2,3) have "I s'" unfolding stable_def by blast
  with assms(1) Pair show ?thesis by (auto simp: fetch_page_def split: sum.splits option.splits)
qed

lemma resolve_frame:
  "ms_store (resolve_top t st) = ms_store st" "ms_heap (resolve_top t st) = ms_heap st"
  "ms_streams (resolve_top t st) = ms_streams st" "ms_hashers (resolve_top t st) = ms_hashers st"
  by (simp_all add: resolve_top_def flush_pending_def emit_page_def Let_def split: option.split)

lemma merge_loop_ends:
  assumes "wf_state n st" "I (ms_store st)" "stable I"
  shows "\<exists>r. merge_loop nxt ids n st = Some r \<and> (case r of Inl (e, s') \<Rightarrow> I s' | Inr st' \<Rightarrow> I (ms_store st'))"
  using assms(1,2)
proof (induction "work n st" arbitrary: st rule: less_induct)
  case less
  show ?case
  proof (cases "heap_pop (ms_heap st)")
    case None
    then show ?thesis using less.prems by (subst merge_loop.simps) simp
  next
    case (Some th)
    obtain t heap' where th: "th = (t, heap')" by (cases th)
    let ?st2 = "resolve_top t (st\<lparr>ms_heap := heap'\<rparr>)"
    have t: "t \<in> set (ms_heap st)" "heap' = remove1 t (ms_heap st)" using heap_pop_Some Some th by auto
    have sub: "set heap' \<subseteq> set (ms_heap st)" using t(2) by (simp add: set_remove1_subset)
    have wf2: "wf_state n ?st2" using less.prems(1) sub by (auto simp: wf_state_def resolve_frame)
    have "length heap' < length (ms_heap st)" using t length_pos_if_in_set [OF t(1)] by (simp add: length_remove1)
    then have w2: "work n ?st2 < work n st" by (simp add: work_def unread_def resolve_frame)
    have k: "hp_order t < n" using t(1) less.prems(1) by (simp add: wf_state_def)
    have I2: "I (ms_store ?st2)" using less.prems(2) by (simp add: resolve_frame)
    note F = fetch_store [OF _ I2 assms(3)]
    show ?thesis
    proof (cases "fetch_page nxt ids n (hp_order t) ?st2")
      case (Inl es)
      then show ?thesis using Some th F [OF Inl] by (subst merge_loop.simps) auto
    next
      case (Inr st')
      have "merge_loop nxt ids n st = merge_loop nxt ids n st'"
        using Some th Inr by (subst merge_loop.simps) simp
      moreover have "work n st' < work n st" using fetch_work(1) [OF Inr k wf2] w2 by simp
      ultimately show ?thesis using less.hyps fetch_work(2) [OF Inr k wf2] F [OF Inr] by simp
    qed
  qed
qed

lemma prime_ends:
  assumes "wf_state n st" "I (ms_store st)" "stable I" "\<forall>k\<in>set ks. k < n"
  shows "case prime_frontier nxt ids n ks st of Inl (e, s') \<Rightarrow> I s' | Inr st' \<Rightarrow> wf_state n st' \<and> I (ms_store st')"
  using assms(1,2,4)
proof (induction ks arbitrary: st)
  case (Cons k ks)
  note F = fetch_store [OF _ Cons.prems(2) assms(3)]
  show ?case
  proof (cases "fetch_page nxt ids n k st")
    case (Inl es)
    then show ?thesis using F [OF Inl] by simp
  next
    case (Inr st')
    then show ?thesis using Cons fetch_work(2) [OF Inr] F [OF Inr] by simp
  qed
qed simp

lemma merge_ends:
  assumes "I s" "stable I"
  shows "\<exists>s' r. merge_changesets nxt sha256 now_ms sources s = Some (s', r) \<and> I s'"
proof -
  let ?n = "length sources" and ?ids = "sh_page_id_size (mi_header (hd sources))"
  let ?st = "initial_merge_state s sources"
  have wf: "wf_state ?n ?st" "I (ms_store ?st)" using assms(1) by (simp_all add: wf_state_def initial_merge_state_def)
  note P = prime_ends [OF wf(1), of I "[0..<?n]" ?ids, OF wf(2) assms(2)]
  show ?thesis
  proof (cases "prime_frontier nxt ?ids ?n [0..<?n] ?st")
    case (Inl es)
    with P assms(1) show ?thesis by (cases es) (auto simp: merge_changesets_def Let_def)
  next
    case (Inr st)
    with P have st: "wf_state ?n st" "I (ms_store st)" by simp_all
    from merge_loop_ends [OF this assms(2), of ?ids] obtain r where
      "merge_loop nxt ?ids ?n st = Some r" "case r of Inl (e, s') \<Rightarrow> I s' | Inr st' \<Rightarrow> I (ms_store st')"
      by auto
    with Inr assms(1) show ?thesis by (auto simp: merge_changesets_def Let_def split: sum.splits)
  qed
qed

text \<open>The memory bound: never more than one frontier page per source and one emit slot.\<close>

lemma peak_bounded:
  assumes "sources \<noteq> []" "n = length sources" "\<forall>i\<in>set sources. merge_source ids (content s (mi_stream i))"
    and "prime_frontier nxt ids n [0..<n] (initial_merge_state s sources) = Inr st"
    and "merge_loop nxt ids n st = Some (Inr st')"
  shows "pk_peak (ms_tracker st') \<le> n + 1"
proof -
  let ?pss = "map (\<lambda>i. content s (mi_stream i)) sources"
  let ?full = "map2 (\<lambda>i ps. u64_to_be (sh_prev_checksum (mi_header i)) @ concat (map (hash_source_page ids) ps)) sources ?pss"
  have src: "\<forall>ps\<in>set ?pss. merge_source ids ps" using assms(3) by simp
  have "0 < n" using assms(1,2) by simp
  have "primed ids n [] ?pss (declared_epc (last ?pss)) ?full st"
    using prime_runs [OF initial_primed [OF refl assms(1,2) src refl] distinct_upt] assms(4) by auto
  from merge_loop_runs [OF primed_inv [OF this src] \<open>0 < n\<close>]
  have "live_ok n st'" using assms(5) by (auto simp: merge_inv_def)
  then show ?thesis by (simp add: live_ok_def)
qed

end

text \<open>Pages already in memory are a page stream.\<close>

fun list_next :: "('s, page_entry list) next_page_op" where
  "list_next s [] = (s, Inr None)"
| "list_next s (p # ps) = (s, Inr (Some (p, ps)))"

interpretation page_lists: page_source list_next "\<lambda>_ ps. ps"
proof
  show "list_next s h = (s', Inr None) \<Longrightarrow> h = []" for s s' :: 'a and h by (cases h) auto
  show "list_next s h = (s', Inr (Some (p, h'))) \<Longrightarrow> h = p # h'" for s s' :: 'a and h h' p by (cases h) auto
qed simp

section \<open>Properties\<close>

text \<open>
  Claim C15: the streaming merge ends and computes last-writer-wins.  For any page streams that
  deliver canonical changesets of one geometry the k-way merge returns exactly the object the
  contract describes (or reports a broken chain between neighbouring sources), and otherwise it
  returns the error of a stream that failed, and nothing else.
\<close>

theorem merge_refines_spec:
  assumes "page_source nxt content" "sources \<noteq> []"
    and "\<forall>i\<in>set sources. sh_page_id_size (mi_header i) = sh_page_id_size (mi_header (hd sources)) \<and>
          sh_page_size (mi_header i) = sh_page_size (mi_header (hd sources))"
    and "\<forall>i\<in>set sources. merge_source (sh_page_id_size (mi_header (hd sources))) (content s (mi_stream i))"
  shows "(\<exists>s'. merge_changesets nxt sha256 now_ms sources s =
            Some (s', merge_spec sha256 now_ms sources (map (\<lambda>i. content s (mi_stream i)) sources))) \<or>
    (\<exists>s0 h s1 e. nxt s0 h = (s1, Inl e) \<and> merge_changesets nxt sha256 now_ms sources s = Some (s1, Inl e))"
  using page_source.merge_run [OF assms(1,2) refl refl refl assms(3)] assms(4) by simp

definition demo_input :: "u8 \<Rightarrow> page_entry list merge_input" where
  "demo_input b =
     \<lparr>mi_header = \<lparr>sh_page_id_size = IdU32, sh_page_size = 512, sh_seq = 1, sh_prev_checksum = 0, sh_page_count = 1,
                   sh_created_ms = 0, sh_declared_end = Some 0\<rparr>,
      mi_range = point 1, mi_stream = [\<lparr>pe_page_id = PageU32 1, pe_data = [b]\<rparr>]\<rparr>"

theorem merge_refines_spec_witness:
  "\<exists>s'. merge_changesets list_next (\<lambda>b. b) 0 [demo_input 1, demo_input 2] () =
     Some (s', merge_spec (\<lambda>b. b) 0 [demo_input 1, demo_input 2] (map mi_stream [demo_input 1, demo_input 2]))"
proof -
  have "list_next s h \<noteq> (s1, Inl e)" for s s1 :: unit and h e by (cases h) auto
  then show ?thesis
    using merge_refines_spec [OF page_lists.page_source_axioms, where sources = "[demo_input 1, demo_input 2]" and s = "()" and ?sha256.0 = "\<lambda>b. b" and now_ms = 0]
    by (simp add: demo_input_def merge_source_def ascending_def has_id_size_def)
qed

text \<open>
  Claim C19: the merge is memory bounded.  Whatever the lengths of the sources, a completed merge
  never held more pages at once than one per source and the emit slot.
\<close>

theorem merge_memory_bound:
  assumes "page_source nxt content" "sources \<noteq> []" "\<forall>i\<in>set sources. merge_source ids (content s (mi_stream i))"
    and "prime_frontier nxt ids (length sources) [0..<length sources] (initial_merge_state s sources) = Inr st"
    and "merge_loop nxt ids (length sources) st = Some (Inr st')"
  shows "pk_peak (ms_tracker st') \<le> length sources + 1"
  using page_source.peak_bounded [OF assms(1,2) refl assms(3-5)] .

theorem merge_memory_bound_witness:
  "\<exists>st st'. prime_frontier list_next IdU32 1 [0..<1] (initial_merge_state () [demo_input 1]) = Inr st \<and>
     merge_loop list_next IdU32 1 st = Some (Inr st') \<and> pk_peak (ms_tracker st') \<le> 2"
proof -
  let ?src = "[demo_input 1]"
  have m: "\<forall>i\<in>set ?src. merge_source IdU32 (mi_stream i)"
    by (simp add: demo_input_def merge_source_def ascending_def has_id_size_def)
  obtain st where st: "prime_frontier list_next IdU32 (length ?src) [0..<length ?src] (initial_merge_state () ?src) = Inr st"
    by (simp add: fetch_page_def initial_merge_state_def demo_input_def)
  have ni: "list_next s h \<noteq> (s1, Inl e)" for s s1 :: unit and h e by (cases h) auto
  have pss: "\<forall>ps\<in>set (map mi_stream ?src). merge_source IdU32 ps" using m by simp
  have P: "page_lists.primed IdU32 (length ?src) [] (map mi_stream ?src) (declared_epc (last (map mi_stream ?src)))
      (map2 (\<lambda>i ps. u64_to_be (sh_prev_checksum (mi_header i)) @ concat (map (hash_source_page IdU32) ps)) ?src (map mi_stream ?src)) st"
    using page_lists.prime_runs [OF page_lists.initial_primed [OF refl _ refl pss refl] distinct_upt, of "()"] st ni by auto
  obtain st' where st': "merge_loop list_next IdU32 (length ?src) st = Some (Inr st')"
    using page_lists.merge_loop_runs [OF page_lists.primed_inv [OF P pss]] ni by fastforce
  show ?thesis
    using merge_memory_bound [OF page_lists.page_source_axioms _ m st st'] st st' by auto
qed

lemma i64_roundtrip: "- (2 ^ 63) \<le> x \<Longrightarrow> x < 2 ^ 63 \<Longrightarrow> i64_from_be (i64_to_be x) = x"
  by (simp add: i64_from_be_def i64_to_be_def signed_of_int signed_take_bit_int_eq_self)

lemma slice_skip: "length xs \<le> a \<Longrightarrow> slice (xs @ ys) a n = slice ys (a - length xs) n"
  by (simp add: slice_def)

lemma slice_head: "length xs = n \<Longrightarrow> slice (xs @ ys) 0 n = xs"
  by (simp add: slice_def)

text \<open>
  The header a merge writes is read back field by field by the header parser that the
  next level's merge uses: geometry, sequence, both chain values, page count and time survive.
\<close>

theorem merged_header_roundtrip:
  assumes "- (2 ^ 63) \<le> created_ms" "created_ms < 2 ^ 63"
  shows "parse_source_header (merged_header_bytes ids page_size out_seq prev pcount created_ms declared marker @ tail_bytes) =
    Inr \<lparr>sh_page_id_size = ids, sh_page_size = page_size, sh_seq = out_seq, sh_prev_checksum = prev, sh_page_count = pcount,
         sh_created_ms = created_ms, sh_declared_end = Some declared\<rparr>"
proof -
  define fl :: u8 where "fl = (if marker then or FLAG_COMPACTED FLAG_END_PAGE_COUNT_MARKER else FLAG_COMPACTED)"
  define pre where "pre = HADBP_MAGIC @ [2, fl, word_of_nat (pid_len ids)]"
  let ?h = "merged_header_bytes ids page_size out_seq prev pcount created_ms declared marker @ tail_bytes"
  have h: "?h = pre @ u32_to_be page_size @ u64_to_be out_seq @ u64_to_be prev @ u32_to_be pcount @ i64_to_be created_ms @
      u64_to_be declared @ tail_bytes"
    by (simp add: merged_header_bytes_def pre_def fl_def)
  have len: "length pre = 8" "length (i64_to_be created_ms) = 8" by (simp_all add: pre_def HADBP_MAGIC_def i64_to_be_def)
  have magic: "slice ?h 0 5 = HADBP_MAGIC" "?h ! 5 = 2" "?h ! 6 = fl" "?h ! 7 = word_of_nat (pid_len ids)"
    unfolding h pre_def by (simp_all add: slice_def HADBP_MAGIC_def nth_append)
  have fields: "slice ?h 8 4 = u32_to_be page_size" "slice ?h 12 8 = u64_to_be out_seq" "slice ?h 20 8 = u64_to_be prev"
    "slice ?h 28 4 = u32_to_be pcount" "slice ?h 32 8 = i64_to_be created_ms" "slice ?h 40 8 = u64_to_be declared"
    unfolding h by (simp_all add: slice_skip slice_head len)
  have c: "and fl FLAG_COMPACTED \<noteq> 0" by (simp add: fl_def FLAG_COMPACTED_def FLAG_END_PAGE_COUNT_MARKER_def)
  have l: "48 \<le> length ?h" unfolding h using len by simp
  have id: "(word_of_nat (pid_len ids) :: u8) = (case ids of IdU32 \<Rightarrow> 4 | IdU64 \<Rightarrow> 8)" by (cases ids) simp_all
  show ?thesis
    using l unfolding parse_source_header_def header_offsets(1-10) magic [unfolded id] fields Let_def u32_roundtrip u64_roundtrip i64_roundtrip [OF assms]
    using c by (cases ids) simp_all
qed

theorem merged_header_roundtrip_witness:
  "parse_source_header (merged_header_bytes IdU32 4096 9 7 3 1700000000000 11 True @ []) =
    Inr \<lparr>sh_page_id_size = IdU32, sh_page_size = 4096, sh_seq = 9, sh_prev_checksum = 7, sh_page_count = 3,
         sh_created_ms = 1700000000000, sh_declared_end = Some 11\<rparr>"
  by (rule merged_header_roundtrip) simp_all


end
