(* ===== verification/Actions.thy ===== *)
theory Actions
  imports Prelude
begin

text \<open>
  Stateful, fallible code.  An \<open>async fn\<close> that talks to storage is an action: a function from the
  state of the outside world to a new state and either an error or a value.  \<open>and_then\<close> is Rust's
  \<^verbatim>\<open>.await?\<close>; \<open>attempt\<close> keeps an error as a value, as a \<^verbatim>\<open>match\<close> on the result does.

  \<open>wp m Q E s\<close> says that \<open>m\<close>, started in \<open>s\<close>, ends in \<open>Q\<close> with a value or in \<open>E\<close> with an error.  The
  rules that push it through the combinators are collected in \<open>wp_simps\<close>.
\<close>

type_synonym ('s, 'e, 'a) action = "'s \<Rightarrow> 's \<times> ('e + 'a)"

named_theorems wp_simps \<open>weakest preconditions of the combinators\<close>

definition return :: "'a \<Rightarrow> ('s, 'e, 'a) action" where
  "return a = (\<lambda>s. (s, Inr a))"

definition raise :: "'e \<Rightarrow> ('s, 'e, 'a) action" where
  "raise e = (\<lambda>s. (s, Inl e))"

definition and_then :: "('s, 'e, 'a) action \<Rightarrow> ('a \<Rightarrow> ('s, 'e, 'b) action) \<Rightarrow> ('s, 'e, 'b) action" where
  "and_then m f = (\<lambda>s. case m s of (s', Inl e) \<Rightarrow> (s', Inl e) | (s', Inr a) \<Rightarrow> f a s')"

definition map_error :: "('e \<Rightarrow> 'f) \<Rightarrow> ('s, 'e, 'a) action \<Rightarrow> ('s, 'f, 'a) action" where
  "map_error g m = (\<lambda>s. case m s of (s', Inl e) \<Rightarrow> (s', Inl (g e)) | (s', Inr a) \<Rightarrow> (s', Inr a))"

definition attempt :: "('s, 'e, 'a) action \<Rightarrow> ('s, 'f, 'e + 'a) action" where
  "attempt m = (\<lambda>s. case m s of (s', r) \<Rightarrow> (s', Inr r))"

definition from_result :: "'e + 'a \<Rightarrow> ('s, 'e, 'a) action" where
  "from_result r = (case r of Inl e \<Rightarrow> raise e | Inr a \<Rightarrow> return a)"

fun for_each :: "('x \<Rightarrow> ('s, 'e, 'a) action) \<Rightarrow> 'x list \<Rightarrow> ('s, 'e, 'a list) action" where
  "for_each f [] = return []"
| "for_each f (x # xs) = and_then (f x) (\<lambda>a. and_then (for_each f xs) (\<lambda>as. return (a # as)))"

fun fold_actions :: "('x \<Rightarrow> 'b \<Rightarrow> ('s, 'e, 'b) action) \<Rightarrow> 'x list \<Rightarrow> 'b \<Rightarrow> ('s, 'e, 'b) action" where
  "fold_actions f [] b = return b"
| "fold_actions f (x # xs) b = and_then (f x b) (fold_actions f xs)"

section \<open>Weakest preconditions\<close>

definition wp :: "('s, 'e, 'a) action \<Rightarrow> ('a \<Rightarrow> 's \<Rightarrow> bool) \<Rightarrow> ('e \<Rightarrow> 's \<Rightarrow> bool) \<Rightarrow> 's \<Rightarrow> bool" where
  "wp m Q E s = (case m s of (s', Inl e) \<Rightarrow> E e s' | (s', Inr a) \<Rightarrow> Q a s')"

lemma wp_return [wp_simps]: "wp (return a) Q E s = Q a s"
  by (simp add: wp_def return_def)

lemma wp_raise [wp_simps]: "wp (raise e) Q E s = E e s"
  by (simp add: wp_def raise_def)

lemma wp_return_fun: "wp (return a) Q E = Q a"
  by (rule ext) (rule wp_return)

lemma wp_raise_fun: "wp (raise e) Q E = E e"
  by (rule ext) (rule wp_raise)

lemma wp_and_then [wp_simps]: "wp (and_then m f) Q E s = wp m (\<lambda>a. wp (f a) Q E) E s"
  by (simp add: wp_def and_then_def split: prod.splits sum.splits)

lemmas wp_and_thenI = wp_and_then [THEN iffD2]

lemma wp_map_error [wp_simps]: "wp (map_error g m) Q E s = wp m Q (\<lambda>e. E (g e)) s"
  by (simp add: wp_def map_error_def split: prod.splits sum.splits)

lemma wp_attempt [wp_simps]: "wp (attempt m) Q E s = wp m (\<lambda>a. Q (Inr a)) (\<lambda>e. Q (Inl e)) s"
  by (simp add: wp_def attempt_def split: prod.splits sum.splits)

lemma wp_from_result [wp_simps]: "wp (from_result r) Q E s = (case r of Inl e \<Rightarrow> E e s | Inr a \<Rightarrow> Q a s)"
  by (simp add: from_result_def wp_simps split: sum.split)

lemma wp_if [wp_simps]: "wp (if c then m else n) Q E s = (if c then wp m Q E s else wp n Q E s)"
  by simp

lemma wp_option [wp_simps]:
  "wp (case x of None \<Rightarrow> m | Some a \<Rightarrow> f a) Q E s = (case x of None \<Rightarrow> wp m Q E s | Some a \<Rightarrow> wp (f a) Q E s)"
  by (simp split: option.split)

lemma wp_sum [wp_simps]:
  "wp (case x of Inl e \<Rightarrow> f e | Inr a \<Rightarrow> g a) Q E s = (case x of Inl e \<Rightarrow> wp (f e) Q E s | Inr a \<Rightarrow> wp (g a) Q E s)"
  by (simp split: sum.split)

lemma wp_mono:
  assumes "wp m Q E s" "\<And>a s'. Q a s' \<Longrightarrow> Q' a s'" "\<And>e s'. E e s' \<Longrightarrow> E' e s'"
  shows "wp m Q' E' s"
  using assms by (auto simp: wp_def split: prod.splits sum.splits)

lemma wp_run: "wp m Q E s \<Longrightarrow> m s = (s', r) \<Longrightarrow> (case r of Inl e \<Rightarrow> E e s' | Inr a \<Rightarrow> Q a s')"
  by (auto simp: wp_def split: sum.split)

lemma wp_conj: "wp m Q E s \<Longrightarrow> wp m Q' E' s \<Longrightarrow> wp m (\<lambda>a s'. Q a s' \<and> Q' a s') (\<lambda>e s'. E e s' \<and> E' e s') s"
  by (auto simp: wp_def split: prod.splits sum.splits)

lemma wp_True [simp]: "wp m (\<lambda>_ _. True) (\<lambda>_ _. True) s"
  by (simp add: wp_def split: prod.split sum.split)

lemma wp_fold_actions:
  assumes "I b s" "\<And>x b s. x \<in> set xs \<Longrightarrow> I b s \<Longrightarrow> wp (f x b) I E s"
  shows "wp (fold_actions f xs b) I E s"
  using assms
proof (induction xs arbitrary: b s)
  case (Cons x xs)
  have "wp (f x b) I E s" using Cons.prems by simp
  then have "wp (f x b) (\<lambda>b'. wp (fold_actions f xs b') I E) E s"
    by (rule wp_mono) (use Cons in auto)
  then show ?case by (simp add: wp_and_then)
qed (simp add: wp_return)

section \<open>Invariant relations\<close>

text \<open>
  \<open>confined R m\<close>: whatever \<open>m\<close> does, it relates its start and end states by \<open>R\<close>.  With a preorder \<open>R\<close>
  the combinators keep to it.
\<close>

definition confined :: "('s \<Rightarrow> 's \<Rightarrow> bool) \<Rightarrow> ('s, 'e, 'a) action \<Rightarrow> bool" where
  "confined R m \<longleftrightarrow> (\<forall>s. R s (fst (m s)))"

lemma wp_fst: "wp m (\<lambda>_. P) (\<lambda>_. P) s = P (fst (m s))"
  by (cases "m s"; cases "snd (m s)") (simp_all add: wp_def)

lemma confined_wp: "confined R m \<longleftrightarrow> (\<forall>s. wp m (\<lambda>_. R s) (\<lambda>_. R s) s)"
  by (simp add: confined_def wp_fst)

lemma confined_run: "confined R m \<Longrightarrow> m s = (s', r) \<Longrightarrow> R s s'"
  by (metis confined_def fst_conv)

lemma confined_mono: "confined R m \<Longrightarrow> (\<And>s s'. R s s' \<Longrightarrow> R' s s') \<Longrightarrow> confined R' m"
  by (simp add: confined_def)

named_theorems confined_intros \<open>actions that keep to a preorder\<close>

lemma confined_return [confined_intros]: "reflp R \<Longrightarrow> confined R (return a)"
  by (simp add: confined_def return_def reflpD)

lemma confined_raise [confined_intros]: "reflp R \<Longrightarrow> confined R (raise e)"
  by (simp add: confined_def raise_def reflpD)

lemma confined_and_then [confined_intros]:
  assumes "transp R" "confined R m" "\<And>a. confined R (f a)"
  shows "confined R (and_then m f)"
proof -
  have "R s (fst (and_then m f s))" for s
  proof (cases "m s")
    case (Pair s' r)
    then have "R s s'" using assms(2) by (metis confined_run)
    moreover have "R s' (fst (f a s'))" for a using assms(3) by (simp add: confined_def)
    ultimately show ?thesis using Pair assms(1) by (cases r) (auto simp: and_then_def dest: transpD)
  qed
  then show ?thesis by (simp add: confined_def)
qed

lemma confined_map_error [confined_intros]: "confined R m \<Longrightarrow> confined R (map_error g m)"
  by (auto simp: confined_def map_error_def split: prod.split sum.split) (metis fst_conv)+

lemma confined_attempt [confined_intros]: "confined R m \<Longrightarrow> confined R (attempt m)"
  by (auto simp: confined_def attempt_def split: prod.split) (metis fst_conv)

lemma confined_from_result [confined_intros]: "reflp R \<Longrightarrow> confined R (from_result r)"
  by (cases r) (simp_all add: from_result_def confined_intros)

lemma confined_if [confined_intros]: "confined R m \<Longrightarrow> confined R n \<Longrightarrow> confined R (if c then m else n)"
  by simp

lemma confined_option [confined_intros]:
  "confined R m \<Longrightarrow> (\<And>a. confined R (f a)) \<Longrightarrow> confined R (case x of None \<Rightarrow> m | Some a \<Rightarrow> f a)"
  by (simp split: option.split)

lemma confined_sum [confined_intros]:
  "(\<And>e. confined R (f e)) \<Longrightarrow> (\<And>a. confined R (g a)) \<Longrightarrow> confined R (case x of Inl e \<Rightarrow> f e | Inr a \<Rightarrow> g a)"
  by (simp split: sum.split)

lemma confined_for_each [confined_intros]:
  assumes "reflp R" "transp R" "\<And>x. confined R (f x)"
  shows "confined R (for_each f xs)"
  using assms by (induction xs) (simp_all add: confined_return confined_and_then)

lemma confined_fold_actions [confined_intros]:
  assumes "reflp R" "transp R" "\<And>x b. confined R (f x b)"
  shows "confined R (fold_actions f xs b)"
  using assms by (induction xs arbitrary: b) (simp_all add: confined_return confined_and_then)

end
