(* ===== verification/Storage.thy ===== *)
theory Storage
  imports Complex_Main Actions Keys "HOL-Library.Sublist" "HOL-Library.AList"
begin

text \<open>
  Object storage.  \<^verbatim>\<open>hadb_storage::StorageBackend\<close> is a trait of another crate: the record
  \<open>backend\<close> holds its operations as the sources call them, and the locale \<open>storage_backend\<close> states
  what walrust relies on, over a view of which objects exist with which bytes.  The contract allows
  every fault the code defends against: operations may fail at any time, a failed or even a
  successful put may leave any bytes under its key, deletion of several objects may stop in the
  middle, and reads may miss objects.

  The in-memory backend with fault injection of \<^verbatim>\<open>walrust-dst/src/mock_storage.rs\<close> is modelled
  in full and is an instance.  Its random generator is a parameter; \<^verbatim>\<open>range_get\<close> and
  \<^verbatim>\<open>delete_many\<close>, which it inherits from the trait, are parameters with their contract.
\<close>

section \<open>The backend interface\<close>

record cas_result =
  cas_success :: bool
  cas_etag :: "string option"

record 's backend =
  b_get :: "string \<Rightarrow> ('s, string, bytes option) action"
  b_range_get :: "string \<Rightarrow> nat \<Rightarrow> nat \<Rightarrow> ('s, string, bytes option) action"
  b_put :: "string \<Rightarrow> bytes \<Rightarrow> ('s, string, unit) action"
  b_delete :: "string \<Rightarrow> ('s, string, unit) action"
  b_delete_many :: "string list \<Rightarrow> ('s, string, unit) action"
  b_list :: "string \<Rightarrow> string option \<Rightarrow> ('s, string, string list) action"
  b_exists :: "string \<Rightarrow> ('s, string, bool) action"
  b_put_if_absent :: "string \<Rightarrow> bytes \<Rightarrow> ('s, string, cas_result) action"
  b_put_if_match :: "string \<Rightarrow> bytes \<Rightarrow> string \<Rightarrow> ('s, string, cas_result) action"

locale storage_backend =
  fixes b :: "'s backend" and view :: "'s \<Rightarrow> string \<rightharpoonup> bytes"
  assumes get: "\<And>s s' r. b_get b k s = (s', r) \<Longrightarrow> view s' = view s \<and> (\<forall>d. r = Inr (Some d) \<longrightarrow> view s k = Some d)"
    and range_get: "\<And>s s' r. b_range_get b k off len s = (s', r) \<Longrightarrow>
      view s' = view s \<and> (\<forall>d. r = Inr (Some d) \<longrightarrow> (\<exists>whole. view s k = Some whole \<and> d = slice whole off len))"
    and list: "\<And>s s' r. b_list b pre after s = (s', r) \<Longrightarrow>
      view s' = view s \<and> (\<forall>ks. r = Inr ks \<longrightarrow> (\<forall>k\<in>set ks. prefix pre k \<and> view s k \<noteq> None))"
    and exists: "\<And>s s' r. b_exists b k s = (s', r) \<Longrightarrow> view s' = view s \<and> (r = Inr True \<longrightarrow> view s k \<noteq> None)"
    and put: "\<And>s s' r. b_put b k d s = (s', r) \<Longrightarrow> j \<noteq> k \<Longrightarrow> view s' j = view s j"
    and delete: "\<And>s s' r. b_delete b k s = (s', r) \<Longrightarrow>
      (view s' = view s \<or> view s' = (view s)(k := None)) \<and> (r = Inr () \<longrightarrow> view s' k = None)"
    and delete_many: "\<And>s s' r. b_delete_many b ks s = (s', r) \<Longrightarrow>
      (\<forall>j. view s' j = view s j \<or> j \<in> set ks \<and> view s' j = None) \<and> (r = Inr () \<longrightarrow> (\<forall>k\<in>set ks. view s' k = None))"
    and put_if_absent: "\<And>s s' r. b_put_if_absent b k d s = (s', r) \<Longrightarrow>
      (\<forall>j. j \<noteq> k \<or> view s k \<noteq> None \<longrightarrow> view s' j = view s j) \<and>
      (\<forall>c. r = Inr c \<longrightarrow> (if cas_success c then view s k = None \<and> view s' k \<noteq> None else view s' = view s \<and> view s k \<noteq> None))"
    and put_if_match: "\<And>s s' r. b_put_if_match b k d etag s = (s', r) \<Longrightarrow>
      (\<forall>j. j \<noteq> k \<longrightarrow> view s' j = view s j) \<and> (\<forall>c. r = Inr c \<and> \<not> cas_success c \<longrightarrow> view s' = view s)"
begin

text \<open>States that hold the same objects, and states that differ at given keys only.\<close>

definition same :: "'s \<Rightarrow> 's \<Rightarrow> bool" where
  "same s s' \<longleftrightarrow> view s' = view s"

definition only :: "string set \<Rightarrow> 's \<Rightarrow> 's \<Rightarrow> bool" where
  "only K s s' \<longleftrightarrow> (\<forall>k. k \<notin> K \<longrightarrow> view s' k = view s k)"

lemma same_preorder [simp]: "reflp same" "transp same"
  by (auto simp: same_def intro: reflpI transpI)

lemma only_preorder [simp]: "reflp (only K)" "transp (only K)"
  by (auto simp: only_def intro: reflpI transpI)

lemma same_only: "same s s' \<Longrightarrow> only K s s'"
  by (simp add: same_def only_def)

lemma reads_same:
  "confined same (b_get b k)" "confined same (b_range_get b k off len)" "confined same (b_list b pre after)" "confined same (b_exists b k)"
  unfolding confined_def same_def using get range_get list exists by (metis prod.collapse)+

lemma writes_only:
  "confined (only {k}) (b_put b k d)" "confined (only {k}) (b_delete b k)" "confined (only (set ks)) (b_delete_many b ks)"
  "confined (only {k}) (b_put_if_absent b k d)" "confined (only {k}) (b_put_if_match b k d etag)"
proof -
  have "only {k} s (fst (b_put b k d s))" for s
    using put [of k d s "fst (b_put b k d s)" "snd (b_put b k d s)"] by (simp add: only_def)
  moreover have "only {k} s (fst (b_delete b k s))" for s
    using delete [of k s "fst (b_delete b k s)" "snd (b_delete b k s)"] by (auto simp: only_def)
  moreover have "only (set ks) s (fst (b_delete_many b ks s))" for s
    using delete_many [of ks s "fst (b_delete_many b ks s)" "snd (b_delete_many b ks s)"] by (auto simp: only_def)
  moreover have "only {k} s (fst (b_put_if_absent b k d s))" for s
    using put_if_absent [of k d s "fst (b_put_if_absent b k d s)" "snd (b_put_if_absent b k d s)"] by (auto simp: only_def)
  moreover have "only {k} s (fst (b_put_if_match b k d etag s))" for s
    using put_if_match [of k d etag s "fst (b_put_if_match b k d etag s)" "snd (b_put_if_match b k d etag s)"] by (auto simp: only_def)
  ultimately show "confined (only {k}) (b_put b k d)" "confined (only {k}) (b_delete b k)" "confined (only (set ks)) (b_delete_many b ks)"
    "confined (only {k}) (b_put_if_absent b k d)" "confined (only {k}) (b_put_if_match b k d etag)"
    by (simp_all add: confined_def)
qed

end

section \<open>The in-memory backend with faults\<close>

datatype storage_fault =
    RandomError rat
  | Latency nat
  | PartialWrite nat
  | SilentCorruption rat
  | EventualConsistency nat

record mock_config =
  mc_faults :: "storage_fault list"
  mc_seed :: u64
  mc_bucket :: string

definition mock_config_default :: mock_config where
  "mock_config_default = \<lparr>mc_faults = [], mc_seed = 0, mc_bucket = ''test-bucket''\<rparr>"

record operation_record =
  op_operation :: string
  op_key :: string
  op_success :: bool
  op_fault :: "string option"
  op_size :: "nat option"

record stored_object =
  so_data :: bytes
  so_etag :: nat
  so_visible_after :: nat

text \<open>The generator: a draw from the unit interval and a draw from an inclusive range of integers.\<close>

record 'g rng =
  rg_unit :: "'g \<Rightarrow> rat \<times> 'g"
  rg_range :: "nat \<Rightarrow> nat \<Rightarrow> 'g \<Rightarrow> nat \<times> 'g"

record 'g mock_state =
  mk_storage :: "(string \<times> stored_object) list"
  mk_rng :: 'g
  mk_operations :: "operation_record list"
  mk_op_counter :: nat
  mk_etag_counter :: nat

definition mock_new :: "(u64 \<Rightarrow> 'g) \<Rightarrow> mock_config \<Rightarrow> 'g mock_state" where
  "mock_new seed_from_u64 config =
     \<lparr>mk_storage = [], mk_rng = seed_from_u64 (mc_seed config), mk_operations = [], mk_op_counter = 0, mk_etag_counter = 0\<rparr>"

definition next_op :: "'g mock_state \<Rightarrow> 'g mock_state" where
  "next_op m = m\<lparr>mk_op_counter := mk_op_counter m + 1\<rparr>"

definition next_etag :: "'g mock_state \<Rightarrow> 'g mock_state \<times> nat" where
  "next_etag m = (m\<lparr>mk_etag_counter := mk_etag_counter m + 1\<rparr>, mk_etag_counter m + 1)"

fun eventual_consistency_visible_after :: "'g rng \<Rightarrow> storage_fault list \<Rightarrow> 'g mock_state \<Rightarrow> 'g mock_state \<times> nat" where
  "eventual_consistency_visible_after rg [] m = (m, 0)"
| "eventual_consistency_visible_after rg (EventualConsistency delay_ms # fs) m =
     (let max_lag = min (max (delay_ms div 10) 2) 16; (lag, g) = rg_range rg 2 max_lag (mk_rng m)
      in (m\<lparr>mk_rng := g\<rparr>, mk_op_counter m + lag))"
| "eventual_consistency_visible_after rg (_ # fs) m = eventual_consistency_visible_after rg fs m"

definition record_op :: "string \<Rightarrow> string \<Rightarrow> bool \<Rightarrow> string option \<Rightarrow> nat option \<Rightarrow> 'g mock_state \<Rightarrow> 'g mock_state" where
  "record_op operation key success fault data_size m =
     m\<lparr>mk_operations := mk_operations m @
         [\<lparr>op_operation = operation, op_key = key, op_success = success, op_fault = fault, op_size = data_size\<rparr>]\<rparr>"

definition error_count :: "'g mock_state \<Rightarrow> nat" where
  "error_count m = length (filter (\<lambda>r. \<not> op_success r) (mk_operations m))"

definition get_operations_count :: "'g mock_state \<Rightarrow> nat" where
  "get_operations_count m = length (filter (\<lambda>r. op_operation r = ''get'') (mk_operations m))"

definition mock_reset :: "'g mock_state \<Rightarrow> 'g mock_state" where
  "mock_reset m = m\<lparr>mk_storage := [], mk_operations := []\<rparr>"

fun inject_error :: "'g rng \<Rightarrow> storage_fault list \<Rightarrow> 'g \<Rightarrow> bool \<times> 'g" where
  "inject_error rg [] g = (False, g)"
| "inject_error rg (RandomError rate # fs) g = (case rg_unit rg g of (x, g') \<Rightarrow> if x < rate then (True, g') else inject_error rg fs g')"
| "inject_error rg (_ # fs) g = inject_error rg fs g"

definition should_inject_error :: "'g rng \<Rightarrow> mock_config \<Rightarrow> 'g mock_state \<Rightarrow> 'g mock_state \<times> bool" where
  "should_inject_error rg config m = (case inject_error rg (mc_faults config) (mk_rng m) of (hit, g) \<Rightarrow> (m\<lparr>mk_rng := g\<rparr>, hit))"

fun get_partial_write_limit :: "storage_fault list \<Rightarrow> nat option" where
  "get_partial_write_limit [] = None"
| "get_partial_write_limit (PartialWrite at_bytes # fs) = Some at_bytes"
| "get_partial_write_limit (_ # fs) = get_partial_write_limit fs"

fun maybe_corrupt :: "'g rng \<Rightarrow> storage_fault list \<Rightarrow> bytes \<Rightarrow> 'g \<Rightarrow> bytes \<times> bool \<times> 'g" where
  "maybe_corrupt rg [] data g = (data, False, g)"
| "maybe_corrupt rg (SilentCorruption rate # fs) data g =
     (case rg_unit rg g of (x, g1) \<Rightarrow>
        if x < rate \<and> data \<noteq> [] then
          (case rg_range rg 0 (length data - 1) g1 of (byte_idx, g2) \<Rightarrow>
             (case rg_range rg 0 7 g2 of (bit_idx, g3) \<Rightarrow> (data[byte_idx := xor (data ! byte_idx) (push_bit bit_idx 1)], True, g3)))
        else maybe_corrupt rg fs data g1)"
| "maybe_corrupt rg (_ # fs) data g = maybe_corrupt rg fs data g"

definition is_visible :: "'g mock_state \<Rightarrow> stored_object \<Rightarrow> bool" where
  "is_visible m obj \<longleftrightarrow> so_visible_after obj = 0 \<or> so_visible_after obj \<le> mk_op_counter m"

definition insert_object :: "string \<Rightarrow> stored_object \<Rightarrow> 'g mock_state \<Rightarrow> 'g mock_state" where
  "insert_object key obj m = m\<lparr>mk_storage := AList.update key obj (mk_storage m)\<rparr>"

definition store_object :: "'g rng \<Rightarrow> mock_config \<Rightarrow> string \<Rightarrow> string \<Rightarrow> bytes \<Rightarrow> nat \<Rightarrow> nat \<Rightarrow> ('g mock_state, string, nat) action" where
  "store_object rg config operation key data etag visible_after m =
     (case maybe_corrupt rg (mc_faults config) data (mk_rng m) of (stored, corrupted, g) \<Rightarrow>
        (record_op operation key True (if corrupted then Some ''SilentCorruption'' else None) (Some (length stored))
           (insert_object key \<lparr>so_data = stored, so_etag = etag, so_visible_after = visible_after\<rparr> (m\<lparr>mk_rng := g\<rparr>)),
         Inr etag))"

definition write_object :: "'g rng \<Rightarrow> mock_config \<Rightarrow> string \<Rightarrow> string \<Rightarrow> bytes \<Rightarrow> ('g mock_state, string, nat) action" where
  "write_object rg config operation key data m =
     (case eventual_consistency_visible_after rg (mc_faults config) m of (m1, visible_after) \<Rightarrow>
      case next_etag m1 of (m2, etag) \<Rightarrow>
      case get_partial_write_limit (mc_faults config) of
        Some limit \<Rightarrow>
          if limit < length data then
            (record_op operation key False (Some ''PartialWrite'') (Some limit)
               (insert_object key \<lparr>so_data = take limit data, so_etag = etag, so_visible_after = visible_after\<rparr> m2),
             Inl ''Upload interrupted'')
          else store_object rg config operation key data etag visible_after m2
      | None \<Rightarrow> store_object rg config operation key data etag visible_after m2)"

text \<open>Each operation advances the clock and may fail by injection; \<open>guarded\<close> is that common prologue.\<close>

definition guarded ::
    "'g rng \<Rightarrow> mock_config \<Rightarrow> string \<Rightarrow> string \<Rightarrow> nat option \<Rightarrow> ('g mock_state, string, 'a) action \<Rightarrow> ('g mock_state, string, 'a) action" where
  "guarded rg config operation key data_size body m =
     (case should_inject_error rg config (next_op m) of (m1, hit) \<Rightarrow>
        if hit then (record_op operation key False (Some ''RandomError'') data_size m1, Inl ''Service unavailable (injected)'')
        else body m1)"

definition mock_get :: "'g rng \<Rightarrow> mock_config \<Rightarrow> string \<Rightarrow> ('g mock_state, string, bytes option) action" where
  "mock_get rg config key = guarded rg config ''get'' key None (\<lambda>m.
     case map_of (mk_storage m) key of
       Some obj \<Rightarrow>
         if is_visible m obj then (record_op ''get'' key True None (Some (length (so_data obj))) m, Inr (Some (so_data obj)))
         else (record_op ''get'' key False (Some ''EventualConsistency'') None m, Inr None)
     | None \<Rightarrow> (record_op ''get'' key True None None m, Inr None))"

definition mock_put :: "'g rng \<Rightarrow> mock_config \<Rightarrow> string \<Rightarrow> bytes \<Rightarrow> ('g mock_state, string, unit) action" where
  "mock_put rg config key data = guarded rg config ''put'' key (Some (length data))
     (and_then (write_object rg config ''put'' key data) (\<lambda>_. return ()))"

definition mock_delete :: "'g rng \<Rightarrow> mock_config \<Rightarrow> string \<Rightarrow> ('g mock_state, string, unit) action" where
  "mock_delete rg config key = guarded rg config ''delete'' key None (\<lambda>m.
     (record_op ''delete'' key True None None (m\<lparr>mk_storage := AList.delete key (mk_storage m)\<rparr>), Inr ()))"

definition mock_list :: "'g rng \<Rightarrow> mock_config \<Rightarrow> string \<Rightarrow> string option \<Rightarrow> ('g mock_state, string, string list) action" where
  "mock_list rg config pre after = guarded rg config ''list'' pre None (\<lambda>m.
     let ks = map fst (filter (\<lambda>(k, obj). prefix pre k \<and> is_visible m obj) (mk_storage m));
         ks' = filter (\<lambda>k. case after of Some a \<Rightarrow> a < k | None \<Rightarrow> True) ks
     in (record_op ''list'' pre True None None m, Inr (sort ks')))"

definition mock_exists :: "'g rng \<Rightarrow> mock_config \<Rightarrow> string \<Rightarrow> ('g mock_state, string, bool) action" where
  "mock_exists rg config key = guarded rg config ''exists'' key None (\<lambda>m.
     (record_op ''exists'' key True None None m,
      Inr (case map_of (mk_storage m) key of Some obj \<Rightarrow> is_visible m obj | None \<Rightarrow> False)))"

definition mock_put_if_absent :: "'g rng \<Rightarrow> mock_config \<Rightarrow> string \<Rightarrow> bytes \<Rightarrow> ('g mock_state, string, cas_result) action" where
  "mock_put_if_absent rg config key data = guarded rg config ''put_if_absent'' key None (\<lambda>m.
     if map_of (mk_storage m) key \<noteq> None
     then (record_op ''put_if_absent'' key True None None m, Inr \<lparr>cas_success = False, cas_etag = None\<rparr>)
     else and_then (write_object rg config ''put_if_absent'' key data)
            (\<lambda>etag. return \<lparr>cas_success = True, cas_etag = Some (dec_str etag)\<rparr>) m)"

definition mock_put_if_match ::
    "'g rng \<Rightarrow> mock_config \<Rightarrow> string \<Rightarrow> bytes \<Rightarrow> string \<Rightarrow> ('g mock_state, string, cas_result) action" where
  "mock_put_if_match rg config key data etag = guarded rg config ''put_if_match'' key None (\<lambda>m.
     if (case map_of (mk_storage m) key of Some obj \<Rightarrow> dec_str (so_etag obj) = etag | None \<Rightarrow> False)
     then and_then (write_object rg config ''put_if_match'' key data)
            (\<lambda>new_etag. return \<lparr>cas_success = True, cas_etag = Some (dec_str new_etag)\<rparr>) m
     else (record_op ''put_if_match'' key True None None m, Inr \<lparr>cas_success = False, cas_etag = None\<rparr>))"

definition mock_backend ::
    "(string \<Rightarrow> nat \<Rightarrow> nat \<Rightarrow> ('g mock_state, string, bytes option) action) \<Rightarrow> (string list \<Rightarrow> ('g mock_state, string, unit) action) \<Rightarrow>
      'g rng \<Rightarrow> mock_config \<Rightarrow> 'g mock_state backend" where
  "mock_backend trait_range_get trait_delete_many rg config =
     \<lparr>b_get = mock_get rg config, b_range_get = trait_range_get, b_put = mock_put rg config, b_delete = mock_delete rg config,
      b_delete_many = trait_delete_many, b_list = mock_list rg config, b_exists = mock_exists rg config,
      b_put_if_absent = mock_put_if_absent rg config, b_put_if_match = mock_put_if_match rg config\<rparr>"

definition mock_view :: "'g mock_state \<Rightarrow> string \<rightharpoonup> bytes" where
  "mock_view m k = map_option so_data (map_of (mk_storage m) k)"

section \<open>The in-memory backend meets the contract\<close>

lemma mock_view_cong: "mk_storage m = mk_storage m' \<Longrightarrow> mock_view m = mock_view m'"
  by (simp add: mock_view_def fun_eq_iff)

lemma storage_frames [simp]:
  "mk_storage (record_op o' k ok f z m) = mk_storage m" "mk_storage (next_op m) = mk_storage m"
  "mk_storage (fst (next_etag m)) = mk_storage m"
  by (simp_all add: record_op_def next_op_def next_etag_def)

lemma visible_after_frame: "mk_storage (fst (eventual_consistency_visible_after rg fs m)) = mk_storage m"
  by (induction rg fs m rule: eventual_consistency_visible_after.induct) (simp_all add: Let_def split: prod.split)

lemma inject_frame: "mk_storage (fst (should_inject_error rg config m)) = mk_storage m"
  by (simp add: should_inject_error_def split: prod.split)

text \<open>The prologue changes no object, so what holds of the bodies holds of the operations.\<close>

lemma guarded_cases:
  assumes "guarded rg config o' k z body m = (m', r)"
  obtains (failed) "mock_view m' = mock_view m" "r = Inl ''Service unavailable (injected)''"
    | (ran) m1 where "body m1 = (m', r)" "mk_storage m1 = mk_storage m" "mock_view m1 = mock_view m"
proof (cases "should_inject_error rg config (next_op m)")
  case (Pair m1 hit)
  have st: "mk_storage m1 = mk_storage m"
    using inject_frame [of rg config "next_op m"] Pair by simp
  show thesis
  proof (cases hit)
    case True
    then have "m' = record_op o' k False (Some ''RandomError'') z m1" "r = Inl ''Service unavailable (injected)''"
      using assms Pair by (simp_all add: guarded_def)
    then show thesis using failed st mock_view_cong [of m' m] by simp
  next
    case False
    then have "body m1 = (m', r)" using assms Pair by (simp add: guarded_def)
    then show thesis using ran st mock_view_cong by blast
  qed
qed

lemma write_object_view:
  assumes "write_object rg config o' k d m = (m', r)"
  shows "\<exists>x. mock_view m' = (mock_view m)(k \<mapsto> x)"
proof -
  have upd: "mock_view m2 = (mock_view m)(k \<mapsto> so_data x)" if "mk_storage m2 = AList.update k x (mk_storage m)" for m2 x
    using that by (simp add: mock_view_def fun_eq_iff update_conv')
  obtain m1 v where v: "eventual_consistency_visible_after rg (mc_faults config) m = (m1, v)" by fastforce
  have m1: "mk_storage m1 = mk_storage m" using visible_after_frame [of rg "mc_faults config" m] v by simp
  have "\<exists>x. mk_storage m' = AList.update k x (mk_storage m)"
    using assms v m1
    by (auto simp: write_object_def store_object_def insert_object_def next_etag_def split: option.splits if_splits prod.splits)
  with upd show ?thesis by blast
qed

lemma write_then_view:
  assumes "and_then (write_object rg config o' k d) f m = (m', r)" "\<And>x. confined (\<lambda>m m'. m' = m) (f x)"
  shows "\<exists>x. mock_view m' = (mock_view m)(k \<mapsto> x)"
proof (cases "write_object rg config o' k d m")
  case (Pair m1 res)
  have "m' = m1"
    using assms Pair by (cases res) (auto simp: and_then_def dest: confined_run)
  with write_object_view [OF Pair] show ?thesis by blast
qed

lemma return_confined_eq: "confined (\<lambda>m m'. m' = m) (return a)"
  by (simp add: confined_def return_def)

text \<open>The contract of the two operations inherited from the trait, for this backend.\<close>

locale mock_storage =
  fixes rg :: "'g rng" and config :: mock_config
    and trait_range_get :: "string \<Rightarrow> nat \<Rightarrow> nat \<Rightarrow> ('g mock_state, string, bytes option) action"
    and trait_delete_many :: "string list \<Rightarrow> ('g mock_state, string, unit) action"
  assumes trait_range_get: "trait_range_get k off len m = (m', r) \<Longrightarrow>
      mock_view m' = mock_view m \<and> (\<forall>d. r = Inr (Some d) \<longrightarrow> (\<exists>whole. mock_view m k = Some whole \<and> d = slice whole off len))"
    and trait_delete_many: "trait_delete_many ks m = (m', ru) \<Longrightarrow>
      (\<forall>j. mock_view m' j = mock_view m j \<or> j \<in> set ks \<and> mock_view m' j = None) \<and>
      (ru = Inr () \<longrightarrow> (\<forall>k\<in>set ks. mock_view m' k = None))"

sublocale mock_storage \<subseteq> storage_backend "mock_backend trait_range_get trait_delete_many rg config" mock_view
proof
  fix k d etag pre after m m'
  show "mock_view m' = mock_view m \<and> (\<forall>d. r = Inr (Some d) \<longrightarrow> mock_view m k = Some d)"
    if "b_get (mock_backend trait_range_get trait_delete_many rg config) k m = (m', r)" for r
    using that [unfolded mock_backend_def backend.simps mock_get_def]
    by (cases rule: guarded_cases) (auto simp: mock_view_def fun_eq_iff split: option.splits if_splits)
  show "mock_view m' = mock_view m \<and> (\<forall>ks. r = Inr ks \<longrightarrow> (\<forall>k\<in>set ks. prefix pre k \<and> mock_view m k \<noteq> None))"
    if "b_list (mock_backend trait_range_get trait_delete_many rg config) pre after m = (m', r)" for r
    using that [unfolded mock_backend_def backend.simps mock_list_def]
  proof (cases rule: guarded_cases)
    case (ran m1)
    then have "mock_view m' = mock_view m" by (auto simp: mock_view_def fun_eq_iff Let_def)
    moreover have "prefix pre k \<and> mock_view m k \<noteq> None" if "r = Inr ks" "k \<in> set ks" for ks k
      using that ran by (auto simp: mock_view_def Let_def map_of_eq_None_iff image_iff split: if_splits) force
    ultimately show ?thesis by blast
  qed auto
  show "mock_view m' = mock_view m \<and> (r = Inr True \<longrightarrow> mock_view m k \<noteq> None)"
    if "b_exists (mock_backend trait_range_get trait_delete_many rg config) k m = (m', r)" for r
    using that [unfolded mock_backend_def backend.simps mock_exists_def]
    by (cases rule: guarded_cases) (auto simp: mock_view_def fun_eq_iff split: option.splits)
  show "mock_view m' j = mock_view m j"
    if "b_put (mock_backend trait_range_get trait_delete_many rg config) k d m = (m', r)" "j \<noteq> k" for r j
    using that(1) [unfolded mock_backend_def backend.simps mock_put_def]
  proof (cases rule: guarded_cases)
    case (ran m1)
    with write_then_view [OF ran(1) return_confined_eq] that(2) show ?thesis by auto
  qed simp
  show "(mock_view m' = mock_view m \<or> mock_view m' = (mock_view m)(k := None)) \<and> (r = Inr () \<longrightarrow> mock_view m' k = None)"
    if "b_delete (mock_backend trait_range_get trait_delete_many rg config) k m = (m', r)" for r
    using that [unfolded mock_backend_def backend.simps mock_delete_def]
    by (cases rule: guarded_cases) (auto simp: mock_view_def fun_eq_iff delete_conv')
  show "(\<forall>j. j \<noteq> k \<or> mock_view m k \<noteq> None \<longrightarrow> mock_view m' j = mock_view m j) \<and>
      (\<forall>c. r = Inr c \<longrightarrow> (if cas_success c then mock_view m k = None \<and> mock_view m' k \<noteq> None
                       else mock_view m' = mock_view m \<and> mock_view m k \<noteq> None))"
    if "b_put_if_absent (mock_backend trait_range_get trait_delete_many rg config) k d m = (m', r)" for r
    using that [unfolded mock_backend_def backend.simps mock_put_if_absent_def]
  proof (cases rule: guarded_cases)
    case (ran m1)
    show ?thesis
    proof (cases "map_of (mk_storage m1) k")
      case None
      with ran(1) have w: "and_then (write_object rg config ''put_if_absent'' k d)
          (\<lambda>etag. return \<lparr>cas_success = True, cas_etag = Some (dec_str etag)\<rparr>) m1 = (m', r)" by simp
      have "mock_view m k = None" using None ran(2) by (simp add: mock_view_def)
      moreover have "c = \<lparr>cas_success = True, cas_etag = cas_etag c\<rparr>" if "r = Inr c" for c
        using w that by (auto simp: and_then_def return_def split: prod.splits sum.splits)
      ultimately show ?thesis
        using write_then_view [OF w return_confined_eq] ran(3) by (auto split: if_splits) (metis cas_result.ext_inject cas_result.surjective)
    next
      case (Some obj)
      then have "mock_view m' = mock_view m" "mock_view m k \<noteq> None" "r = Inr \<lparr>cas_success = False, cas_etag = None\<rparr>"
        using ran by (auto simp: mock_view_def fun_eq_iff)
      then show ?thesis by simp
    qed
  qed simp
  show "(\<forall>j. j \<noteq> k \<longrightarrow> mock_view m' j = mock_view m j) \<and> (\<forall>c. r = Inr c \<and> \<not> cas_success c \<longrightarrow> mock_view m' = mock_view m)"
    if "b_put_if_match (mock_backend trait_range_get trait_delete_many rg config) k d etag m = (m', r)" for r
    using that [unfolded mock_backend_def backend.simps mock_put_if_match_def]
  proof (cases rule: guarded_cases)
    case (ran m1)
    show ?thesis
    proof (cases "case map_of (mk_storage m1) k of Some obj \<Rightarrow> dec_str (so_etag obj) = etag | None \<Rightarrow> False")
      case True
      with ran(1) have w: "and_then (write_object rg config ''put_if_match'' k d)
          (\<lambda>etag. return \<lparr>cas_success = True, cas_etag = Some (dec_str etag)\<rparr>) m1 = (m', r)" by simp
      have "cas_success c" if "r = Inr c" for c
        using w that by (auto simp: and_then_def return_def split: prod.splits sum.splits)
      with write_then_view [OF w return_confined_eq] ran(3) show ?thesis by auto
    next
      case False
      with ran show ?thesis by (auto simp: mock_view_def fun_eq_iff)
    qed
  qed simp
qed (use trait_range_get trait_delete_many in \<open>simp_all add: mock_backend_def\<close>)

text \<open>
  Ranges served from a whole read, and deletion one object at a time, satisfy the contract of the
  inherited operations.
\<close>

definition whole_range_get :: "'g rng \<Rightarrow> mock_config \<Rightarrow> string \<Rightarrow> nat \<Rightarrow> nat \<Rightarrow> ('g mock_state, string, bytes option) action" where
  "whole_range_get rg config k off len = and_then (mock_get rg config k) (\<lambda>r. return (map_option (\<lambda>d. slice d off len) r))"

definition serial_delete_many :: "'g rng \<Rightarrow> mock_config \<Rightarrow> string list \<Rightarrow> ('g mock_state, string, unit) action" where
  "serial_delete_many rg config ks = and_then (for_each (mock_delete rg config) ks) (\<lambda>_. return ())"

lemma mock_get_view:
  "mock_get rg config k m = (m', r) \<Longrightarrow> mock_view m' = mock_view m \<and> (\<forall>d. r = Inr (Some d) \<longrightarrow> mock_view m k = Some d)"
  unfolding mock_get_def
  by (erule guarded_cases) (auto simp: mock_view_def fun_eq_iff split: option.splits if_splits)

lemma mock_delete_view:
  "mock_delete rg config k m = (m', r) \<Longrightarrow>
     (mock_view m' = mock_view m \<or> mock_view m' = (mock_view m)(k := None)) \<and> (r = Inr () \<longrightarrow> mock_view m' k = None)"
  unfolding mock_delete_def
  by (erule guarded_cases) (auto simp: mock_view_def fun_eq_iff delete_conv')

lemma deletes_view:
  "for_each (mock_delete rg config) ks m = (m', r) \<Longrightarrow>
     (\<forall>j. mock_view m' j = mock_view m j \<or> j \<in> set ks \<and> mock_view m' j = None) \<and> (\<forall>u. r = Inr u \<longrightarrow> (\<forall>k\<in>set ks. mock_view m' k = None))"
proof (induction ks arbitrary: m m' r)
  case (Cons k ks)
  obtain m1 r1 where d: "mock_delete rg config k m = (m1, r1)" by fastforce
  note D = mock_delete_view [OF d]
  show ?case
  proof (cases r1)
    case (Inl e)
    with Cons.prems d have "m' = m1" "r = Inl e" by (auto simp: and_then_def)
    with D show ?thesis by (metis Inl_Inr_False fun_upd_apply list.set_intros(1))
  next
    case (Inr u)
    obtain m2 r2 where f: "for_each (mock_delete rg config) ks m1 = (m2, r2)" by fastforce
    have m': "m' = m2" "\<And>u. r = Inr u \<Longrightarrow> \<exists>v. r2 = Inr v"
      using Cons.prems d Inr f by (auto simp: and_then_def return_def split: sum.splits)
    have k: "mock_view m1 k = None" "\<And>j. j \<noteq> k \<Longrightarrow> mock_view m1 j = mock_view m j" using D Inr by auto
    show ?thesis using Cons.IH [OF f] m' k by (metis set_ConsD list.set_intros)
  qed
qed (simp add: return_def)

interpretation mock: mock_storage rg config "whole_range_get rg config" "serial_delete_many rg config"
  for rg :: "'g rng" and config :: mock_config
proof
  fix k off len m m' and r :: "string + bytes option"
  assume a: "whole_range_get rg config k off len m = (m', r)"
  obtain m1 g where g: "mock_get rg config k m = (m1, g)" by fastforce
  show "mock_view m' = mock_view m \<and> (\<forall>d. r = Inr (Some d) \<longrightarrow> (\<exists>whole. mock_view m k = Some whole \<and> d = slice whole off len))"
    using a mock_get_view [OF g] g by (auto simp: whole_range_get_def and_then_def return_def split: sum.splits)
next
  fix ks m m' and r :: "string + unit"
  assume a: "serial_delete_many rg config ks m = (m', r)"
  obtain m1 d where d: "for_each (mock_delete rg config) ks m = (m1, d)" by fastforce
  show "(\<forall>j. mock_view m' j = mock_view m j \<or> j \<in> set ks \<and> mock_view m' j = None) \<and>
      (r = Inr () \<longrightarrow> (\<forall>k\<in>set ks. mock_view m' k = None))"
    using a deletes_view [OF d] d by (auto simp: serial_delete_many_def and_then_def return_def split: sum.splits)
qed

text \<open>
  Claim C35: the in-memory backend the simulation tests run on is a faithful storage backend under
  every fault it can inject: for every configuration and every behaviour of its random generator
  (random errors, interrupted writes that leave a prefix, silent bit flips, delayed visibility) all
  nine operations keep the contract that the compaction and replication proofs rely on.
\<close>

theorem mock_backend_contract:
  "storage_backend (mock_backend (whole_range_get rg config) (serial_delete_many rg config) rg config) mock_view"
  by (rule mock.storage_backend_axioms)

end
