(* ===== verification/Layout.thy ===== *)
theory Layout
  imports Merge Storage
begin

text \<open>
  The layout seam of compaction (\<^verbatim>\<open>compaction/layout.rs\<close>): page streams over stored objects
  (\<^verbatim>\<open>StorageChangesetStream\<close>, \<^verbatim>\<open>LtxChangesetStream\<close>), format sniffing, and
  \<^verbatim>\<open>GenLayoutCore\<close>, to which both layout adapters delegate.  The decoder of the LTX format is the
  crate \<^verbatim>\<open>litepages\<close>; it is a parameter that says, for an object's bytes, what its successive
  calls return.  Cursors are unbounded naturals: an object of \<open>2^64\<close> bytes does not exist.
\<close>

section \<open>LTX objects\<close>

record ltx_header =
  lh_page_size :: u32
  lh_commit :: u32
  lh_max_txid :: u64
  lh_pre_apply :: "u64 option"
  lh_timestamp_ms :: "int option"

text \<open>
  What the decoder yields: the pages in turn, then the end or an error, and the result of
  \<^verbatim>\<open>finish\<close> (the trailer's post-apply checksum).
\<close>

record ltx_file =
  lx_header :: ltx_header
  lx_pages :: "(u32 \<times> bytes) list"
  lx_stop :: "string option"
  lx_finish :: "string + u64"

type_synonym ltx_reader = "bytes \<Rightarrow> string + ltx_file"

definition LTX_MAGIC :: bytes where
  "LTX_MAGIC = [0x4C, 0x54, 0x58, 0x31]"

definition parse_ltx_source_header :: "ltx_reader \<Rightarrow> bytes \<Rightarrow> compaction_error + source_header" where
  "parse_ltx_source_header rd bs =
     (case rd bs of
        Inl e \<Rightarrow> Inl (StorageError (''ltx header decode: '' @ e))
      | Inr f \<Rightarrow>
          (case lx_stop f of
             Some e \<Rightarrow> Inl (StorageError (''ltx page decode: '' @ e))
           | None \<Rightarrow>
               (case lx_finish f of
                  Inl e \<Rightarrow> Inl (StorageError (''ltx trailer verify: '' @ e))
                | Inr post \<Rightarrow>
                    Inr \<lparr>sh_page_id_size = IdU32, sh_page_size = lh_page_size (lx_header f),
                         sh_seq = lh_max_txid (lx_header f),
                         sh_prev_checksum = (case lh_pre_apply (lx_header f) of Some c \<Rightarrow> c | None \<Rightarrow> 0),
                         sh_page_count = word_of_nat (min (length (lx_pages f)) (2 ^ 32 - 1)),
                         sh_created_ms = (case lh_timestamp_ms (lx_header f) of Some t \<Rightarrow> t | None \<Rightarrow> 0),
                         sh_declared_end = Some post\<rparr>)))"

section \<open>Page streams\<close>

record ltx_stream =
  ls_pages :: "(u32 \<times> bytes) list"
  ls_stop :: "string option"
  ls_commit :: u64
  ls_pages_done :: bool
  ls_marker_pending :: bool

record storage_stream =
  ss_key :: string
  ss_page_id_size :: page_id_size
  ss_cursor :: nat
  ss_remaining :: u32

datatype source_stream = LtxSource ltx_stream | StorageSource storage_stream

definition ltx_stream_open :: "ltx_reader \<Rightarrow> bytes \<Rightarrow> compaction_error + source_stream" where
  "ltx_stream_open rd bs =
     (case rd bs of
        Inl e \<Rightarrow> Inl (StorageError (''ltx open: '' @ e))
      | Inr f \<Rightarrow>
          Inr (LtxSource \<lparr>ls_pages = lx_pages f, ls_stop = lx_stop f, ls_commit = ucast (lh_commit (lx_header f)),
                          ls_pages_done = False, ls_marker_pending = True\<rparr>))"

definition ltx_marker :: "u64 \<Rightarrow> page_entry" where
  "ltx_marker commit = \<lparr>pe_page_id = PageU32 (ucast (commit + 1)), pe_data = []\<rparr>"

definition ltx_marker_step :: "ltx_stream \<Rightarrow> (page_entry \<times> source_stream) option" where
  "ltx_marker_step st =
     (if ls_marker_pending st then Some (ltx_marker (ls_commit st), LtxSource (st\<lparr>ls_marker_pending := False\<rparr>)) else None)"

definition ltx_next_page :: "ltx_stream \<Rightarrow> ('s, compaction_error, (page_entry \<times> source_stream) option) action" where
  "ltx_next_page st =
     (if \<not> ls_pages_done st then
        (case ls_pages st of
           (pn, data) # ps \<Rightarrow> return (Some (\<lparr>pe_page_id = PageU32 pn, pe_data = data\<rparr>, LtxSource (st\<lparr>ls_pages := ps\<rparr>)))
         | [] \<Rightarrow>
             (case ls_stop st of
                Some e \<Rightarrow> raise (StorageError (''ltx page decode: '' @ e))
              | None \<Rightarrow> return (ltx_marker_step (st\<lparr>ls_pages_done := True\<rparr>))))
      else return (ltx_marker_step st))"

definition page_id_of :: "page_id_size \<Rightarrow> bytes \<Rightarrow> page_id" where
  "page_id_of ids prefix_bytes =
     (case ids of IdU32 \<Rightarrow> PageU32 (u32_from_be (slice prefix_bytes 0 4)) | IdU64 \<Rightarrow> PageU64 (u64_from_be (slice prefix_bytes 0 8)))"

definition storage_stream_open :: "string \<Rightarrow> source_header \<Rightarrow> source_stream" where
  "storage_stream_open key header =
     StorageSource \<lparr>ss_key = key, ss_page_id_size = sh_page_id_size header, ss_cursor = body_offset header, ss_remaining = sh_page_count header\<rparr>"

definition need :: "string \<Rightarrow> 'a option \<Rightarrow> ('s, compaction_error, 'a) action" where
  "need msg x = (case x of None \<Rightarrow> raise (StorageError msg) | Some a \<Rightarrow> return a)"

text \<open>A ranged read that turns a backend failure or a missing object into an error.\<close>

definition ranged_of :: "'s backend \<Rightarrow> string \<Rightarrow> nat \<Rightarrow> nat \<Rightarrow> ('s, compaction_error, bytes) action" where
  "ranged_of b key off len = and_then (map_error StorageError (b_range_get b key off len)) (need (''missing object '' @ key))"

definition storage_next_page :: "'s backend \<Rightarrow> storage_stream \<Rightarrow> ('s, compaction_error, (page_entry \<times> source_stream) option) action" where
  "storage_next_page b st =
     (if ss_remaining st = 0 then return None
      else let plen = pid_len (ss_page_id_size st) in
        and_then (ranged_of b (ss_key st) (ss_cursor st) (plen + 4))
          (\<lambda>pre. if length pre < plen + 4 then raise (StorageError (''short page prefix in '' @ ss_key st))
             else let data_len = unat (u32_from_be (slice pre plen 4)); data_start = ss_cursor st + (plen + 4) in
               and_then
                 (if data_len = 0 then return [] else ranged_of b (ss_key st) data_start data_len)
                 (\<lambda>data. if length data \<noteq> data_len then raise (StorageError (''short page data in '' @ ss_key st))
                    else return (Some (\<lparr>pe_page_id = page_id_of (ss_page_id_size st) pre, pe_data = data\<rparr>,
                                       StorageSource (st\<lparr>ss_cursor := data_start + data_len, ss_remaining := ss_remaining st - 1\<rparr>))))))"

definition source_next :: "'s backend \<Rightarrow> ('s, source_stream) next_page_op" where
  "source_next b s h = (case h of LtxSource st \<Rightarrow> ltx_next_page st s | StorageSource st \<Rightarrow> storage_next_page b st s)"

section \<open>Opening a source\<close>

definition head_of :: "'s backend \<Rightarrow> string \<Rightarrow> ('s, compaction_error, bytes) action" where
  "head_of b key = ranged_of b key 0 (HEADER_V1_SIZE + DECLARED_FIELD)"

definition whole_of :: "'s backend \<Rightarrow> string \<Rightarrow> ('s, compaction_error, bytes) action" where
  "whole_of b key = and_then (map_error StorageError (b_get b key)) (need (''missing object '' @ key))"

definition is_ltx :: "bytes \<Rightarrow> bool" where
  "is_ltx head \<longleftrightarrow> 4 \<le> length head \<and> slice head 0 4 = LTX_MAGIC"

definition read_header_from_storage :: "ltx_reader \<Rightarrow> 's backend \<Rightarrow> string \<Rightarrow> ('s, compaction_error, source_header) action" where
  "read_header_from_storage rd b key =
     and_then (head_of b key) (\<lambda>head.
       if is_ltx head then and_then (whole_of b key) (\<lambda>bs. from_result (parse_ltx_source_header rd bs))
       else from_result (parse_source_header head))"

definition open_source_stream :: "ltx_reader \<Rightarrow> 's backend \<Rightarrow> string \<Rightarrow> ('s, compaction_error, source_stream) action" where
  "open_source_stream rd b key =
     and_then (head_of b key) (\<lambda>head.
       if is_ltx head then and_then (whole_of b key) (\<lambda>bs. from_result (ltx_stream_open rd bs))
       else and_then (from_result (parse_source_header head)) (\<lambda>header. return (storage_stream_open key header)))"

section \<open>The generation layout\<close>

record gen_layout_core =
  gl_prefix :: string
  gl_db_name :: string
  gl_ext :: string

definition level_dir :: "gen_layout_core \<Rightarrow> level \<Rightarrow> string" where
  "level_dir gl l = gl_prefix gl @ gl_db_name gl @ ''/'' @ level_subpath l @ ''/''"

definition listed_range :: "gen_layout_core \<Rightarrow> level \<Rightarrow> string \<Rightarrow> seq_range option" where
  "listed_range gl l key =
     (case strip_prefix key (level_dir gl l) of None \<Rightarrow> None | Some filename \<Rightarrow> parse_range_name filename (gl_ext gl))"

definition gen_list_entry ::
    "ltx_reader \<Rightarrow> 's backend \<Rightarrow> gen_layout_core \<Rightarrow> level \<Rightarrow> string \<Rightarrow> layout_file list \<Rightarrow> ('s, compaction_error, layout_file list) action" where
  "gen_list_entry rd b gl l key files =
     (case listed_range gl l key of
        None \<Rightarrow> return files
      | Some rg \<Rightarrow>
          and_then (read_header_from_storage rd b key) (\<lambda>header.
            return (files @ [\<lparr>lf_key = key, lf_level = l, lf_range = rg, lf_last_modified_ms = sh_created_ms header\<rparr>])))"

definition gen_list_level :: "ltx_reader \<Rightarrow> 's backend \<Rightarrow> gen_layout_core \<Rightarrow> level \<Rightarrow> ('s, compaction_error, layout_file list) action" where
  "gen_list_level rd b gl l =
     and_then (map_error StorageError (b_list b (level_dir gl l) None)) (\<lambda>ks.
     and_then (fold_actions (gen_list_entry rd b gl l) ks []) (\<lambda>files.
       return (sort_key (\<lambda>f. (rmin (lf_range f), rmax (lf_range f))) files)))"

definition gen_count_level :: "'s backend \<Rightarrow> gen_layout_core \<Rightarrow> level \<Rightarrow> ('s, compaction_error, nat) action" where
  "gen_count_level b gl l =
     and_then (map_error StorageError (b_list b (level_dir gl l) None)) (\<lambda>ks.
       return (length (filter (\<lambda>k. listed_range gl l k \<noteq> None) ks)))"

definition gen_read_header :: "ltx_reader \<Rightarrow> 's backend \<Rightarrow> layout_file \<Rightarrow> ('s, compaction_error, source_header) action" where
  "gen_read_header rd b f = read_header_from_storage rd b (lf_key f)"

definition gen_open :: "ltx_reader \<Rightarrow> 's backend \<Rightarrow> layout_file \<Rightarrow> ('s, compaction_error, source_stream) action" where
  "gen_open rd b f = open_source_stream rd b (lf_key f)"

definition gen_target_key :: "gen_layout_core \<Rightarrow> level \<Rightarrow> seq_range \<Rightarrow> string" where
  "gen_target_key gl l rg = level_dir gl l @ format_range_name rg (gl_ext gl)"

definition gen_write_merged ::
    "'s backend \<Rightarrow> gen_layout_core \<Rightarrow> level \<Rightarrow> seq_range \<Rightarrow> bytes \<Rightarrow> ('s, compaction_error, layout_file) action" where
  "gen_write_merged b gl l rg bs =
     (let key = gen_target_key gl l rg in
      and_then (map_error StorageError (b_put b key bs)) (\<lambda>_.
      and_then (from_result (parse_source_header bs)) (\<lambda>header.
        return \<lparr>lf_key = key, lf_level = l, lf_range = rg, lf_last_modified_ms = sh_created_ms header\<rparr>)))"

definition gen_read_bytes :: "'s backend \<Rightarrow> layout_file \<Rightarrow> ('s, compaction_error, bytes) action" where
  "gen_read_bytes b f = whole_of b (lf_key f)"

definition gen_delete :: "'s backend \<Rightarrow> layout_file list \<Rightarrow> ('s, compaction_error, unit) action" where
  "gen_delete b files = and_then (map_error StorageError (b_delete_many b (map lf_key files))) (\<lambda>_. return ())"

text \<open>The trait \<^verbatim>\<open>CompactionLayout\<close>, with the page reader of the streams it opens.\<close>

record ('s, 'h) layout =
  l_list_level :: "level \<Rightarrow> ('s, compaction_error, layout_file list) action"
  l_count_level :: "level \<Rightarrow> ('s, compaction_error, nat) action"
  l_read_header :: "layout_file \<Rightarrow> ('s, compaction_error, source_header) action"
  l_open :: "layout_file \<Rightarrow> ('s, compaction_error, 'h) action"
  l_next :: "('s, 'h) next_page_op"
  l_write_merged :: "level \<Rightarrow> seq_range \<Rightarrow> bytes \<Rightarrow> ('s, compaction_error, layout_file) action"
  l_read_bytes :: "layout_file \<Rightarrow> ('s, compaction_error, bytes) action"
  l_delete :: "layout_file list \<Rightarrow> ('s, compaction_error, unit) action"

definition gen_layout :: "ltx_reader \<Rightarrow> 's backend \<Rightarrow> gen_layout_core \<Rightarrow> ('s, source_stream) layout" where
  "gen_layout rd b gl =
     \<lparr>l_list_level = gen_list_level rd b gl, l_count_level = gen_count_level b gl, l_read_header = gen_read_header rd b,
      l_open = gen_open rd b, l_next = source_next b, l_write_merged = gen_write_merged b gl, l_read_bytes = gen_read_bytes b,
      l_delete = gen_delete b\<rparr>"

text \<open>The two adapters differ in their file extension.\<close>

definition seq_layout :: "ltx_reader \<Rightarrow> 's backend \<Rightarrow> string \<Rightarrow> string \<Rightarrow> ('s, source_stream) layout" where
  "seq_layout rd b pre db_name = gen_layout rd b \<lparr>gl_prefix = pre, gl_db_name = db_name, gl_ext = ''hadbp''\<rparr>"

definition range_layout :: "ltx_reader \<Rightarrow> 's backend \<Rightarrow> string \<Rightarrow> string \<Rightarrow> ('s, source_stream) layout" where
  "range_layout rd b pre db_name = gen_layout rd b \<lparr>gl_prefix = pre, gl_db_name = db_name, gl_ext = ''ltx''\<rparr>"

section \<open>What a stored object holds\<close>

fun pages_at :: "page_id_size \<Rightarrow> nat \<Rightarrow> nat \<Rightarrow> bytes \<Rightarrow> page_entry list" where
  "pages_at ids 0 off bs = []"
| "pages_at ids (Suc n) off bs =
     (let plen = pid_len ids; pre = slice bs off (plen + 4); data_len = unat (u32_from_be (slice pre plen 4));
          data = slice bs (off + (plen + 4)) data_len
      in if length pre < plen + 4 \<or> length data \<noteq> data_len then []
         else \<lparr>pe_page_id = page_id_of ids pre, pe_data = data\<rparr> # pages_at ids n (off + (plen + 4) + data_len) bs)"

definition ltx_content :: "ltx_stream \<Rightarrow> page_entry list" where
  "ltx_content st =
     (if ls_pages_done st then [] else map (\<lambda>(pn, d). \<lparr>pe_page_id = PageU32 pn, pe_data = d\<rparr>) (ls_pages st)) @
     (if (ls_pages_done st \<or> ls_stop st = None) \<and> ls_marker_pending st then [ltx_marker (ls_commit st)] else [])"

definition stream_content :: "(string \<rightharpoonup> bytes) \<Rightarrow> source_stream \<Rightarrow> page_entry list" where
  "stream_content objects h =
     (case h of
        LtxSource st \<Rightarrow> ltx_content st
      | StorageSource st \<Rightarrow>
          (case objects (ss_key st) of
             None \<Rightarrow> []
           | Some bs \<Rightarrow> pages_at (ss_page_id_size st) (unat (ss_remaining st)) (ss_cursor st) bs))"

text \<open>The header and the pages the layout reads from an object's bytes.\<close>

definition object_header :: "ltx_reader \<Rightarrow> bytes \<Rightarrow> compaction_error + source_header" where
  "object_header rd bs =
     (let head = slice bs 0 (HEADER_V1_SIZE + DECLARED_FIELD) in
      if is_ltx head then parse_ltx_source_header rd bs else parse_source_header head)"

definition object_pages :: "ltx_reader \<Rightarrow> bytes \<Rightarrow> page_entry list" where
  "object_pages rd bs =
     (let head = slice bs 0 (HEADER_V1_SIZE + DECLARED_FIELD) in
      if is_ltx head then (case ltx_stream_open rd bs of Inr (LtxSource st) \<Rightarrow> ltx_content st | _ \<Rightarrow> [])
      else (case parse_source_header head of
              Inl e \<Rightarrow> []
            | Inr h \<Rightarrow> pages_at (sh_page_id_size h) (unat (sh_page_count h)) (body_offset h) bs))"

section \<open>The layout contract\<close>

text \<open>
  What the compaction engine and restore rely on.  Listing, header reads, opening and page reads
  change no object; a listed file is a well-formed range at that level; a read of an object returns
  its bytes; writing changes the one target key of its level and range; deletion removes only the
  given files, perhaps not all of them when it fails.
\<close>

locale compaction_layout =
  page_source "l_next lay" content
  for lay :: "('s, 'h) layout" and content :: "'s \<Rightarrow> 'h \<Rightarrow> page_entry list" +
  fixes view :: "'s \<Rightarrow> string \<rightharpoonup> bytes" and level_key :: "level \<Rightarrow> string \<Rightarrow> bool" and target_key :: "level \<Rightarrow> seq_range \<Rightarrow> string"
    and header_of :: "bytes \<Rightarrow> compaction_error + source_header" and pages_of :: "bytes \<Rightarrow> page_entry list"
  assumes list_level: "l_list_level lay l s = (s', fsr) \<Longrightarrow>
      view s' = view s \<and>
      (\<forall>fs. fsr = Inr fs \<longrightarrow>
        sorted (map (\<lambda>f. (rmin (lf_range f), rmax (lf_range f))) fs) \<and>
        (\<forall>f\<in>set fs. lf_level f = l \<and> level_key l (lf_key f) \<and> wf_range (lf_range f) \<and> view s (lf_key f) \<noteq> None))"
    and count_level: "l_count_level lay l s = (s', nr) \<Longrightarrow> view s' = view s"
    and read_header: "l_read_header lay f s = (s', hr) \<Longrightarrow>
      view s' = view s \<and> (\<forall>h. hr = Inr h \<longrightarrow> (\<exists>bs. view s (lf_key f) = Some bs \<and> header_of bs = Inr h))"
    and open_source: "l_open lay f s = (s', st) \<Longrightarrow>
      view s' = view s \<and> (\<forall>h. st = Inr h \<longrightarrow> (\<exists>bs. view s (lf_key f) = Some bs \<and> content s' h = pages_of bs))"
    and next_page: "l_next lay s h = (s', pr) \<Longrightarrow> view s' = view s"
    and read_bytes: "l_read_bytes lay f s = (s', br) \<Longrightarrow> view s' = view s \<and> (\<forall>d. br = Inr d \<longrightarrow> view s (lf_key f) = Some d)"
    and write_merged: "l_write_merged lay l rg bs s = (s', fr) \<Longrightarrow>
      (\<forall>k. k \<noteq> target_key l rg \<longrightarrow> view s' k = view s k) \<and>
      (\<forall>f. fr = Inr f \<longrightarrow> lf_key f = target_key l rg \<and> lf_level f = l \<and> lf_range f = rg)"
    and delete_files: "l_delete lay files s = (s', ur) \<Longrightarrow>
      (\<forall>k. view s' k = view s k \<or> k \<in> lf_key ` set files \<and> view s' k = None) \<and>
      (ur = Inr () \<longrightarrow> (\<forall>f\<in>set files. view s' (lf_key f) = None))"
    and content_view: "view s' = view s \<Longrightarrow> content s' h = content s h"
    and target_level: "level_key l (target_key l rg)"
    and levels_disjoint: "level_key l k \<Longrightarrow> level_key m k \<Longrightarrow> l = m"

section \<open>Stored objects as page streams\<close>

definition gen_level_key :: "gen_layout_core \<Rightarrow> level \<Rightarrow> string \<Rightarrow> bool" where
  "gen_level_key gl l k \<longleftrightarrow> prefix (level_dir gl l) k"

context storage_backend
begin

lemma wp_get:
  assumes "\<And>r s'. view s' = view s \<Longrightarrow> (\<And>d. r = Some d \<Longrightarrow> view s k = Some d) \<Longrightarrow> Q r s'" "\<And>e s'. view s' = view s \<Longrightarrow> E e s'"
  shows "wp (b_get b k) Q E s"
  using assms get by (auto simp: wp_def split: prod.split sum.split)

lemma wp_range_get:
  assumes "\<And>r s'. view s' = view s \<Longrightarrow> (\<And>d. r = Some d \<Longrightarrow> \<exists>whole. view s k = Some whole \<and> d = slice whole off len) \<Longrightarrow> Q r s'"
    and "\<And>e s'. view s' = view s \<Longrightarrow> E e s'"
  shows "wp (b_range_get b k off len) Q E s"
  using assms range_get by (auto simp: wp_def split: prod.split sum.split)

lemma wp_list:
  assumes "\<And>ks s'. view s' = view s \<Longrightarrow> (\<And>k. k \<in> set ks \<Longrightarrow> prefix pre k \<and> view s k \<noteq> None) \<Longrightarrow> Q ks s'" "\<And>e s'. view s' = view s \<Longrightarrow> E e s'"
  shows "wp (b_list b pre after) Q E s"
  using assms list by (auto simp: wp_def split: prod.split sum.split)

lemma wp_need [wp_simps]: "wp (need msg x) Q E s = (case x of None \<Rightarrow> E (StorageError msg) s | Some a \<Rightarrow> Q a s)"
  by (simp add: need_def wp_simps split: option.split)

lemma wp_ranged_of:
  assumes "\<And>bs s'. view s' = view s \<Longrightarrow> view s k = Some bs \<Longrightarrow> Q (slice bs off len) s'" "\<And>e s'. view s' = view s \<Longrightarrow> E e s'"
  shows "wp (ranged_of b k off len) Q E s"
  unfolding ranged_of_def wp_simps by (rule wp_range_get) (auto intro: assms split: option.split)

lemma wp_head_of:
  assumes "\<And>bs s'. view s' = view s \<Longrightarrow> view s k = Some bs \<Longrightarrow> Q (slice bs 0 (HEADER_V1_SIZE + DECLARED_FIELD)) s'" "\<And>e s'. view s' = view s \<Longrightarrow> E e s'"
  shows "wp (head_of b k) Q E s"
  unfolding head_of_def by (rule wp_ranged_of) (auto intro: assms)

lemma wp_whole_of:
  assumes "\<And>bs s'. view s' = view s \<Longrightarrow> view s k = Some bs \<Longrightarrow> Q bs s'" "\<And>e s'. view s' = view s \<Longrightarrow> E e s'"
  shows "wp (whole_of b k) Q E s"
  unfolding whole_of_def wp_simps by (rule wp_get) (auto intro: assms split: option.split)

lemma wp_read_header:
  assumes "\<And>bs h s'. view s' = view s \<Longrightarrow> view s k = Some bs \<Longrightarrow> object_header rd bs = Inr h \<Longrightarrow> Q h s'" "\<And>e s'. view s' = view s \<Longrightarrow> E e s'"
  shows "wp (read_header_from_storage rd b k) Q E s"
  unfolding read_header_from_storage_def wp_and_then wp_if
proof (rule wp_head_of)
  fix bs s1
  assume s1: "view s1 = view s" and bs: "view s k = Some bs"
  let ?head = "slice bs 0 (HEADER_V1_SIZE + DECLARED_FIELD)"
  show "if is_ltx ?head then wp (whole_of b k) (\<lambda>bs. wp (from_result (parse_ltx_source_header rd bs)) Q E) E s1
      else wp (from_result (parse_source_header ?head)) Q E s1"
  proof (cases "is_ltx ?head")
    case True
    have "wp (whole_of b k) (\<lambda>bs. wp (from_result (parse_ltx_source_header rd bs)) Q E) E s1"
      by (rule wp_whole_of) (use s1 bs True in \<open>auto intro: assms simp: wp_from_result object_header_def Let_def split: sum.split\<close>)
    with True show ?thesis by simp
  next
    case False
    with s1 bs assms show ?thesis by (auto simp: wp_from_result object_header_def Let_def split: sum.split)
  qed
qed (rule assms)

lemma wp_open_source:
  assumes "\<And>bs h s'. view s' = view s \<Longrightarrow> view s k = Some bs \<Longrightarrow> stream_content (view s) h = object_pages rd bs \<Longrightarrow> Q h s'"
    and "\<And>e s'. view s' = view s \<Longrightarrow> E e s'"
  shows "wp (open_source_stream rd b k) Q E s"
  unfolding open_source_stream_def wp_and_then wp_if
proof (rule wp_head_of)
  fix bs s1
  assume s1: "view s1 = view s" and bs: "view s k = Some bs"
  let ?head = "slice bs 0 (HEADER_V1_SIZE + DECLARED_FIELD)"
  show "if is_ltx ?head then wp (whole_of b k) (\<lambda>bs. wp (from_result (ltx_stream_open rd bs)) Q E) E s1
      else wp (from_result (parse_source_header ?head)) (\<lambda>h. wp (return (storage_stream_open k h)) Q E) E s1"
  proof (cases "is_ltx ?head")
    case True
    have "wp (whole_of b k) (\<lambda>bs. wp (from_result (ltx_stream_open rd bs)) Q E) E s1"
    proof (rule wp_whole_of)
      fix bs' s2
      assume "view s2 = view s1" "view s1 k = Some bs'"
      with s1 bs have bs': "bs' = bs" "view s2 = view s" by simp_all
      show "wp (from_result (ltx_stream_open rd bs')) Q E s2"
      proof (cases "rd bs")
        case (Inl e)
        with bs' show ?thesis by (simp add: wp_from_result ltx_stream_open_def assms)
      next
        case (Inr f)
        with bs bs' True show ?thesis
          by (simp add: wp_from_result ltx_stream_open_def)
            (rule assms(1) [of _ bs], simp_all add: stream_content_def object_pages_def ltx_stream_open_def Let_def)
      qed
    qed (simp add: assms s1)
    with True show ?thesis by simp
  next
    case False
    show ?thesis
    proof (cases "parse_source_header ?head")
      case (Inl e)
      with False s1 show ?thesis by (simp add: wp_simps assms)
    next
      case (Inr h)
      with False s1 bs show ?thesis
        by (simp add: wp_simps) (rule assms(1) [of _ bs], simp_all add: stream_content_def object_pages_def storage_stream_open_def Let_def)
    qed
  qed
qed (rule assms)

lemma wp_storage_next:
  assumes "ss_remaining st = 0 \<Longrightarrow> Q None s"
    and "\<And>p st' s'. view s' = view s \<Longrightarrow>
      stream_content (view s) (StorageSource st) = p # stream_content (view s) (StorageSource st') \<Longrightarrow> Q (Some (p, StorageSource st')) s'"
    and "\<And>e s'. view s' = view s \<Longrightarrow> E e s'"
  shows "wp (storage_next_page b st) Q E s"
proof (cases "ss_remaining st = 0")
  case True
  with assms(1) show ?thesis by (simp add: storage_next_page_def wp_simps)
next
  case False
  let ?l = "pid_len (ss_page_id_size st)" and ?k = "ss_key st" and ?c = "ss_cursor st"
  obtain n where n: "unat (ss_remaining st) = Suc n" "unat (ss_remaining st - 1) = n"
    using False by (cases "unat (ss_remaining st)") (simp_all add: unat_eq_0 unat_minus_one)
  let ?len = "\<lambda>bs. unat (u32_from_be (slice (slice bs ?c (?l + 4)) ?l 4))"
  have deliver: "wp (if length data \<noteq> ?len bs then raise (StorageError (''short page data in '' @ ?k))
      else return (Some (\<lparr>pe_page_id = page_id_of (ss_page_id_size st) (slice bs ?c (?l + 4)), pe_data = data\<rparr>,
        StorageSource (st\<lparr>ss_cursor := ?c + (?l + 4) + ?len bs, ss_remaining := ss_remaining st - 1\<rparr>)))) Q E s2"
    if "view s2 = view s" "view s ?k = Some bs" "\<not> length (slice bs ?c (?l + 4)) < ?l + 4" "data = slice bs (?c + (?l + 4)) (?len bs)" for bs data s2
    using that n by (auto simp: wp_simps stream_content_def Let_def intro!: assms)
  have step: "wp (storage_next_page b st) Q E s"
    unfolding storage_next_page_def Let_def if_not_P [OF False]
  proof (rule wp_and_thenI, rule wp_ranged_of, goal_cases)
    case (1 bs s1)
    note s1 = 1
    show ?case
    proof (cases "length (slice bs ?c (?l + 4)) < ?l + 4")
      case True
      then show ?thesis by (simp only: True if_True wp_raise) (rule assms(3) [OF s1(1)])
    next
      case short: False
      have data: "wp (if ?len bs = 0 then return [] else ranged_of b ?k (?c + (?l + 4)) (?len bs)) R E s1"
        if R: "\<And>s2. view s2 = view s \<Longrightarrow> R (slice bs (?c + (?l + 4)) (?len bs)) s2" for R
      proof (cases "?len bs = 0")
        case True
        then show ?thesis using R [OF s1(1)] by (simp add: wp_return slice_def)
      next
        case nonzero: False
        have "wp (ranged_of b ?k (?c + (?l + 4)) (?len bs)) R E s1"
          by (rule wp_ranged_of) (use s1 R assms(3) in auto)
        with nonzero show ?thesis by simp
      qed
      show ?thesis
        unfolding if_not_P [OF short] by (rule wp_and_thenI, rule data, rule deliver [OF _ s1(2) short refl])
    qed
  next
    case (2 e s1)
    then show ?case by (rule assms(3))
  qed
  show ?thesis by (rule step)
qed

lemma wp_list_level:
  assumes "\<And>fs s'. view s' = view s \<Longrightarrow> sorted (map (\<lambda>f. (rmin (lf_range f), rmax (lf_range f))) fs) \<Longrightarrow>
      (\<And>f. f \<in> set fs \<Longrightarrow> lf_level f = l \<and> gen_level_key gl l (lf_key f) \<and> wf_range (lf_range f) \<and> view s (lf_key f) \<noteq> None) \<Longrightarrow> Q fs s'"
    and "\<And>e s'. view s' = view s \<Longrightarrow> E e s'"
  shows "wp (gen_list_level rd b gl l) Q E s"
proof -
  let ?ok = "\<lambda>f. lf_level f = l \<and> gen_level_key gl l (lf_key f) \<and> wf_range (lf_range f) \<and> view s (lf_key f) \<noteq> None"
  have wf: "wf_range rg" if "listed_range gl l k = Some rg" for k rg
    using that by (auto simp: listed_range_def parse_range_name_def wf_range_def point_def split: option.splits if_splits)
  have entry: "wp (gen_list_entry rd b gl l k files) (\<lambda>fs s'. view s' = view s \<and> (\<forall>f\<in>set fs. ?ok f)) E s1"
    if "view s1 = view s" "\<forall>f\<in>set files. ?ok f" "prefix (level_dir gl l) k" "view s k \<noteq> None" for k files s1
  proof (cases "listed_range gl l k")
    case None
    with that show ?thesis by (simp add: gen_list_entry_def wp_return)
  next
    case (Some rg)
    show ?thesis
      unfolding gen_list_entry_def Some option.case
      by (rule wp_and_thenI, rule wp_read_header)
        (use that wf [OF Some] assms(2) in \<open>auto simp: wp_return gen_level_key_def\<close>)
  qed
  show ?thesis
    unfolding gen_list_level_def
  proof (rule wp_and_thenI, unfold wp_map_error, rule wp_list, goal_cases)
    case (1 ks s1)
    have "wp (fold_actions (gen_list_entry rd b gl l) ks []) (\<lambda>fs s'. view s' = view s \<and> (\<forall>f\<in>set fs. ?ok f)) E s1"
    proof (rule wp_fold_actions)
      show "view s1 = view s \<and> (\<forall>f\<in>set []. ?ok f)" using 1(1) by simp
      fix x and files :: "layout_file list" and s2
      assume "x \<in> set ks" "view s2 = view s \<and> (\<forall>f\<in>set files. ?ok f)"
      with 1(2) show "wp (gen_list_entry rd b gl l x files) (\<lambda>fs s'. view s' = view s \<and> (\<forall>f\<in>set fs. ?ok f)) E s2"
        by (intro entry) blast+
    qed
    then show ?case
      unfolding wp_and_then wp_return
      by (rule wp_mono) (auto intro!: assms(1) simp: sorted_sort_key)
  next
    case (2 e s1)
    then show ?case by (rule assms(2))
  qed
qed

end

section \<open>Level directories\<close>

lemma dec_str_no_slash: "CHR ''/'' \<notin> set (dec_str n)"
proof (induction n rule: dec_str.induct)
  case (1 n)
  have "n mod 10 < 16" using mod_less_divisor [of 10 n] by linarith
  with 1 hex_digit_not_special [of "n mod 10"] hex_digit_not_special [of n] show ?case
    by (subst dec_str.simps) auto
qed

lemma dec_str_nonempty: "dec_str n \<noteq> []"
  by (subst dec_str.simps) simp

lemma dec_str_inj: "dec_str m = dec_str n \<Longrightarrow> m = n"
proof (induction m arbitrary: n rule: dec_str.induct)
  case (1 m)
  have digit: "hex_digit a = hex_digit c \<Longrightarrow> a = c" if "a < 10" "c < 10" for a c
  proof -
    assume "hex_digit a = hex_digit c"
    moreover have "a < 16" "c < 16" using that by simp_all
    ultimately show "a = c" using hex_digit_val_hex_digit by (metis option.inject)
  qed
  have small: "dec_str a = [hex_digit a]" if "a < 10" for a using that by (subst dec_str.simps) simp
  have big: "dec_str a = dec_str (a div 10) @ [hex_digit (a mod 10)]" if "\<not> a < 10" for a using that by (subst dec_str.simps) simp
  show ?case
  proof (cases "m < 10")
    case True
    with "1.prems" small [OF True] big [of n] small [of n] dec_str_nonempty [of "n div 10"] digit show ?thesis
      by (cases "n < 10") auto
  next
    case m: False
    show ?thesis
    proof (cases "n < 10")
      case True
      with "1.prems" big [OF m] small [OF True] dec_str_nonempty [of "m div 10"] show ?thesis by auto
    next
      case False
      then have "dec_str (m div 10) = dec_str (n div 10)" "hex_digit (m mod 10) = hex_digit (n mod 10)"
        using "1.prems" big [OF m] big [OF False] by simp_all
      then have "m div 10 = n div 10" "m mod 10 = n mod 10" using "1.IH" m digit by simp_all
      then show ?thesis by (metis div_mult_mod_eq)
    qed
  qed
qed

lemma level_dirs_disjoint:
  assumes "gen_level_key gl l k" "gen_level_key gl m k"
  shows "l = m"
proof -
  have sub: "l = m" if "prefix (level_subpath l @ ''/'') (level_subpath m @ ''/'')" for l m
  proof (cases "l = 0 \<or> m = 0")
    case True
    with that show ?thesis by (auto simp: level_subpath_def prefix_def split: if_splits)
  next
    case False
    with that obtain z where "dec_str (unat m) @ CHR ''/'' # [] = dec_str (unat l) @ CHR ''/'' # z"
      by (auto simp: level_subpath_def prefix_def)
    then have "dec_str (unat m) = dec_str (unat l)"
      using split_once_append [OF dec_str_no_slash] by (metis option.inject prod.inject)
    then show ?thesis using dec_str_inj word_unat_eq_iff by metis
  qed
  from assms have "prefix (level_dir gl l) (level_dir gl m) \<or> prefix (level_dir gl m) (level_dir gl l)"
    unfolding gen_level_key_def by (rule prefix_same_cases)
  then show ?thesis using sub by (auto simp: level_dir_def)
qed

sublocale storage_backend \<subseteq> streams: page_source "source_next b" "\<lambda>s. stream_content (view s)"
proof
  have ltx: "wp (ltx_next_page st) (\<lambda>r s'. s' = s \<and> (case r of None \<Rightarrow> ltx_content st = []
      | Some (p, h) \<Rightarrow> \<exists>st'. h = LtxSource st' \<and> ltx_content st = p # ltx_content st')) (\<lambda>_ s'. s' = s) s" for st s
    by (auto simp: ltx_next_page_def wp_simps ltx_marker_step_def ltx_content_def split: list.split option.split)
  have all: "wp (\<lambda>s. source_next b s h) (\<lambda>r s'. view s' = view s \<and> (case r of None \<Rightarrow> stream_content (view s) h = []
      | Some (p, h') \<Rightarrow> stream_content (view s) h = p # stream_content (view s) h')) (\<lambda>_ s'. view s' = view s) s" for h s
  proof (cases h)
    case (LtxSource st)
    show ?thesis
      unfolding source_next_def LtxSource source_stream.case
      by (rule wp_mono [OF ltx]) (auto simp: stream_content_def split: option.splits)
  next
    case (StorageSource st)
    show ?thesis
      unfolding source_next_def StorageSource source_stream.case
      by (rule wp_storage_next) (auto simp: stream_content_def split: option.splits)
  qed
  fix s s' g h p h' r
  show "stream_content (view s) h = []" if "source_next b s h = (s', Inr None)"
    using wp_run [OF all that] by simp
  show "stream_content (view s) h = p # stream_content (view s') h'" if "source_next b s h = (s', Inr (Some (p, h')))"
    using wp_run [OF all that] by simp
  show "stream_content (view s') g = stream_content (view s) g" if "source_next b s h = (s', r)"
    using wp_run [OF all that] by (cases r) simp_all
qed

lemma target_key_level: "gen_level_key gl l (gen_target_key gl l rg)"
  by (simp add: gen_level_key_def gen_target_key_def)

sublocale storage_backend \<subseteq> gen: compaction_layout "gen_layout rd b gl" "\<lambda>s. stream_content (view s)" view
    "gen_level_key gl" "gen_target_key gl" "object_header rd" "object_pages rd"
  for rd :: ltx_reader and gl :: gen_layout_core
proof (unfold_locales, unfold gen_layout_def layout.simps, goal_cases)
  case (1 s h s')
  then show ?case by (rule streams.next_none)
next
  case (2 s h s' p h')
  then show ?case by (rule streams.next_some)
next
  case (3 s h s' r g)
  then show ?case by (rule streams.next_frame)
next
  case (4 l s s' fsr)
  have "wp (gen_list_level rd b gl l) (\<lambda>fs s'. view s' = view s \<and>
      sorted (map (\<lambda>f. (rmin (lf_range f), rmax (lf_range f))) fs) \<and>
      (\<forall>f\<in>set fs. lf_level f = l \<and> gen_level_key gl l (lf_key f) \<and> wf_range (lf_range f) \<and> view s (lf_key f) \<noteq> None))
    (\<lambda>_ s'. view s' = view s) s"
    by (rule wp_list_level) auto
  from wp_run [OF this 4] show ?case by (cases fsr) auto
next
  case (5 l s s' nr)
  have "wp (gen_count_level b gl l) (\<lambda>_ s'. view s' = view s) (\<lambda>_ s'. view s' = view s) s"
    unfolding gen_count_level_def by (rule wp_and_thenI, unfold wp_map_error, rule wp_list) (auto simp: wp_return)
  from wp_run [OF this 5] show ?case by (cases nr) auto
next
  case (6 f s s' hr)
  have "wp (gen_read_header rd b f) (\<lambda>h s'. view s' = view s \<and> (\<exists>bs. view s (lf_key f) = Some bs \<and> object_header rd bs = Inr h))
      (\<lambda>_ s'. view s' = view s) s"
    unfolding gen_read_header_def by (rule wp_read_header) auto
  from wp_run [OF this 6] show ?case by (cases hr) auto
next
  case (7 f s s' st)
  have "wp (gen_open rd b f) (\<lambda>h s'. view s' = view s \<and> (\<exists>bs. view s (lf_key f) = Some bs \<and> stream_content (view s) h = object_pages rd bs))
      (\<lambda>_ s'. view s' = view s) s"
    unfolding gen_open_def by (rule wp_open_source) auto
  from wp_run [OF this 7] show ?case by (cases st) auto
next
  case (8 s h s' pr)
  show ?case
  proof (cases h)
    case (LtxSource st)
    then have "s' = s" using 8 by (auto simp: source_next_def ltx_next_page_def return_def raise_def split: if_splits list.splits option.splits)
    then show ?thesis by simp
  next
    case (StorageSource st)
    have "wp (storage_next_page b st) (\<lambda>_ s'. view s' = view s) (\<lambda>_ s'. view s' = view s) s"
      by (rule wp_storage_next) auto
    from wp_run [OF this] 8 StorageSource show ?thesis by (cases pr) (auto simp: source_next_def)
  qed
next
  case (9 f s s' br)
  have "wp (gen_read_bytes b f) (\<lambda>d s'. view s' = view s \<and> view s (lf_key f) = Some d) (\<lambda>_ s'. view s' = view s) s"
    unfolding gen_read_bytes_def by (rule wp_whole_of) auto
  from wp_run [OF this 9] show ?case by (cases br) auto
next
  case (10 l rg bs s s' fr)
  let ?k = "gen_target_key gl l rg"
  have "wp (gen_write_merged b gl l rg bs) (\<lambda>f s'. (\<forall>k. k \<noteq> ?k \<longrightarrow> view s' k = view s k) \<and> lf_key f = ?k \<and> lf_level f = l \<and> lf_range f = rg)
      (\<lambda>_ s'. \<forall>k. k \<noteq> ?k \<longrightarrow> view s' k = view s k) s"
    unfolding gen_write_merged_def Let_def wp_simps
    using put [of ?k bs s] by (auto simp: wp_def split: prod.split sum.split)
  from wp_run [OF this 10] show ?case by (cases fr) auto
next
  case (11 files s s' ur)
  have "wp (gen_delete b files) (\<lambda>_ s'. (\<forall>k. view s' k = view s k \<or> k \<in> lf_key ` set files \<and> view s' k = None) \<and>
        (\<forall>f\<in>set files. view s' (lf_key f) = None))
      (\<lambda>_ s'. \<forall>k. view s' k = view s k \<or> k \<in> lf_key ` set files \<and> view s' k = None) s"
    unfolding gen_delete_def wp_simps
    using delete_many [of "map lf_key files" s] by (auto simp: wp_def split: prod.split sum.split)
  from wp_run [OF this 11] show ?case by (cases ur) auto
next
  case (12 s' s h)
  then show ?case by simp
next
  case (13 l rg)
  show ?case by (rule target_key_level)
next
  case (14 l k m)
  then show ?case by (rule level_dirs_disjoint)
qed

end
