(* ===== verification/Engine.thy ===== *)
theory Engine
  imports Layout
begin

text \<open>
  The safety-ordered compaction run (\<^verbatim>\<open>compaction/engine.rs\<close>) over any layout: selection with
  crash recovery, the merge, publication with read-back verification, and deletion of the sources
  last.  \<open>run_level_compaction\<close> returns \<open>None\<close> only if the merge loop did not end; that it always
  ends is proved.  The wall clock the merge stamps into its output is the argument \<open>wall_ms\<close>.
\<close>

section \<open>Outcomes\<close>

datatype compaction_outcome =
    NoOp
  | Merged nat layout_file
  | ConvergedExistingDeletion nat layout_file

fun merged_count :: "compaction_outcome \<Rightarrow> nat" where
  "merged_count NoOp = 0"
| "merged_count (Merged n out) = n"
| "merged_count (ConvergedExistingDeletion n out) = n"

section \<open>Recovery\<close>

fun find_existing :: "layout_file list \<Rightarrow> seq_range \<Rightarrow> layout_file option \<Rightarrow> compaction_error + layout_file option" where
  "find_existing [] rg exact = Inr exact"
| "find_existing (f # fs) rg exact =
     (if lf_range f = rg then find_existing fs rg (Some f)
      else if ranges_overlap (lf_range f) rg then Inl (OverlappingExisting f)
      else find_existing fs rg exact)"

definition find_existing_merged :: "layout_file list \<Rightarrow> seq_range \<Rightarrow> compaction_error + layout_file option" where
  "find_existing_merged target_files rg = find_existing target_files rg None"

definition decode_object :: "codec \<Rightarrow> string \<Rightarrow> bytes \<Rightarrow> ('s, compaction_error, changeset) action" where
  "decode_object cd key bs = from_result (map_sum (MalformedChangeset key) id (c_decode cd bs))"

definition source_chain_end :: "('s, 'h) layout \<Rightarrow> codec \<Rightarrow> layout_file \<Rightarrow> ('s, compaction_error, u64) action" where
  "source_chain_end lay cd f =
     and_then (l_read_header lay f) (\<lambda>h.
       case sh_declared_end h of
         Some end_value \<Rightarrow> return end_value
       | None \<Rightarrow> and_then (l_read_bytes lay f) (\<lambda>bs. and_then (decode_object cd (lf_key f) bs) (\<lambda>cs. return (c_chain_end cd cs))))"

fun endpoint_chain_evidence ::
    "('s, 'h) layout \<Rightarrow> codec \<Rightarrow> layout_file \<Rightarrow> changeset \<Rightarrow> layout_file list \<Rightarrow> ('s, compaction_error, bool) action" where
  "endpoint_chain_evidence lay cd cover cover_cs [] = return True"
| "endpoint_chain_evidence lay cd cover cover_cs (f # fs) =
     and_then (if rmin (lf_range f) = rmin (lf_range cover)
               then and_then (l_read_header lay f) (\<lambda>h. return (sh_prev_checksum h = ph_prev_checksum (cs_header cover_cs)))
               else return True) (\<lambda>first_ok.
       if \<not> first_ok then return False
       else and_then (if rmax (lf_range f) = rmax (lf_range cover)
                      then and_then (source_chain_end lay cd f) (\<lambda>e. return (e = c_chain_end cd cover_cs))
                      else return True) (\<lambda>last_ok.
         if \<not> last_ok then return False else endpoint_chain_evidence lay cd cover cover_cs fs))"

definition verify_covers :: "('s, 'h) layout \<Rightarrow> codec \<Rightarrow> layout_file \<Rightarrow> ('s, compaction_error, changeset) action" where
  "verify_covers lay cd covering =
     and_then (l_read_bytes lay covering) (\<lambda>bs.
     and_then (decode_object cd (lf_key covering) bs) (\<lambda>cs.
       if \<not> c_is_compacted cd cs then raise (VerificationFailed ''covering object not COMPACTED'')
       else if cs_pages cs = [] then raise (VerificationFailed ''covering object has no pages'')
       else return cs))"

definition verify_existing :: "('s, 'h) layout \<Rightarrow> codec \<Rightarrow> layout_file \<Rightarrow> layout_file list \<Rightarrow> ('s, compaction_error, unit) action" where
  "verify_existing lay cd existing sources =
     and_then (l_read_bytes lay existing) (\<lambda>bs.
     and_then (decode_object cd (lf_key existing) bs) (\<lambda>cs.
       if \<not> c_is_compacted cd cs then raise (VerificationFailed ''existing object not COMPACTED'')
       else and_then (l_read_header lay (hd sources)) (\<lambda>first_header.
         if ph_prev_checksum (cs_header cs) \<noteq> sh_prev_checksum first_header
         then raise (VerificationFailed ''existing prev_checksum does not match first source'')
         else if ph_seq (cs_header cs) \<noteq> rmax (lf_range (last sources))
         then raise (VerificationFailed ''existing seq does not match range end'')
         else and_then (l_read_bytes lay (last sources)) (\<lambda>last_bytes.
           and_then (decode_object cd (lf_key (last sources)) last_bytes) (\<lambda>last_cs.
             if c_chain_end cd cs \<noteq> c_chain_end cd last_cs
             then raise (VerificationFailed ''existing declared_end does not match last source chain_end'')
             else if cs_pages cs = [] then raise (VerificationFailed ''existing object has no pages'')
             else return ())))))"

text \<open>One covering object of \<^verbatim>\<open>converge_interrupted_delete\<close>.\<close>

fun add_new :: "layout_file list \<Rightarrow> layout_file list \<Rightarrow> layout_file list" where
  "add_new deletable [] = deletable"
| "add_new deletable (f # fs) = add_new (if \<exists>d\<in>set deletable. lf_key d = lf_key f then deletable else deletable @ [f]) fs"

definition converge_step ::
    "('s, 'h) layout \<Rightarrow> codec \<Rightarrow> layout_file list \<Rightarrow> layout_file \<Rightarrow> layout_file list \<times> layout_file option \<Rightarrow>
      ('s, compaction_error, layout_file list \<times> layout_file option) action" where
  "converge_step lay cd sources m acc =
     (let subs = filter (\<lambda>f. range_subset (lf_range f) (lf_range m)) sources in
      if subs = [] \<or> tiles_exactly subs (lf_range m) then return acc
      else and_then (attempt (verify_covers lay cd m)) (\<lambda>verdict.
        case verdict of
          Inl e \<Rightarrow> (case e of StorageError msg \<Rightarrow> raise (StorageError msg) | _ \<Rightarrow> return acc)
        | Inr cover_cs \<Rightarrow>
            and_then (endpoint_chain_evidence lay cd m cover_cs subs) (\<lambda>evidence.
              if \<not> evidence then return acc
              else return (add_new (fst acc) subs, Some (case snd acc of None \<Rightarrow> m | Some c \<Rightarrow> c)))))"

definition converge_interrupted_delete ::
    "('s, 'h) layout \<Rightarrow> codec \<Rightarrow> layout_file list \<Rightarrow> layout_file list \<Rightarrow> ('s, compaction_error, compaction_outcome option) action" where
  "converge_interrupted_delete lay cd target_files sources =
     (if sources = [] \<or> target_files = [] then return None
      else and_then (fold_actions (converge_step lay cd sources) target_files ([], None)) (\<lambda>acc.
        if fst acc = [] then return None
        else and_then (l_delete lay (fst acc)) (\<lambda>_.
          return (Some (ConvergedExistingDeletion (length (fst acc)) (the (snd acc)))))))"

section \<open>The run\<close>

text \<open>Steps 1 and 2 end with an outcome or with a batch to merge.\<close>

datatype selection = Finished compaction_outcome | Selected "layout_file list" seq_range

definition eligible_len :: "level \<Rightarrow> int \<Rightarrow> nat \<Rightarrow> layout_file list \<Rightarrow> nat" where
  "eligible_len source_level now_ms keep_fine_window files =
     (if source_level = 0 then eligible_prefix_len (map lf_last_modified_ms files) now_ms keep_fine_window else length files)"

definition batch_range :: "layout_file list \<Rightarrow> seq_range" where
  "batch_range sources = \<lparr>rmin = rmin (lf_range (hd sources)), rmax = rmax (lf_range (last sources))\<rparr>"

definition recover_existing ::
    "('s, 'h) layout \<Rightarrow> codec \<Rightarrow> layout_file list \<Rightarrow> layout_file list \<Rightarrow> ('s, compaction_error, selection) action" where
  "recover_existing lay cd target_files sources =
     and_then (from_result (find_existing_merged target_files (batch_range sources))) (\<lambda>found.
       case found of
         None \<Rightarrow> return (Selected sources (batch_range sources))
       | Some existing \<Rightarrow>
           and_then (attempt (verify_existing lay cd existing sources)) (\<lambda>verdict.
             case verdict of
               Inr u \<Rightarrow>
                 and_then (l_delete lay sources) (\<lambda>_. return (Finished (ConvergedExistingDeletion (length sources) existing)))
             | Inl torn \<Rightarrow>
                 and_then (l_delete lay [existing]) (\<lambda>_. return (Selected sources (batch_range sources)))))"

definition select_sources ::
    "('s, 'h) layout \<Rightarrow> codec \<Rightarrow> level \<Rightarrow> nat \<Rightarrow> nat \<Rightarrow> int \<Rightarrow> ('s, compaction_error, selection) action" where
  "select_sources lay cd source_level batch keep_fine_window now_ms =
     and_then (l_list_level lay source_level) (\<lambda>files.
     and_then (l_list_level lay (source_level + 1)) (\<lambda>target_files.
     and_then (converge_interrupted_delete lay cd target_files files) (\<lambda>converged.
       case converged of
         Some out \<Rightarrow> return (Finished out)
       | None \<Rightarrow>
           let eligible = eligible_len source_level now_ms keep_fine_window files in
           if eligible < batch then return (Finished NoOp)
           else case contiguous_batch (map lf_range (take eligible files)) batch of
             None \<Rightarrow> return (Finished NoOp)
           | Some (start, len) \<Rightarrow> recover_existing lay cd target_files (slice files start len))))"

definition open_input :: "('s, 'h) layout \<Rightarrow> layout_file \<Rightarrow> ('s, compaction_error, 'h merge_input) action" where
  "open_input lay f =
     and_then (l_read_header lay f) (\<lambda>header.
     and_then (l_open lay f) (\<lambda>stream.
       return \<lparr>mi_header = header, mi_range = lf_range f, mi_stream = stream\<rparr>))"

text \<open>Steps 4 to 7.\<close>

definition publish_merged ::
    "('s, 'h) layout \<Rightarrow> codec \<Rightarrow> level \<Rightarrow> seq_range \<Rightarrow> layout_file list \<Rightarrow> merge_result \<Rightarrow> ('s, compaction_error, compaction_outcome) action" where
  "publish_merged lay cd target_level rg sources res =
     (case verify_merged_bytes cd (mr_bytes res) (mr_prev_checksum res) (mr_declared_end res) (mr_page_count res) of
        Inl e \<Rightarrow> raise (VerificationFailed ''pre-write self-check'')
      | Inr cs \<Rightarrow>
          and_then (l_write_merged lay target_level rg (mr_bytes res)) (\<lambda>output.
          and_then (l_read_bytes lay output) (\<lambda>readback.
            case verify_merged_bytes cd readback (mr_prev_checksum res) (mr_declared_end res) (mr_page_count res) of
              Inl e \<Rightarrow>
                and_then (attempt (l_delete lay [output])) (\<lambda>ignored.
                  raise (VerificationFailed ''read-back verify failed, sources preserved''))
            | Inr cs' \<Rightarrow>
                and_then (l_delete lay sources) (\<lambda>_. return (Merged (length sources) output)))))"

definition run_level_compaction ::
    "('s, 'h) layout \<Rightarrow> codec \<Rightarrow> (bytes \<Rightarrow> bytes) \<Rightarrow> int \<Rightarrow> level \<Rightarrow> nat \<Rightarrow> nat \<Rightarrow> int \<Rightarrow> 's \<Rightarrow>
      ('s \<times> (compaction_error + compaction_outcome)) option" where
  "run_level_compaction lay cd sha256 wall_ms source_level batch keep_fine_window now_ms s =
     (if batch = 0 then Some (s, Inr NoOp)
      else case select_sources lay cd source_level batch keep_fine_window now_ms s of
          (s1, Inl e) \<Rightarrow> Some (s1, Inl e)
        | (s1, Inr (Finished out)) \<Rightarrow> Some (s1, Inr out)
        | (s1, Inr (Selected sources rg)) \<Rightarrow>
            (case for_each (open_input lay) sources s1 of
               (s2, Inl e) \<Rightarrow> Some (s2, Inl e)
             | (s2, Inr inputs) \<Rightarrow>
                 (case merge_changesets (l_next lay) sha256 wall_ms inputs s2 of
                    None \<Rightarrow> None
                  | Some (s3, Inl e) \<Rightarrow> Some (s3, Inl e)
                  | Some (s3, Inr res) \<Rightarrow> Some (publish_merged lay cd (source_level + 1) rg sources res s3))))"

section \<open>What a run may do to the stored objects\<close>

text \<open>
  \<open>covered\<close>: some object of the next level decodes, is marked as compacted and spans the file's
  range.  \<open>batch_of\<close>: files of one level, all present, whose ranges lie in the span of the batch.
\<close>

definition covered :: "codec \<Rightarrow> (level \<Rightarrow> string \<Rightarrow> bool) \<Rightarrow> level \<Rightarrow> (string \<rightharpoonup> bytes) \<Rightarrow> layout_file \<Rightarrow> bool" where
  "covered cd level_key l objects f \<longleftrightarrow>
     (\<exists>(m :: layout_file) bs cs. level_key (l + 1) (lf_key m) \<and> range_subset (lf_range f) (lf_range m) \<and>
        objects (lf_key m) = Some bs \<and> c_decode cd bs = Inr cs \<and> c_is_compacted cd cs)"

definition batch_of :: "(level \<Rightarrow> string \<Rightarrow> bool) \<Rightarrow> level \<Rightarrow> (string \<rightharpoonup> bytes) \<Rightarrow> layout_file list \<Rightarrow> seq_range \<Rightarrow> bool" where
  "batch_of level_key l objects sources rg \<longleftrightarrow>
     sources \<noteq> [] \<and> rg = batch_range sources \<and>
     (\<forall>f\<in>set sources. level_key l (lf_key f) \<and> range_subset (lf_range f) rg \<and> objects (lf_key f) \<noteq> None)"

text \<open>
  \<open>lossless\<close>: an object that is gone or changed is either a file of the source level, removed, whose
  range a sound object of the next level covers now; or an object of the next level that stood or
  now stands for a batch of sources, each of which is still unchanged or covered.
\<close>

definition lossless ::
    "codec \<Rightarrow> (level \<Rightarrow> string \<Rightarrow> bool) \<Rightarrow> (level \<Rightarrow> seq_range \<Rightarrow> string) \<Rightarrow> level \<Rightarrow> (string \<rightharpoonup> bytes) \<Rightarrow> (string \<rightharpoonup> bytes) \<Rightarrow> bool" where
  "lossless cd level_key target_key l old new \<longleftrightarrow>
     (\<forall>k. new k = old k \<or>
        (\<exists>f. lf_key f = k \<and> level_key l k \<and> new k = None \<and> covered cd level_key l new f) \<or>
        (\<exists>sources rg. level_key (l + 1) k \<and> batch_of level_key l old sources rg \<and>
           (k = target_key (l + 1) rg \<or> (\<exists>f :: layout_file. lf_key f = k \<and> lf_range f = rg)) \<and>
           (\<forall>f\<in>set sources. new (lf_key f) = old (lf_key f) \<or> covered cd level_key l new f)))"

lemma lossless_refl: "new = old \<Longrightarrow> lossless cd lk tk l old new"
  by (simp add: lossless_def)

definition is_merged :: "compaction_outcome \<Rightarrow> bool" where
  "is_merged out \<longleftrightarrow> (\<exists>n f. out = Merged n f)"

text \<open>A selected batch lies within its span.\<close>

lemma batch_subset:
  assumes "sorted (map (\<lambda>f. (rmin (lf_range f), rmax (lf_range f))) files)" "\<forall>f\<in>set files. wf_range (lf_range f)"
    and "contiguous_batch (map lf_range (take e files)) batch = Some (start, len)"
  shows "slice files start len \<noteq> []" "set (slice files start len) \<subseteq> set files"
    "\<forall>f\<in>set (slice files start len). range_subset (lf_range f) (batch_range (slice files start len))"
proof -
  let ?rs = "map lf_range (take e files)" and ?src = "slice files start len"
  have "batch_from ?rs batch 0 = Some (start, len)" "1 \<le> batch" using assms(3) by (auto simp: contiguous_batch_def split: if_splits)
  with batch_from_spec [of batch ?rs 0] have len: "1 \<le> len" "start + len \<le> length ?rs"
    and link: "\<forall>k. start \<le> k \<and> k + 1 < start + len \<longrightarrow> linked ?rs k" by auto
  have bound: "start + len \<le> length files" using len by simp
  then have lsrc: "length ?src = len" by simp
  have nth: "?src ! i = files ! (start + i)" if "i < len" for i using that bound by (simp add: slice_def)
  show ne: "?src \<noteq> []" using lsrc len by force
  show sub: "set ?src \<subseteq> set files" by (metis slice_def in_set_dropD in_set_takeD subsetI)
  let ?lo = "\<lambda>i. rmin (lf_range (?src ! i))" and ?hi = "\<lambda>i. rmax (lf_range (?src ! i))"
  have key: "(?lo i, ?hi i) \<le> (?lo j, ?hi j)" if "i \<le> j" "j < len" for i j
    using assms(1) that bound nth sorted_nth_mono [OF assms(1), of "start + i" "start + j"] by simp
  have lo: "?lo i \<le> ?lo j" if "i \<le> j" "j < len" for i j
    using key [OF that] by (auto simp: less_eq_prod_def)
  have step: "?hi i \<le> ?hi (Suc i)" if "Suc i < len" for i
  proof -
    have "start + Suc i < length ?rs" using that len by simp
    then have l: "?hi i + 1 = ?lo (Suc i)"
      using link [rule_format, of "start + i"] that nth [of i] nth [OF that] by (simp add: linked_def)
    have "files ! (start + Suc i) \<in> set files" using that bound by simp
    then have w: "?lo (Suc i) \<le> ?hi (Suc i)" using assms(2) nth [OF that] by (auto simp: wf_range_def)
    show ?thesis
    proof (cases "?hi i + 1 = 0")
      case True
      then have "?lo (Suc i) = 0" using l by simp
      with key [of i "Suc i"] that show ?thesis by (auto simp: less_eq_prod_def)
    next
      case False
      then have "?hi i < ?hi i + 1" using unatSuc [of "?hi i"] by (simp add: word_less_nat_alt add.commute)
      with l w show ?thesis by simp
    qed
  qed
  have hi: "?hi i \<le> ?hi j" if "i \<le> j" "j < len" for i j
    using that
  proof (induction j)
    case (Suc j)
    then show ?case using step [of j] by (cases "i = Suc j") (auto intro: order_trans)
  qed simp
  show "\<forall>f\<in>set ?src. range_subset (lf_range f) (batch_range ?src)"
  proof
    fix f
    assume "f \<in> set ?src"
    then obtain i where "i < len" "f = ?src ! i" using lsrc by (auto simp: in_set_conv_nth)
    with lo [of 0 i] hi [of i "len - 1"] len ne lsrc show "range_subset (lf_range f) (batch_range ?src)"
      by (simp add: range_subset_def batch_range_def hd_conv_nth last_conv_nth)
  qed
qed

lemma wp_decode_object [wp_simps]:
  "wp (decode_object cd key bs) Q E s = (case c_decode cd bs of Inl e \<Rightarrow> E (MalformedChangeset key e) s | Inr cs \<Rightarrow> Q cs s)"
  by (cases "c_decode cd bs") (simp_all add: decode_object_def wp_from_result)

context compaction_layout
begin

text \<open>The layout's operations as rules.\<close>

abbreviation quiet :: "'s \<Rightarrow> 's \<Rightarrow> bool" where
  "quiet s s' \<equiv> view s' = view s"

lemma quiet_preorder [simp]: "reflp quiet" "transp quiet"
  by (auto intro: reflpI transpI)

lemma reads_quiet:
  "confined quiet (l_list_level lay l)" "confined quiet (l_count_level lay l)" "confined quiet (l_read_header lay f)"
  "confined quiet (l_open lay f)" "confined quiet (l_read_bytes lay f)"
  unfolding confined_def using list_level count_level read_header open_source read_bytes by (metis prod.collapse)+

lemma wp_list_files:
  assumes "\<And>fs s'. view s' = view s \<Longrightarrow> sorted (map (\<lambda>f. (rmin (lf_range f), rmax (lf_range f))) fs) \<Longrightarrow>
      (\<forall>f\<in>set fs. lf_level f = l \<and> level_key l (lf_key f) \<and> wf_range (lf_range f) \<and> view s (lf_key f) \<noteq> None) \<Longrightarrow> Q fs s'"
    and "\<And>e s'. view s' = view s \<Longrightarrow> E e s'"
  shows "wp (l_list_level lay l) Q E s"
  using assms list_level [of l s] by (auto simp: wp_def split: prod.split sum.split)

lemma wp_read_bytes:
  assumes "\<And>d s'. view s' = view s \<Longrightarrow> view s (lf_key f) = Some d \<Longrightarrow> Q d s'" "\<And>e s'. view s' = view s \<Longrightarrow> E e s'"
  shows "wp (l_read_bytes lay f) Q E s"
  using assms read_bytes [of f s] by (auto simp: wp_def split: prod.split sum.split)

lemma wp_write_merged:
  assumes "\<And>f s'. \<forall>k. k \<noteq> target_key l rg \<longrightarrow> view s' k = view s k \<Longrightarrow> lf_key f = target_key l rg \<Longrightarrow> lf_range f = rg \<Longrightarrow> Q f s'"
    and "\<And>e s'. \<forall>k. k \<noteq> target_key l rg \<longrightarrow> view s' k = view s k \<Longrightarrow> E e s'"
  shows "wp (l_write_merged lay l rg bs) Q E s"
  using assms write_merged [of l rg bs s] by (auto simp: wp_def split: prod.split sum.split)

definition removes :: "layout_file list \<Rightarrow> 's \<Rightarrow> 's \<Rightarrow> bool" where
  "removes fs s s' \<longleftrightarrow> (\<forall>k. view s' k = view s k \<or> k \<in> lf_key ` set fs \<and> view s' k = None)"

lemma wp_delete:
  assumes "\<And>s'. removes fs s s' \<Longrightarrow> \<forall>f\<in>set fs. view s' (lf_key f) = None \<Longrightarrow> Q () s'" "\<And>e s'. removes fs s s' \<Longrightarrow> E e s'"
  shows "wp (l_delete lay fs) Q E s"
  using assms delete_files [of fs s] by (auto simp: wp_def removes_def split: prod.split sum.split)

lemma wp_quiet: "confined quiet m \<Longrightarrow> (\<And>a s'. view s' = view s \<Longrightarrow> Q a s') \<Longrightarrow> (\<And>e s'. view s' = view s \<Longrightarrow> E e s') \<Longrightarrow> wp m Q E s"
  unfolding confined_wp by (rule wp_mono [where Q = "\<lambda>_ s'. view s' = view s" and E = "\<lambda>_ s'. view s' = view s"]) auto

text \<open>Verification reads only.\<close>

lemma decode_quiet: "confined quiet (decode_object cd key bs)"
  by (simp add: decode_object_def confined_from_result)

lemma chain_end_quiet: "confined quiet (source_chain_end lay cd f)"
  unfolding source_chain_end_def by (intro confined_intros reads_quiet decode_quiet) simp_all

lemma evidence_quiet: "confined quiet (endpoint_chain_evidence lay cd cover cs fs)"
proof (induction fs)
  case (Cons f fs)
  then show ?case
    unfolding endpoint_chain_evidence.simps
    by (intro confined_intros reads_quiet chain_end_quiet) simp_all
qed (simp add: confined_return)

lemma verify_existing_quiet: "confined quiet (verify_existing lay cd existing sources)"
  unfolding verify_existing_def by (intro confined_intros reads_quiet decode_quiet) simp_all

lemma wp_verify_covers:
  assumes "\<And>cs bs s'. view s' = view s \<Longrightarrow> view s (lf_key m) = Some bs \<Longrightarrow> c_decode cd bs = Inr cs \<Longrightarrow> c_is_compacted cd cs \<Longrightarrow> Q cs s'"
    and "\<And>e s'. view s' = view s \<Longrightarrow> E e s'"
  shows "wp (verify_covers lay cd m) Q E s"
  unfolding verify_covers_def
  by (rule wp_and_thenI, rule wp_read_bytes) (auto simp: wp_simps intro: assms split: sum.split)

lemma wp_verify_existing:
  assumes "\<And>cs bs s'. view s' = view s \<Longrightarrow> view s (lf_key existing) = Some bs \<Longrightarrow> c_decode cd bs = Inr cs \<Longrightarrow> c_is_compacted cd cs \<Longrightarrow> Q () s'"
    and "\<And>e s'. view s' = view s \<Longrightarrow> E e s'"
  shows "wp (verify_existing lay cd existing sources) Q E s"
  unfolding verify_existing_def
proof (rule wp_and_thenI, rule wp_read_bytes, goal_cases)
  case (1 bs s1)
  note bs = 1
  let ?rest = "\<lambda>cs. and_then (l_read_header lay (hd sources)) (\<lambda>first_header.
         if ph_prev_checksum (cs_header cs) \<noteq> sh_prev_checksum first_header
         then raise (VerificationFailed ''existing prev_checksum does not match first source'')
         else if ph_seq (cs_header cs) \<noteq> rmax (lf_range (last sources))
         then raise (VerificationFailed ''existing seq does not match range end'')
         else and_then (l_read_bytes lay (last sources)) (\<lambda>last_bytes.
           and_then (decode_object cd (lf_key (last sources)) last_bytes) (\<lambda>last_cs.
             if c_chain_end cd cs \<noteq> c_chain_end cd last_cs
             then raise (VerificationFailed ''existing declared_end does not match last source chain_end'')
             else if cs_pages cs = [] then raise (VerificationFailed ''existing object has no pages'')
             else return ())))"
  have rest: "confined quiet (?rest cs)" for cs
    by (intro confined_intros reads_quiet decode_quiet) simp_all
  show ?case
  proof (cases "c_decode cd bs")
    case (Inl e)
    with bs show ?thesis by (simp add: decode_object_def wp_simps assms)
  next
    case (Inr cs)
    show ?thesis
    proof (cases "c_is_compacted cd cs")
      case True
      have "wp (?rest cs) Q E s1"
        by (rule wp_quiet [OF rest]) (use bs assms Inr True in auto)
      with Inr True show ?thesis by (simp add: decode_object_def wp_and_then wp_from_result)
    next
      case False
      with bs Inr show ?thesis by (simp add: decode_object_def wp_simps assms)
    qed
  qed
next
  case (2 e s1)
  then show ?case by (rule assms(2))
qed

text \<open>Removing files of the source level keeps every cover, because the levels' keys are disjoint.\<close>

lemma level_suc: "(l :: level) \<noteq> l + 1"
  by simp

lemma next_level_kept:
  assumes "removes fs s s'" "\<forall>f\<in>set fs. level_key l (lf_key f)" "level_key (l + 1) k"
  shows "view s' k = view s k"
proof -
  have "k \<notin> lf_key ` set fs" using assms(2,3) levels_disjoint level_suc by blast
  with assms(1) show ?thesis by (auto simp: removes_def)
qed

lemma covered_kept:
  assumes "removes fs s s'" "\<forall>f\<in>set fs. level_key l (lf_key f)" "covered cd level_key l (view s) g"
  shows "covered cd level_key l (view s') g"
  using assms(3) next_level_kept [OF assms(1,2)] unfolding covered_def by (metis (no_types))

lemma remove_covered:
  assumes "removes fs s s'" "\<forall>f\<in>set fs. level_key l (lf_key f) \<and> covered cd level_key l (view s) f"
  shows "lossless cd level_key target_key l (view s) (view s')"
  unfolding lossless_def
proof
  fix k
  show "view s' k = view s k \<or>
        (\<exists>f. lf_key f = k \<and> level_key l k \<and> view s' k = None \<and> covered cd level_key l (view s') f) \<or>
        (\<exists>sources rg. level_key (l + 1) k \<and> batch_of level_key l (view s) sources rg \<and>
           (k = target_key (l + 1) rg \<or> (\<exists>f :: layout_file. lf_key f = k \<and> lf_range f = rg)) \<and>
           (\<forall>f\<in>set sources. view s' (lf_key f) = view s (lf_key f) \<or> covered cd level_key l (view s') f))"
  proof (cases "view s' k = view s k")
    case False
    with assms(1) obtain f where f: "f \<in> set fs" "lf_key f = k" "view s' k = None" by (auto simp: removes_def)
    moreover have "covered cd level_key l (view s') f" using covered_kept [OF assms(1)] assms(2) f(1) by blast
    ultimately show ?thesis using assms(2) by blast
  qed simp
qed

text \<open>Changing only the objects that stand for a batch.\<close>

definition retarget :: "level \<Rightarrow> seq_range \<Rightarrow> 's \<Rightarrow> 's \<Rightarrow> bool" where
  "retarget l rg s s' \<longleftrightarrow>
     (\<forall>k. view s' k = view s k \<or>
        level_key (l + 1) k \<and> (k = target_key (l + 1) rg \<or> (\<exists>f :: layout_file. lf_key f = k \<and> lf_range f = rg)))"

lemma retarget_sources:
  assumes "retarget l rg s s'" "level_key l k"
  shows "view s' k = view s k"
  using assms levels_disjoint level_suc by (metis retarget_def)

lemma retarget_lossless:
  assumes "retarget l rg s s1" "batch_of level_key l (view s) sources rg"
    and "view s' = view s1 \<or> removes sources s1 s' \<and> (\<forall>f\<in>set sources. covered cd level_key l (view s1) f)"
  shows "lossless cd level_key target_key l (view s) (view s')"
  unfolding lossless_def
proof
  fix k
  have src: "\<forall>f\<in>set sources. level_key l (lf_key f)" using assms(2) by (simp add: batch_of_def)
  have keep: "\<forall>f\<in>set sources. view s' (lf_key f) = view s (lf_key f) \<or> covered cd level_key l (view s') f"
    using assms(3) covered_kept [OF _ src] retarget_sources [OF assms(1)] src by metis
  show "view s' k = view s k \<or>
        (\<exists>f. lf_key f = k \<and> level_key l k \<and> view s' k = None \<and> covered cd level_key l (view s') f) \<or>
        (\<exists>sources rg. level_key (l + 1) k \<and> batch_of level_key l (view s) sources rg \<and>
           (k = target_key (l + 1) rg \<or> (\<exists>f :: layout_file. lf_key f = k \<and> lf_range f = rg)) \<and>
           (\<forall>f\<in>set sources. view s' (lf_key f) = view s (lf_key f) \<or> covered cd level_key l (view s') f))"
  proof (cases "view s' k = view s1 k")
    case True
    then show ?thesis using assms(1,2) keep unfolding retarget_def by metis
  next
    case False
    with assms(3) have r: "removes sources s1 s'" "\<forall>f\<in>set sources. covered cd level_key l (view s1) f" by auto
    with False obtain f where "f \<in> set sources" "lf_key f = k" "view s' k = None" by (auto simp: removes_def)
    then show ?thesis using covered_kept [OF r(1) src] r(2) src by blast
  qed
qed

text \<open>Step 1a: finishing an interrupted deletion.\<close>

lemma set_add_new: "set (add_new d fs) \<subseteq> set d \<union> set fs"
proof (induction fs arbitrary: d)
  case (Cons f fs)
  show ?case
    using Cons.IH [of d] Cons.IH [of "d @ [f]"] by auto
qed simp

lemma wp_converge:
  assumes files: "\<forall>f\<in>set files. level_key l (lf_key f)" and targets: "\<forall>m\<in>set target_files. level_key (l + 1) (lf_key m)"
    and Q: "\<And>r s'. (if r = None then view s' = view s else lossless cd level_key target_key l (view s) (view s') \<and> \<not> is_merged (the r)) \<Longrightarrow> Q r s'"
    and E: "\<And>e s'. lossless cd level_key target_key l (view s) (view s') \<Longrightarrow> E e s'"
  shows "wp (converge_interrupted_delete lay cd target_files files) Q E s"
proof (cases "files = [] \<or> target_files = []")
  case True
  with Q [of None s] show ?thesis by (simp add: converge_interrupted_delete_def wp_return)
next
  case False
  let ?I = "\<lambda>acc s'. view s' = view s \<and> (\<forall>f\<in>set (fst acc). level_key l (lf_key f) \<and> covered cd level_key l (view s) f)"
  let ?E = "\<lambda>_ s'. view s' = view s"
  have step: "wp (converge_step lay cd files m acc) ?I ?E s1" if m: "m \<in> set target_files" and I: "?I acc s1" for m acc s1
  proof -
    let ?subs = "filter (\<lambda>f. range_subset (lf_range f) (lf_range m)) files"
    have new: "?I (add_new (fst acc) ?subs, c) s2"
      if s2: "view s2 = view s" "view s (lf_key m) = Some bs" "c_decode cd bs = Inr cs" "c_is_compacted cd cs" for s2 bs cs c
    proof -
      have "covered cd level_key l (view s) f" if "f \<in> set ?subs" for f
        using that s2 m targets unfolding covered_def by auto
      with I s2(1) files set_add_new [of "fst acc" ?subs] show ?thesis by auto
    qed
    have check: "wp (case verdict of
          Inl e \<Rightarrow> (case e of StorageError msg \<Rightarrow> raise (StorageError msg) | _ \<Rightarrow> return acc)
        | Inr cover_cs \<Rightarrow>
            and_then (endpoint_chain_evidence lay cd m cover_cs ?subs) (\<lambda>evidence.
              if \<not> evidence then return acc
              else return (add_new (fst acc) ?subs, Some (case snd acc of None \<Rightarrow> m | Some c \<Rightarrow> c)))) ?I ?E s2"
      if s2: "view s2 = view s" and v: "\<And>cs. verdict = Inr cs \<Longrightarrow> \<exists>bs. view s (lf_key m) = Some bs \<and> c_decode cd bs = Inr cs \<and> c_is_compacted cd cs"
      for s2 verdict
    proof (cases verdict)
      case (Inl e)
      with s2 I show ?thesis by (cases e) (simp_all add: wp_simps)
    next
      case (Inr cs)
      with v obtain bs where "view s (lf_key m) = Some bs" "c_decode cd bs = Inr cs" "c_is_compacted cd cs" by blast
      note N = new [OF _ this]
      show ?thesis
        unfolding Inr sum.case
        by (rule wp_and_thenI, rule wp_quiet [OF evidence_quiet]) (use s2 I N in \<open>simp_all add: wp_simps\<close>)
    qed
    show ?thesis
    proof (cases "?subs = [] \<or> tiles_exactly ?subs (lf_range m)")
      case True
      then show ?thesis using I by (simp add: converge_step_def Let_def wp_return)
    next
      case False
      show ?thesis
        unfolding converge_step_def Let_def if_not_P [OF False] wp_and_then wp_attempt
        by (rule wp_verify_covers; rule check) (use I in auto)
    qed
  qed
  have fold: "wp (fold_actions (converge_step lay cd files) target_files ([], None)) ?I ?E s"
    by (rule wp_fold_actions) (simp, rule step)
  show ?thesis
    unfolding converge_interrupted_delete_def if_not_P [OF False]
  proof (rule wp_and_thenI, rule wp_mono [OF fold], goal_cases)
    case (1 acc s1)
    show ?case
    proof (cases "fst acc = []")
      case True
      with 1 Q [of None s1] show ?thesis by (simp add: wp_return)
    next
      case False
      have "lossless cd level_key target_key l (view s) (view s2)" if "removes (fst acc) s1 s2" for s2
        using remove_covered [OF that, of l cd] 1 by simp
      then show ?thesis
        unfolding if_not_P [OF False]
        by (intro wp_and_thenI wp_delete) (auto simp: wp_return is_merged_def intro: Q E)
    qed
  next
    case (2 e s1)
    then show ?case by (intro E lossless_refl)
  qed
qed

text \<open>Step 2: an object that already stands for the batch.\<close>

lemma find_existing_Some:
  "find_existing fs rg exact = Inr (Some f) \<Longrightarrow> exact = Some f \<or> f \<in> set fs \<and> lf_range f = rg"
  by (induction fs arbitrary: exact) (auto split: if_splits)

lemma wp_recover:
  assumes batch: "batch_of level_key l (view s) sources (batch_range sources)" and targets: "\<forall>m\<in>set target_files. level_key (l + 1) (lf_key m)"
    and s1: "view s1 = view s"
    and Q: "\<And>r s'. (case r of Finished out \<Rightarrow> lossless cd level_key target_key l (view s) (view s') \<and> \<not> is_merged out
        | Selected srcs rg \<Rightarrow> batch_of level_key l (view s) srcs rg \<and> retarget l rg s s') \<Longrightarrow> Q r s'"
    and E: "\<And>e s'. lossless cd level_key target_key l (view s) (view s') \<Longrightarrow> E e s'"
  shows "wp (recover_existing lay cd target_files sources) Q E s1"
proof -
  let ?rg = "batch_range sources"
  have same: "retarget l ?rg s s2" if "view s2 = view s" for s2 using that by (simp add: retarget_def)
  have "wp (case found of
         None \<Rightarrow> return (Selected sources ?rg)
       | Some existing \<Rightarrow>
           and_then (attempt (verify_existing lay cd existing sources)) (\<lambda>verdict.
             case verdict of
               Inr u \<Rightarrow> and_then (l_delete lay sources) (\<lambda>_. return (Finished (ConvergedExistingDeletion (length sources) existing)))
             | Inl torn \<Rightarrow> and_then (l_delete lay [existing]) (\<lambda>_. return (Selected sources ?rg)))) Q E s1"
    if found: "find_existing_merged target_files ?rg = Inr found" for found
  proof (cases found)
    case None
    with Q [where r = "Selected sources ?rg" and s' = s1] same [OF s1] batch show ?thesis by (simp add: wp_return)
  next
    case (Some existing)
    have ex: "existing \<in> set target_files" "lf_range existing = ?rg"
      using find_existing_Some [of target_files ?rg None existing] found Some by (auto simp: find_existing_merged_def)
    then have key: "level_key (l + 1) (lf_key existing)" using targets by blast
    have torn: "wp (and_then (l_delete lay [existing]) (\<lambda>_. return (Selected sources ?rg))) Q E s2" if s2: "view s2 = view s" for s2
    proof -
      have r: "retarget l ?rg s s3" if "removes [existing] s2 s3" for s3
        using that s2 key ex(2) unfolding retarget_def removes_def by auto
      show ?thesis
        by (intro wp_and_thenI wp_delete)
          (auto simp: wp_return intro!: Q E batch r retarget_lossless [OF r batch])
    qed
    have sound: "wp (and_then (l_delete lay sources) (\<lambda>_. return (Finished (ConvergedExistingDeletion (length sources) existing)))) Q E s2"
      if s2: "view s2 = view s" "view s (lf_key existing) = Some bs" "c_decode cd bs = Inr cs" "c_is_compacted cd cs" for s2 bs cs
    proof -
      have "covered cd level_key l (view s2) f" if "f \<in> set sources" for f
        using that batch s2 key ex(2) unfolding covered_def batch_of_def by metis
      then have "lossless cd level_key target_key l (view s) (view s3)" if "removes sources s2 s3" for s3
        using retarget_lossless [OF same [OF s2(1)] batch, of s3 cd] that by blast
      then show ?thesis by (intro wp_and_thenI wp_delete) (auto simp: wp_return is_merged_def intro!: Q E)
    qed
    show ?thesis
      unfolding Some option.case wp_and_then wp_attempt sum.case
      by (rule wp_verify_existing) (use s1 sound torn in \<open>auto simp: wp_and_then\<close>)
  qed
  then show ?thesis
    unfolding recover_existing_def wp_and_then [of "from_result _"] wp_from_result
    using E [where s' = s1] s1 lossless_refl [of "view s1" "view s"] by (auto split: sum.split)
qed

text \<open>Steps 1 and 2.\<close>

lemma wp_select:
  assumes Q: "\<And>r s'. (case r of Finished out \<Rightarrow> lossless cd level_key target_key l (view s) (view s') \<and> \<not> is_merged out
        | Selected srcs rg \<Rightarrow> batch_of level_key l (view s) srcs rg \<and> retarget l rg s s') \<Longrightarrow> Q r s'"
    and E: "\<And>e s'. lossless cd level_key target_key l (view s) (view s') \<Longrightarrow> E e s'"
  shows "wp (select_sources lay cd l batch kfw now_ms) Q E s"
  unfolding select_sources_def
proof (rule wp_and_thenI, rule wp_list_files, goal_cases)
  case (1 files s1)
  note files = 1
  show ?case
  proof (rule wp_and_thenI, rule wp_list_files, goal_cases)
    case (1 target_files s2)
    then have s2: "view s2 = view s" and targets: "\<forall>m\<in>set target_files. level_key (l + 1) (lf_key m)" using files(1) by auto
    show ?case
    proof (rule wp_and_thenI, rule wp_converge [where l = l], goal_cases)
      case 1
      then show ?case using files(3) by simp
    next
      case 2
      then show ?case by (rule targets)
    next
      case (3 r s3)
      show ?case
      proof (cases r)
        case (Some out)
        with 3 s2 show ?thesis by (auto simp: wp_return intro!: Q)
      next
        case None
        with 3 s2 have s3: "view s3 = view s" by simp
        have idle: "Q (Finished NoOp) s3" using s3 by (intro Q) (simp add: lossless_refl is_merged_def)
        have go: "wp (recover_existing lay cd target_files (slice files start len)) Q E s3"
          if "contiguous_batch (map lf_range (take e files)) batch = Some (start, len)" for e start len
        proof -
          have wf: "\<forall>f\<in>set files. wf_range (lf_range f)" using files(3) by blast
          note B = batch_subset [OF files(2) wf that]
          have "batch_of level_key l (view s) (slice files start len) (batch_range (slice files start len))"
            using B files(3) unfolding batch_of_def by blast
          from wp_recover [OF this targets s3 Q E] show ?thesis .
        qed
        show ?thesis
          using None idle go by (auto simp: Let_def wp_return split: option.split)
      qed
    next
      case (4 e s3)
      with s2 show ?case by (intro E) simp
    qed
  next
    case (2 e s2)
    with files(1) show ?case by (intro E lossless_refl) simp
  qed
next
  case (2 e s1)
  then show ?case by (intro E lossless_refl)
qed

text \<open>Steps 4 to 7: the sources go only after the output has been read back and verified.\<close>

lemma verify_merged_ok:
  "verify_merged_bytes cd bs p d n = Inr cs \<Longrightarrow> c_decode cd bs = Inr cs \<and> c_is_compacted cd cs"
  by (auto simp: verify_merged_bytes_def split: if_splits) (cases "c_decode cd bs"; auto)+

lemma wp_publish:
  assumes batch: "batch_of level_key l (view s) sources rg" and re: "retarget l rg s s1"
    and Q: "\<And>r s'. lossless cd level_key target_key l (view s) (view s') \<Longrightarrow> Q r s'"
    and E: "\<And>e s'. lossless cd level_key target_key l (view s) (view s') \<Longrightarrow> E e s'"
  shows "wp (publish_merged lay cd (l + 1) rg sources res) Q E s1"
proof -
  let ?ver = "\<lambda>bs. verify_merged_bytes cd bs (mr_prev_checksum res) (mr_declared_end res) (mr_page_count res)"
  have keep: "lossless cd level_key target_key l (view s) (view s')" if "retarget l rg s s'" for s'
    using retarget_lossless [OF that batch] by blast
  have only_target: "retarget l rg s s'" if "retarget l rg s s2" "\<forall>k. k \<noteq> target_key (l + 1) rg \<longrightarrow> view s' k = view s2 k" for s2 s'
    using that target_level unfolding retarget_def by metis
  have rb: "wp (case ?ver readback of
              Inl e \<Rightarrow> and_then (attempt (l_delete lay [outp])) (\<lambda>ignored. raise (VerificationFailed ''read-back verify failed, sources preserved''))
            | Inr cs' \<Rightarrow> and_then (l_delete lay sources) (\<lambda>_. return (Merged (length sources) outp))) Q E s3"
    if s3: "retarget l rg s s3" and out: "lf_key outp = target_key (l + 1) rg" "lf_range outp = rg" "view s3 (lf_key outp) = Some readback"
    for outp readback s3
  proof (cases "?ver readback")
    case (Inl e)
    have "retarget l rg s s4" if "removes [outp] s3 s4" for s4
      using only_target [OF s3, of s4] that out(1) by (auto simp: removes_def)
    then show ?thesis
      unfolding Inl sum.case wp_and_then wp_attempt wp_raise by (intro wp_delete) (auto intro!: E keep)
  next
    case (Inr cs)
    have "covered cd level_key l (view s3) f" if "f \<in> set sources" for f
      unfolding covered_def using verify_merged_ok [OF Inr] out target_level that batch unfolding batch_of_def by metis
    then have "lossless cd level_key target_key l (view s) (view s4)" if "removes sources s3 s4" for s4
      using retarget_lossless [OF s3 batch, of s4 cd] that by blast
    then show ?thesis
      unfolding Inr sum.case by (intro wp_and_thenI wp_delete) (auto simp: wp_return intro!: Q E)
  qed
  show ?thesis
  proof (cases "?ver (mr_bytes res)")
    case (Inl e)
    then show ?thesis using E keep [OF re] by (simp add: publish_merged_def wp_raise)
  next
    case (Inr cs)
    show ?thesis
      unfolding publish_merged_def Inr sum.case
    proof (rule wp_and_thenI, rule wp_write_merged, goal_cases)
      case (1 outp s2)
      then have s2: "retarget l rg s s2" using only_target [OF re] by blast
      show ?case
        by (rule wp_and_thenI, rule wp_read_bytes) (use s2 1 rb keep in \<open>auto simp: retarget_def intro!: E\<close>)
    next
      case (2 e s2)
      then show ?case using only_target [OF re] by (intro E keep) blast
    qed
  qed
qed

lemma inputs_quiet: "confined quiet (for_each (open_input lay) fs)"
  unfolding open_input_def by (intro confined_intros reads_quiet) simp_all

lemma run_total_safe:
  "\<exists>s' r. run_level_compaction lay cd sha256 wall_ms l batch kfw now_ms s = Some (s', r) \<and>
     lossless cd level_key target_key l (view s) (view s')"
proof (cases "batch = 0")
  case True
  then show ?thesis by (simp add: run_level_compaction_def lossless_refl)
next
  case False
  let ?P = "\<lambda>r s'. case r of Finished out \<Rightarrow> lossless cd level_key target_key l (view s) (view s') \<and> \<not> is_merged out
        | Selected srcs rg \<Rightarrow> batch_of level_key l (view s) srcs rg \<and> retarget l rg s s'"
  let ?L = "\<lambda>s'. lossless cd level_key target_key l (view s) (view s')"
  obtain s1 r1 where sel: "select_sources lay cd l batch kfw now_ms s = (s1, r1)" by fastforce
  have "wp (select_sources lay cd l batch kfw now_ms) ?P (\<lambda>_. ?L) s" by (rule wp_select) auto
  note P = wp_run [OF this sel]
  show ?thesis
  proof (cases r1)
    case (Inl e)
    with P sel False show ?thesis by (simp add: run_level_compaction_def)
  next
    case (Inr selected)
    show ?thesis
    proof (cases selected)
      case (Finished out)
      with P sel Inr False show ?thesis by (simp add: run_level_compaction_def)
    next
      case (Selected sources rg)
      with P Inr have batch: "batch_of level_key l (view s) sources rg" and re: "retarget l rg s s1" by simp_all
      have safe: "?L s'" if "view s' = view s1" for s' using retarget_lossless [OF re batch] that by blast
      obtain s2 r2 where inp: "for_each (open_input lay) sources s1 = (s2, r2)" by fastforce
      have s2: "view s2 = view s1" using confined_run [OF inputs_quiet inp] .
      show ?thesis
      proof (cases r2)
        case (Inl e)
        with sel Inr Selected inp False safe [OF s2] show ?thesis by (simp add: run_level_compaction_def)
      next
        case ok: (Inr inputs)
        have "stable (\<lambda>s'. view s' = view s1)" using next_page unfolding stable_def by metis
        from merge_ends [OF _ this, of s2 sha256 wall_ms inputs] s2 obtain s3 r3 where
          m: "merge_changesets (l_next lay) sha256 wall_ms inputs s2 = Some (s3, r3)" "view s3 = view s1" by auto
        show ?thesis
        proof (cases r3)
          case (Inl e)
          with sel Inr Selected inp ok m False safe [OF m(2)] show ?thesis by (simp add: run_level_compaction_def)
        next
          case merged: (Inr res)
          have "retarget l rg s s3" using re m(2) by (simp add: retarget_def)
          then have "wp (publish_merged lay cd (l + 1) rg sources res) (\<lambda>_. ?L) (\<lambda>_. ?L) s3"
            by (intro wp_publish [OF batch])
          then have "?L (fst (publish_merged lay cd (l + 1) rg sources res s3))" by (simp add: wp_fst)
          with sel Inr Selected inp ok m merged False show ?thesis
            by (simp add: run_level_compaction_def) (metis prod.collapse)
        qed
      qed
    qed
  qed
qed

text \<open>What a fresh merge leaves behind.\<close>

lemma wp_publish_merged:
  assumes batch: "batch_of level_key l (view s) sources rg"
  shows "wp (publish_merged lay cd (l + 1) rg sources res)
    (\<lambda>r s'. \<exists>out bs cs. r = Merged (length sources) out \<and> lf_key out = target_key (l + 1) rg \<and> lf_range out = rg \<and>
       view s' (lf_key out) = Some bs \<and>
       verify_merged_bytes cd bs (mr_prev_checksum res) (mr_declared_end res) (mr_page_count res) = Inr cs \<and>
       (\<forall>f\<in>set sources. view s' (lf_key f) = None)) (\<lambda>_ _. True) s1"
proof -
  have src: "\<forall>f\<in>set sources. level_key l (lf_key f)" using batch by (simp add: batch_of_def)
  have gen: "wp (publish_merged lay cd (l + 1) rg sources res) Q (\<lambda>_ _. True) s1"
    if Q: "\<And>out bs cs s'. lf_key out = target_key (l + 1) rg \<Longrightarrow> lf_range out = rg \<Longrightarrow> view s' (lf_key out) = Some bs \<Longrightarrow>
       verify_merged_bytes cd bs (mr_prev_checksum res) (mr_declared_end res) (mr_page_count res) = Inr cs \<Longrightarrow>
       \<forall>f\<in>set sources. view s' (lf_key f) = None \<Longrightarrow> Q (Merged (length sources) out) s'" for Q
    unfolding publish_merged_def wp_sum wp_raise
  proof (cases "verify_merged_bytes cd (mr_bytes res) (mr_prev_checksum res) (mr_declared_end res) (mr_page_count res)", simp,
      simp only: sum.case, rule wp_and_thenI, rule wp_write_merged, goal_cases)
    case (1 cs outp s2)
    show ?case
    proof (rule wp_and_thenI, rule wp_read_bytes, goal_cases)
      case read: (1 bs s3)
      show ?case
      proof (cases "verify_merged_bytes cd bs (mr_prev_checksum res) (mr_declared_end res) (mr_page_count res)")
        case (Inl e)
        then show ?thesis by (simp add: wp_and_then wp_raise_fun)
      next
        case (Inr cs')
        have "view s4 (lf_key outp) = Some bs" if "removes sources s3 s4" for s4
          using next_level_kept [OF that src] target_level 1 read by simp
        then show ?thesis
          unfolding Inr sum.case by (intro wp_and_thenI wp_delete) (use 1 Inr Q in \<open>auto simp: wp_return\<close>)
      qed
    qed simp
  qed simp
  show ?thesis by (rule gen) blast
qed

definition reads_source :: "'s \<Rightarrow> layout_file \<Rightarrow> 'h merge_input \<Rightarrow> bool" where
  "reads_source s f i \<longleftrightarrow>
     (\<exists>bs. view s (lf_key f) = Some bs \<and> header_of bs = Inr (mi_header i) \<and> content s (mi_stream i) = pages_of bs \<and> mi_range i = lf_range f)"

lemma reads_source_view: "view s' = view s \<Longrightarrow> reads_source s' f i = reads_source s f i"
  using content_view [of s' s] by (simp add: reads_source_def)

lemma wp_read_header_file:
  assumes "\<And>h bs s'. view s' = view s \<Longrightarrow> view s (lf_key f) = Some bs \<Longrightarrow> header_of bs = Inr h \<Longrightarrow> Q h s'" "\<And>e s'. view s' = view s \<Longrightarrow> E e s'"
  shows "wp (l_read_header lay f) Q E s"
  using assms read_header [of f s] by (auto simp: wp_def split: prod.split sum.split)

lemma wp_open_file:
  assumes "\<And>h bs s'. view s' = view s \<Longrightarrow> view s (lf_key f) = Some bs \<Longrightarrow> (\<And>t. view t = view s \<Longrightarrow> content t h = pages_of bs) \<Longrightarrow> Q h s'"
    and "\<And>e s'. view s' = view s \<Longrightarrow> E e s'"
  shows "wp (l_open lay f) Q E s"
proof (cases "l_open lay f s")
  case (Pair s' r)
  note O = open_source [OF Pair]
  show ?thesis
  proof (cases r)
    case (Inl e)
    then show ?thesis using O assms(2) Pair by (simp add: wp_def)
  next
    case (Inr h)
    then obtain bs where bs: "view s (lf_key f) = Some bs" "content s' h = pages_of bs" using O by blast
    have "content t h = pages_of bs" if "view t = view s" for t using that O bs(2) content_view [of t s'] by simp
    then show ?thesis using O assms(1) [OF _ bs(1)] Pair Inr by (simp add: wp_def)
  qed
qed

lemma wp_open_inputs:
  "wp (for_each (open_input lay) fs) (\<lambda>is s'. view s' = view s \<and> list_all2 (reads_source s) fs is) (\<lambda>_ s'. view s' = view s) s"
proof (induction fs arbitrary: s)
  case Nil
  then show ?case by (simp add: wp_return)
next
  case (Cons f fs)
  have one: "wp (open_input lay f) (\<lambda>i s'. view s' = view s \<and> reads_source s f i) (\<lambda>_ s'. view s' = view s) s"
    unfolding open_input_def
  proof (rule wp_and_thenI, goal_cases)
    case 1
    show ?case
    proof (rule wp_read_header_file, goal_cases)
      case (1 h bs s1)
      show ?case
        by (rule wp_and_thenI, rule wp_open_file) (use 1 in \<open>auto simp: wp_return reads_source_def\<close>)
    qed simp
  qed
  show ?case
    unfolding for_each.simps
  proof (rule wp_and_thenI, rule wp_mono [OF one], goal_cases)
    case (1 i s1)
    then have eq: "reads_source s1 = reads_source s" by (intro ext reads_source_view) simp
    show ?case
      unfolding wp_and_then wp_return
      by (rule wp_mono [OF Cons.IH [of s1, unfolded eq]]) (use 1 in simp_all)
  qed simp
qed

text \<open>The input a source contributes: the header in its object, under its range.\<close>

definition source_input :: "'s \<Rightarrow> layout_file \<Rightarrow> 'h merge_input \<Rightarrow> bool" where
  "source_input s f i \<longleftrightarrow> mi_range i = lf_range f \<and> (\<exists>bs. view s (lf_key f) = Some bs \<and> header_of bs = Inr (mi_header i))"

lemma merge_of_inputs:
  assumes "merge_changesets (l_next lay) sha256 wall_ms inputs s2 = Some (s3, Inr res)" "list_all2 (reads_source s1) sources inputs"
    and "view s2 = view s1" "sources \<noteq> []"
    and "\<forall>i\<in>set inputs. merge_source (sh_page_id_size (mi_header i)) (content s1 (mi_stream i))"
  shows "merge_spec sha256 wall_ms inputs (map (\<lambda>f. pages_of (the (view s1 (lf_key f)))) sources) = Inr res"
proof -
  have ne: "inputs \<noteq> []" using assms(2,4) by auto
  let ?ids = "sh_page_id_size (mi_header (hd inputs))" and ?psz = "sh_page_size (mi_header (hd inputs))"
  have geo: "\<forall>i\<in>set inputs. sh_page_id_size (mi_header i) = ?ids \<and> sh_page_size (mi_header i) = ?psz"
  proof -
    have "\<not> list_ex (\<lambda>i. sh_page_id_size (mi_header i) \<noteq> ?ids \<or> sh_page_size (mi_header i) \<noteq> ?psz) inputs"
    proof
      assume "list_ex (\<lambda>i. sh_page_id_size (mi_header i) \<noteq> ?ids \<or> sh_page_size (mi_header i) \<noteq> ?psz) inputs"
      with assms(1) ne show False by (simp add: merge_changesets_def Let_def)
    qed
    then show ?thesis by (simp add: list_ex_iff)
  qed
  have eq: "map (\<lambda>i. content s2 (mi_stream i)) inputs = map (\<lambda>f. pages_of (the (view s1 (lf_key f)))) sources"
  proof (rule nth_equalityI)
    show "length (map (\<lambda>i. content s2 (mi_stream i)) inputs) = length (map (\<lambda>f. pages_of (the (view s1 (lf_key f)))) sources)"
      using assms(2) by (simp add: list_all2_lengthD)
    fix k
    assume "k < length (map (\<lambda>i. content s2 (mi_stream i)) inputs)"
    then have "reads_source s1 (sources ! k) (inputs ! k)" "k < length sources" "k < length inputs"
      using assms(2) by (simp_all add: list_all2_conv_all_nth)
    then show "map (\<lambda>i. content s2 (mi_stream i)) inputs ! k = map (\<lambda>f. pages_of (the (view s1 (lf_key f)))) sources ! k"
      using content_view [OF assms(3)] by (auto simp: reads_source_def)
  qed
  have "\<forall>ps\<in>set (map (\<lambda>i. content s2 (mi_stream i)) inputs). merge_source ?ids ps"
    using assms(5) geo content_view [OF assms(3)] by simp
  from merge_run [OF ne refl refl refl geo this, of sha256 wall_ms] assms(1) show ?thesis unfolding eq by auto
qed

lemma run_merged:
  assumes run: "run_level_compaction lay cd sha256 wall_ms l batch kfw now_ms s = Some (s', Inr (Merged n out))"
  shows "\<exists>sources rg inputs res bs cs.
    batch_of level_key l (view s) sources rg \<and> n = length sources \<and> list_all2 (source_input s) sources inputs \<and>
    (\<forall>f\<in>set sources. view s' (lf_key f) = None) \<and>
    lf_key out = target_key (l + 1) rg \<and> lf_range out = rg \<and> view s' (lf_key out) = Some bs \<and>
    verify_merged_bytes cd bs (mr_prev_checksum res) (mr_declared_end res) (mr_page_count res) = Inr cs \<and>
    ((\<forall>f\<in>set sources. \<forall>i\<in>set inputs. merge_source (sh_page_id_size (mi_header i)) (pages_of (the (view s (lf_key f))))) \<longrightarrow>
       merge_spec sha256 wall_ms inputs (map (\<lambda>f. pages_of (the (view s (lf_key f)))) sources) = Inr res)"
proof -
  let ?P = "\<lambda>r s'. case r of Finished out \<Rightarrow> lossless cd level_key target_key l (view s) (view s') \<and> \<not> is_merged out
        | Selected srcs rg \<Rightarrow> batch_of level_key l (view s) srcs rg \<and> retarget l rg s s'"
  obtain s1 r1 where sel: "select_sources lay cd l batch kfw now_ms s = (s1, r1)" by fastforce
  have "wp (select_sources lay cd l batch kfw now_ms) ?P (\<lambda>_ _. True) s" by (rule wp_select) auto
  note P = wp_run [OF this sel]
  from run sel P obtain sources rg where r1: "r1 = Inr (Selected sources rg)"
    and batch: "batch_of level_key l (view s) sources rg" and re: "retarget l rg s s1"
    by (auto simp: run_level_compaction_def is_merged_def split: if_splits sum.splits selection.splits)
  obtain s2 r2 where inp: "for_each (open_input lay) sources s1 = (s2, r2)" by fastforce
  from run sel r1 inp obtain inputs s3 res where r2: "r2 = Inr inputs"
    and m: "merge_changesets (l_next lay) sha256 wall_ms inputs s2 = Some (s3, Inr res)"
    and pub: "publish_merged lay cd (l + 1) rg sources res s3 = (s', Inr (Merged n out))"
    by (auto simp: run_level_compaction_def split: if_splits sum.splits option.splits prod.splits)
  have in1: "view s2 = view s1" "list_all2 (reads_source s1) sources inputs"
    using wp_run [OF wp_open_inputs inp] r2 by simp_all
  have src_view: "view s1 (lf_key f) = view s (lf_key f)" if "f \<in> set sources" for f
    using retarget_sources [OF re] batch that by (auto simp: batch_of_def)
  have inputs: "list_all2 (source_input s) sources inputs"
    using in1(2) src_view unfolding list_all2_conv_all_nth reads_source_def source_input_def by (metis nth_mem)
  have spec: "merge_spec sha256 wall_ms inputs (map (\<lambda>f. pages_of (the (view s (lf_key f)))) sources) = Inr res"
    if "\<forall>f\<in>set sources. \<forall>i\<in>set inputs. merge_source (sh_page_id_size (mi_header i)) (pages_of (the (view s (lf_key f))))"
  proof -
    have ne: "sources \<noteq> []" using batch by (simp add: batch_of_def)
    have pages: "map (\<lambda>f. pages_of (the (view s1 (lf_key f)))) sources = map (\<lambda>f. pages_of (the (view s (lf_key f)))) sources"
      using src_view by simp
    have "merge_source (sh_page_id_size (mi_header i)) (content s1 (mi_stream i))" if i: "i \<in> set inputs" for i
    proof -
      obtain k where k: "k < length inputs" "i = inputs ! k" using i by (auto simp: in_set_conv_nth)
      then have r: "reads_source s1 (sources ! k) i" "sources ! k \<in> set sources" using in1(2) by (simp_all add: list_all2_conv_all_nth)
      then have "content s1 (mi_stream i) = pages_of (the (view s (lf_key (sources ! k))))"
        using src_view by (auto simp: reads_source_def)
      with that r(2) i show ?thesis by (metis \<open>\<forall>f\<in>set sources. \<forall>i\<in>set inputs. merge_source (sh_page_id_size (mi_header i)) (pages_of (the (view s (lf_key f))))\<close>)
    qed
    with merge_of_inputs [OF m in1(2,1) ne] show ?thesis unfolding pages by blast
  qed
  from wp_run [OF wp_publish_merged [OF batch, of cd res s3] pub] obtain bs cs where
    O: "n = length sources" "lf_key out = target_key (l + 1) rg" "lf_range out = rg" "view s' (lf_key out) = Some bs"
      "verify_merged_bytes cd bs (mr_prev_checksum res) (mr_declared_end res) (mr_page_count res) = Inr cs"
      "\<forall>f\<in>set sources. view s' (lf_key f) = None" by auto
  show ?thesis
    by (intro exI [of _ sources] exI [of _ rg] exI [of _ inputs] exI [of _ res] exI [of _ bs] exI [of _ cs] conjI impI)
      (use O batch inputs spec in \<open>simp_all\<close>)
qed

end

section \<open>Compaction over a storage backend\<close>

context storage_backend
begin

lemma compaction_total_safe:
  "\<exists>s' r. run_level_compaction (gen_layout rd b gl) cd sha256 wall_ms l batch kfw now_ms s = Some (s', r) \<and>
     lossless cd (gen_level_key gl) (gen_target_key gl) l (view s) (view s')"
  by (rule gen.run_total_safe)

lemmas compaction_merged = gen.run_merged [unfolded gen.source_input_def]

end


text \<open>Two raw files on the in-memory backend whose every second draw is an injected failure.\<close>

definition demo_rng :: "nat rng" where
  "demo_rng = \<lparr>rg_unit = (\<lambda>g. (if even g then 0 else 1, g + 1)), rg_range = (\<lambda>lo hi g. (lo, g + 1))\<rparr>"

definition demo_config :: mock_config where
  "demo_config = \<lparr>mc_faults = [RandomError (1 / 2), PartialWrite 100], mc_seed = 0, mc_bucket = ''test-bucket''\<rparr>"

abbreviation demo_backend :: "nat mock_state backend" where
  "demo_backend \<equiv> mock_backend (whole_range_get demo_rng demo_config) (serial_delete_many demo_rng demo_config) demo_rng demo_config"

definition demo_layout :: gen_layout_core where
  "demo_layout = \<lparr>gl_prefix = ''wal/'', gl_db_name = ''app'', gl_ext = ''hadbp''\<rparr>"

definition demo_store :: "bytes \<Rightarrow> bytes \<Rightarrow> nat mock_state" where
  "demo_store x y = (mock_new (\<lambda>_. 0) demo_config)\<lparr>mk_storage :=
     [(gen_target_key demo_layout 0 (point 1), \<lparr>so_data = x, so_etag = 1, so_visible_after = 0\<rparr>),
      (gen_target_key demo_layout 0 (point 2), \<lparr>so_data = y, so_etag = 2, so_visible_after = 0\<rparr>)]\<rparr>"

abbreviation demo_no_ltx :: ltx_reader where
  "demo_no_ltx \<equiv> \<lambda>bs. Inl ''not an LTX object''"




text \<open>
  The search for a merged object of exactly the batch's range.  It fails exactly when some
  object of the target level overlaps the range without being equal to it, and names the first such
  object; otherwise it finds the object of that range, the last one listed, if there is one.
\<close>

theorem find_existing_merged_exact:
  "find_existing_merged fs rg =
     (case find (\<lambda>f. lf_range f \<noteq> rg \<and> ranges_overlap (lf_range f) rg) fs of
        Some f \<Rightarrow> Inl (OverlappingExisting f)
      | None \<Rightarrow> Inr (find (\<lambda>f. lf_range f = rg) (rev fs)))"
proof -
  have app: "find P (xs @ ys) = (case find P xs of Some x \<Rightarrow> Some x | None \<Rightarrow> find P ys)" for P :: "layout_file \<Rightarrow> bool" and xs ys
    by (induction xs) auto
  have "find_existing fs rg exact =
     (case find (\<lambda>f. lf_range f \<noteq> rg \<and> ranges_overlap (lf_range f) rg) fs of
        Some f \<Rightarrow> Inl (OverlappingExisting f)
      | None \<Rightarrow> Inr (case find (\<lambda>f. lf_range f = rg) (rev fs) of Some f \<Rightarrow> Some f | None \<Rightarrow> exact))" for exact
    by (induction fs arbitrary: exact) (auto simp: app split: option.split)
  then show ?thesis by (auto simp: find_existing_merged_def split: option.split)
qed

end
