(* ===== verification/MergeApply.thy ===== *)
theory MergeApply
  imports Merge
begin

text \<open>
  What compaction promises to a restore: applying the one merged changeset to a database does
  what applying its sources in order does.  The argument is per page: both sides are the last
  version of each page, cut to the size the last source declares.
\<close>

section \<open>The merged pages\<close>

lemma lww_map_append: "lww_map (pss @ qss) = lww_map pss ++ lww_map qss"
  by (induction pss) simp_all

lemma last_version_append:
  "last_version (xs @ ys) i = (case last_version ys i of Some d \<Rightarrow> Some d | None \<Rightarrow> last_version xs i)"
  by (simp add: last_version_def map_add_def split: option.split)

lemma set_emitted:
  assumes "finite (dom M)"
  shows "set (emitted epc M) = {p. \<exists>x. M x = Some p \<and> should_emit p epc}"
  using assms by (force simp: emitted_def)

lemma emitted_nums:
  assumes "\<And>x p. M x = Some p \<Longrightarrow> pg_num p = x"
  shows "map pg_num (emitted epc M) = filter (\<lambda>x. should_emit (the (M x)) epc) (sorted_list_of_set (dom M))"
proof -
  have "map pg_num (emitted epc M) = map (\<lambda>x. pg_num (the (M x))) (filter (\<lambda>x. should_emit (the (M x)) epc) (sorted_list_of_set (dom M)))"
    by (simp add: emitted_def filter_map comp_def)
  also have "\<dots> = filter (\<lambda>x. should_emit (the (M x)) epc) (sorted_list_of_set (dom M))"
  proof (intro map_idI)
    fix x
    assume "x \<in> set (filter (\<lambda>x. should_emit (the (M x)) epc) (sorted_list_of_set (dom M)))"
    then have "x \<in> set (sorted_list_of_set (dom M))" by simp
    then have "x \<in> dom M" by (cases "finite (dom M)") simp_all
    then show "pg_num (the (M x)) = x" using assms by auto
  qed
  finally show ?thesis .
qed

lemma emitted_ascending:
  assumes "\<And>x p. M x = Some p \<Longrightarrow> pg_num p = x"
  shows "ascending (emitted epc M)"
proof -
  have "sorted_wrt (<) (sorted_list_of_set (dom M))"
    by (cases "finite (dom M)") simp_all
  then have "sorted_wrt (<) (filter (\<lambda>x. should_emit (the (M x)) epc) (sorted_list_of_set (dom M)))"
    by (rule sorted_wrt_filter)
  moreover have "map pg_num (emitted epc M) = filter (\<lambda>x. should_emit (the (M x)) epc) (sorted_list_of_set (dom M))"
    using assms by (rule emitted_nums)
  ultimately show ?thesis by (simp add: ascending_def)
qed

lemma emitted_lww: "p \<in> set (emitted epc (lww_map pss)) \<longleftrightarrow> lww_map pss (pg_num p) = Some p \<and> should_emit p epc"
  using set_emitted [OF finite_dom_lww_map] lww_map_num by blast

lemma declared_epc_Some:
  assumes "merge_source ids ps" "declared_epc ps = Some e"
  obtains m where "m \<in> set ps" "pe_data m = []" "pg_num m \<noteq> 0" "e + 1 = pg_num m" "filter (\<lambda>p. pe_data p = []) ps = [m]"
proof -
  from assms(2) obtain m ms where f: "filter (\<lambda>p. pe_data p = []) ps = m # ms" and e: "e = pg_num m - 1"
    by (auto simp: declared_epc_def split: list.splits)
  have "m \<in> set (filter (\<lambda>p. pe_data p = []) ps)" using f by simp
  then have m: "m \<in> set ps" "pe_data m = []" by auto
  with assms(1) have "pg_num m \<noteq> 0" "ms = []" using f by (auto simp: merge_source_def)
  with m f e that [of m] show thesis by simp
qed

lemma ucast_u32_back [simp]: "(ucast (ucast (v :: u32) :: u64) :: u32) = v"
  by (rule bit_word_eqI) (simp add: bit_simps)

lemma final_marker_num:
  assumes "merge_source ids ps" "declared_epc ps = Some e"
  shows "pg_num (final_marker ids e) = e + 1" "e < e + 1" "has_id_size ids (final_marker ids e)"
proof -
  from declared_epc_Some [OF assms] obtain m where
    m: "m \<in> set ps" "pg_num m \<noteq> 0" "e + 1 = pg_num m" by blast
  have "has_id_size ids m" using m(1) assms(1) by (simp add: merge_source_def)
  with m(3) show "pg_num (final_marker ids e) = e + 1"
    by (cases "pe_page_id m") (auto simp: has_id_size_def final_marker_def)
  have "1 + e \<noteq> 0" using m(2,3) by (simp add: add.commute)
  then show "e < e + 1" using unatSuc [of e] by (simp add: word_less_nat_alt add.commute)
  show "has_id_size ids (final_marker ids e)" by (cases ids) (simp_all add: has_id_size_def final_marker_def)
qed

lemma merged_ascending:
  assumes "pss \<noteq> []" "\<forall>ps\<in>set pss. merge_source ids ps"
  shows "ascending (merged_pages ids pss)"
proof (cases "declared_epc (last pss)")
  case None
  with emitted_ascending [of "lww_map pss"] lww_map_num show ?thesis by (simp add: merged_pages_def)
next
  case (Some e)
  have src: "merge_source ids (last pss)" using assms by simp
  have "pg_num p < pg_num (final_marker ids e)" if "p \<in> set (emitted (Some e) (lww_map pss))" for p
  proof -
    have "pg_num p \<le> e" using that by (auto simp: emitted_lww should_emit_def)
    with final_marker_num [OF src Some] show ?thesis by simp
  qed
  with emitted_ascending [of "lww_map pss" "Some e"] lww_map_num Some show ?thesis
    by (auto simp: merged_pages_def ascending_def sorted_wrt_append)
qed

lemma merged_data:
  assumes "pe_data p \<noteq> []"
  shows "p \<in> set (merged_pages ids pss) \<longleftrightarrow>
    lww_map pss (pg_num p) = Some p \<and> (case declared_epc (last pss) of Some e \<Rightarrow> pg_num p \<le> e | None \<Rightarrow> True)"
  using assms by (auto simp: merged_pages_def emitted_lww should_emit_def final_marker_def split: option.splits)

lemma merged_markers:
  "filter (\<lambda>p. pe_data p = []) (merged_pages ids pss) =
    (case declared_epc (last pss) of None \<Rightarrow> [] | Some e \<Rightarrow> [final_marker ids e])"
proof -
  have "filter (\<lambda>p. pe_data p = []) (emitted (declared_epc (last pss)) (lww_map pss)) = []"
    by (auto simp: filter_empty_conv emitted_lww should_emit_def)
  then show ?thesis by (simp add: merged_pages_def final_marker_def split: option.split)
qed

text \<open>
  The pages of a merged object are canonical and exactly the last writers' versions:
  page numbers strictly ascend; a page with content is emitted if and only if it is the version of
  the last source that touches its number and lies within the database size the last source
  declares; and the object carries exactly one empty page, the size marker, as its last page, if
  and only if the last source declares a size.
\<close>

theorem merged_pages_last_writer:
  assumes "pss \<noteq> []" "\<forall>ps\<in>set pss. merge_source ids ps"
  shows "ascending (merged_pages ids pss) \<and>
    (\<forall>p. pe_data p \<noteq> [] \<longrightarrow>
       (p \<in> set (merged_pages ids pss) \<longleftrightarrow>
        lww_map pss (pg_num p) = Some p \<and> (case declared_epc (last pss) of Some e \<Rightarrow> pg_num p \<le> e | None \<Rightarrow> True))) \<and>
    filter (\<lambda>p. pe_data p = []) (merged_pages ids pss) =
      (case declared_epc (last pss) of None \<Rightarrow> [] | Some e \<Rightarrow> [final_marker ids e])"
  using merged_ascending [OF assms] merged_data merged_markers by simp

theorem merged_pages_last_writer_witness:
  "let old = \<lparr>pe_page_id = PageU32 1, pe_data = [1]\<rparr>; new = \<lparr>pe_page_id = PageU32 1, pe_data = [2]\<rparr>;
       pss = [[old], [new, \<lparr>pe_page_id = PageU32 3, pe_data = []\<rparr>]]
   in new \<in> set (merged_pages IdU32 pss) \<and> old \<notin> set (merged_pages IdU32 pss)"
proof -
  let ?old = "\<lparr>pe_page_id = PageU32 1, pe_data = [1]\<rparr>" and ?new = "\<lparr>pe_page_id = PageU32 1, pe_data = [2]\<rparr>"
  let ?pss = "[[?old], [?new, \<lparr>pe_page_id = PageU32 3, pe_data = []\<rparr>]]"
  have "\<forall>ps\<in>set ?pss. merge_source IdU32 ps"
    by (simp add: merge_source_def ascending_def has_id_size_def)
  from merged_pages_last_writer [OF _ this] have
    "pe_data p \<noteq> [] \<Longrightarrow> p \<in> set (merged_pages IdU32 ?pss) \<longleftrightarrow> lww_map ?pss (pg_num p) = Some p \<and>
       (case declared_epc (last ?pss) of Some e \<Rightarrow> pg_num p \<le> e | None \<Rightarrow> True)" for p
    by blast
  from this [of ?new] this [of ?old] show ?thesis
    by (simp add: Let_def declared_epc_def)
qed

section \<open>Applying a merged changeset\<close>

text \<open>A decoded incremental as the writer produces it: valid, in page order, with a declared size.\<close>

definition sized :: "u32 \<Rightarrow> changeset \<Rightarrow> bool" where
  "sized psz cs \<longleftrightarrow>
     validate_sqlite_changeset cs = Inr () \<and> ph_page_size (cs_header cs) = psz \<and> ids_u32 (cs_pages cs) \<and>
     ascending (cs_pages cs) \<and> marker_flag_set (ph_flags (cs_header cs))"

abbreviation size_of :: "changeset \<Rightarrow> nat" where
  "size_of cs \<equiv> unat (the (declared_epc (cs_pages cs)))"

definition apply_in_order :: "changeset list \<Rightarrow> bytes \<Rightarrow> ltx_error + bytes" where
  "apply_in_order css f = foldl (\<lambda>r cs. rbind r (\<lambda>f. apply_decoded_changeset_to_db cs (Some f))) (Inr f) css"

text \<open>
  A changeset that grows the database again over pages that earlier ones truncated away writes
  those pages.  (SQLite writes every page it allocates.)
\<close>

definition rewrites_regrown :: "nat \<Rightarrow> changeset list \<Rightarrow> bool" where
  "rewrites_regrown n0 css \<longleftrightarrow>
     (\<forall>k i. Suc k < length css \<and> size_of (css ! k) \<le> i \<and> i < size_of (css ! Suc k) \<and> last_version (cs_pages (css ! Suc k)) i = None \<longrightarrow>
        n0 \<le> i \<and> last_version (concat (map cs_pages (take (Suc k) css))) i = None)"

lemma end_marker_declared:
  assumes "end_marker_loop fl pages None = Inr (Some e)"
  shows "\<exists>m. filter (\<lambda>p. pe_data p = []) pages = [m] \<and> pg_num m \<noteq> 0 \<and> declared_epc pages = Some e"
proof -
  from assms have "end_marker_loop fl (filter (\<lambda>p. pe_data p = []) pages) None = Inr (Some e)"
    by (simp add: end_marker_loop_filter [of fl pages])
  moreover have "\<forall>q\<in>set (filter (\<lambda>p. pe_data p = []) pages). pe_data q = []" by simp
  moreover have "(\<forall>q\<in>set qs. pe_data q = []) \<Longrightarrow> end_marker_loop fl qs None = Inr (Some e) \<Longrightarrow>
      \<exists>m. qs = [m] \<and> pg_num m \<noteq> 0 \<and> e = pg_num m - 1" for qs
    by (cases qs; cases "tl qs") (auto split: if_splits)
  ultimately obtain m where "filter (\<lambda>p. pe_data p = []) pages = [m]" "pg_num m \<noteq> 0" "e = pg_num m - 1"
    by blast
  then show ?thesis by (simp add: declared_epc_def)
qed

lemma sized_facts:
  assumes "sized psz cs"
  shows "\<exists>e. declared_epc (cs_pages cs) = Some e \<and> changeset_end_page_count cs = Inr (Some e) \<and>
    end_pages_ok (unat psz) (Some e) (cs_pages cs)" "merge_source IdU32 (cs_pages cs)" "psz \<in> SQLITE_PAGE_SIZES"
proof -
  from assms obtain epc where v: "changeset_end_page_count cs = Inr epc" "end_pages_ok (unat psz) epc (cs_pages cs)"
      "psz \<in> SQLITE_PAGE_SIZES" and asc: "ids_u32 (cs_pages cs)" "ascending (cs_pages cs)" "marker_flag_set (ph_flags (cs_header cs))"
    by (auto simp: sized_def validate_ok_iff)
  from v(1) asc(3) obtain e where e: "epc = Some e" "end_marker_loop (ph_flags (cs_header cs)) (cs_pages cs) None = Inr (Some e)"
    by (auto simp: changeset_end_page_count_def split: if_splits)
  from end_marker_declared [OF e(2)] obtain m where
    m: "filter (\<lambda>p. pe_data p = []) (cs_pages cs) = [m]" "declared_epc (cs_pages cs) = Some e" by blast
  with v e show "\<exists>e. declared_epc (cs_pages cs) = Some e \<and> changeset_end_page_count cs = Inr (Some e) \<and>
    end_pages_ok (unat psz) (Some e) (cs_pages cs)" by simp
  show "merge_source IdU32 (cs_pages cs)"
    using asc m v(2) by (fastforce simp: merge_source_def ids_u32_def has_id_size_def end_pages_ok_def)
  show "psz \<in> SQLITE_PAGE_SIZES" by (rule v(3))
qed

abbreviation versions :: "changeset list \<Rightarrow> nat \<rightharpoonup> bytes" where
  "versions css \<equiv> last_version (concat (map cs_pages css))"

lemma rewrites_regrown_butlast: "rewrites_regrown n0 (css @ [c]) \<Longrightarrow> rewrites_regrown n0 css"
  unfolding rewrites_regrown_def
proof (intro allI impI)
  fix k i
  assume H: "\<forall>k i. Suc k < length (css @ [c]) \<and> size_of ((css @ [c]) ! k) \<le> i \<and> i < size_of ((css @ [c]) ! Suc k) \<and>
      last_version (cs_pages ((css @ [c]) ! Suc k)) i = None \<longrightarrow>
      n0 \<le> i \<and> last_version (concat (map cs_pages (take (Suc k) (css @ [c])))) i = None"
    and "Suc k < length css \<and> size_of (css ! k) \<le> i \<and> i < size_of (css ! Suc k) \<and> last_version (cs_pages (css ! Suc k)) i = None"
  with H [rule_format, of k i] show "n0 \<le> i \<and> last_version (concat (map cs_pages (take (Suc k) css))) i = None"
    by (simp add: nth_append)
qed

lemma rewrites_regrown_last:
  assumes "rewrites_regrown n0 (css @ [c])" "css \<noteq> []" "size_of (last css) \<le> i" "i < size_of c" "last_version (cs_pages c) i = None"
  shows "n0 \<le> i" "versions css i = None"
proof -
  have "Suc (length css - 1) = length css" using assms(2) by simp
  then show "n0 \<le> i" "versions css i = None"
    using assms(1) [unfolded rewrites_regrown_def, rule_format, of "length css - 1" i] assms(2-5)
    by (simp_all add: nth_append last_conv_nth)
qed

text \<open>Applying the sources in order.\<close>

lemma apply_in_order_pages:
  assumes "\<forall>cs\<in>set css. sized psz cs" "rewrites_regrown (length L) css" "page_list (unat psz) L" "css \<noteq> []"
  shows "\<exists>L'. apply_in_order css (concat L) = Inr (concat L') \<and> page_list (unat psz) L' \<and> length L' = size_of (last css) \<and>
    (\<forall>i<length L'. L' ! i = (case versions css i of Some d \<Rightarrow> d | None \<Rightarrow> if i < length L then L ! i else zeros (unat psz)))"
  using assms
proof (induction css rule: rev_induct)
  case (snoc c css)
  obtain e where e: "declared_epc (cs_pages c) = Some e" "changeset_end_page_count c = Inr (Some e)" "end_pages_ok (unat psz) (Some e) (cs_pages c)"
    using snoc.prems(1) sized_facts(1) by fastforce
  have c: "ids_u32 (cs_pages c)" "ph_page_size (cs_header c) = psz" "validate_sqlite_changeset c = Inr ()"
    using snoc.prems(1) by (auto simp: sized_def)
  have one: "apply_decoded_changeset_to_db c (Some (concat M)) = Inr (concat (apply_spec c (Some e) M)) \<and>
      page_list (unat psz) (apply_spec c (Some e) M) \<and> length (apply_spec c (Some e) M) = unat e \<and>
      (\<forall>i<unat e. apply_spec c (Some e) M ! i =
         (case last_version (cs_pages c) i of Some d \<Rightarrow> d | None \<Rightarrow> if i < length M then M ! i else zeros (unat psz)))"
    if "page_list (unat psz) M" for M
    using apply_decoded_refines [OF c(1) _ c(3) e(2), of M, unfolded c(2), OF that]
      apply_spec_pages [of "unat psz" "Some e" c M, unfolded c(2), OF e(3) refl]
    by simp
  show ?case
  proof (cases "css = []")
    case True
    with one [OF snoc.prems(3)] e(1) show ?thesis by (auto simp: apply_in_order_def)
  next
    case False
    obtain M where M: "apply_in_order css (concat L) = Inr (concat M)" "page_list (unat psz) M" "length M = size_of (last css)"
      "\<forall>i<length M. M ! i = (case versions css i of Some d \<Rightarrow> d | None \<Rightarrow> if i < length L then L ! i else zeros (unat psz))"
      using snoc.IH [OF _ rewrites_regrown_butlast [OF snoc.prems(2)] snoc.prems(3) False] snoc.prems(1) by auto
    note A = one [OF M(2)]
    have "apply_spec c (Some e) M ! i = (case versions (css @ [c]) i of Some d \<Rightarrow> d | None \<Rightarrow> if i < length L then L ! i else zeros (unat psz))"
      if i: "i < unat e" for i
    proof (cases "last_version (cs_pages c) i")
      case (Some d)
      with A i show ?thesis by (simp add: last_version_append)
    next
      case None
      show ?thesis
      proof (cases "i < length M")
        case True
        with A M(4) i None show ?thesis by (simp add: last_version_append)
      next
        case False
        with rewrites_regrown_last [OF snoc.prems(2) \<open>css \<noteq> []\<close>, of i] M(3) e(1) i None A show ?thesis
          by (simp add: last_version_append)
      qed
    qed
    with A M(1) e(1) show ?thesis
      by (intro exI [of _ "apply_spec c (Some e) M"]) (simp add: apply_in_order_def)
  qed
qed simp

text \<open>The merged pages: up to the final size they hold the same versions.\<close>

lemma page_index:
  assumes "pg_num p \<noteq> 0"
  shows "pg_num p = word_of_nat (Suc i) \<and> Suc i < 2 ^ 64 \<longleftrightarrow> i = unat (pg_num p) - 1"
proof -
  have "0 < unat (pg_num p)" using assms by (simp add: unat_gt_0)
  moreover have "unat (pg_num p) < 2 ^ 64" using unat_u64_less [of "pg_num p"] by simp
  moreover have "Suc i < 2 ^ 64 \<Longrightarrow> unat (word_of_nat (Suc i) :: u64) = Suc i" by (rule unat_u64_of_nat)
  ultimately show ?thesis by (auto simp: word_unat_eq_iff simp del: of_nat_Suc)
qed

lemma distinct_nums: "ascending ps \<Longrightarrow> distinct (map (\<lambda>p. unat (pg_num p)) ps)"
  by (auto simp: ascending_def sorted_wrt_map distinct_conv_nth sorted_wrt_iff_nth_less word_less_nat_alt)
    (metis linorder_neqE_nat nat_neq_iff)

lemma last_version_pages_map:
  assumes "ascending ps" "\<forall>p\<in>set ps. pg_num p \<noteq> 0" "Suc i < 2 ^ 64"
  shows "last_version ps i = (case pages_map ps (word_of_nat (Suc i)) of
      Some p \<Rightarrow> if pe_data p = [] then None else Some (pe_data p) | None \<Rightarrow> None)"
proof (cases "pages_map ps (word_of_nat (Suc i))")
  case None
  then have "word_of_nat (Suc i) \<notin> pg_num ` set ps" by (metis dom_pages_map domIff)
  then have "last_version ps i = None"
    using assms(2,3) page_index unfolding last_version_none by (metis image_eqI)
  with None show ?thesis by (simp del: of_nat_Suc)
next
  case (Some p)
  from ran_pages_map [OF this] have p: "p \<in> set ps" "pg_num p = word_of_nat (Suc i)" by auto
  then have i: "i = unat (pg_num p) - 1" using assms(2,3) page_index by blast
  show ?thesis
  proof (cases "pe_data p = []")
    case True
    have "q = p" if "q \<in> set ps" "i = unat (pg_num q) - 1" for q
    proof -
      have "pg_num q = pg_num p" using that assms(2,3) page_index p(2) by metis
      with distinct_nums [OF assms(1)] that(1) p(1) show ?thesis by (metis distinct_map inj_onD)
    qed
    with True have "last_version ps i = None" unfolding last_version_none by blast
    with Some True show ?thesis by (simp del: of_nat_Suc)
  next
    case False
    with last_version_distinct [OF distinct_nums [OF assms(1)] assms(2) p(1)] i Some show ?thesis by (simp del: of_nat_Suc)
  qed
qed

definition lww_data :: "page_entry list list \<Rightarrow> nat \<rightharpoonup> bytes" where
  "lww_data pss i = (case lww_map pss (word_of_nat (Suc i)) of
      Some p \<Rightarrow> if pe_data p = [] then None else Some (pe_data p) | None \<Rightarrow> None)"

lemma lww_data_versions:
  assumes "\<forall>cs\<in>set css. sized psz cs" "rewrites_regrown n0 css" "css \<noteq> []" "i < size_of (last css)"
  shows "lww_data (map cs_pages css) i = versions css i"
  using assms
proof (induction css rule: rev_induct)
  case (snoc c css)
  obtain e where e: "declared_epc (cs_pages c) = Some e" "end_pages_ok (unat psz) (Some e) (cs_pages c)"
    using snoc.prems(1) sized_facts(1) by fastforce
  have src: "merge_source IdU32 (cs_pages c)" using snoc.prems(1) sized_facts(2) by fastforce
  have "unat e < 2 ^ 64 - 1"
    using final_marker_num(2) [OF src e(1)] unat_u64_less [of "e + 1"] by (simp add: word_less_nat_alt)
  then have i: "i < unat e" "Suc i < 2 ^ 64" using snoc.prems(4) e(1) by auto
  have lv: "last_version (cs_pages c) i = (case pages_map (cs_pages c) (word_of_nat (Suc i)) of
      Some p \<Rightarrow> if pe_data p = [] then None else Some (pe_data p) | None \<Rightarrow> None)"
    using src e(2) i(2) by (intro last_version_pages_map) (auto simp: merge_source_def end_pages_ok_def)
  show ?case
  proof (cases "pages_map (cs_pages c) (word_of_nat (Suc i))")
    case (Some p)
    from ran_pages_map [OF this] have p: "p \<in> set (cs_pages c)" "pg_num p = word_of_nat (Suc i)" by auto
    have "pe_data p \<noteq> []"
    proof
      assume "pe_data p = []"
      then have "p \<in> set (filter (\<lambda>p. pe_data p = []) (cs_pages c))" using p(1) by simp
      then have "pg_num p = e + 1" using declared_epc_Some [OF src e(1)] by (metis empty_iff list.set(1) set_ConsD)
      then have "unat (pg_num p) = Suc (unat e)"
        using final_marker_num(2) [OF src e(1)] unat_suc_le [of e "e + 1"] by simp
      with p(2) i unat_u64_of_nat [OF i(2)] show False by (simp del: of_nat_Suc)
    qed
    with Some lv show ?thesis
      by (simp add: lww_data_def lww_map_append last_version_append map_add_def del: of_nat_Suc)
  next
    case None
    then have lc: "last_version (cs_pages c) i = None" using lv by (simp del: of_nat_Suc)
    have lw: "lww_data (map cs_pages (css @ [c])) i = lww_data (map cs_pages css) i"
      using None by (simp add: lww_data_def lww_map_append map_add_def del: of_nat_Suc)
    have vs: "versions (css @ [c]) i = versions css i" using lc by (simp add: last_version_append)
    show ?thesis
    proof (cases "css = []")
      case True
      then show ?thesis unfolding lw vs by (simp add: lww_data_def last_version_def)
    next
      case False
      show ?thesis
      proof (cases "i < size_of (last css)")
        case True
        with snoc.IH rewrites_regrown_butlast [OF snoc.prems(2)] snoc.prems(1) False show ?thesis
          unfolding lw vs by simp
      next
        case outside: False
        have none: "versions css i = None"
          using rewrites_regrown_last [OF snoc.prems(2) False] outside i(1) e(1) lc by simp
        have "lww_data (map cs_pages css) i = None"
        proof (rule ccontr)
          assume "lww_data (map cs_pages css) i \<noteq> None"
          then obtain p where p: "lww_map (map cs_pages css) (word_of_nat (Suc i)) = Some p" "pe_data p \<noteq> []"
            by (auto simp: lww_data_def simp del: of_nat_Suc split: option.splits if_splits)
          from lww_map_num [OF p(1)] obtain cs where cs: "cs \<in> set css" "p \<in> set (cs_pages cs)" "pg_num p = word_of_nat (Suc i)"
            by auto
          have "pg_num p \<noteq> 0" using cs(1,2) snoc.prems(1) sized_facts(1) by (fastforce simp: end_pages_ok_def)
          with cs(3) i(2) page_index have "i = unat (pg_num p) - 1" by blast
          with none cs(1,2) p(2) show False unfolding last_version_none by auto
        qed
        with none show ?thesis unfolding lw vs by simp
      qed
    qed
  qed
qed simp

lemma merged_versions:
  assumes "\<forall>cs\<in>set css. sized psz cs" "css \<noteq> []" "i < size_of (last css)"
  shows "last_version (merged_pages IdU32 (map cs_pages css)) i = lww_data (map cs_pages css) i"
proof -
  let ?pss = "map cs_pages css"
  let ?M = "merged_pages IdU32 ?pss"
  have srcs: "?pss \<noteq> []" "\<forall>ps\<in>set ?pss. merge_source IdU32 ps" using assms(1,2) sized_facts(2) by auto
  have lst: "last ?pss = cs_pages (last css)" using assms(2) by (simp add: last_map)
  obtain e where e: "declared_epc (last ?pss) = Some e"
    using assms(1,2) sized_facts(1) [of psz "last css"] lst by auto
  have nz: "\<forall>p\<in>set ?M. pg_num p \<noteq> 0"
  proof
    fix p
    assume p: "p \<in> set ?M"
    show "pg_num p \<noteq> 0"
    proof (cases "pe_data p = []")
      case True
      then have "p \<in> set (filter (\<lambda>p. pe_data p = []) ?M)" using p by simp
      then have "p = final_marker IdU32 e" unfolding merged_markers e by simp
      moreover have "merge_source IdU32 (last ?pss)" using srcs last_in_set by blast
      note final_marker_num(1,2) [OF this e]
      ultimately show ?thesis by (auto simp: word_less_nat_alt)
    next
      case False
      with p have "lww_map ?pss (pg_num p) = Some p" by (simp add: merged_data)
      from lww_map_num [OF this] obtain cs where "cs \<in> set css" "p \<in> set (cs_pages cs)" by auto
      with assms(1) sized_facts(1) show ?thesis by (fastforce simp: end_pages_ok_def)
    qed
  qed
  have i: "Suc i < 2 ^ 64" "i < unat e" using assms(3) unat_u64_less [of e] e lst by auto
  show ?thesis
  proof (cases "lww_data ?pss i")
    case None
    have "\<not> (pe_data p \<noteq> [] \<and> i = unat (pg_num p) - 1)" if "p \<in> set ?M" for p
    proof
      assume p: "pe_data p \<noteq> [] \<and> i = unat (pg_num p) - 1"
      with that have "lww_map ?pss (pg_num p) = Some p" by (simp add: merged_data)
      moreover have "pg_num p = word_of_nat (Suc i)" using p page_index nz that by blast
      ultimately have "lww_map ?pss (word_of_nat (Suc i)) = Some p" by metis
      with None conjunct1 [OF p] show False by (simp add: lww_data_def del: of_nat_Suc)
    qed
    then have "last_version ?M i = None" unfolding last_version_none by blast
    with None show ?thesis by simp
  next
    case (Some d)
    then obtain p where p: "lww_map ?pss (word_of_nat (Suc i)) = Some p" "pe_data p = d" "d \<noteq> []"
      by (auto simp: lww_data_def simp del: of_nat_Suc split: option.splits if_splits)
    have num: "pg_num p = word_of_nat (Suc i)" using lww_map_num [OF p(1)] by blast
    then have "unat (pg_num p) = Suc i" using unat_u64_of_nat [OF i(1)] by simp
    then have "pg_num p \<le> e" "i = unat (pg_num p) - 1" using i(2) by (simp_all add: word_le_nat_alt)
    moreover have "p \<in> set ?M"
    proof -
      have "lww_map ?pss (pg_num p) = Some p" unfolding num by (rule p(1))
      with \<open>pg_num p \<le> e\<close> p(2,3) show ?thesis using merged_data [of p] e by simp
    qed
    ultimately have "last_version ?M i = Some d"
      using last_version_distinct [OF distinct_nums [OF merged_ascending [OF srcs]] nz, of p] p(2,3) by simp
    with Some show ?thesis by simp
  qed
qed

lemma merged_valid:
  assumes "\<forall>cs\<in>set css. sized psz cs" "css \<noteq> []" "cs_pages m = merged_pages IdU32 (map cs_pages css)"
    and "ph_flags (cs_header m) = FLAG_END_PAGE_COUNT_MARKER" "ph_page_size (cs_header m) = psz" "ph_page_id_size (cs_header m) = IdU32"
    and "unat (ph_page_count (cs_header m)) = length (cs_pages m)"
  shows "sized psz m" "declared_epc (cs_pages m) = declared_epc (cs_pages (last css))"
proof -
  let ?pss = "map cs_pages css"
  have srcs: "?pss \<noteq> []" "\<forall>ps\<in>set ?pss. merge_source IdU32 ps" using assms(1,2) sized_facts(2) by auto
  have lst: "last ?pss = cs_pages (last css)" using assms(2) by (simp add: last_map)
  obtain e where e: "declared_epc (last ?pss) = Some e"
    using assms(1,2) sized_facts(1) [of psz "last css"] lst by auto
  have "merge_source IdU32 (last ?pss)" using srcs last_in_set by blast
  note F = final_marker_num [OF this e]
  have fm: "pg_num (final_marker IdU32 e) = e + 1" "e + 1 \<noteq> 0" using F(1,2) by (auto simp: word_less_nat_alt)
  have mk: "filter (\<lambda>p. pe_data p = []) (cs_pages m) = [final_marker IdU32 e]"
    unfolding assms(3) merged_markers e by simp
  have flag: "marker_flag_set (ph_flags (cs_header m))"
    by (simp add: assms(4) marker_flag_set_def FLAG_END_PAGE_COUNT_MARKER_def)
  then have "end_marker_loop (ph_flags (cs_header m)) (cs_pages m) None = Inr (Some e)"
    using fm by (subst end_marker_loop_filter) (simp add: mk, simp add: final_marker_def)
  then have epc: "changeset_end_page_count m = Inr (Some e)" by (simp add: changeset_end_page_count_def)
  show "declared_epc (cs_pages m) = declared_epc (cs_pages (last css))"
    using e lst fm(1) by (simp add: declared_epc_def mk)
  have page: "pg_num p \<noteq> 0 \<and> (\<exists>v. pe_page_id p = PageU32 v) \<and> (pe_data p \<noteq> [] \<longrightarrow> length (pe_data p) = unat psz \<and> pg_num p \<le> e)"
    if p: "p \<in> set (cs_pages m)" for p
  proof (cases "pe_data p = []")
    case True
    then have "p \<in> set (filter (\<lambda>p. pe_data p = []) (cs_pages m))" using p by simp
    then have "p = final_marker IdU32 e" unfolding mk by simp
    with fm True show ?thesis by (simp add: final_marker_def)
  next
    case False
    with p have "lww_map ?pss (pg_num p) = Some p" "pg_num p \<le> e" using e by (simp_all add: assms(3) merged_data)
    from lww_map_num [OF this(1)] obtain cs where cs: "cs \<in> set css" "p \<in> set (cs_pages cs)" by auto
    then have "sized psz cs" using assms(1) by blast
    moreover obtain e' where "end_pages_ok (unat psz) (Some e') (cs_pages cs)" using sized_facts(1) [OF \<open>sized psz cs\<close>] by blast
    ultimately show ?thesis using cs(2) \<open>pg_num p \<le> e\<close> by (simp add: sized_def ids_u32_def end_pages_ok_def)
  qed
  have "psz \<in> SQLITE_PAGE_SIZES" using assms(1,2) sized_facts(3) by (metis last_in_set)
  with epc page assms(4-7) have "validate_sqlite_changeset m = Inr ()"
    by (auto simp: validate_ok_iff end_pages_ok_def FLAG_END_PAGE_COUNT_MARKER_def)
  with page flag merged_ascending [OF srcs] assms(3,5) show "sized psz m"
    by (simp add: sized_def ids_u32_def)
qed

text \<open>
  Claim C5: compaction does not change what a restore produces.  For valid incrementals that
  declare their database sizes, and that rewrite pages they grow back over, applying the one
  merged changeset to a database yields byte for byte what applying the sources one after the
  other yields, and neither fails.
\<close>

theorem merge_preserves_restore:
  assumes "css \<noteq> []" "\<forall>cs\<in>set css. sized psz cs" "page_list (unat psz) L" "rewrites_regrown (length L) css"
    and "cs_pages m = merged_pages IdU32 (map cs_pages css)" "unat (ph_page_count (cs_header m)) = length (cs_pages m)"
    and "ph_flags (cs_header m) = FLAG_END_PAGE_COUNT_MARKER" "ph_page_size (cs_header m) = psz" "ph_page_id_size (cs_header m) = IdU32"
  shows "\<exists>f. apply_decoded_changeset_to_db m (Some (concat L)) = Inr f \<and> apply_in_order css (concat L) = Inr f"
proof -
  note V = merged_valid [OF assms(2,1,5,7-9,6)]
  obtain M where M: "apply_in_order css (concat L) = Inr (concat M)" "length M = size_of (last css)"
    "\<forall>i<length M. M ! i = (case versions css i of Some d \<Rightarrow> d | None \<Rightarrow> if i < length L then L ! i else zeros (unat psz))"
    using apply_in_order_pages [OF assms(2,4,3,1)] by blast
  have one: "rewrites_regrown (length L) [m]" by (simp add: rewrites_regrown_def)
  obtain N where N: "apply_in_order [m] (concat L) = Inr (concat N)" "length N = size_of m"
    "\<forall>i<length N. N ! i = (case versions [m] i of Some d \<Rightarrow> d | None \<Rightarrow> if i < length L then L ! i else zeros (unat psz))"
    using apply_in_order_pages [OF _ one assms(3)] V(1) by auto
  have "N = M"
    using M(2,3) N(2,3) V(2) assms(5) merged_versions [OF assms(2,1)] lww_data_versions [OF assms(2,4,1)]
    by (intro nth_equalityI) simp_all
  with M(1) N(1) show ?thesis by (simp add: apply_in_order_def)
qed

text \<open>Two commits that rewrite the only page of a one-page database.\<close>

definition demo_commit :: "u8 \<Rightarrow> changeset" where
  "demo_commit b =
     \<lparr>cs_header = demo_header 1 2,
      cs_pages = [\<lparr>pe_page_id = PageU32 1, pe_data = replicate 512 b\<rparr>, \<lparr>pe_page_id = PageU32 2, pe_data = []\<rparr>],
      cs_checksum = 7\<rparr>"

lemma demo_commit_sized: "sized 512 (demo_commit b)"
  by (simp add: sized_def demo_commit_def demo_header_def validate_sqlite_changeset_def validate_page_size_iff SQLITE_PAGE_SIZES_def
      changeset_end_page_count_def marker_flag_set_def FLAG_END_PAGE_COUNT_MARKER_def Let_def ids_u32_def ascending_def)

theorem merge_preserves_restore_witness:
  "\<exists>f. apply_decoded_changeset_to_db (demo_commit 2) (Some (concat [zeros 512])) = Inr f \<and>
     apply_in_order [demo_commit 1, demo_commit 2] (concat [zeros 512]) = Inr f"
proof -
  have src: "cs_pages (demo_commit b) = [\<lparr>pe_page_id = PageU32 1, pe_data = replicate 512 b\<rparr>, \<lparr>pe_page_id = PageU32 2, pe_data = []\<rparr>]" for b
    by (simp add: demo_commit_def)
  have d: "dom (lww_map [cs_pages (demo_commit 1), cs_pages (demo_commit 2)]) = {1, 2}" by (auto simp: src)
  have "sorted_list_of_set {1, 2 :: u64} = [1, 2]" by simp
  then have "merged_pages IdU32 (map cs_pages [demo_commit 1, demo_commit 2]) = cs_pages (demo_commit 2)"
    unfolding merged_pages_def emitted_def by (simp add: d declared_epc_def) (simp add: src should_emit_def final_marker_def)
  then show ?thesis
    using demo_commit_sized
    by (intro merge_preserves_restore [where psz = 512])
      (simp_all add: page_list_def rewrites_regrown_def demo_commit_def demo_header_def FLAG_END_PAGE_COUNT_MARKER_def declared_epc_def)
qed

end
