(* ===== verification/Errors.thy ===== *)
theory Errors
  imports Merge Wal Planner
begin

text \<open>
  Error values (\<^verbatim>\<open>errors.rs\<close>).  The fallible functions of the crate return \<^verbatim>\<open>anyhow::Error\<close>, a chain
  of causes of which some are typed; \<open>failure\<close> is that chain, outermost context first.  Formatted
  messages are kept as constructors with the values they show, or as fixed texts.
\<close>

datatype exit_status = Success | General | Config | Database | S3 | Integrity | Restore

fun exit_code :: "exit_status \<Rightarrow> u8" where
  "exit_code Success = 0"
| "exit_code General = 1"
| "exit_code Config = 2"
| "exit_code Database = 3"
| "exit_code S3 = 4"
| "exit_code Integrity = 5"
| "exit_code Restore = 6"

datatype walrust_error =
    ConfigError string
  | DatabaseError string
  | S3Error string
  | IntegrityError string
  | RestoreError string
  | RestoreNotFound string
  | Equivocation string
  | ShadowGenerationNotAtCommitBoundary string
  | GeneralError string

fun exit_status_of :: "walrust_error \<Rightarrow> exit_status" where
  "exit_status_of (ConfigError _) = Config"
| "exit_status_of (DatabaseError _) = Database"
| "exit_status_of (S3Error _) = S3"
| "exit_status_of (IntegrityError _) = Integrity"
| "exit_status_of (RestoreError _) = Restore"
| "exit_status_of (RestoreNotFound _) = Restore"
| "exit_status_of (Equivocation _) = Integrity"
| "exit_status_of (ShadowGenerationNotAtCommitBoundary _) = Integrity"
| "exit_status_of (GeneralError _) = General"

fun display_error :: "walrust_error \<Rightarrow> string" where
  "display_error (ConfigError msg) = ''configuration error: '' @ msg"
| "display_error (DatabaseError msg) = ''database error: '' @ msg"
| "display_error (S3Error msg) = ''S3 error: '' @ msg"
| "display_error (IntegrityError msg) = ''integrity error: '' @ msg"
| "display_error (RestoreError msg) = ''restore error: '' @ msg"
| "display_error (RestoreNotFound msg) = ''restore not found: '' @ msg"
| "display_error (Equivocation msg) = ''equivocation: '' @ msg"
| "display_error (ShadowGenerationNotAtCommitBoundary msg) = ''shadow generation not at commit boundary: '' @ msg"
| "display_error (GeneralError msg) = msg"

text \<open>
  A cause: a typed walrust error, or an error of another type or a plain message.  \<open>Diverges\<close> marks a
  loop that does not return; that it never occurs is proved.
\<close>

datatype cause =
    Typed walrust_error
  | Compaction compaction_error
  | Changeset ltx_error
  | WalRead wal_error
  | Message string
  | Diverges

type_synonym failure = "cause list"

fun first_typed :: "failure \<Rightarrow> walrust_error option" where
  "first_typed [] = None"
| "first_typed (Typed e # cs) = Some e"
| "first_typed (_ # cs) = first_typed cs"

definition is_equivocation :: "failure \<Rightarrow> bool" where
  "is_equivocation err \<longleftrightarrow> list_ex (\<lambda>c. case c of Typed (Equivocation _) \<Rightarrow> True | _ \<Rightarrow> False) err"

definition classify_error :: "failure \<Rightarrow> exit_status" where
  "classify_error err = (case first_typed err of Some e \<Rightarrow> exit_status_of e | None \<Rightarrow> General)"

text \<open>\<^verbatim>\<open>err.to_string()\<close> shows the outermost context; its text is the argument \<open>shown\<close>.\<close>

definition classify_or_else :: "(failure \<Rightarrow> string) \<Rightarrow> failure \<Rightarrow> (string \<Rightarrow> walrust_error) \<Rightarrow> failure" where
  "classify_or_else shown err fallback = (if classify_error err = General then [Typed (fallback (shown err))] else err)"

lemma exit_code_inj: "exit_code a = exit_code b \<Longrightarrow> a = b"
  by (cases a; cases b) simp_all

lemma first_typed_context: "(\<forall>c\<in>set ctx. \<forall>e. c \<noteq> Typed e) \<Longrightarrow> first_typed (ctx @ err) = first_typed err"
proof (induction ctx)
  case (Cons c ctx)
  then show ?case by (cases c) auto
qed simp

text \<open>
  Exit codes.  A process that reports an error never exits with the code of success; a
  typed error keeps its code whatever untyped context is wrapped around it, an error without a typed
  cause exits as general, and supplying a fallback changes only errors classified as general.
\<close>

theorem exit_codes:
  "exit_code (classify_error err) \<noteq> 0 \<and>
   (\<forall>ctx. (\<forall>c\<in>set ctx. \<forall>e. c \<noteq> Typed e) \<longrightarrow> classify_error (ctx @ Typed e # err) = exit_status_of e) \<and>
   ((\<forall>c\<in>set err. \<forall>e. c \<noteq> Typed e) \<longrightarrow> classify_error err = General) \<and>
   classify_error (classify_or_else shown err fallback) =
     (if classify_error err = General then exit_status_of (fallback (shown err)) else classify_error err)"
proof (intro conjI allI impI)
  have "exit_status_of e \<noteq> Success" for e by (cases e) simp_all
  then have "classify_error err \<noteq> Success" by (simp add: classify_error_def split: option.split)
  then show "exit_code (classify_error err) \<noteq> 0" using exit_code_inj [of "classify_error err" Success] by auto
  show "classify_error (ctx @ Typed e # err) = exit_status_of e" if "\<forall>c\<in>set ctx. \<forall>e. c \<noteq> Typed e" for ctx
    using first_typed_context [OF that] by (simp add: classify_error_def)
  show "classify_error err = General" if "\<forall>c\<in>set err. \<forall>e. c \<noteq> Typed e"
    using first_typed_context [OF that, of "[]"] by (simp add: classify_error_def)
  show "classify_error (classify_or_else shown err fallback) =
     (if classify_error err = General then exit_status_of (fallback (shown err)) else classify_error err)"
    by (simp add: classify_or_else_def classify_error_def)
qed

theorem exit_codes_witness:
  "exit_code (classify_error [Message ''while publishing'', Typed (Equivocation ''seq 4''), Message ''x'']) = 5 \<and>
   classify_error [Message ''io''] = General"
proof
  note E = exit_codes [of "[Message ''x'']" "Equivocation ''seq 4''" "\<lambda>_. []" ConfigError]
  show "exit_code (classify_error [Message ''while publishing'', Typed (Equivocation ''seq 4''), Message ''x'']) = 5"
    using E [THEN conjunct2, THEN conjunct1, THEN spec [of _ "[Message ''while publishing'']"]] by simp
  show "classify_error [Message ''io''] = General"
    using exit_codes [of "[Message ''io'']"] by simp
qed

end
