(* ===== verification/World.thy ===== *)
theory World
  imports Actions Errors
begin

text \<open>
  The world the replication and restore code runs in: the state of the storage backend and the local
  files.  A file operation that writes takes its outcome from a schedule of disk faults: a fault
  makes the operation fail and may leave any bytes, or nothing, under the path it was writing.
  Theorems hold for every schedule.
\<close>

record 's world =
  w_store :: 's
  w_files :: "string \<rightharpoonup> bytes"
  w_faults :: "(bytes option) option list"

section \<open>Operations\<close>

definition on_store_with :: "('e \<Rightarrow> failure) \<Rightarrow> ('s, 'e, 'a) action \<Rightarrow> ('s world, failure, 'a) action" where
  "on_store_with g m = (\<lambda>w. case m (w_store w) of (s', r) \<Rightarrow> (w\<lparr>w_store := s'\<rparr>, map_sum g id r))"

text \<open>An error of the storage trait is an \<^verbatim>\<open>anyhow::Error\<close> without a typed cause.\<close>

definition on_store :: "('s, string, 'a) action \<Rightarrow> ('s world, failure, 'a) action" where
  "on_store m = on_store_with (\<lambda>e. [Message e]) m"

definition file_at :: "string \<Rightarrow> ('s world, failure, bytes option) action" where
  "file_at path = (\<lambda>w. (w, Inr (w_files w path)))"

text \<open>The next outcome of the schedule; an exhausted schedule is a disk without faults.\<close>

definition next_fault :: "'s world \<Rightarrow> 's world \<times> (bytes option) option" where
  "next_fault w = (case w_faults w of [] \<Rightarrow> (w, None) | x # xs \<Rightarrow> (w\<lparr>w_faults := xs\<rparr>, x))"

definition write_file :: "string \<Rightarrow> bytes \<Rightarrow> ('s world, failure, unit) action" where
  "write_file path bs = (\<lambda>w. case next_fault w of
      (w', None) \<Rightarrow> (w'\<lparr>w_files := (w_files w')(path \<mapsto> bs)\<rparr>, Inr ())
    | (w', Some junk) \<Rightarrow> (w'\<lparr>w_files := (w_files w')(path := junk)\<rparr>, Inl [Message ''file write failed'']))"

definition remove_file :: "string \<Rightarrow> ('s world, failure, unit) action" where
  "remove_file path = (\<lambda>w. (w\<lparr>w_files := (w_files w)(path := None)\<rparr>, Inr ()))"

definition rename_file :: "string \<Rightarrow> string \<Rightarrow> ('s world, failure, unit) action" where
  "rename_file src dst = (\<lambda>w. case next_fault w of
      (w', Some _) \<Rightarrow> (w', Inl [Message ''rename failed''])
    | (w', None) \<Rightarrow>
        (case w_files w' src of
           None \<Rightarrow> (w', Inl [Message ''rename failed''])
         | Some bs \<Rightarrow> (w'\<lparr>w_files := (w_files w')(src := None, dst \<mapsto> bs)\<rparr>, Inr ())))"

section \<open>Rules\<close>

lemma wp_on_store_with [wp_simps]:
  "wp (on_store_with g m) Q E w = wp m (\<lambda>a s'. Q a (w\<lparr>w_store := s'\<rparr>)) (\<lambda>e s'. E (g e) (w\<lparr>w_store := s'\<rparr>)) (w_store w)"
  by (simp add: wp_def on_store_with_def split: prod.split sum.split)

lemma wp_on_store [wp_simps]:
  "wp (on_store m) Q E w = wp m (\<lambda>a s'. Q a (w\<lparr>w_store := s'\<rparr>)) (\<lambda>e s'. E [Message e] (w\<lparr>w_store := s'\<rparr>)) (w_store w)"
  by (simp add: on_store_def wp_on_store_with)

lemma wp_file_at [wp_simps]: "wp (file_at path) Q E w = Q (w_files w path) w"
  by (simp add: wp_def file_at_def)

lemma next_fault_frame:
  "next_fault w = (w', x) \<Longrightarrow> w_store w' = w_store w \<and> w_files w' = w_files w"
  by (auto simp: next_fault_def split: list.splits)

lemma wp_write_file:
  assumes "\<And>w'. w_store w' = w_store w \<Longrightarrow> w_files w' = (w_files w)(path \<mapsto> bs) \<Longrightarrow> Q () w'"
    and "\<And>e w' junk. w_store w' = w_store w \<Longrightarrow> w_files w' = (w_files w)(path := junk) \<Longrightarrow> e \<noteq> [Diverges] \<Longrightarrow> E e w'"
  shows "wp (write_file path bs) Q E w"
proof (cases "next_fault w")
  case (Pair w' x)
  then show ?thesis
    using assms next_fault_frame [OF Pair] by (cases x) (simp_all add: wp_def write_file_def)
qed

lemma wp_remove_file [wp_simps]: "wp (remove_file path) Q E w = Q () (w\<lparr>w_files := (w_files w)(path := None)\<rparr>)"
  by (simp add: wp_def remove_file_def)

lemma wp_rename_file:
  assumes "\<And>w' bs. w_store w' = w_store w \<Longrightarrow> w_files w src = Some bs \<Longrightarrow> w_files w' = (w_files w)(src := None, dst \<mapsto> bs) \<Longrightarrow> Q () w'"
    and "\<And>e w'. w_store w' = w_store w \<Longrightarrow> w_files w' = w_files w \<Longrightarrow> e \<noteq> [Diverges] \<Longrightarrow> E e w'"
  shows "wp (rename_file src dst) Q E w"
proof (cases "next_fault w")
  case (Pair w' x)
  then show ?thesis
    using assms next_fault_frame [OF Pair] by (cases x) (auto simp: wp_def rename_file_def split: option.split)
qed

text \<open>What an action on the backend keeps, it keeps in the world.\<close>

definition store_rel :: "('s \<Rightarrow> 's \<Rightarrow> bool) \<Rightarrow> 's world \<Rightarrow> 's world \<Rightarrow> bool" where
  "store_rel R w w' \<longleftrightarrow> R (w_store w) (w_store w') \<and> w_files w' = w_files w"

lemma store_rel_preorder [simp]: "reflp R \<Longrightarrow> reflp (store_rel R)" "transp R \<Longrightarrow> transp (store_rel R)"
  by (auto simp: store_rel_def reflp_def transp_def)

lemma confined_on_store_with [confined_intros]: "confined R m \<Longrightarrow> confined (store_rel R) (on_store_with g m)"
  by (auto simp: confined_def on_store_with_def store_rel_def split: prod.split) (metis fst_conv)

lemma confined_on_store [confined_intros]: "confined R m \<Longrightarrow> confined (store_rel R) (on_store m)"
  unfolding on_store_def by (rule confined_on_store_with)

end
