(* ===== verification/RestorePlan.thy ===== *)
theory RestorePlan
  imports Engine MergeApply World
begin

text \<open>
  Level-aware restore (\<^verbatim>\<open>compaction/restore.rs\<close>, \<^verbatim>\<open>list_merged_ranges\<close> and \<^verbatim>\<open>list_level_files\<close>): candidates
  are gathered from every level, planned, downloaded ahead of the apply cursor in a bounded queue,
  and applied to the staged file strictly in plan order with the chain verified object by object.
  The queue is explicit: before each object is taken, downloads are issued in plan order until the
  queue is full.  Overlapping downloads are modelled by the order in which they are issued.
\<close>

section \<open>Candidates\<close>

definition DEFAULT_PREFETCH_DEPTH :: nat where "DEFAULT_PREFETCH_DEPTH = 4"

definition MAX_LEVEL_PROBE :: nat where "MAX_LEVEL_PROBE = 16"

definition probed_levels :: "level list" where
  "probed_levels = map word_of_nat [1..<MAX_LEVEL_PROBE + 1]"

definition list_merged_ranges :: "('s, 'h) layout \<Rightarrow> ('s, compaction_error, seq_range list) action" where
  "list_merged_ranges lay =
     fold_actions (\<lambda>l out. and_then (l_list_level lay l) (\<lambda>files. return (out @ map lf_range files))) probed_levels []"

definition list_level_files :: "('s, 'h) layout \<Rightarrow> ('s, compaction_error, layout_file list) action" where
  "list_level_files lay =
     fold_actions (\<lambda>l out. and_then (l_list_level lay l) (\<lambda>files. return (out @ files))) probed_levels []"

definition push_from :: "u64 \<Rightarrow> u64 \<Rightarrow> layout_file list \<Rightarrow> plan_candidate list" where
  "push_from base tgt files =
     map (\<lambda>f. \<lparr>pc_key = lf_key f, pc_level = lf_level f, pc_range = lf_range f\<rparr>)
       (filter (\<lambda>f. base < rmax (lf_range f) \<and> rmin (lf_range f) \<le> tgt) files)"

definition gather_candidates :: "('s, 'h) layout \<Rightarrow> u64 \<Rightarrow> u64 \<Rightarrow> ('s, compaction_error, plan_candidate list) action" where
  "gather_candidates lay base tgt =
     and_then (l_list_level lay 0) (\<lambda>raw.
       fold_actions (\<lambda>l out. and_then (l_list_level lay l) (\<lambda>files. return (out @ push_from base tgt files)))
         probed_levels (push_from base tgt raw))"

definition returned :: "'a option \<Rightarrow> ('s, failure, 'a) action" where
  "returned x = (case x of None \<Rightarrow> raise [Diverges] | Some a \<Rightarrow> return a)"

definition plan_over_layout :: "('s, 'h) layout \<Rightarrow> u64 \<Rightarrow> u64 \<Rightarrow> ('s, failure, restore_plan) action" where
  "plan_over_layout lay base tgt =
     and_then (map_error (\<lambda>e. [Compaction e]) (gather_candidates lay base tgt)) (\<lambda>candidates.
     and_then (returned (plan_restore candidates base tgt)) (\<lambda>planned.
       case planned of Inl e \<Rightarrow> raise [Typed (RestoreError ''plan'')] | Inr plan \<Rightarrow> return plan))"

section \<open>Prefetch and apply\<close>

record applied_plan =
  ap_seq :: u64
  ap_checksum :: u64

type_synonym fetched = "plan_candidate \<times> (compaction_error + bytes)"

definition candidate_file :: "plan_candidate \<Rightarrow> layout_file" where
  "candidate_file c = \<lparr>lf_key = pc_key c, lf_level = pc_level c, lf_range = pc_range c, lf_last_modified_ms = 0\<rparr>"

fun prefetch :: "('s, 'h) layout \<Rightarrow> nat \<Rightarrow> plan_candidate list \<Rightarrow> fetched list \<Rightarrow> 's \<Rightarrow> 's \<times> plan_candidate list \<times> fetched list" where
  "prefetch lay (Suc free) (c # cs) queue s =
     (case l_read_bytes lay (candidate_file c) s of (s', r) \<Rightarrow> prefetch lay free cs (queue @ [(c, r)]) s')"
| "prefetch lay free pending queue s = (s, pending, queue)"

definition apply_to_file :: "changeset \<Rightarrow> string \<Rightarrow> ('s world, failure, unit) action" where
  "apply_to_file cs path =
     and_then (file_at path) (\<lambda>db.
       case apply_decoded_changeset_to_db cs db of Inl e \<Rightarrow> raise [Changeset e] | Inr f \<Rightarrow> write_file path f)"

definition apply_fetched :: "codec \<Rightarrow> string \<Rightarrow> u64 \<Rightarrow> compaction_error + bytes \<Rightarrow> ('s world, failure, u64) action" where
  "apply_fetched cd staged running r =
     (case r of
        Inl e \<Rightarrow> raise [Typed (RestoreError ''restore prefetch failed'')]
      | Inr bs \<Rightarrow>
          (case decode_sqlite_changeset cd bs of
             Inl e \<Rightarrow> raise [Message ''failed to decode restore object'']
           | Inr cs \<Rightarrow>
               if \<not> c_verify_chain cd running cs then raise [Typed (IntegrityError ''restore chain broken'')]
               else and_then (map_error (\<lambda>e. [Message ''failed to apply restore object'']) (apply_to_file cs staged)) (\<lambda>_.
                 return (c_chain_end cd cs))))"

lemma prefetch_queue:
  "prefetch lay free pending queue s = (s', pending', queue') \<Longrightarrow>
     map fst queue' @ pending' = map fst queue @ pending \<and> length queue \<le> length queue' \<and> length queue' \<le> length queue + free \<and>
     (0 < free \<longrightarrow> queue' = [] \<longrightarrow> pending' = [])"
  by (induction lay free pending queue s rule: prefetch.induct) (fastforce split: prod.splits)+

lemma prefetch_shrinks:
  assumes "prefetch lay free pending queue s = (s', pending', x # queue')"
  shows "length queue' + length pending' < length queue + length pending"
proof -
  have "length (map fst (x # queue') @ pending') = length (map fst queue @ pending)"
    using prefetch_queue [OF assms] by simp
  then show ?thesis by simp
qed

function apply_loop ::
    "('s, 'h) layout \<Rightarrow> codec \<Rightarrow> string \<Rightarrow> nat \<Rightarrow> plan_candidate list \<Rightarrow> fetched list \<Rightarrow> u64 \<Rightarrow> u64 \<Rightarrow> ('s world, failure, u64 \<times> u64) action" where
  "apply_loop lay cd staged depth pending queue running cursor w =
     (case prefetch lay (depth - length queue) pending queue (w_store w) of
        (s', pending', []) \<Rightarrow> (w\<lparr>w_store := s'\<rparr>, Inr (running, cursor))
      | (s', pending', (c, r) # queue') \<Rightarrow>
          (case apply_fetched cd staged running r (w\<lparr>w_store := s'\<rparr>) of
             (w', Inl e) \<Rightarrow> (w', Inl e)
           | (w', Inr running') \<Rightarrow> apply_loop lay cd staged depth pending' queue' running' (rmax (pc_range c)) w'))"
  by pat_completeness auto
termination
  by (relation "measure (\<lambda>(lay, cd, staged, depth, pending, queue, running, cursor, w). length queue + length pending)")
    (auto dest!: prefetch_shrinks [OF sym])

declare apply_loop.simps [simp del]

lemma apply_loop_drained:
  "prefetch lay (depth - length queue) pending queue (w_store w) = (s', pending', []) \<Longrightarrow>
     apply_loop lay cd staged depth pending queue running cursor w = (w\<lparr>w_store := s'\<rparr>, Inr (running, cursor))"
  by (subst apply_loop.simps) simp

lemma apply_loop_next:
  "prefetch lay (depth - length queue) pending queue (w_store w) = (s', pending', (c, r) # queue') \<Longrightarrow>
     apply_loop lay cd staged depth pending queue running cursor w =
       (case apply_fetched cd staged running r (w\<lparr>w_store := s'\<rparr>) of
          (w', Inl e) \<Rightarrow> (w', Inl e)
        | (w', Inr running') \<Rightarrow> apply_loop lay cd staged depth pending' queue' running' (rmax (pc_range c)) w')"
  by (subst apply_loop.simps) simp

definition apply_plan_with_checksum ::
    "('s, 'h) layout \<Rightarrow> codec \<Rightarrow> restore_plan \<Rightarrow> string \<Rightarrow> u64 \<Rightarrow> nat \<Rightarrow> ('s world, failure, applied_plan) action" where
  "apply_plan_with_checksum lay cd plan staged floor_checksum queue_depth =
     and_then (apply_loop lay cd staged (max queue_depth 1) (pl_files plan) [] floor_checksum (pl_floor plan)) (\<lambda>(running, cursor).
       if cursor \<noteq> pl_target plan then raise [Typed (RestoreError ''restore incomplete'')]
       else return \<lparr>ap_seq = cursor, ap_checksum = running\<rparr>)"

definition apply_plan :: "('s, 'h) layout \<Rightarrow> codec \<Rightarrow> restore_plan \<Rightarrow> string \<Rightarrow> u64 \<Rightarrow> nat \<Rightarrow> ('s world, failure, u64) action" where
  "apply_plan lay cd plan staged floor_checksum queue_depth =
     and_then (apply_plan_with_checksum lay cd plan staged floor_checksum queue_depth) (\<lambda>applied. return (ap_seq applied))"

section \<open>Reference: one object after the other\<close>

text \<open>
  What a restore should compute from the stored objects: each file is looked up, decoded, verified
  against the running chain value and applied to the database.
\<close>

fun applied_in_order :: "codec \<Rightarrow> (string \<rightharpoonup> bytes) \<Rightarrow> plan_candidate list \<Rightarrow> u64 \<times> bytes \<Rightarrow> (u64 \<times> bytes) option" where
  "applied_in_order cd objects [] (running, db) = Some (running, db)"
| "applied_in_order cd objects (c # cs) (running, db) =
     (case objects (pc_key c) of
        None \<Rightarrow> None
      | Some bs \<Rightarrow>
          (case decode_sqlite_changeset cd bs of
             Inl e \<Rightarrow> None
           | Inr x \<Rightarrow>
               if \<not> c_verify_chain cd running x then None
               else (case apply_decoded_changeset_to_db x (Some db) of
                       Inl e \<Rightarrow> None
                     | Inr db' \<Rightarrow> applied_in_order cd objects cs (c_chain_end cd x, db'))))"

text \<open>States that differ in the staged file only.\<close>

definition staged_only :: "string \<Rightarrow> 's world \<Rightarrow> 's world \<Rightarrow> bool" where
  "staged_only staged w w' \<longleftrightarrow> (\<forall>p. p \<noteq> staged \<longrightarrow> w_files w' p = w_files w p)"

lemma staged_only_refl: "w_files w' = w_files w \<Longrightarrow> staged_only staged w w'"
  by (simp add: staged_only_def)

lemma staged_only_trans: "staged_only st a b \<Longrightarrow> staged_only st b c \<Longrightarrow> staged_only st a c"
  by (simp add: staged_only_def)

lemma wp_apply_fetched:
  assumes "\<And>bs cs db db' w'. r = Inr bs \<Longrightarrow> decode_sqlite_changeset cd bs = Inr cs \<Longrightarrow> c_verify_chain cd running cs \<Longrightarrow>
      w_files w staged = Some db \<Longrightarrow> apply_decoded_changeset_to_db cs (Some db) = Inr db' \<Longrightarrow>
      w_store w' = w_store w \<Longrightarrow> w_files w' = (w_files w)(staged \<mapsto> db') \<Longrightarrow> Q (c_chain_end cd cs) w'"
    and "\<And>e w'. w_store w' = w_store w \<Longrightarrow> staged_only staged w w' \<Longrightarrow> e \<noteq> [Diverges] \<Longrightarrow> E e w'"
  shows "wp (apply_fetched cd staged running r) Q E w"
proof (cases r)
  case (Inl e)
  then show ?thesis using assms(2) by (simp add: apply_fetched_def wp_raise staged_only_refl)
next
  case (Inr bs)
  show ?thesis
  proof (cases "decode_sqlite_changeset cd bs")
    case (Inl e)
    then show ?thesis using Inr assms(2) by (simp add: apply_fetched_def wp_raise staged_only_refl)
  next
    case dec: (Inr cs)
    have some: "\<exists>db. w_files w staged = Some db" if "apply_decoded_changeset_to_db cs (w_files w staged) = Inr db'" for db'
      using that by (cases "w_files w staged") (auto simp: apply_decoded_changeset_to_db_def)
    have app: "wp (apply_to_file cs staged) (\<lambda>_. Q (c_chain_end cd cs)) (\<lambda>_. E [Message ''failed to apply restore object'']) w" if "c_verify_chain cd running cs"
      unfolding apply_to_file_def wp_and_then wp_file_at wp_sum wp_raise
      by (cases "apply_decoded_changeset_to_db cs (w_files w staged)"; simp)
        (use assms(2) [of w] staged_only_refl in force, rule wp_write_file,
          use assms(1) [OF Inr dec that] some in force, use assms(2) in \<open>simp add: staged_only_def\<close>)
    then show ?thesis
      using Inr dec assms(2) by (simp add: apply_fetched_def wp_simps wp_return_fun staged_only_refl)
  qed
qed

text \<open>The part of the world outside the backend; applying an object depends on nothing else.\<close>

definition local_part :: "'s world \<Rightarrow> (string \<rightharpoonup> bytes) \<times> (bytes option) option list" where
  "local_part w = (w_files w, w_faults w)"

lemma write_file_local:
  assumes "local_part w = local_part w'"
  shows "snd (write_file p bs w) = snd (write_file p bs w') \<and> local_part (fst (write_file p bs w)) = local_part (fst (write_file p bs w')) \<and>
    w_store (fst (write_file p bs w)) = w_store w"
  using assms by (auto simp: write_file_def next_fault_def local_part_def split: list.splits option.splits)

lemma apply_fetched_local:
  assumes "apply_fetched cd staged running res w = (u, r)" "apply_fetched cd staged running res w' = (u', r')" "local_part w = local_part w'"
  shows "r = r' \<and> local_part u = local_part u' \<and> w_store u = w_store w \<and> w_store u' = w_store w'"
proof -
  have files: "w_files w' staged = w_files w staged" using assms(3) by (simp add: local_part_def)
  have wr: "snd (write_file staged f w) = snd (write_file staged f w')" "local_part (fst (write_file staged f w)) = local_part (fst (write_file staged f w'))"
    "w_store (fst (write_file staged f w)) = w_store w" "w_store (fst (write_file staged f w')) = w_store w'" for f
    using write_file_local [OF assms(3)] write_file_local [OF assms(3) [symmetric]] by auto
  show ?thesis
    using assms files wr
    by (auto simp: apply_fetched_def apply_to_file_def file_at_def and_then_def map_error_def raise_def return_def
        split: sum.splits if_splits prod.splits) (metis fst_conv snd_conv sum.inject sum.distinct)+
qed

section \<open>The executor implements the reference\<close>

text \<open>\<open>answers objects queue\<close>: every finished download holds the stored bytes or an error.\<close>

definition answers :: "(string \<rightharpoonup> bytes) \<Rightarrow> fetched list \<Rightarrow> bool" where
  "answers objects queue \<longleftrightarrow> (\<forall>(c, r)\<in>set queue. \<forall>bs. r = Inr bs \<longrightarrow> objects (pc_key c) = Some bs)"

text \<open>\<open>exact ans queue\<close>: every finished download returned the given answer.\<close>

definition exact :: "(plan_candidate \<Rightarrow> compaction_error + bytes) \<Rightarrow> fetched list \<Rightarrow> bool" where
  "exact ans queue \<longleftrightarrow> (\<forall>(c, r)\<in>set queue. r = ans c)"

context compaction_layout
begin

lemma prefetch_answers:
  "prefetch lay free pending queue s = (s', pending', queue') \<Longrightarrow> answers (view s) queue \<Longrightarrow>
     view s' = view s \<and> answers (view s) queue'"
proof (induction pending arbitrary: free queue s)
  case (Cons c cs)
  show ?case
  proof (cases free)
    case 0
    with Cons.prems show ?thesis by simp
  next
    case (Suc n)
    obtain s1 r where r: "l_read_bytes lay (candidate_file c) s = (s1, r)" by fastforce
    with Cons.prems Suc have run: "prefetch lay n cs (queue @ [(c, r)]) s1 = (s', pending', queue')" by simp
    have v: "view s1 = view s" "\<And>bs. r = Inr bs \<Longrightarrow> view s (pc_key c) = Some bs"
      using read_bytes [OF r] by (simp_all add: candidate_file_def)
    have "answers (view s1) (queue @ [(c, r)])" using Cons.prems(2) v by (auto simp: answers_def)
    from Cons.IH [OF run this] v(1) show ?thesis by simp
  qed
qed simp

lemma apply_loop_refines:
  assumes "apply_loop lay cd staged depth pending queue running cursor w = (w', r)" "answers (view (w_store w)) queue" "0 < depth"
  shows "view (w_store w') = view (w_store w) \<and> staged_only staged w w' \<and> r \<noteq> Inl [Diverges] \<and>
    (\<forall>running' cursor'. r = Inr (running', cursor') \<longrightarrow>
       cursor' = last (cursor # map (\<lambda>c. rmax (pc_range c)) (map fst queue @ pending)) \<and>
       (\<forall>db. w_files w staged = Some db \<longrightarrow>
          (\<exists>db'. w_files w' staged = Some db' \<and>
             applied_in_order cd (view (w_store w)) (map fst queue @ pending) (running, db) = Some (running', db'))))"
  using assms
proof (induction "length queue + length pending" arbitrary: pending queue running cursor w rule: less_induct)
  case less
  obtain s1 pending1 queue1 where pre: "prefetch lay (depth - length queue) pending queue (w_store w) = (s1, pending1, queue1)"
    by (metis prod.exhaust)
  note Q = prefetch_queue [OF pre]
  have A: "view s1 = view (w_store w)" "answers (view (w_store w)) queue1"
    using prefetch_answers [OF pre less.prems(2)] by auto
  show ?case
  proof (cases queue1)
    case Nil
    then have "queue = [] \<and> pending = []"
      using Q less.prems(3) by (cases queue) auto
    with less.prems(1) pre Nil A show ?thesis
      by (subst (asm) apply_loop.simps) (auto simp: staged_only_def)
  next
    case (Cons x queue2)
    obtain c res where x: "x = (c, res)" by fastforce
    let ?w1 = "w\<lparr>w_store := s1\<rparr>"
    obtain w2 r2 where ap: "apply_fetched cd staged running res ?w1 = (w2, r2)" by fastforce
    have files: "map fst queue @ pending = c # (map fst queue2 @ pending1)" using Q Cons x by simp
    have W: "wp (apply_fetched cd staged running res)
       (\<lambda>v w2. w_store w2 = s1 \<and> (\<exists>bs cs db db'. res = Inr bs \<and> decode_sqlite_changeset cd bs = Inr cs \<and> c_verify_chain cd running cs \<and>
          w_files w staged = Some db \<and> apply_decoded_changeset_to_db cs (Some db) = Inr db' \<and> w_files w2 = (w_files w)(staged \<mapsto> db') \<and> v = c_chain_end cd cs))
       (\<lambda>e w2. w_store w2 = s1 \<and> staged_only staged ?w1 w2 \<and> e \<noteq> [Diverges]) ?w1"
      by (rule wp_apply_fetched) auto
    note P = wp_run [OF W ap]
    show ?thesis
    proof (cases r2)
      case (Inl e)
      with less.prems(1) pre Cons x ap have "w' = w2" "r = Inl e" by (subst (asm) apply_loop.simps, simp)+
      with P Inl A show ?thesis by (simp add: staged_only_def)
    next
      case (Inr running1)
      with P obtain bs cs db db1 where o: "w_store w2 = s1" "res = Inr bs" "decode_sqlite_changeset cd bs = Inr cs" "c_verify_chain cd running cs"
        "w_files w staged = Some db" "apply_decoded_changeset_to_db cs (Some db) = Inr db1" "w_files w2 = (w_files w)(staged \<mapsto> db1)"
        "running1 = c_chain_end cd cs" by auto
      have obj: "view (w_store w) (pc_key c) = Some bs" using A(2) Cons x o(2) by (auto simp: answers_def)
      have run: "apply_loop lay cd staged depth pending1 queue2 running1 (rmax (pc_range c)) w2 = (w', r)"
        using less.prems(1) pre Cons x ap Inr by (subst (asm) apply_loop.simps) simp
      have less_len: "length queue2 + length pending1 < length queue + length pending"
        using prefetch_shrinks pre Cons by metis
      have ans: "answers (view (w_store w2)) queue2" using A Cons o(1) by (simp add: answers_def)
      note IH = less.hyps [OF less_len run ans less.prems(3)]
      have st: "staged_only staged w w'" using IH o(7) by (auto simp: staged_only_def)
      show ?thesis
        using IH st o A obj unfolding files by auto
    qed
  qed
qed

text \<open>When every read answers from the stored objects, the depth of the queue is immaterial.\<close>

lemma prefetch_exact:
  assumes "\<And>c s. view s = objects \<Longrightarrow> snd (l_read_bytes lay (candidate_file c) s) = ans c"
  shows "prefetch lay free pending queue s = (s', pending', queue') \<Longrightarrow> view s = objects \<Longrightarrow> exact ans queue \<Longrightarrow>
     view s' = objects \<and> exact ans queue'"
proof (induction pending arbitrary: free queue s)
  case (Cons c cs)
  show ?case
  proof (cases free)
    case 0
    with Cons.prems show ?thesis by simp
  next
    case (Suc n)
    obtain s1 r where r: "l_read_bytes lay (candidate_file c) s = (s1, r)" by fastforce
    with Cons.prems Suc have run: "prefetch lay n cs (queue @ [(c, r)]) s1 = (s', pending', queue')" by simp
    have "view s1 = objects" "r = ans c" using read_bytes [OF r] Cons.prems(2) assms [of s c] r by simp_all
    with Cons.IH [OF run] Cons.prems(3) show ?thesis by (simp add: exact_def)
  qed
qed simp

lemma apply_loop_depth:
  assumes reads: "\<And>c s. view s = objects \<Longrightarrow> snd (l_read_bytes lay (candidate_file c) s) = ans c"
  shows "apply_loop lay cd staged depth pending queue running cursor w = (v, r) \<Longrightarrow>
     apply_loop lay cd staged depth' pending' queue' running cursor w' = (v', r') \<Longrightarrow>
     map fst queue @ pending = map fst queue' @ pending' \<Longrightarrow> exact ans queue \<Longrightarrow> exact ans queue' \<Longrightarrow> 0 < depth \<Longrightarrow> 0 < depth' \<Longrightarrow>
     view (w_store w) = objects \<Longrightarrow> view (w_store w') = objects \<Longrightarrow> local_part w = local_part w' \<Longrightarrow>
     r = r' \<and> local_part v = local_part v'"
proof (induction "length queue + length pending" arbitrary: pending queue pending' queue' running cursor w w' rule: less_induct)
  case less
  obtain s1 p1 q1 where pre: "prefetch lay (depth - length queue) pending queue (w_store w) = (s1, p1, q1)" by (metis prod.exhaust)
  obtain s2 p2 q2 where pre': "prefetch lay (depth' - length queue') pending' queue' (w_store w') = (s2, p2, q2)" by (metis prod.exhaust)
  note Q = prefetch_queue [OF pre] and Q' = prefetch_queue [OF pre']
  note X = prefetch_exact [OF reads pre less.prems(8,4)] and X' = prefetch_exact [OF reads pre' less.prems(9,5)]
  have same: "map fst q1 @ p1 = map fst q2 @ p2" using Q Q' less.prems(3) by simp
  have drained: "q1 = [] \<longleftrightarrow> map fst queue @ pending = []" using Q less.prems(6) by (cases queue) auto
  have drained': "q2 = [] \<longleftrightarrow> map fst queue' @ pending' = []" using Q' less.prems(7) by (cases queue') auto
  show ?case
  proof (cases q1)
    case Nil
    then have "q2 = []" using drained drained' less.prems(3) by metis
    with Nil less.prems(1,2,10) apply_loop_drained [OF pre [unfolded Nil]] apply_loop_drained [of lay depth' queue' pending' w' s2 p2] pre'
    show ?thesis by (auto simp: local_part_def)
  next
    case (Cons x q3)
    moreover have "q2 \<noteq> []" using Cons drained drained' less.prems(3) by auto
    ultimately obtain c res res' q4 where q: "q1 = (c, res) # q3" "q2 = (c, res') # q4"
      using same by (cases q2; cases x) (auto simp: Cons_eq_append_conv)
    have res: "res' = res" using X X' q by (auto simp: exact_def)
    obtain u ru where ap: "apply_fetched cd staged running res (w\<lparr>w_store := s1\<rparr>) = (u, ru)" by fastforce
    obtain u' ru' where ap': "apply_fetched cd staged running res (w'\<lparr>w_store := s2\<rparr>) = (u', ru')" by fastforce
    have lp: "local_part (w\<lparr>w_store := s1\<rparr>) = local_part (w'\<lparr>w_store := s2\<rparr>)" using less.prems(10) by (simp add: local_part_def)
    note L = apply_fetched_local [OF ap ap' lp]
    note step = apply_loop_next [OF pre [unfolded q(1)]] and step' = apply_loop_next [OF pre' [unfolded q(2)]]
    show ?thesis
    proof (cases ru)
      case (Inl e)
      with L less.prems(1,2) ap ap' res show ?thesis unfolding step step' by auto
    next
      case (Inr run1)
      with L less.prems(1,2) ap ap' res
      have R: "apply_loop lay cd staged depth p1 q3 run1 (rmax (pc_range c)) u = (v, r)"
        "apply_loop lay cd staged depth' p2 q4 run1 (rmax (pc_range c)) u' = (v', r')"
        unfolding step step' by auto
      have len: "length q3 + length p1 < length queue + length pending" using prefetch_shrinks pre q(1) by metis
      show ?thesis
        by (rule less.hyps [OF len R]) (use same q X X' L less.prems in \<open>auto simp: exact_def\<close>)
    qed
  qed
qed

lemma prefetch_good:
  assumes reads: "\<And>c s bs. view s = objects \<Longrightarrow> objects (pc_key c) = Some bs \<Longrightarrow> snd (l_read_bytes lay (candidate_file c) s) = Inr bs"
  shows "prefetch lay free pending queue s = (s', pending', queue') \<Longrightarrow> view s = objects \<Longrightarrow>
     (\<forall>(c, r)\<in>set queue. \<forall>bs. objects (pc_key c) = Some bs \<longrightarrow> r = Inr bs) \<Longrightarrow>
     view s' = objects \<and> (\<forall>(c, r)\<in>set queue'. \<forall>bs. objects (pc_key c) = Some bs \<longrightarrow> r = Inr bs)"
proof (induction pending arbitrary: free queue s)
  case (Cons c cs)
  show ?case
  proof (cases free)
    case 0
    with Cons.prems show ?thesis by simp
  next
    case (Suc n)
    obtain s1 r where r: "l_read_bytes lay (candidate_file c) s = (s1, r)" by fastforce
    with Cons.prems Suc have run: "prefetch lay n cs (queue @ [(c, r)]) s1 = (s', pending', queue')" by simp
    have "view s1 = objects" "\<And>bs. objects (pc_key c) = Some bs \<Longrightarrow> r = Inr bs"
      using read_bytes [OF r] Cons.prems(2) reads [of s c] r by simp_all
    with Cons.IH [OF run] Cons.prems(3) show ?thesis by simp
  qed
qed simp

lemma apply_loop_succeeds:
  assumes reads: "\<And>c s bs. view s = objects \<Longrightarrow> objects (pc_key c) = Some bs \<Longrightarrow> snd (l_read_bytes lay (candidate_file c) s) = Inr bs"
  shows "0 < depth \<Longrightarrow> view (w_store w) = objects \<Longrightarrow> w_faults w = [] \<Longrightarrow> w_files w staged = Some db \<Longrightarrow>
     (\<forall>(c, r)\<in>set queue. \<forall>bs. objects (pc_key c) = Some bs \<longrightarrow> r = Inr bs) \<Longrightarrow>
     applied_in_order cd objects (map fst queue @ pending) (running, db) = Some (running', db') \<Longrightarrow>
     \<exists>w' cursor'. apply_loop lay cd staged depth pending queue running cursor w = (w', Inr (running', cursor'))"
proof (induction "length queue + length pending" arbitrary: pending queue running cursor w db rule: less_induct)
  case less
  obtain s1 p1 q1 where pre: "prefetch lay (depth - length queue) pending queue (w_store w) = (s1, p1, q1)" by (metis prod.exhaust)
  note Q = prefetch_queue [OF pre]
  have good: "view s1 = objects \<and> (\<forall>(c, r)\<in>set q1. \<forall>bs. objects (pc_key c) = Some bs \<longrightarrow> r = Inr bs)"
    using prefetch_good [OF reads pre less.prems(2,5)] .
  show ?case
  proof (cases q1)
    case Nil
    then have "queue = [] \<and> pending = []" using Q less.prems(1) by (cases queue) auto
    then have "running' = running" using less.prems(6) by simp
    then show ?thesis using apply_loop_drained [OF pre [unfolded Nil]] by simp
  next
    case (Cons x q3)
    obtain c res where x: "x = (c, res)" by fastforce
    have "map fst queue @ pending = c # map fst q3 @ p1" using Q Cons x by simp
    with less.prems(6) obtain bs cs db1 where o: "objects (pc_key c) = Some bs" "decode_sqlite_changeset cd bs = Inr cs" "c_verify_chain cd running cs"
      "apply_decoded_changeset_to_db cs (Some db) = Inr db1" "applied_in_order cd objects (map fst q3 @ p1) (c_chain_end cd cs, db1) = Some (running', db')"
      by (auto split: option.splits sum.splits if_splits)
    have res: "res = Inr bs" using good Cons x o(1) by auto
    let ?w2 = "w\<lparr>w_store := s1, w_files := (w_files w)(staged \<mapsto> db1)\<rparr>"
    have ap: "apply_fetched cd staged running res (w\<lparr>w_store := s1\<rparr>) = (?w2, Inr (c_chain_end cd cs))"
      using o res less.prems(3,4)
      by (simp add: apply_fetched_def apply_to_file_def file_at_def and_then_def map_error_def return_def write_file_def next_fault_def)
    have len: "length q3 + length p1 < length queue + length pending" using prefetch_shrinks pre Cons by metis
    have "\<exists>w' cursor'. apply_loop lay cd staged depth p1 q3 (c_chain_end cd cs) (rmax (pc_range c)) ?w2 = (w', Inr (running', cursor'))"
      by (rule less.hyps [OF len less.prems(1) _ _ _ _ o(5)]) (use good Cons less.prems(3) in auto)
    then show ?thesis using apply_loop_next [OF pre [unfolded Cons x]] ap by simp
  qed
qed

lemma gather_sound:
  "wp (gather_candidates lay base tgt)
     (\<lambda>cs s'. view s' = view s \<and> (\<forall>c\<in>set cs. wf_range (pc_range c) \<and> view s (pc_key c) \<noteq> None \<and> level_key (pc_level c) (pc_key c) \<and>
        base < rmax (pc_range c) \<and> rmin (pc_range c) \<le> tgt))
     (\<lambda>_ s'. view s' = view s) s"
proof -
  let ?ok = "\<lambda>c. wf_range (pc_range c) \<and> view s (pc_key c) \<noteq> None \<and> level_key (pc_level c) (pc_key c) \<and> base < rmax (pc_range c) \<and> rmin (pc_range c) \<le> tgt"
  show ?thesis
    unfolding gather_candidates_def
  proof (rule wp_and_thenI, rule wp_list_files, goal_cases)
    case (1 fs s1)
    have start: "view s1 = view s \<and> (\<forall>c\<in>set (push_from base tgt fs). ?ok c)" using 1 by (auto simp: push_from_def)
    show ?case
    proof (rule wp_fold_actions, goal_cases)
      case 1
      from start show ?case .
    next
      case (2 l out s2)
      show ?case
        by (rule wp_and_thenI, rule wp_list_files) (use 2 in \<open>auto simp: wp_return push_from_def\<close>)
    qed
  qed simp
qed

lemma apply_plan_sound:
  assumes "apply_plan_with_checksum lay cd plan staged ck depth w = (w', r)"
  shows "view (w_store w') = view (w_store w) \<and> staged_only staged w w' \<and> r \<noteq> Inl [Diverges] \<and>
    (\<forall>applied db. r = Inr applied \<longrightarrow> w_files w staged = Some db \<longrightarrow>
       ap_seq applied = pl_target plan \<and>
       (\<exists>db'. w_files w' staged = Some db' \<and>
          applied_in_order cd (view (w_store w)) (pl_files plan) (ck, db) = Some (ap_checksum applied, db')))"
proof -
  obtain w1 r1 where run: "apply_loop lay cd staged (max depth 1) (pl_files plan) [] ck (pl_floor plan) w = (w1, r1)" by fastforce
  note L = apply_loop_refines [OF run]
  from assms run have "w' = w1 \<and> (r = Inl [Diverges] \<longrightarrow> r1 = Inl [Diverges]) \<and> (\<forall>applied. r = Inr applied \<longrightarrow> r1 = Inr (ap_checksum applied, ap_seq applied) \<and> ap_seq applied = pl_target plan)"
    by (auto simp: apply_plan_with_checksum_def and_then_def raise_def return_def split: sum.splits if_splits)
  then show ?thesis using L by (auto simp: answers_def)
qed

lemma plan_sound:
  assumes "base \<le> tgt"
  shows "wp (plan_over_layout lay base tgt)
     (\<lambda>plan s'. view s' = view s \<and> pl_floor plan = base \<and> pl_target plan = tgt \<and> tiles base (ranges_of (pl_files plan)) tgt \<and>
        (\<forall>c\<in>set (pl_files plan). view s (pc_key c) \<noteq> None \<and> level_key (pc_level c) (pc_key c)))
     (\<lambda>e s'. view s' = view s \<and> e \<noteq> [Diverges]) s"
  unfolding plan_over_layout_def
proof (rule wp_and_thenI, unfold wp_map_error, rule wp_mono [OF gather_sound [of base tgt s]], goal_cases)
  case (1 cs s1)
  then have "\<forall>r\<in>set (ranges_of cs). wf_range r" by auto
  from plan_restore_spec [OF this assms] obtain res gs e where
    P: "plan_loop cs tgt base [] = Some res" "set gs \<subseteq> set cs" "tiles base (ranges_of gs) e" "stopped cs tgt e gs res" by metis
  have "\<forall>files. res = Inr files \<longrightarrow> files = gs \<and> e = tgt" using P(4) by (auto simp: stopped_def split: sum.splits if_splits plan_error.splits)
  with P 1 show ?case
    by (cases res) (auto simp: returned_def plan_restore_def wp_simps)
qed auto

end

section \<open>Restore over a storage backend\<close>

context storage_backend
begin

lemmas apply_plan_over_backend = gen.apply_plan_sound [unfolded staged_only_def]
  and apply_loop_over_backend = gen.apply_loop_refines
  and apply_depth_over_backend = gen.apply_loop_depth
  and apply_succeeds_over_backend = gen.apply_loop_succeeds
  and plan_over_backend = gen.plan_sound

end

text \<open>
  Claim C36: executing a restore plan.  Whatever the backend and the disk do, the objects and all
  files but the staged one stay as they are; and if the executor reports success, the sequence
  reached is the plan's target and the staged file is exactly what applying the stored objects of
  the plan one after the other gives, each decoded, validated and linked to the running chain value,
  the returned checksum being the end of that chain.
\<close>

theorem apply_plan_correct:
  assumes "storage_backend b view"
    and "apply_plan_with_checksum (gen_layout rd b gl) cd plan staged ck depth w = (w', r)"
  shows "view (w_store w') = view (w_store w) \<and> (\<forall>p. p \<noteq> staged \<longrightarrow> w_files w' p = w_files w p) \<and> r \<noteq> Inl [Diverges] \<and>
    (\<forall>applied db. r = Inr applied \<longrightarrow> w_files w staged = Some db \<longrightarrow>
       ap_seq applied = pl_target plan \<and>
       (\<exists>db'. w_files w' staged = Some db' \<and>
          applied_in_order cd (view (w_store w)) (pl_files plan) (ck, db) = Some (ap_checksum applied, db')))"
  by (rule storage_backend.apply_plan_over_backend [OF assms])

text \<open>A backend that always answers: the objects, in an association list, are the state.\<close>

definition alist_backend :: "(string \<times> bytes) list backend" where
  "alist_backend =
     \<lparr>b_get = (\<lambda>k m. (m, Inr (map_of m k))),
      b_range_get = (\<lambda>k off len m. (m, Inr (map_option (\<lambda>d. slice d off len) (map_of m k)))),
      b_put = (\<lambda>k d m. (AList.update k d m, Inr ())),
      b_delete = (\<lambda>k m. (AList.delete k m, Inr ())),
      b_delete_many = (\<lambda>ks m. (filter (\<lambda>(k, d). k \<notin> set ks) m, Inr ())),
      b_list = (\<lambda>pre after m. (m, Inr (sort (filter (\<lambda>k. prefix pre k \<and> (case after of Some a \<Rightarrow> a < k | None \<Rightarrow> True)) (map fst m))))),
      b_exists = (\<lambda>k m. (m, Inr (map_of m k \<noteq> None))),
      b_put_if_absent = (\<lambda>k d m. if map_of m k = None then (AList.update k d m, Inr \<lparr>cas_success = True, cas_etag = None\<rparr>)
         else (m, Inr \<lparr>cas_success = False, cas_etag = None\<rparr>)),
      b_put_if_match = (\<lambda>k d etag m. (m, Inr \<lparr>cas_success = False, cas_etag = None\<rparr>))\<rparr>"

lemma map_of_filter_keys: "map_of (filter (\<lambda>(k, d). P k) m) k = (if P k then map_of m k else None)"
  by (induction m) auto

lemma map_of_listed: "x \<in> set m \<Longrightarrow> \<exists>d. map_of m (fst x) = Some d"
  by (metis map_of_eq_None_iff imageI option.exhaust)

interpretation alist: storage_backend alist_backend map_of
  by unfold_locales
    (auto simp: alist_backend_def map_of_filter_keys update_conv' delete_conv' split: if_splits option.splits dest: map_of_listed)

definition demo_world :: "(string \<times> bytes) list \<Rightarrow> (string \<times> bytes) list world" where
  "demo_world objects = \<lparr>w_store = objects, w_files = [''staged'' \<mapsto> zeros 512], w_faults = []\<rparr>"

definition demo_plan :: restore_plan where
  "demo_plan = \<lparr>pl_floor = 7, pl_target = 8, pl_files = [\<lparr>pc_key = ''a'', pc_level = 0, pc_range = point 8\<rparr>]\<rparr>"

definition demo_objects :: "(string \<times> bytes) list" where
  "demo_objects = [(''a'', demo_encode (demo_commit 3))]"

lemma demo_commit_applies: "apply_decoded_changeset_to_db (demo_commit 3) (Some (zeros 512)) = Inr (replicate 512 3)"
  using demo_commit_sized [of 3]
  by (simp add: apply_decoded_changeset_to_db_def sized_def)
    (simp add: demo_commit_def demo_header_def sqlite_page_offset_def validate_page_size_iff SQLITE_PAGE_SIZES_def write_at_def zeros_def set_len_def
      changeset_end_page_count_def marker_flag_set_def FLAG_END_PAGE_COUNT_MARKER_def Let_def)

lemma demo_applied:
  "applied_in_order (demo_codec (demo_commit 3)) (map_of demo_objects) (pl_files demo_plan) (0, zeros 512) = Some (7, replicate 512 3)"
proof -
  have "decode_sqlite_changeset (demo_codec (demo_commit 3)) (c_encode (demo_codec (demo_commit 3)) (demo_commit 3)) = Inr (demo_commit 3)"
    using demo_commit_sized [of 3] by (intro decode_encoded demo_roundtrips) (simp_all add: sized_def demo_commit_def demo_header_def)
  then have "decode_sqlite_changeset (demo_codec (demo_commit 3)) (demo_encode (demo_commit 3)) = Inr (demo_commit 3)"
    by (simp add: demo_codec_def)
  then show ?thesis
    using demo_commit_applies
    by (simp add: demo_plan_def demo_objects_def) (simp add: demo_codec_def demo_commit_def demo_header_def)
qed

lemma demo_run:
  "\<exists>w'. apply_plan_with_checksum (gen_layout demo_no_ltx alist_backend demo_layout) (demo_codec (demo_commit 3)) demo_plan ''staged'' 0 1 (demo_world demo_objects) =
      (w', Inr \<lparr>ap_seq = 8, ap_checksum = 7\<rparr>)"
proof -
  let ?lay = "gen_layout demo_no_ltx alist_backend demo_layout"
  have reads: "snd (l_read_bytes ?lay (candidate_file c) s) = Inr bs" if "map_of s = map_of demo_objects" "map_of demo_objects (pc_key c) = Some bs" for c s bs
    using that by (simp add: gen_layout_def gen_read_bytes_def candidate_file_def whole_of_def and_then_def map_error_def need_def return_def alist_backend_def)
  have "\<exists>w' cursor'. apply_loop ?lay (demo_codec (demo_commit 3)) ''staged'' 1 (pl_files demo_plan) [] 0 7 (demo_world demo_objects) = (w', Inr (7, cursor'))"
    by (rule alist.apply_succeeds_over_backend [OF reads]) (use demo_applied in \<open>auto simp: demo_world_def\<close>)
  then obtain w' cursor' where run: "apply_loop ?lay (demo_codec (demo_commit 3)) ''staged'' 1 (pl_files demo_plan) [] 0 7 (demo_world demo_objects) = (w', Inr (7, cursor'))"
    by blast
  have "cursor' = 8" using alist.apply_loop_over_backend [OF run] by (simp add: answers_def demo_plan_def point_def)
  with run show ?thesis by (simp add: apply_plan_with_checksum_def and_then_def return_def demo_plan_def)
qed

theorem apply_plan_correct_witness:
  "\<exists>w' applied. apply_plan_with_checksum (gen_layout demo_no_ltx alist_backend demo_layout) (demo_codec (demo_commit 3)) demo_plan ''staged'' 0 1
       (demo_world demo_objects) = (w', Inr applied) \<and>
     ap_seq applied = 8 \<and> w_files w' ''staged'' = Some (replicate 512 3)"
proof -
  obtain w' where run: "apply_plan_with_checksum (gen_layout demo_no_ltx alist_backend demo_layout) (demo_codec (demo_commit 3)) demo_plan ''staged'' 0 1
      (demo_world demo_objects) = (w', Inr \<lparr>ap_seq = 8, ap_checksum = 7\<rparr>)" using demo_run by blast
  from apply_plan_correct [OF alist.storage_backend_axioms run] run demo_applied show ?thesis
    by (auto simp: demo_world_def)
qed

text \<open>
  Claim C37: the prefetch depth does not matter.  When reads answer from the stored objects, two
  executions of the same plan with any two queue depths end with the same result, the same files
  and the same error: the plan order decides, not the download schedule.
\<close>

theorem prefetch_depth_irrelevant:
  assumes "storage_backend b view" and "\<forall>k s. snd (b_get b k s) = Inr (view s k)"
  shows "snd (apply_plan_with_checksum (gen_layout rd b gl) cd plan staged ck d w) =
      snd (apply_plan_with_checksum (gen_layout rd b gl) cd plan staged ck d' w) \<and>
    w_files (fst (apply_plan_with_checksum (gen_layout rd b gl) cd plan staged ck d w)) =
      w_files (fst (apply_plan_with_checksum (gen_layout rd b gl) cd plan staged ck d' w))"
proof -
  let ?lay = "gen_layout rd b gl" and ?objs = "view (w_store w)"
  let ?ans = "\<lambda>c. case ?objs (pc_key c) of None \<Rightarrow> Inl (StorageError (''missing object '' @ pc_key c)) | Some bs \<Rightarrow> Inr bs"
  have reads: "snd (l_read_bytes ?lay (candidate_file c) s) = ?ans c" if "view s = ?objs" for c s
    using assms(2) [rule_format, of "pc_key c" s] that
    by (cases "b_get b (pc_key c) s")
      (auto simp: gen_layout_def gen_read_bytes_def candidate_file_def whole_of_def and_then_def map_error_def need_def raise_def return_def split: option.split)
  obtain v r v' r' where run: "apply_loop ?lay cd staged (max d 1) (pl_files plan) [] ck (pl_floor plan) w = (v, r)"
    "apply_loop ?lay cd staged (max d' 1) (pl_files plan) [] ck (pl_floor plan) w = (v', r')" by (metis prod.exhaust)
  have "r = r' \<and> local_part v = local_part v'"
    by (rule storage_backend.apply_depth_over_backend [OF assms(1), where objects = ?objs and ans = ?ans, OF reads run])
      (simp_all add: exact_def)
  then show ?thesis
    using run by (auto simp: apply_plan_with_checksum_def and_then_def local_part_def raise_def return_def split: sum.split)
qed

theorem prefetch_depth_irrelevant_witness:
  "let run = (\<lambda>d. apply_plan_with_checksum (gen_layout demo_no_ltx alist_backend demo_layout) (demo_codec (demo_changeset []))
        \<lparr>pl_floor = 7, pl_target = 9, pl_files = [\<lparr>pc_key = ''a'', pc_level = 0, pc_range = point 8\<rparr>, \<lparr>pc_key = ''b'', pc_level = 0, pc_range = point 9\<rparr>]\<rparr>
        ''staged'' 9 d (demo_world [(''a'', zeros 60)]))
   in snd (run 1) = snd (run 4) \<and> w_files (fst (run 1)) = w_files (fst (run 4))"
  unfolding Let_def
  by (rule prefetch_depth_irrelevant [OF alist.storage_backend_axioms]) (simp add: alist_backend_def)

text \<open>
  Claim C38: planning over a bucket.  Gathering and planning end on every bucket, change no object,
  and a plan consists of stored objects whose ranges continue from the snapshot's sequence number
  without gap or overlap exactly to the target.
\<close>

theorem plan_over_layout_sound:
  assumes "storage_backend b view" and "base \<le> tgt"
  shows "case plan_over_layout (gen_layout rd b gl) base tgt s of
      (s', Inr plan) \<Rightarrow> view s' = view s \<and> pl_floor plan = base \<and> pl_target plan = tgt \<and>
        tiles base (map pc_range (pl_files plan)) tgt \<and>
        (\<forall>c\<in>set (pl_files plan). view s (pc_key c) \<noteq> None \<and> prefix (level_dir gl (pc_level c)) (pc_key c))
    | (s', Inl e) \<Rightarrow> view s' = view s \<and> e \<noteq> [Diverges]"
  using storage_backend.plan_over_backend [OF assms, of rd gl s] unfolding wp_def gen_level_key_def by (auto split: prod.splits sum.splits)

theorem plan_over_layout_sound_witness:
  "case plan_over_layout (gen_layout demo_no_ltx demo_backend demo_layout) 0 2 (demo_store (zeros 60) (zeros 60)) of
      (s', Inr plan) \<Rightarrow> tiles 0 (map pc_range (pl_files plan)) 2
    | (s', Inl e) \<Rightarrow> e \<noteq> [Diverges]"
  using plan_over_layout_sound [where b = demo_backend and view = mock_view and base = 0 and tgt = 2 and rd = demo_no_ltx and gl = demo_layout
      and s = "demo_store (zeros 60) (zeros 60)", OF mock.storage_backend_axioms]
  by (auto split: prod.splits sum.splits)

lemma tiles_end: "tiles a rs b \<Longrightarrow> last (a # map rmax rs) = b"
  by (induction a rs b rule: tiles.induct) auto

text \<open>
  Claim C39: a restore that can succeed does.  If the backend answers and the disk has no fault, and
  the plan's ranges run from the snapshot to the target over objects that decode, link and apply,
  then the executor returns the target and the end of the chain, with the staged file complete.
\<close>

theorem apply_plan_succeeds:
  assumes "storage_backend b view" and "\<forall>k s. snd (b_get b k s) = Inr (view s k)"
    and "w_faults w = []" "w_files w staged = Some db" "tiles (pl_floor plan) (map pc_range (pl_files plan)) (pl_target plan)"
    and "applied_in_order cd (view (w_store w)) (pl_files plan) (ck, db) = Some (ck', db')"
  shows "\<exists>w'. apply_plan_with_checksum (gen_layout rd b gl) cd plan staged ck depth w =
      (w', Inr \<lparr>ap_seq = pl_target plan, ap_checksum = ck'\<rparr>) \<and> w_files w' staged = Some db'"
proof -
  let ?lay = "gen_layout rd b gl"
  have reads: "snd (l_read_bytes ?lay (candidate_file c) s) = Inr bs" if "view s = view (w_store w)" "view (w_store w) (pc_key c) = Some bs" for c s bs
    using assms(2) [rule_format, of "pc_key c" s] that
    by (cases "b_get b (pc_key c) s")
      (auto simp: gen_layout_def gen_read_bytes_def candidate_file_def whole_of_def and_then_def map_error_def need_def return_def)
  have "\<exists>w' cursor'. apply_loop ?lay cd staged (max depth 1) (pl_files plan) [] ck (pl_floor plan) w = (w', Inr (ck', cursor'))"
    by (rule storage_backend.apply_succeeds_over_backend [OF assms(1) reads]) (use assms(3,4,6) in auto)
  then obtain w' cursor' where run: "apply_loop ?lay cd staged (max depth 1) (pl_files plan) [] ck (pl_floor plan) w = (w', Inr (ck', cursor'))" by blast
  have R: "cursor' = last (pl_floor plan # map rmax (map pc_range (pl_files plan)))" "w_files w' staged = Some db'"
    using storage_backend.apply_loop_over_backend [OF assms(1) run] assms(4,6) by (auto simp: answers_def comp_def)
  have "cursor' = pl_target plan" unfolding R(1) by (rule tiles_end [OF assms(5)])
  with run R(2) show ?thesis by (simp add: apply_plan_with_checksum_def and_then_def return_def)
qed

theorem apply_plan_succeeds_witness:
  "\<exists>w'. apply_plan_with_checksum (gen_layout demo_no_ltx alist_backend demo_layout) (demo_codec (demo_commit 3)) demo_plan ''staged'' 0 4 (demo_world demo_objects) =
      (w', Inr \<lparr>ap_seq = pl_target demo_plan, ap_checksum = 7\<rparr>) \<and> w_files w' ''staged'' = Some (replicate 512 3)"
  by (rule apply_plan_succeeds [OF alist.storage_backend_axioms, where db = "zeros 512"])
    (use demo_applied in \<open>simp_all add: alist_backend_def demo_world_def demo_plan_def point_def\<close>)

end
