(* ===== verification/Discovery.thy ===== *)
theory Discovery
  imports RestorePlan
begin

text \<open>
  Finding the objects of a database in a bucket (\<^verbatim>\<open>sync.rs\<close>, discovery helpers).  A walrust-owned stream
  lives in a lineage namespace named by \<^verbatim>\<open>state.json\<close>; without a lineage the namespaces are those of
  \<^verbatim>\<open>hadb_changeset::storage\<close>, whose key format and listings are the parameter \<open>hadb\<close>, as are the
  JSON reader and the SQLite integrity check.  The locale \<open>changeset_store\<close> states what is relied on.
\<close>

section \<open>Decimal numbers\<close>

fun parse_dec_digits :: "nat \<Rightarrow> string \<Rightarrow> nat option" where
  "parse_dec_digits acc [] = Some acc"
| "parse_dec_digits acc (c # cs) =
     (let k = of_char c :: nat in
      if 48 \<le> k \<and> k \<le> 57 \<and> 10 * acc + (k - 48) < 2 ^ 64 then parse_dec_digits (10 * acc + (k - 48)) cs else None)"

text \<open>\<^verbatim>\<open>str::parse::<u64>\<close>.\<close>

definition parse_u64 :: "string \<Rightarrow> u64 option" where
  "parse_u64 s =
     (case s of
        [] \<Rightarrow> None
      | c # cs \<Rightarrow>
          if c = CHR ''+'' then (if cs = [] then None else map_option word_of_nat (parse_dec_digits 0 cs))
          else map_option word_of_nat (parse_dec_digits 0 s))"

definition parse_point_in_time_seq :: "string option \<Rightarrow> failure + u64 option" where
  "parse_point_in_time_seq point_in_time =
     (case point_in_time of
        None \<Rightarrow> Inr None
      | Some pit \<Rightarrow>
          (case parse_u64 pit of
             None \<Rightarrow> Inl [Typed (RestoreError ''Invalid point_in_time format. Use sequence/TXID number'')]
           | Some s \<Rightarrow> Inr (Some s)))"

section \<open>Listings\<close>

record discovered =
  dc_key :: string
  dc_seq :: u64

record 's hadb =
  h_ext :: string
  h_format_key :: "string \<Rightarrow> string \<Rightarrow> u64 \<Rightarrow> u64 \<Rightarrow> string"
  h_discover_after :: "string \<Rightarrow> string \<Rightarrow> u64 \<Rightarrow> ('s, string, discovered list) action"
  h_discover_latest_snapshot :: "string \<Rightarrow> string \<Rightarrow> ('s, string, discovered option) action"
  h_parse_state :: "bytes \<Rightarrow> string + string option"
  h_integrity_check :: "bytes \<Rightarrow> string + unit"

definition storage_op :: "('s, string, 'a) action \<Rightarrow> ('s, failure, 'a) action" where
  "storage_op m = map_error (\<lambda>e. [Message e]) m"

definition active_lineage_id :: "'s backend \<Rightarrow> 's hadb \<Rightarrow> string \<Rightarrow> string \<Rightarrow> ('s, failure, string option) action" where
  "active_lineage_id b h pre db_name =
     and_then (map_error (\<lambda>e. [Message ''failed to load replication state'']) (b_get b (state_key pre db_name))) (\<lambda>data.
       case data of
         None \<Rightarrow> return None
       | Some bs \<Rightarrow>
           (case h_parse_state h bs of
              Inl e \<Rightarrow> raise [Message ''failed to parse replication state'']
            | Inr lineage \<Rightarrow> return lineage))"

definition gen_prefix_of :: "string \<Rightarrow> string \<Rightarrow> string option \<Rightarrow> u64 \<Rightarrow> string" where
  "gen_prefix_of pre db_name lineage_id generation =
     (case lineage_id of
        Some l \<Rightarrow> lineage_generation_prefix pre db_name l generation
      | None \<Rightarrow> pre @ db_name @ ''/'' @ hex_pad 4 (unat generation) @ ''/'')"

definition discovered_of :: "string \<Rightarrow> string \<Rightarrow> u64 \<Rightarrow> string \<Rightarrow> discovered option" where
  "discovered_of gen_prefix ext after_seq key =
     (case strip_prefix key gen_prefix of
        None \<Rightarrow> None
      | Some filename \<Rightarrow>
          (case strip_suffix filename (''.'' @ ext) of
             None \<Rightarrow> None
           | Some hex_part \<Rightarrow>
               (case from_str_radix16 hex_part of
                  None \<Rightarrow> None
                | Some s \<Rightarrow> if s \<le> after_seq then None else Some \<lparr>dc_key = key, dc_seq = s\<rparr>)))"

definition discover_after_in_namespace ::
    "'s backend \<Rightarrow> 's hadb \<Rightarrow> string \<Rightarrow> string \<Rightarrow> string option \<Rightarrow> u64 \<Rightarrow> u64 \<Rightarrow> ('s, failure, discovered list) action" where
  "discover_after_in_namespace b h pre db_name lineage_id generation after_seq =
     (if generation = GENERATION_LIVE \<and> lineage_id = None then storage_op (h_discover_after h pre db_name after_seq)
      else let gen_prefix = gen_prefix_of pre db_name lineage_id generation;
               start_after_key = gen_prefix @ hex_pad 16 (unat after_seq) @ ''.'' @ h_ext h
        in and_then (storage_op (b_list b gen_prefix (Some start_after_key))) (\<lambda>ks.
             return (sort_key dc_seq (List.map_filter (discovered_of gen_prefix (h_ext h) after_seq) ks))))"

definition discover_latest_snapshot_in_namespace ::
    "'s backend \<Rightarrow> 's hadb \<Rightarrow> string \<Rightarrow> string \<Rightarrow> string option \<Rightarrow> ('s, failure, discovered option) action" where
  "discover_latest_snapshot_in_namespace b h pre db_name lineage_id =
     (if lineage_id = None then storage_op (h_discover_latest_snapshot h pre db_name)
      else and_then (discover_after_in_namespace b h pre db_name lineage_id GENERATION_SNAPSHOT 0) (\<lambda>snapshots.
        let sorted_snaps = sort_key dc_seq snapshots in
        return (if sorted_snaps = [] then None else Some (last sorted_snaps))))"

definition discover_latest_snapshot_at_or_before_in_namespace ::
    "'s backend \<Rightarrow> 's hadb \<Rightarrow> string \<Rightarrow> string \<Rightarrow> string option \<Rightarrow> u64 \<Rightarrow> ('s, failure, discovered option) action" where
  "discover_latest_snapshot_at_or_before_in_namespace b h pre db_name lineage_id target_seq =
     and_then (discover_after_in_namespace b h pre db_name lineage_id GENERATION_SNAPSHOT 0) (\<lambda>snapshots.
       let kept = sort_key dc_seq (filter (\<lambda>d. dc_seq d \<le> target_seq) snapshots) in
       return (if kept = [] then None else Some (last kept)))"

section \<open>What discovery guarantees\<close>

lemma discovered_of_Some: "discovered_of gp ext a k = Some d \<Longrightarrow> a < dc_seq d \<and> dc_key d = k"
  by (auto simp: discovered_of_def split: option.splits if_splits)

lemma discovered_listed:
  assumes "d \<in> set (List.map_filter (discovered_of gp ext a) ks)"
  shows "a < dc_seq d \<and> dc_key d \<in> set ks"
  using assms discovered_of_Some [of gp ext a] by (auto simp: List.map_filter_def)

locale changeset_store = storage_backend b view
  for b :: "'s backend" and view :: "'s \<Rightarrow> string \<rightharpoonup> bytes" +
  fixes h :: "'s hadb"
  assumes discover_after: "\<And>s s' r. h_discover_after h pre db a s = (s', r) \<Longrightarrow>
      view s' = view s \<and> (\<forall>ds. r = Inr ds \<longrightarrow> sorted (map dc_seq ds) \<and> (\<forall>d\<in>set ds. a < dc_seq d \<and> view s (dc_key d) \<noteq> None))"
    and discover_latest_snapshot: "\<And>s s' r. h_discover_latest_snapshot h pre db s = (s', r) \<Longrightarrow>
      view s' = view s \<and> (\<forall>d. r = Inr (Some d) \<longrightarrow> view s (dc_key d) \<noteq> None)"
begin

lemma wp_storage_op [wp_simps]: "wp (storage_op m) Q E s = wp m Q (\<lambda>e. E [Message e]) s"
  by (simp add: storage_op_def wp_map_error)

lemma wp_active_lineage:
  assumes "\<And>l s'. view s' = view s \<Longrightarrow> Q l s'" "\<And>e s'. view s' = view s \<Longrightarrow> e \<noteq> [Diverges] \<Longrightarrow> E e s'"
  shows "wp (active_lineage_id b h pre db) Q E s"
  unfolding active_lineage_id_def wp_and_then wp_map_error
  by (rule wp_get) (auto intro!: assms simp: wp_simps split: option.split sum.split)

lemma wp_discover:
  assumes "\<And>ds s'. view s' = view s \<Longrightarrow> sorted (map dc_seq ds) \<Longrightarrow> (\<forall>d\<in>set ds. after_seq < dc_seq d \<and> view s (dc_key d) \<noteq> None) \<Longrightarrow> Q ds s'"
    and "\<And>e s'. view s' = view s \<Longrightarrow> e \<noteq> [Diverges] \<Longrightarrow> E e s'"
  shows "wp (discover_after_in_namespace b h pre db lineage g after_seq) Q E s"
proof (cases "g = GENERATION_LIVE \<and> lineage = None")
  case True
  have "wp (h_discover_after h pre db after_seq) Q (\<lambda>e. E [Message e]) s"
    using assms discover_after [of pre db after_seq s] by (auto simp: wp_def split: prod.split sum.split)
  with True show ?thesis by (simp add: discover_after_in_namespace_def wp_storage_op)
next
  case False
  show ?thesis
    unfolding discover_after_in_namespace_def if_not_P [OF False] Let_def wp_and_then wp_storage_op wp_return
  proof (rule wp_list, goal_cases)
    case (1 ks s')
    show ?case
    proof (rule assms(1) [OF 1(1)], goal_cases)
      case 2
      with 1(2) show ?case by (auto dest!: discovered_listed)
    qed simp
  next
    case (2 e s')
    then show ?case by (intro assms(2)) simp_all
  qed
qed

lemma wp_latest_snapshot:
  assumes "\<And>r s'. view s' = view s \<Longrightarrow> (\<And>d. r = Some d \<Longrightarrow> view s (dc_key d) \<noteq> None) \<Longrightarrow> Q r s'" "\<And>e s'. view s' = view s \<Longrightarrow> e \<noteq> [Diverges] \<Longrightarrow> E e s'"
  shows "wp (discover_latest_snapshot_in_namespace b h pre db lineage) Q E s"
proof (cases "lineage = None")
  case True
  have "wp (h_discover_latest_snapshot h pre db) Q (\<lambda>e. E [Message e]) s"
    using assms discover_latest_snapshot [of pre db s] by (auto simp: wp_def split: prod.split sum.split)
  with True show ?thesis by (simp add: discover_latest_snapshot_in_namespace_def wp_storage_op)
next
  case False
  show ?thesis
    unfolding discover_latest_snapshot_in_namespace_def if_not_P [OF False]
    by (rule wp_and_thenI, rule wp_discover) (auto simp: Let_def wp_return intro!: assms dest!: last_in_set)
qed

lemma wp_snapshot_at_or_before:
  assumes "\<And>r s'. view s' = view s \<Longrightarrow> (\<And>d. r = Some d \<Longrightarrow> view s (dc_key d) \<noteq> None \<and> dc_seq d \<le> tgt) \<Longrightarrow> Q r s'" "\<And>e s'. view s' = view s \<Longrightarrow> e \<noteq> [Diverges] \<Longrightarrow> E e s'"
  shows "wp (discover_latest_snapshot_at_or_before_in_namespace b h pre db lineage tgt) Q E s"
  unfolding discover_latest_snapshot_at_or_before_in_namespace_def
proof (rule wp_and_thenI, rule wp_discover, goal_cases)
  case (1 ds s')
  let ?kept = "sort_key dc_seq (filter (\<lambda>d. dc_seq d \<le> tgt) ds)"
  have "last ?kept \<in> set ds \<and> dc_seq (last ?kept) \<le> tgt" if "?kept \<noteq> []"
    using last_in_set [OF that] by auto
  with 1 show ?case unfolding wp_return Let_def by (intro assms(1)) (auto split: if_splits)
qed (rule assms(2))

end

section \<open>An instance over any backend\<close>

text \<open>
  Listings made from the backend's own \<^verbatim>\<open>list\<close>, in the key format the sources document, give the
  relied-on behaviour on every backend.
\<close>

definition listing_hadb :: "'s backend \<Rightarrow> (bytes \<Rightarrow> string + string option) \<Rightarrow> (bytes \<Rightarrow> string + unit) \<Rightarrow> 's hadb" where
  "listing_hadb b parse_state integrity =
     \<lparr>h_ext = ''hadbp'',
      h_format_key = (\<lambda>pre db g s. pre @ db @ ''/'' @ hex_pad 4 (unat g) @ ''/'' @ hex_pad 16 (unat s) @ ''.hadbp''),
      h_discover_after = (\<lambda>pre db a. let dir = gen_prefix_of pre db None GENERATION_LIVE in
        and_then (b_list b dir None) (\<lambda>ks. return (sort_key dc_seq (List.map_filter (discovered_of dir ''hadbp'' a) ks)))),
      h_discover_latest_snapshot = (\<lambda>pre db. let dir = gen_prefix_of pre db None GENERATION_SNAPSHOT in
        and_then (b_list b dir None) (\<lambda>ks. let ds = sort_key dc_seq (List.map_filter (discovered_of dir ''hadbp'' 0) ks) in
          return (if ds = [] then None else Some (last ds)))),
      h_parse_state = parse_state,
      h_integrity_check = integrity\<rparr>"

sublocale storage_backend \<subseteq> listing: changeset_store b view "listing_hadb b parse_state integrity"
  for parse_state :: "bytes \<Rightarrow> string + string option" and integrity :: "bytes \<Rightarrow> string + unit"
proof
  fix pre db a s s' and r :: "string + discovered list"
  assume run: "h_discover_after (listing_hadb b parse_state integrity) pre db a s = (s', r)"
  have "wp (h_discover_after (listing_hadb b parse_state integrity) pre db a)
      (\<lambda>ds s'. view s' = view s \<and> sorted (map dc_seq ds) \<and> (\<forall>d\<in>set ds. a < dc_seq d \<and> view s (dc_key d) \<noteq> None)) (\<lambda>_ s'. view s' = view s) s"
    by (simp add: listing_hadb_def Let_def wp_and_then, rule wp_list) (auto simp: wp_return dest!: discovered_listed)
  from wp_run [OF this run] show "view s' = view s \<and>
      (\<forall>ds. r = Inr ds \<longrightarrow> sorted (map dc_seq ds) \<and> (\<forall>d\<in>set ds. a < dc_seq d \<and> view s (dc_key d) \<noteq> None))"
    by (cases r) auto
next
  fix pre db s s' and r :: "string + discovered option"
  assume run: "h_discover_latest_snapshot (listing_hadb b parse_state integrity) pre db s = (s', r)"
  have "wp (h_discover_latest_snapshot (listing_hadb b parse_state integrity) pre db)
      (\<lambda>x s'. view s' = view s \<and> (\<forall>d. x = Some d \<longrightarrow> view s (dc_key d) \<noteq> None)) (\<lambda>_ s'. view s' = view s) s"
    by (simp add: listing_hadb_def Let_def wp_and_then, rule wp_list) (auto simp: wp_return dest!: discovered_listed last_in_set)
  from wp_run [OF this run] show "view s' = view s \<and> (\<forall>d. r = Inr (Some d) \<longrightarrow> view s (dc_key d) \<noteq> None)"
    by (cases r) auto
qed

end
