(* ===== verification/SyncRestore.thy ===== *)
theory SyncRestore
  imports Discovery
begin

text \<open>
  Restoring a database from a bucket (\<^verbatim>\<open>sync.rs\<close>, \<^verbatim>\<open>AtomicRestore\<close> and \<^verbatim>\<open>restore\<close>).  The database is
  built in a staged file next to the output and renamed over it only after every object was applied
  with its chain verified and the integrity check passed; dropping the guard removes the staged file.
\<close>

section \<open>The staged file\<close>

definition output_path :: "string \<Rightarrow> string \<Rightarrow> string" where
  "output_path dir file = dir @ ''/'' @ file"

definition staged_path :: "string \<Rightarrow> string \<Rightarrow> nat \<Rightarrow> nat \<Rightarrow> string" where
  "staged_path dir file pid n = dir @ ''/.'' @ file @ ''.restore-'' @ dec_str pid @ ''-'' @ dec_str n @ ''.tmp''"

lemma staged_not_output [simp]: "staged_path dir file pid n \<noteq> output_path dir file" "output_path dir file \<noteq> staged_path dir file pid n"
proof -
  have "length (staged_path dir file pid n) \<noteq> length (output_path dir file)" by (simp add: staged_path_def output_path_def)
  then show "staged_path dir file pid n \<noteq> output_path dir file" "output_path dir file \<noteq> staged_path dir file pid n" by auto
qed

text \<open>Leaving the scope without having published removes the staged file.\<close>

definition with_staged :: "string \<Rightarrow> ('s world, failure, 'a) action \<Rightarrow> ('s world, failure, 'a) action" where
  "with_staged path m = (\<lambda>w. case m w of (w', Inl e) \<Rightarrow> (fst (remove_file path w'), Inl e) | (w', Inr x) \<Rightarrow> (w', Inr x))"

section \<open>Steps\<close>

definition on_world :: "('s, failure, 'a) action \<Rightarrow> ('s world, failure, 'a) action" where
  "on_world m = on_store_with id m"

definition get_required :: "'s backend \<Rightarrow> string \<Rightarrow> ('s world, failure, bytes) action" where
  "get_required b key =
     and_then (on_store (b_get b key)) (\<lambda>x. case x of None \<Rightarrow> raise [Message (key @ '' not found'')] | Some d \<Rightarrow> return d)"

definition decode_to_path :: "codec \<Rightarrow> (bytes \<Rightarrow> bytes) \<Rightarrow> bytes \<Rightarrow> string \<Rightarrow> ('s world, failure, apply_result) action" where
  "decode_to_path cd sha256 data path =
     (case decode_to_db cd sha256 data of
        Inl e \<Rightarrow> raise [Changeset e]
      | Inr (f, res) \<Rightarrow> and_then (write_file path f) (\<lambda>_. return res))"

definition apply_changeset_to_path :: "codec \<Rightarrow> bytes \<Rightarrow> string \<Rightarrow> u64 \<Rightarrow> ('s world, failure, apply_result) action" where
  "apply_changeset_to_path cd data path expected =
     and_then (file_at path) (\<lambda>db.
       case apply_changeset_to_db cd data db expected of
         Inl e \<Rightarrow> raise [Changeset e]
       | Inr (f, res) \<Rightarrow> and_then (write_file path f) (\<lambda>_. return res))"

definition verify_sqlite_integrity :: "'s hadb \<Rightarrow> string \<Rightarrow> ('s world, failure, unit) action" where
  "verify_sqlite_integrity h path =
     and_then (file_at path) (\<lambda>db.
       case db of
         None \<Rightarrow> raise [Message ''failed to open restored database for integrity_check'']
       | Some f \<Rightarrow>
           (case h_integrity_check h f of Inl e \<Rightarrow> raise [Message ''restored database failed integrity_check''] | Inr u \<Rightarrow> return ()))"

definition find_snapshot ::
    "'s backend \<Rightarrow> 's hadb \<Rightarrow> string \<Rightarrow> string \<Rightarrow> string option \<Rightarrow> u64 option \<Rightarrow> ('s, failure, discovered) action" where
  "find_snapshot b h pre db_name lineage_id target_seq =
     and_then
       (case target_seq of
          Some t \<Rightarrow> discover_latest_snapshot_at_or_before_in_namespace b h pre db_name lineage_id t
        | None \<Rightarrow> discover_latest_snapshot_in_namespace b h pre db_name lineage_id)
       (\<lambda>found. case found of None \<Rightarrow> raise [Typed (RestoreNotFound ''snapshot unavailable'')] | Some d \<Rightarrow> return d)"

definition bucket_is_leveled :: "ltx_reader \<Rightarrow> 's backend \<Rightarrow> string \<Rightarrow> string \<Rightarrow> string option \<Rightarrow> ('s, failure, bool) action" where
  "bucket_is_leveled rd b pre db_name lineage_id =
     (if lineage_id = None
      then and_then (map_error (\<lambda>e. [Compaction e]) (list_merged_ranges (seq_layout rd b pre db_name))) (\<lambda>rs. return (rs \<noteq> []))
      else return False)"

text \<open>The plan for a leveled bucket, with a gap reported as decay when a later snapshot absorbs the target.\<close>

definition max_available :: "plan_candidate list \<Rightarrow> u64 \<Rightarrow> u64" where
  "max_available candidates base = foldr max (map (\<lambda>c. rmax (pc_range c)) candidates) base"

definition plan_leveled ::
    "ltx_reader \<Rightarrow> 's backend \<Rightarrow> 's hadb \<Rightarrow> string \<Rightarrow> string \<Rightarrow> string option \<Rightarrow> discovered \<Rightarrow> u64 option \<Rightarrow> ('s, failure, restore_plan) action" where
  "plan_leveled rd b h pre db_name lineage_id snapshot target_seq =
     and_then (map_error (\<lambda>e. [Compaction e]) (gather_candidates (seq_layout rd b pre db_name) (dc_seq snapshot) (- 1))) (\<lambda>candidates.
       let available = max_available candidates (dc_seq snapshot);
           t = (case target_seq of Some t \<Rightarrow> t | None \<Rightarrow> available)
       in if available < t then raise [Typed (RestoreNotFound ''requested point-in-time seq is beyond the newest available seq'')]
          else and_then (returned (plan_restore candidates (dc_seq snapshot) t)) (\<lambda>planned.
            case planned of
              Inr plan \<Rightarrow> return plan
            | Inl e \<Rightarrow>
                and_then (discover_latest_snapshot_in_namespace b h pre db_name lineage_id) (\<lambda>latest.
                  let later = (case latest of None \<Rightarrow> [] | Some d \<Rightarrow> if dc_seq snapshot < dc_seq d then [dc_seq d] else []) in
                  case refine_gap_with_snapshot_spans e later t of
                    PitrInsideSnapshotSpan x y z \<Rightarrow> raise [Typed (RestoreNotFound ''point in time inside a snapshot span'')]
                  | ChainGap x y \<Rightarrow> raise [Typed (RestoreError ''chain gap'')]
                  | PitrInsideMergedWindow x y z u v \<Rightarrow> raise [Typed (RestoreError ''point in time inside a merged window'')])))"

definition restore_leveled ::
    "ltx_reader \<Rightarrow> 's backend \<Rightarrow> 's hadb \<Rightarrow> codec \<Rightarrow> string \<Rightarrow> string \<Rightarrow> string option \<Rightarrow> discovered \<Rightarrow> u64 option \<Rightarrow> string \<Rightarrow> u64 \<Rightarrow>
      ('s world, failure, u64 \<times> u64) action" where
  "restore_leveled rd b h cd pre db_name lineage_id snapshot target_seq staged checksum =
     and_then (on_world (plan_leveled rd b h pre db_name lineage_id snapshot target_seq)) (\<lambda>plan.
     and_then (apply_plan_with_checksum (seq_layout rd b pre db_name) cd plan staged checksum DEFAULT_PREFETCH_DEPTH) (\<lambda>applied.
       return (ap_seq applied, ap_checksum applied)))"

text \<open>The linear path: incrementals one by one, each the next sequence number.\<close>

definition apply_incremental ::
    "'s backend \<Rightarrow> codec \<Rightarrow> string \<Rightarrow> discovered \<Rightarrow> u64 \<times> u64 \<Rightarrow> ('s world, failure, u64 \<times> u64) action" where
  "apply_incremental b cd staged inc acc =
     (if dc_seq inc \<noteq> fst acc + 1 then raise [Message ''restore incremental gap'']
      else and_then (get_required b (dc_key inc)) (\<lambda>data.
        and_then (apply_changeset_to_path cd data staged (snd acc)) (\<lambda>res. return (dc_seq inc, ar_checksum res))))"

definition restore_linear ::
    "'s backend \<Rightarrow> 's hadb \<Rightarrow> codec \<Rightarrow> string \<Rightarrow> string \<Rightarrow> string option \<Rightarrow> discovered \<Rightarrow> u64 option \<Rightarrow> string \<Rightarrow> u64 \<Rightarrow>
      ('s world, failure, u64 \<times> u64) action" where
  "restore_linear b h cd pre db_name lineage_id snapshot target_seq staged checksum =
     and_then (on_world (discover_after_in_namespace b h pre db_name lineage_id GENERATION_LIVE (dc_seq snapshot))) (\<lambda>found.
       fold_actions (apply_incremental b cd staged)
         (case target_seq of None \<Rightarrow> found | Some t \<Rightarrow> filter (\<lambda>d. dc_seq d \<le> t) found)
         (dc_seq snapshot, checksum))"

section \<open>Restore\<close>

record restore_result =
  rr_seq :: u64
  rr_checksum :: u64
  rr_db_name :: string
  rr_prefix :: string
  rr_output :: string
  rr_lineage_id :: "string option"
  rr_latest :: bool

definition restore_staged ::
    "ltx_reader \<Rightarrow> 's backend \<Rightarrow> 's hadb \<Rightarrow> codec \<Rightarrow> (bytes \<Rightarrow> bytes) \<Rightarrow> string \<Rightarrow> string \<Rightarrow> string option \<Rightarrow> discovered \<Rightarrow> u64 option \<Rightarrow> string \<Rightarrow> string \<Rightarrow>
      ('s world, failure, u64 \<times> u64) action" where
  "restore_staged rd b h cd sha256 pre db_name lineage_id snapshot target_seq staged out =
     and_then (get_required b (dc_key snapshot)) (\<lambda>data.
     and_then (decode_to_path cd sha256 data staged) (\<lambda>decoded.
     and_then (on_world (bucket_is_leveled rd b pre db_name lineage_id)) (\<lambda>leveled.
     and_then (if leveled
               then restore_leveled rd b h cd pre db_name lineage_id snapshot target_seq staged (ar_checksum decoded)
               else restore_linear b h cd pre db_name lineage_id snapshot target_seq staged (ar_checksum decoded)) (\<lambda>reached.
     and_then (verify_sqlite_integrity h staged) (\<lambda>_.
     and_then (rename_file staged out) (\<lambda>_. return reached))))))"

definition restore ::
    "ltx_reader \<Rightarrow> 's backend \<Rightarrow> 's hadb \<Rightarrow> codec \<Rightarrow> (bytes \<Rightarrow> bytes) \<Rightarrow> nat \<Rightarrow> nat \<Rightarrow> string \<Rightarrow> string \<Rightarrow> string \<Rightarrow> string \<Rightarrow> string option \<Rightarrow>
      ('s world, failure, restore_result) action" where
  "restore rd b h cd sha256 pid n pre db_name dir file point_in_time =
     and_then (from_result (parse_point_in_time_seq point_in_time)) (\<lambda>target_seq.
     and_then (on_world (active_lineage_id b h pre db_name)) (\<lambda>lineage_id.
     and_then (on_world (find_snapshot b h pre db_name lineage_id target_seq)) (\<lambda>snapshot.
     and_then (with_staged (staged_path dir file pid n)
        (restore_staged rd b h cd sha256 pre db_name lineage_id snapshot target_seq (staged_path dir file pid n) (output_path dir file))) (\<lambda>reached.
       return \<lparr>rr_seq = fst reached, rr_checksum = snd reached, rr_db_name = db_name, rr_prefix = pre, rr_output = output_path dir file,
               rr_lineage_id = lineage_id, rr_latest = (point_in_time = None)\<rparr>))))"

section \<open>What a restore computes\<close>

text \<open>Reference for the linear path: the listed objects applied in turn, each the next sequence number.\<close>

fun linear_applied :: "codec \<Rightarrow> (string \<rightharpoonup> bytes) \<Rightarrow> discovered list \<Rightarrow> u64 \<times> u64 \<times> bytes \<Rightarrow> (u64 \<times> u64 \<times> bytes) option" where
  "linear_applied cd objects [] acc = Some acc"
| "linear_applied cd objects (d # ds) (reached, checksum, db) =
     (if dc_seq d \<noteq> reached + 1 then None
      else case objects (dc_key d) of
        None \<Rightarrow> None
      | Some bs \<Rightarrow>
          (case apply_changeset_to_db cd bs (Some db) checksum of
             Inl e \<Rightarrow> None
           | Inr (db', res) \<Rightarrow> linear_applied cd objects ds (dc_seq d, ar_checksum res, db')))"

lemma linear_applied_snoc:
  "linear_applied cd objects ds acc = Some (reached, checksum, db) \<Longrightarrow> dc_seq d = reached + 1 \<Longrightarrow> objects (dc_key d) = Some bs \<Longrightarrow>
     apply_changeset_to_db cd bs (Some db) checksum = Inr (db', res) \<Longrightarrow>
     linear_applied cd objects (ds @ [d]) acc = Some (dc_seq d, ar_checksum res, db')"
  by (induction cd objects ds acc rule: linear_applied.induct) (auto split: option.splits sum.splits if_splits)

lemma linear_applied_reached:
  "linear_applied cd objects ds acc = Some (reached, checksum, db) \<Longrightarrow> reached = fst acc \<or> reached \<in> dc_seq ` set ds"
  by (induction cd objects ds acc rule: linear_applied.induct) (fastforce split: option.splits sum.splits if_splits)+

text \<open>
  The result of a successful restore: a stored snapshot decoded, then either the linear chain or a
  plan of level objects that tiles the way to the reached sequence number.
\<close>

definition restored_from ::
    "codec \<Rightarrow> (bytes \<Rightarrow> bytes) \<Rightarrow> (string \<rightharpoonup> bytes) \<Rightarrow> discovered \<Rightarrow> u64 \<Rightarrow> u64 \<Rightarrow> bytes \<Rightarrow> bool" where
  "restored_from cd sha256 objects snapshot reached checksum db \<longleftrightarrow>
     (\<exists>data base res. objects (dc_key snapshot) = Some data \<and> decode_to_db cd sha256 data = Inr (base, res) \<and>
        ((\<exists>ds. linear_applied cd objects ds (dc_seq snapshot, ar_checksum res, base) = Some (reached, checksum, db)) \<or>
         (\<exists>files. tiles (dc_seq snapshot) (map pc_range files) reached \<and>
            applied_in_order cd objects files (ar_checksum res, base) = Some (checksum, db))))"

lemma wp_on_world [wp_simps]:
  "wp (on_world m) Q E w = wp m (\<lambda>a s'. Q a (w\<lparr>w_store := s'\<rparr>)) (\<lambda>e s'. E e (w\<lparr>w_store := s'\<rparr>)) (w_store w)"
  by (simp add: on_world_def wp_on_store_with)

lemma wp_with_staged:
  "wp (with_staged path m) Q E w = wp m Q (\<lambda>e w'. E e (w'\<lparr>w_files := (w_files w')(path := None)\<rparr>)) w"
  by (simp add: with_staged_def wp_def remove_file_def split: prod.split sum.split)

context changeset_store
begin

text \<open>Worlds with the same objects that differ at most in the staged file.\<close>

definition calm :: "string \<Rightarrow> 's world \<Rightarrow> 's world \<Rightarrow> bool" where
  "calm st w w' \<longleftrightarrow> view (w_store w') = view (w_store w) \<and> staged_only st w w'"

lemma calm_refl: "view (w_store w') = view (w_store w) \<Longrightarrow> w_files w' = w_files w \<Longrightarrow> calm st w w'"
  by (simp add: calm_def staged_only_def)

lemma calm_store [simp]: "view s' = view (w_store w) \<Longrightarrow> calm st v (w\<lparr>w_store := s'\<rparr>) = calm st v w"
  by (simp add: calm_def staged_only_def)

lemma calm_write: "calm st v w \<Longrightarrow> w_store w' = w_store w \<Longrightarrow> w_files w' = (w_files w)(st := x) \<Longrightarrow> calm st v w'"
  by (simp add: calm_def staged_only_def)

lemma wp_get_required:
  assumes "\<And>d w'. view (w_store w') = view (w_store w) \<Longrightarrow> w_files w' = w_files w \<Longrightarrow> view (w_store w) k = Some d \<Longrightarrow> Q d w'"
    and "\<And>e w'. view (w_store w') = view (w_store w) \<Longrightarrow> w_files w' = w_files w \<Longrightarrow> e \<noteq> [Diverges] \<Longrightarrow> E e w'"
  shows "wp (get_required b k) Q E w"
  unfolding get_required_def wp_and_then wp_on_store
  by (rule wp_get) (auto simp: wp_simps intro!: assms split: option.split)

lemma wp_decode_to_path:
  assumes "\<And>f res w'. decode_to_db cd sha256 data = Inr (f, res) \<Longrightarrow> w_store w' = w_store w \<Longrightarrow> w_files w' = (w_files w)(st \<mapsto> f) \<Longrightarrow> Q res w'"
    and "\<And>e w'. calm st w w' \<Longrightarrow> e \<noteq> [Diverges] \<Longrightarrow> E e w'"
  shows "wp (decode_to_path cd sha256 data st) Q E w"
proof (cases "decode_to_db cd sha256 data")
  case (Inl e)
  then show ?thesis using assms(2) by (simp add: decode_to_path_def wp_raise calm_refl)
next
  case (Inr x)
  obtain f res where x: "x = (f, res)" by fastforce
  show ?thesis
    unfolding decode_to_path_def Inr x sum.case prod.case wp_and_then wp_return
    by (rule wp_write_file) (use assms Inr x in \<open>simp_all add: calm_def staged_only_def\<close>)
qed

lemma wp_apply_changeset_to_path:
  assumes "\<And>f res w'. apply_changeset_to_db cd data (w_files w st) ck = Inr (f, res) \<Longrightarrow> w_store w' = w_store w \<Longrightarrow> w_files w' = (w_files w)(st \<mapsto> f) \<Longrightarrow> Q res w'"
    and "\<And>e w'. calm st w w' \<Longrightarrow> e \<noteq> [Diverges] \<Longrightarrow> E e w'"
  shows "wp (apply_changeset_to_path cd data st ck) Q E w"
proof (cases "apply_changeset_to_db cd data (w_files w st) ck")
  case (Inl e)
  then show ?thesis using assms(2) by (simp add: apply_changeset_to_path_def wp_simps calm_refl)
next
  case (Inr x)
  obtain f res where x: "x = (f, res)" by fastforce
  show ?thesis
    unfolding apply_changeset_to_path_def wp_and_then wp_file_at Inr x sum.case prod.case wp_return
    by (rule wp_write_file) (use assms Inr x in \<open>simp_all add: calm_def staged_only_def\<close>)
qed

lemma calm_trans: "calm st u v \<Longrightarrow> calm st v w \<Longrightarrow> calm st u w"
  by (simp add: calm_def staged_only_def)

lemma wp_linear:
  assumes "w_files w st = Some db"
  shows "wp (fold_actions (apply_incremental b cd st) ds (reached, ck))
     (\<lambda>acc w'. calm st w w' \<and> (\<exists>db'. w_files w' st = Some db' \<and>
        linear_applied cd (view (w_store w)) ds (reached, ck, db) = Some (fst acc, snd acc, db')))
     (\<lambda>e w'. calm st w w' \<and> e \<noteq> [Diverges]) w"
  using assms
proof (induction ds arbitrary: reached ck db w)
  case Nil
  then show ?case by (simp add: wp_return calm_refl)
next
  case (Cons d ds)
  show ?case
  proof (cases "dc_seq d = reached + 1")
    case False
    then show ?thesis by (simp add: apply_incremental_def wp_simps calm_refl)
  next
    case True
    then have step: "apply_incremental b cd st d (reached, ck) =
        and_then (get_required b (dc_key d)) (\<lambda>data. and_then (apply_changeset_to_path cd data st ck) (\<lambda>res. return (dc_seq d, ar_checksum res)))"
      by (simp add: apply_incremental_def)
    show ?thesis
      unfolding fold_actions.simps step
    proof (rule wp_and_thenI, rule wp_and_thenI, rule wp_get_required, goal_cases)
      case (1 data w1)
      note w1 = 1
      show ?case
      proof (rule wp_and_thenI, rule wp_apply_changeset_to_path, goal_cases)
        case (1 f res w2)
        have w2: "view (w_store w2) = view (w_store w)" "calm st w w2" "w_files w2 st = Some f"
          using 1 w1 by (simp_all add: calm_def staged_only_def)
        have ap: "apply_changeset_to_db cd data (Some db) ck = Inr (f, res)" using 1 w1 Cons.prems by simp
        show ?case
          unfolding wp_return
          by (rule wp_mono [OF Cons.IH [OF w2(3)]]) (use w2 w1 ap True calm_trans in auto)
      next
        case (2 e w2)
        with w1 show ?case by (simp add: calm_def staged_only_def)
      qed
    next
      case (2 e w1)
      then show ?case by (simp add: calm_refl)
    qed
  qed
qed

lemma max_available_bounds: "base \<le> max_available cs base"
  by (induction cs) (auto simp: max_available_def intro: order_trans max.coboundedI2)

lemma wp_plan_leveled:
  assumes "\<And>plan s'. view s' = view s \<Longrightarrow> pl_floor plan = dc_seq snapshot \<Longrightarrow> tiles (dc_seq snapshot) (ranges_of (pl_files plan)) (pl_target plan) \<Longrightarrow>
      (\<And>t. target_seq = Some t \<Longrightarrow> pl_target plan = t) \<Longrightarrow> Q plan s'"
    and "\<And>e s'. view s' = view s \<Longrightarrow> e \<noteq> [Diverges] \<Longrightarrow> E e s'"
    and "\<And>t. target_seq = Some t \<Longrightarrow> dc_seq snapshot \<le> t"
  shows "wp (plan_leveled rd b h pre db lineage snapshot target_seq) Q E s"
proof -
  let ?gl = "\<lparr>gl_prefix = pre, gl_db_name = db, gl_ext = ''hadbp''\<rparr>"
  show ?thesis
    unfolding plan_leveled_def seq_layout_def
  proof (rule wp_and_thenI, unfold wp_map_error, rule wp_mono [OF gen.gather_sound], goal_cases)
    case (1 cs s1)
    let ?t = "case target_seq of Some t \<Rightarrow> t | None \<Rightarrow> max_available cs (dc_seq snapshot)"
    have t: "dc_seq snapshot \<le> ?t" using assms(3) max_available_bounds by (simp split: option.split)
    have "\<forall>r\<in>set (ranges_of cs). wf_range r" using 1 by auto
    from plan_restore_spec [OF this t] obtain res gs e where
      P: "plan_loop cs ?t (dc_seq snapshot) [] = Some res" "tiles (dc_seq snapshot) (ranges_of gs) e" "stopped cs ?t e gs res" by metis
    show ?case
    proof (cases "max_available cs (dc_seq snapshot) < ?t")
      case True
      then show ?thesis using assms(2) 1 by (simp add: Let_def wp_raise)
    next
      case False
      show ?thesis
      proof (cases res)
        case (Inl pe)
        have "wp (discover_latest_snapshot_in_namespace b h pre db lineage) R E s1" if "\<And>x s2. view s2 = view s \<Longrightarrow> R x s2" for R
          by (rule wp_latest_snapshot) (use that 1 assms(2) in auto)
        with False Inl P(1) 1 assms(2) show ?thesis
          by (simp add: Let_def returned_def plan_restore_def wp_simps split: plan_error.split)
      next
        case (Inr files)
        then have "files = gs \<and> e = ?t" using P(3) by (auto simp: stopped_def)
        with False Inr P 1 show ?thesis
          by (auto simp: Let_def returned_def plan_restore_def wp_simps intro!: assms(1))
      qed
    qed
  next
    case (2 e s1)
    then show ?case by (intro assms(2)) auto
  qed
qed

lemma wp_restore_linear:
  assumes "w_files w st = Some db" "\<And>t. target_seq = Some t \<Longrightarrow> dc_seq snapshot \<le> t"
  shows "wp (restore_linear b h cd pre db_name lineage snapshot target_seq st ck)
     (\<lambda>acc w'. calm st w w' \<and> (\<forall>t. target_seq = Some t \<longrightarrow> fst acc \<le> t) \<and>
        (\<exists>ds db'. w_files w' st = Some db' \<and> linear_applied cd (view (w_store w)) ds (dc_seq snapshot, ck, db) = Some (fst acc, snd acc, db')))
     (\<lambda>e w'. calm st w w' \<and> e \<noteq> [Diverges]) w"
  unfolding restore_linear_def
proof (rule wp_and_thenI, unfold wp_on_world, rule wp_discover, goal_cases)
  case (1 found s1)
  let ?ds = "case target_seq of None \<Rightarrow> found | Some t \<Rightarrow> filter (\<lambda>d. dc_seq d \<le> t) found" and ?w1 = "w\<lparr>w_store := s1\<rparr>"
  have "w_files ?w1 st = Some db" using assms(1) by simp
  from wp_linear [OF this] show ?case
  proof (rule wp_mono, goal_cases)
    case (1 acc w')
    then obtain db' where L: "w_files w' st = Some db'" "linear_applied cd (view s1) ?ds (dc_seq snapshot, ck, db) = Some (fst acc, snd acc, db')" by auto
    have "fst acc \<le> t" if "target_seq = Some t" for t
      using linear_applied_reached [OF L(2)] that assms(2) [OF that] by auto
    with 1 L show ?case using \<open>view s1 = view (w_store w)\<close> by (auto simp: calm_def staged_only_def)
  qed (use 1 in \<open>auto simp: calm_def staged_only_def\<close>)
next
  case (2 e s1)
  then show ?case by (simp add: calm_refl)
qed

lemma wp_restore_leveled:
  assumes "w_files w st = Some db" "\<And>t. target_seq = Some t \<Longrightarrow> dc_seq snapshot \<le> t"
  shows "wp (restore_leveled rd b h cd pre db_name lineage snapshot target_seq st ck)
     (\<lambda>acc w'. calm st w w' \<and> (\<forall>t. target_seq = Some t \<longrightarrow> fst acc = t) \<and>
        (\<exists>files db'. w_files w' st = Some db' \<and> tiles (dc_seq snapshot) (map pc_range files) (fst acc) \<and>
           applied_in_order cd (view (w_store w)) files (ck, db) = Some (snd acc, db')))
     (\<lambda>e w'. calm st w w' \<and> e \<noteq> [Diverges]) w"
  unfolding restore_leveled_def
proof (rule wp_and_thenI, unfold wp_on_world, rule wp_plan_leveled, goal_cases)
  case (1 plan s1)
  let ?w1 = "w\<lparr>w_store := s1\<rparr>" and ?run = "apply_plan_with_checksum (seq_layout rd b pre db_name) cd plan st ck DEFAULT_PREFETCH_DEPTH"
  obtain w2 r where run: "?run ?w1 = (w2, r)" by fastforce
  note S = gen.apply_plan_sound [OF run [unfolded seq_layout_def]]
  have c: "calm st w w2" using S 1(1) by (auto simp: calm_def staged_only_def)
  show ?case
    unfolding wp_and_then wp_return
    using S c 1 assms(1) run by (cases r) (auto simp: wp_def)
next
  case (2 e s1)
  then show ?case by (simp add: calm_refl)
qed (rule assms(2))

lemma wp_bucket_is_leveled:
  "wp (bucket_is_leveled rd b pre db_name lineage) (\<lambda>_ s'. view s' = view s) (\<lambda>e s'. view s' = view s \<and> e \<noteq> [Diverges]) s"
proof -
  have "wp (list_merged_ranges (seq_layout rd b pre db_name)) (\<lambda>_ s'. view s' = view s) (\<lambda>_ s'. view s' = view s) s"
    unfolding list_merged_ranges_def seq_layout_def
  proof (rule wp_fold_actions [where I = "\<lambda>_ s'. view s' = view s"], goal_cases)
    case (2 l out s1)
    show ?case by (rule wp_and_thenI, rule gen.wp_list_files) (use 2 in \<open>auto simp: wp_return\<close>)
  qed simp
  then show ?thesis
    unfolding bucket_is_leveled_def by (auto simp: wp_simps elim!: wp_mono)
qed

text \<open>Both ways of applying the objects after the snapshot.\<close>

definition reaches ::
    "codec \<Rightarrow> (bytes \<Rightarrow> bytes) \<Rightarrow> discovered \<Rightarrow> u64 option \<Rightarrow> string \<Rightarrow> 's world \<Rightarrow> u64 \<times> u64 \<Rightarrow> 's world \<Rightarrow> bool" where
  "reaches cd sha256 snapshot target_seq st w acc w' \<longleftrightarrow> calm st w w' \<and> (\<forall>t. target_seq = Some t \<longrightarrow> fst acc \<le> t) \<and>
     (\<exists>db. w_files w' st = Some db \<and> restored_from cd sha256 (view (w_store w)) snapshot (fst acc) (snd acc) db)"

lemma wp_apply_objects:
  assumes "view (w_store w) (dc_key snapshot) = Some data" "decode_to_db cd sha256 data = Inr (base, res)"
    and "calm st w w3" "w_files w3 st = Some base" "\<And>t. target_seq = Some t \<Longrightarrow> dc_seq snapshot \<le> t"
  shows "wp (if leveled then restore_leveled rd b h cd pre db_name lineage snapshot target_seq st (ar_checksum res)
      else restore_linear b h cd pre db_name lineage snapshot target_seq st (ar_checksum res))
    (reaches cd sha256 snapshot target_seq st w) (\<lambda>e w'. calm st w w' \<and> e \<noteq> [Diverges]) w3"
proof -
  let ?R = "reaches cd sha256 snapshot target_seq st w" and ?E = "\<lambda>e w'. calm st w w' \<and> e \<noteq> [Diverges]"
  have view: "view (w_store w3) = view (w_store w)" using assms(3) by (simp add: calm_def)
  have from_base: "restored_from cd sha256 (view (w_store w)) snapshot q c db"
    if "(\<exists>ds. linear_applied cd (view (w_store w)) ds (dc_seq snapshot, ar_checksum res, base) = Some (q, c, db)) \<or>
        (\<exists>files. tiles (dc_seq snapshot) (map pc_range files) q \<and> applied_in_order cd (view (w_store w)) files (ar_checksum res, base) = Some (c, db))" for q c db
    using that assms(1,2) unfolding restored_from_def by blast
  have "wp (restore_leveled rd b h cd pre db_name lineage snapshot target_seq st (ar_checksum res)) ?R ?E w3"
    by (rule wp_mono [OF wp_restore_leveled [OF assms(4,5)]]) (use assms(3) view calm_trans from_base in \<open>fastforce simp: reaches_def\<close>)+
  moreover have "wp (restore_linear b h cd pre db_name lineage snapshot target_seq st (ar_checksum res)) ?R ?E w3"
    by (rule wp_mono [OF wp_restore_linear [OF assms(4,5)]]) (use assms(3) view calm_trans from_base in \<open>fastforce simp: reaches_def\<close>)+
  ultimately show ?thesis by simp
qed

lemma wp_restore_staged:
  assumes "st \<noteq> out" "\<And>t. target_seq = Some t \<Longrightarrow> dc_seq snapshot \<le> t"
  shows "wp (restore_staged rd b h cd sha256 pre db_name lineage snapshot target_seq st out)
     (\<lambda>reached w'. view (w_store w') = view (w_store w) \<and> (\<forall>p. p \<noteq> st \<longrightarrow> p \<noteq> out \<longrightarrow> w_files w' p = w_files w p) \<and> w_files w' st = None \<and>
        (\<forall>t. target_seq = Some t \<longrightarrow> fst reached \<le> t) \<and>
        (\<exists>db. w_files w' out = Some db \<and> h_integrity_check h db = Inr () \<and>
           restored_from cd sha256 (view (w_store w)) snapshot (fst reached) (snd reached) db))
     (\<lambda>e w'. calm st w w' \<and> e \<noteq> [Diverges]) w"
  unfolding restore_staged_def
proof (rule wp_and_thenI, rule wp_get_required, goal_cases)
  case (1 data w1)
  note w1 = 1
  show ?case
  proof (rule wp_and_thenI, rule wp_decode_to_path, goal_cases)
    case (1 base res w2)
    note w2 = 1
    have c2: "calm st w w2" "w_files w2 st = Some base" using w1 w2 by (simp_all add: calm_def staged_only_def)
    let ?E = "\<lambda>e w'. calm st w w' \<and> e \<noteq> [Diverges]"
    show ?case
    proof (rule wp_and_thenI, unfold wp_on_world, rule wp_mono [OF wp_bucket_is_leveled], goal_cases)
      case (1 leveled s3)
      let ?w3 = "w2\<lparr>w_store := s3\<rparr>"
      show ?case
      proof (rule wp_and_thenI, rule wp_mono [OF wp_apply_objects [OF w1(3) w2(1) _ _ assms(2)]], goal_cases)
        case (4 acc w4)
        then obtain db where db: "calm st w w4" "w_files w4 st = Some db" "restored_from cd sha256 (view (w_store w)) snapshot (fst acc) (snd acc) db"
          "\<forall>t. target_seq = Some t \<longrightarrow> fst acc \<le> t" unfolding reaches_def by auto
        have rename: "wp (rename_file st out) (\<lambda>_. wp (return acc)
            (\<lambda>reached w'. view (w_store w') = view (w_store w) \<and> (\<forall>p. p \<noteq> st \<longrightarrow> p \<noteq> out \<longrightarrow> w_files w' p = w_files w p) \<and> w_files w' st = None \<and>
              (\<forall>t. target_seq = Some t \<longrightarrow> fst reached \<le> t) \<and>
              (\<exists>db. w_files w' out = Some db \<and> h_integrity_check h db = Inr () \<and>
                 restored_from cd sha256 (view (w_store w)) snapshot (fst reached) (snd reached) db)) ?E) ?E w4"
          if "h_integrity_check h db = Inr ()"
          by (rule wp_rename_file) (use db that assms(1) in \<open>auto simp: wp_return calm_def staged_only_def\<close>)
        show ?case
          unfolding verify_sqlite_integrity_def
          using db rename by (cases "h_integrity_check h db") (simp_all add: wp_and_then wp_file_at wp_raise wp_return)
      qed (use 1 w1 w2 c2 in \<open>auto simp: calm_def staged_only_def\<close>)
    next
      case (2 e s3)
      then show ?case using c2(1) w1 w2 by (simp add: calm_def staged_only_def)
    qed
  next
    case (2 e w2)
    then show ?case using w1 by (simp add: calm_def staged_only_def)
  qed
next
  case (2 e w1)
  then show ?case by (simp add: calm_refl)
qed

lemma wp_find_snapshot:
  assumes "\<And>d s'. view s' = view s \<Longrightarrow> (\<And>t. target_seq = Some t \<Longrightarrow> dc_seq d \<le> t) \<Longrightarrow> Q d s'" "\<And>e s'. view s' = view s \<Longrightarrow> e \<noteq> [Diverges] \<Longrightarrow> E e s'"
  shows "wp (find_snapshot b h pre db_name lineage target_seq) Q E s"
proof (cases target_seq)
  case None
  show ?thesis
    unfolding find_snapshot_def None option.case
    by (rule wp_and_thenI, rule wp_latest_snapshot) (auto simp: wp_simps None intro!: assms split: option.split)
next
  case (Some t)
  show ?thesis
    unfolding find_snapshot_def Some option.case
    by (rule wp_and_thenI, rule wp_snapshot_at_or_before) (auto simp: wp_simps Some intro!: assms split: option.split)
qed

lemma restore_sound:
  "wp (restore rd b h cd sha256 pid n pre db_name dir file pit)
     (\<lambda>res w'. view (w_store w') = view (w_store w) \<and>
        (\<forall>p. p \<noteq> staged_path dir file pid n \<longrightarrow> p \<noteq> output_path dir file \<longrightarrow> w_files w' p = w_files w p) \<and> w_files w' (staged_path dir file pid n) = None \<and>
        (\<forall>t. parse_point_in_time_seq pit = Inr (Some t) \<longrightarrow> rr_seq res \<le> t) \<and>
        (\<exists>db snapshot. w_files w' (output_path dir file) = Some db \<and> h_integrity_check h db = Inr () \<and>
           restored_from cd sha256 (view (w_store w)) snapshot (rr_seq res) (rr_checksum res) db))
     (\<lambda>e w'. view (w_store w') = view (w_store w) \<and> (\<forall>p. p \<noteq> staged_path dir file pid n \<longrightarrow> w_files w' p = w_files w p) \<and>
        (w_files w (staged_path dir file pid n) = None \<longrightarrow> w_files w' (staged_path dir file pid n) = None) \<and> e \<noteq> [Diverges]) w"
proof (cases "parse_point_in_time_seq pit")
  case (Inl e)
  then have "e \<noteq> [Diverges]" by (auto simp: parse_point_in_time_seq_def split: option.splits)
  with Inl show ?thesis by (simp add: restore_def wp_simps)
next
  case (Inr target_seq)
  let ?st = "staged_path dir file pid n"
  show ?thesis
    unfolding restore_def Inr
  proof (rule wp_and_thenI, unfold wp_from_result sum.case, rule wp_and_thenI, unfold wp_on_world, rule wp_active_lineage, goal_cases)
    case (1 lineage s1)
    note s1 = 1
    show ?case
    proof (rule wp_and_thenI, unfold wp_on_world, rule wp_find_snapshot, goal_cases)
      case (1 snapshot s2)
      let ?w2 = "w\<lparr>w_store := s1\<rparr>\<lparr>w_store := s2\<rparr>"
      have v: "view (w_store ?w2) = view (w_store w)" "w_files ?w2 = w_files w" using 1 s1 by simp_all
      show ?case
        unfolding wp_and_then wp_with_staged
        by (rule wp_mono [OF wp_restore_staged [OF staged_not_output(1) 1(2)]])
          (use v in \<open>auto simp: wp_return calm_def staged_only_def\<close>)
    qed (use s1 in auto)
  qed auto
qed

end


section \<open>A concrete bucket\<close>

lemma hex4_generations: "hex_pad 4 0 = ''0000''" "hex_pad 4 1 = ''0001''" "hex_pad 4 (Suc 0) = ''0001''"
  by (simp_all add: hex_pad_def hex_str.simps hex_digit_def numeral_3_eq_3)

lemma discovered_of_key:
  assumes "after < s"
  shows "discovered_of gp ext after (gp @ hex_pad 16 (unat s) @ CHR ''.'' # ext) = Some \<lparr>dc_key = gp @ hex_pad 16 (unat s) @ CHR ''.'' # ext, dc_seq = s\<rparr>"
  using assms strip_suffix_append [of "hex_pad 16 (unat s)" "''.'' @ ext"]
  by (simp add: discovered_of_def strip_prefix_def)

text \<open>A lineage bucket that holds one snapshot, at sequence number 1.\<close>

definition demo_snapshot :: changeset where
  "demo_snapshot = demo_changeset [\<lparr>pe_page_id = PageU32 1, pe_data = replicate 512 5\<rparr>]"

definition demo_hadb :: "(string \<times> bytes) list hadb" where
  "demo_hadb = listing_hadb alist_backend (\<lambda>_. Inr (Some ''l'')) (\<lambda>_. Inr ())"

lemma demo_hadb_fields [simp]:
  "h_ext demo_hadb = ''hadbp''" "h_parse_state demo_hadb x = Inr (Some ''l'')" "h_integrity_check demo_hadb x = Inr ()"
  by (simp_all add: demo_hadb_def listing_hadb_def)

definition demo_snapshot_key :: string where
  "demo_snapshot_key = ''app/lineages/l/0001/'' @ hex_pad 16 (unat (1 :: u64)) @ ''.hadbp''"

definition demo_bucket :: "(string \<times> bytes) list" where
  "demo_bucket = [(''app/state.json'', []), (demo_snapshot_key, demo_encode demo_snapshot)]"

lemma demo_decodes: "decode_to_db (demo_codec demo_snapshot) (\<lambda>x. x) (demo_encode demo_snapshot) = Inr (replicate 512 5, \<lparr>ar_header = cs_header demo_snapshot, ar_checksum = u64_from_be (replicate 8 5)\<rparr>)"
proof -
  have ok: "validate_sqlite_changeset demo_snapshot = Inr ()"
    by (simp add: demo_snapshot_def validate_sqlite_changeset_def validate_page_size_iff SQLITE_PAGE_SIZES_def demo_changeset_def demo_header_def
        changeset_end_page_count_def marker_flag_set_def Let_def)
  have "decode_sqlite_changeset (demo_codec demo_snapshot) (c_encode (demo_codec demo_snapshot) demo_snapshot) = Inr demo_snapshot"
    by (rule decode_encoded [OF demo_roundtrips ok]) (simp_all add: demo_snapshot_def demo_changeset_def demo_header_def)
  then have dec: "decode_sqlite_changeset (demo_codec demo_snapshot) (demo_encode demo_snapshot) = Inr demo_snapshot" by (simp add: demo_codec_def)
  have f: "feed_blocks [] (replicate 512 (5 :: u8)) = replicate 512 5"
    by (subst feed_blocks.simps) (simp add: feed_blocks.simps)
  show ?thesis
    unfolding decode_to_db_def dec
    by (simp add: demo_snapshot_def demo_changeset_def demo_header_def changeset_end_page_count_def marker_flag_set_def validate_page_size_iff
        SQLITE_PAGE_SIZES_def MAX_DECODED_DB_BYTES_def write_snapshot_changeset_atomically_def sqlite_page_offset_def write_at_def zeros_def Let_def
        compute_checksum_from_file_def f finalize_def)
qed

lemma demo_lists:
  "b_list alist_backend ''app/lineages/l/0001/'' (Some (''app/lineages/l/0001/'' @ hex_pad 16 0 @ ''.hadbp'')) demo_bucket = (demo_bucket, Inr [demo_snapshot_key])"
  "b_list alist_backend ''app/lineages/l/0000/'' after demo_bucket = (demo_bucket, Inr [])"
proof -
  have "hex_pad 16 (unat (0 :: u64)) @ ''.hadbp'' < hex_pad 16 (unat (1 :: u64)) @ ''.hadbp''"
    by (intro list_less_append_same hex16_mono) (simp_all only: length_hex16, simp)
  then show "b_list alist_backend ''app/lineages/l/0001/'' (Some (''app/lineages/l/0001/'' @ hex_pad 16 0 @ ''.hadbp'')) demo_bucket = (demo_bucket, Inr [demo_snapshot_key])"
    "b_list alist_backend ''app/lineages/l/0000/'' after demo_bucket = (demo_bucket, Inr [])"
    by (simp_all add: alist_backend_def demo_bucket_def demo_snapshot_key_def)
qed

lemma demo_discovered:
  "discovered_of ''app/lineages/l/0001/'' ''hadbp'' 0 demo_snapshot_key = Some \<lparr>dc_key = demo_snapshot_key, dc_seq = 1\<rparr>"
  using discovered_of_key [of 0 1 "''app/lineages/l/0001/''" "''hadbp''"] by (simp add: demo_snapshot_key_def)

lemma demo_find:
  "find_snapshot alist_backend demo_hadb [] ''app'' (Some ''l'') (Some 9) demo_bucket = (demo_bucket, Inr \<lparr>dc_key = demo_snapshot_key, dc_seq = 1\<rparr>)"
  using demo_lists(1)
  by (simp add: find_snapshot_def discover_latest_snapshot_at_or_before_in_namespace_def discover_after_in_namespace_def gen_prefix_of_def
      lineage_generation_prefix_def GENERATION_SNAPSHOT_def GENERATION_LIVE_def hex4_generations storage_op_def map_error_def and_then_def return_def
      List.map_filter_simps demo_discovered Let_def)


text \<open>
  A point in time beyond the newest object of a bucket without levels: the restore reports success at
  the newest sequence number, here 1 for the requested 9.
\<close>

lemma pitr_beyond_newest_restores_newest:
  "\<exists>w' res. restore demo_no_ltx alist_backend demo_hadb (demo_codec demo_snapshot) (\<lambda>x. x) 42 0 [] ''app'' ''out'' ''app.db'' (Some ''9'')
       \<lparr>w_store = demo_bucket, w_files = Map.empty, w_faults = []\<rparr> = (w', Inr res) \<and> rr_seq res = 1"
proof -
  let ?w = "\<lparr>w_store = demo_bucket, w_files = Map.empty, w_faults = []\<rparr>" and ?st = "staged_path ''out'' ''app.db'' 42 0"
  let ?w1 = "\<lparr>w_store = demo_bucket, w_files = [?st \<mapsto> replicate 512 5], w_faults = []\<rparr>"
  have lin: "on_world (active_lineage_id alist_backend demo_hadb [] ''app'') ?w = (?w, Inr (Some ''l''))"
    by (simp add: on_world_def on_store_with_def active_lineage_id_def state_key_def demo_bucket_def alist_backend_def map_error_def and_then_def return_def)
  have snap: "on_world (find_snapshot alist_backend demo_hadb [] ''app'' (Some ''l'') (Some 9)) ?w = (?w, Inr \<lparr>dc_key = demo_snapshot_key, dc_seq = 1\<rparr>)"
    using demo_find by (simp add: on_world_def on_store_with_def)
  have get: "get_required alist_backend demo_snapshot_key ?w = (?w, Inr (demo_encode demo_snapshot))"
    by (simp add: get_required_def on_store_def on_store_with_def and_then_def return_def alist_backend_def demo_bucket_def demo_snapshot_key_def)
  have dec: "\<exists>res. decode_to_path (demo_codec demo_snapshot) (\<lambda>x. x) (demo_encode demo_snapshot) ?st ?w = (?w1, Inr res)"
    by (simp add: decode_to_path_def demo_decodes write_file_def next_fault_def and_then_def return_def)
  have flat: "on_world (bucket_is_leveled demo_no_ltx alist_backend [] ''app'' (Some ''l'')) ?w1 = (?w1, Inr False)"
    by (simp add: on_world_def on_store_with_def bucket_is_leveled_def return_def)
  have linear: "restore_linear alist_backend demo_hadb (demo_codec demo_snapshot) [] ''app'' (Some ''l'') \<lparr>dc_key = demo_snapshot_key, dc_seq = 1\<rparr> (Some 9) ?st ck ?w1 = (?w1, Inr (1, ck))" for ck
    using demo_lists(2)
    by (simp add: restore_linear_def on_world_def on_store_with_def discover_after_in_namespace_def gen_prefix_of_def lineage_generation_prefix_def
        GENERATION_LIVE_def hex4_generations storage_op_def map_error_def and_then_def return_def List.map_filter_simps Let_def)
  obtain res where "decode_to_path (demo_codec demo_snapshot) (\<lambda>x. x) (demo_encode demo_snapshot) ?st ?w = (?w1, Inr res)" using dec by blast
  then show ?thesis
    by (simp add: restore_def parse_point_in_time_seq_def parse_u64_def from_result_def and_then_def return_def lin snap with_staged_def restore_staged_def
        get flat linear verify_sqlite_integrity_def file_at_def rename_file_def next_fault_def)
qed


end
