(* ===== verification/HadbpCodec.thy ===== *)
theory HadbpCodec
  imports Merge
begin

text \<open>
  The contract of the third-party HADBP codec, as a locale: what the encoders and decoders of
  \<^verbatim>\<open>ltx.rs\<close> rely on for every changeset they write.  The clients' lemmas say that what an encoder of
  \<^verbatim>\<open>ltx.rs\<close> wrote, the matching decoder applies.  The instance \<open>wire_codec\<close> writes the version 1 layout
  (header of 40 bytes, pages as identifier, length and data, trailing checksum) that the sources
  parse themselves in \<^verbatim>\<open>preflight_hadbp_header\<close> and in the compaction streams; its checksum function
  and its clock are arguments.
\<close>

lemma write_pages_total:
  assumes "psz \<in> SQLITE_PAGE_SIZES" "ids_u32 pages" "\<forall>p\<in>set pages. pid_u64 (pe_page_id p) \<noteq> 0"
  shows "\<exists>f'. write_pages psz pages f = Inr f'"
  using assms(2,3)
proof (induction pages arbitrary: f)
  case (Cons p pages)
  then obtain v where v: "pe_page_id p = PageU32 v" by (auto simp: ids_u32_def)
  have "sqlite_page_offset (pid_u64 (pe_page_id p)) psz = Inr ((unat (pid_u64 (pe_page_id p)) - 1) * unat psz)"
    using Cons.prems v unat_u32_less [of v] by (intro sqlite_page_offset_ok [OF assms(1)]) (auto simp: unat_ucast_u32)
  then show ?case using Cons by (simp add: ids_u32_def)
qed simp

lemma apply_decoded_total:
  assumes ids: "ids_u32 (cs_pages cs)" and ok: "validate_sqlite_changeset cs = Inr ()"
  shows "\<exists>f'. apply_decoded_changeset_to_db cs (Some f) = Inr f'"
proof -
  let ?psz = "ph_page_size (cs_header cs)"
  from ok obtain epc where psz: "?psz \<in> SQLITE_PAGE_SIZES" and epc: "changeset_end_page_count cs = Inr epc"
    and pages: "end_pages_ok (unat ?psz) epc (cs_pages cs)" by (auto simp: validate_ok_iff)
  obtain f1 where f1: "write_pages ?psz (cs_pages cs) f = Inr f1"
    using write_pages_total [OF psz ids] pages by (auto simp: end_pages_ok_def)
  have "unat e * unat ?psz < 2 ^ 64" if "epc = Some e" for e
  proof -
    have "unat e < 2 ^ 32"
      using epc that ids epc_bound [of "cs_pages cs" "ph_flags (cs_header cs)" None e]
      by (auto simp: changeset_end_page_count_def split: if_splits)
    then have "unat e * unat ?psz \<le> 2 ^ 32 * 65536"
      using page_size_bounds [OF psz] by (intro mult_le_mono) auto
    then show ?thesis by simp
  qed
  then show ?thesis
    using ok f1 epc psz by (auto simp: apply_decoded_changeset_to_db_def validate_page_size_iff Let_def split: option.split)
qed

definition flagged :: "u8 \<Rightarrow> changeset \<Rightarrow> changeset" where
  "flagged fl cs = cs\<lparr>cs_header := (cs_header cs)\<lparr>ph_flags := fl\<rparr>\<rparr>"

definition sized_entries :: "page_entry list \<Rightarrow> bool" where
  "sized_entries es \<longleftrightarrow> length es < 2 ^ 32 \<and> (\<forall>p\<in>set es. has_id_size IdU32 p \<and> length (pe_data p) < 2 ^ 32)"

locale hadbp_codec =
  fixes cd :: codec
  assumes new_ok: "new_changeset_ok cd seq prev psz es"
    and roundtrips: "sized_entries es \<Longrightarrow> codec_roundtrips cd (flagged fl (c_new cd seq prev IdU32 psz es))"
    and verifies: "c_verify_chain cd prev (flagged fl (c_new cd seq prev IdU32 psz es))"
    and verify_prev: "\<And>expected cs. c_verify_chain cd expected cs \<Longrightarrow> ph_prev_checksum (cs_header cs) = expected"
    and decoded_verifies: "\<And>bs cs. c_decode cd bs = Inr cs \<Longrightarrow> c_verify_chain cd (ph_prev_checksum (cs_header cs)) cs"
    and decoded_ids: "\<And>bs cs. c_decode cd bs = Inr cs \<Longrightarrow> ph_page_id_size (cs_header cs) = IdU32 \<Longrightarrow> ids_u32 (cs_pages cs)"
begin

lemma flagged_new: "flagged 0 (c_new cd seq prev IdU32 psz es) = c_new cd seq prev IdU32 psz es"
  using new_ok [of seq prev psz es] by (simp add: flagged_def new_changeset_ok_def Let_def)

text \<open>A snapshot written by \<^verbatim>\<open>encode_snapshot_with_checksum\<close> is decoded to the same file.\<close>

lemma snapshot_decodes:
  assumes "encode_snapshot_with_checksum cd sha256 (Some f) psz seq prev = Inr es" "length f \<le> MAX_DECODED_DB_BYTES"
  shows "\<exists>r. decode_to_db cd sha256 (es_bytes es) = Inr (f, r) \<and> ar_checksum r = es_checksum es"
proof -
  let ?ps = "unat psz" and ?n = "length f div unat psz"
  have psz: "psz \<in> SQLITE_PAGE_SIZES" and n: "?n < 2 ^ 32"
    using assms(1) by (auto simp: encode_snapshot_with_checksum_def validate_page_size_iff Let_def split: if_splits)
  have "?ps < 2 ^ 32" using unat_u32_less [of psz] by simp
  then have "sized_entries (snapshot_pages ?ps ?n f)"
    using n by (auto simp: sized_entries_def snapshot_pages_def has_id_size_def)
  from roundtrips [OF this, of 0] new_ok decode_encoded_snapshot [OF assms(1) _ _ assms(2)]
  show ?thesis by (fastforce simp: flagged_new)
qed

text \<open>An incremental written with an end page count applies to any database of the same page size.\<close>

lemma incremental_applies:
  assumes enc: "encode_wal_changes_with_end_page_count cd pages psz seq prev epc = Inr (b, c)"
    and "distinct (map fst pages)" "page_list (unat psz) L"
  shows "\<exists>L' r. apply_changeset_to_db cd b (Some (concat L)) prev = Inr (concat L', r) \<and>
    page_list (unat psz) L' \<and> length L' = unat epc \<and>
    (\<forall>i<unat epc. L' ! i =
       (case map_of (map (\<lambda>(n, d). (unat n - 1, d)) pages) i of
          Some d \<Rightarrow> d | None \<Rightarrow> if i < length L then L ! i else zeros (unat psz))) \<and>
    ar_checksum r = c \<and> ph_seq (ar_header r) = seq"
proof -
  let ?E = "wal_entries pages @ [wal_marker epc]"
  have chk: "check_wal_pages psz epc pages = Inr ()" and epc: "unat epc < 2 ^ 32 - 1"
    using enc by (auto simp: encode_wal_changes_with_end_page_count_def encode_wal_changes_inner_def not_le split: if_splits)
  have nums: "n \<noteq> 0 \<and> unat n \<le> unat epc" if "(n, d) \<in> set pages" for n d
    using chk that by (auto simp: check_wal_pages_ok word_le_nat_alt unat_ucast_u32)
  have "unat ` set (map fst pages) \<subseteq> {0<..unat epc}"
    using nums by (auto simp: unat_gt_0)
  then have "card (unat ` set (map fst pages)) \<le> unat epc"
    using card_mono [of "{0<..unat epc}"] by auto
  moreover have "card (unat ` set (map fst pages)) = length pages"
    using distinct_card [OF assms(2)] by (subst card_image) (auto simp: inj_on_def word_unat_eq_iff)
  ultimately have len: "length pages < 2 ^ 32 - 1" using epc by linarith
  have "unat psz < 2 ^ 32" using unat_u32_less [of psz] by simp
  then have "sized_entries ?E"
    using chk len by (fastforce simp: sized_entries_def has_id_size_def wal_marker_def wal_entries_def check_wal_pages_ok)
  from apply_encoded_changes [OF enc assms(2,3) new_ok refl _ _ len] roundtrips [OF this, of 1] verifies [of prev 1]
  show ?thesis by (fastforce simp: flagged_def Let_def)
qed

end

context hadbp_codec
begin

text \<open>A decoded changeset that links to the running checksum applies to every file.\<close>

lemma decoded_applies:
  assumes dec: "decode_sqlite_changeset cd bs = Inr cs" and prev: "ph_prev_checksum (cs_header cs) = c"
  shows "\<exists>f'. apply_changeset_to_db cd bs (Some f) c = Inr (f', \<lparr>ar_header = cs_header cs, ar_checksum = cs_checksum cs\<rparr>)"
proof -
  have d: "c_decode cd bs = Inr cs" and valid: "validate_sqlite_changeset cs = Inr ()"
    using dec by (auto simp: decode_sqlite_changeset_def split: if_splits) (cases "c_decode cd bs"; simp)+
  have ids: "ids_u32 (cs_pages cs)" using d valid by (intro decoded_ids) (auto simp: validate_ok_iff)
  obtain f' where "apply_decoded_changeset_to_db cs (Some f) = Inr f'" using apply_decoded_total [OF ids valid] by blast
  then show ?thesis using dec decoded_verifies [OF d] prev by (simp add: apply_changeset_to_db_def)
qed

lemma incremental_decodes:
  assumes "encode_wal_changes_with_end_page_count cd pages psz seq prev epc = Inr (b, c)" "distinct (map fst pages)"
  shows "\<exists>cs. decode_sqlite_changeset cd b = Inr cs \<and> ph_seq (cs_header cs) = seq \<and> ph_prev_checksum (cs_header cs) = prev \<and> cs_checksum cs = c"
proof -
  have "page_list (unat psz) []" by (simp add: page_list_def)
  from incremental_applies [OF assms this] show ?thesis
    by (auto simp: apply_changeset_to_db_def split: if_splits dest: verify_prev)
qed

end

section \<open>An instance\<close>

definition wire_header :: "physical_header \<Rightarrow> bytes" where
  "wire_header h =
     HADBP_MAGIC @ [1, ph_flags h, word_of_nat (pid_len (ph_page_id_size h))] @ u32_to_be (ph_page_size h) @ u64_to_be (ph_seq h) @
     u64_to_be (ph_prev_checksum h) @ u32_to_be (ph_page_count h) @ i64_to_be (ph_created_ms h)"

definition wire_encode :: "changeset \<Rightarrow> bytes" where
  "wire_encode cs = wire_header (cs_header cs) @ concat (map page_bytes (cs_pages cs)) @ u64_to_be (cs_checksum cs)"

text \<open>Pages until the count is used up; then the trailer must be the rest.\<close>

fun wire_pages :: "nat \<Rightarrow> bytes \<Rightarrow> (page_entry list \<times> bytes) option" where
  "wire_pages 0 bs = Some ([], bs)"
| "wire_pages (Suc n) bs =
     (let len = unat (u32_from_be (slice bs 4 4)) in
      if length bs < 8 + len then None
      else map_option (\<lambda>(ps, rest). (\<lparr>pe_page_id = PageU32 (u32_from_be (slice bs 0 4)), pe_data = slice bs 8 len\<rparr> # ps, rest))
             (wire_pages n (drop (8 + len) bs)))"

definition wire_decode :: "(u64 \<Rightarrow> page_entry list \<Rightarrow> u64) \<Rightarrow> bytes \<Rightarrow> string + changeset" where
  "wire_decode ck bs =
     (if length bs < 48 \<or> slice bs 0 5 \<noteq> HADBP_MAGIC \<or> bs ! 5 \<noteq> 1 \<or> bs ! 7 \<noteq> 4 then Inl ''not a version 1 changeset with 32-bit pages''
      else case wire_pages (unat (u32_from_be (slice bs 28 4))) (drop 40 bs) of
        None \<Rightarrow> Inl ''truncated pages''
      | Some (ps, rest) \<Rightarrow>
          if length rest \<noteq> 8 then Inl ''bad trailer''
          else if u64_from_be rest \<noteq> ck (u64_from_be (slice bs 20 8)) ps then Inl ''content checksum mismatch''
          else Inr \<lparr>cs_header = \<lparr>ph_flags = bs ! 6, ph_page_id_size = IdU32, ph_page_size = u32_from_be (slice bs 8 4),
                      ph_seq = u64_from_be (slice bs 12 8), ph_prev_checksum = u64_from_be (slice bs 20 8),
                      ph_page_count = u32_from_be (slice bs 28 4), ph_created_ms = i64_from_be (slice bs 32 8)\<rparr>,
                    cs_pages = ps, cs_checksum = u64_from_be rest\<rparr>)"

definition wire_codec :: "(u64 \<Rightarrow> page_entry list \<Rightarrow> u64) \<Rightarrow> u64 \<Rightarrow> codec" where
  "wire_codec ck now =
     \<lparr>c_decode = wire_decode ck, c_encode = wire_encode,
      c_new = (\<lambda>seq prev ids psz ps.
        \<lparr>cs_header = \<lparr>ph_flags = 0, ph_page_id_size = ids, ph_page_size = psz, ph_seq = seq, ph_prev_checksum = prev,
           ph_page_count = word_of_nat (length ps), ph_created_ms = sint now\<rparr>,
         cs_pages = ps, cs_checksum = ck prev ps\<rparr>),
      c_verify_chain = (\<lambda>prev cs. ph_prev_checksum (cs_header cs) = prev \<and> cs_checksum cs = ck prev (cs_pages cs)),
      c_chain_end = cs_checksum, c_is_compacted = (\<lambda>cs. False), c_compute_checksum = (\<lambda>prev ids ps. ck prev ps)\<rparr>"

lemma length_wire_header [simp]: "length (wire_header h) = 40"
  by (simp add: wire_header_def HADBP_MAGIC_def i64_to_be_def)

lemma page_bytes_u32: "has_id_size IdU32 p \<Longrightarrow> \<exists>v. pe_page_id p = PageU32 v \<and>
    page_bytes p = u32_to_be v @ u32_to_be (word_of_nat (length (pe_data p))) @ pe_data p"
  by (cases "pe_page_id p") (auto simp: has_id_size_def page_bytes_def)

lemma wire_pages_encoded:
  assumes "\<forall>p\<in>set ps. has_id_size IdU32 p \<and> length (pe_data p) < 2 ^ 32"
  shows "wire_pages (length ps) (concat (map page_bytes ps) @ rest) = Some (ps, rest)"
  using assms
proof (induction ps)
  case (Cons p ps)
  then obtain v where v: "pe_page_id p = PageU32 v"
      "page_bytes p = u32_to_be v @ u32_to_be (word_of_nat (length (pe_data p))) @ pe_data p"
    using page_bytes_u32 by fastforce
  let ?bs = "page_bytes p @ concat (map page_bytes ps) @ rest"
  have len: "unat (word_of_nat (length (pe_data p)) :: u32) = length (pe_data p)"
    using Cons.prems by (simp add: unat_of_nat)
  have "slice ?bs 0 4 = u32_to_be v" "slice ?bs 4 4 = u32_to_be (word_of_nat (length (pe_data p)))"
      "slice ?bs 8 (length (pe_data p)) = pe_data p" "drop (8 + length (pe_data p)) ?bs = concat (map page_bytes ps) @ rest"
    by (simp_all add: v slice_skip slice_head)
  then show ?case using Cons v len by (simp add: Let_def)
qed simp

lemma wire_pages_ids: "wire_pages n bs = Some (ps, rest) \<Longrightarrow> p \<in> set ps \<Longrightarrow> \<exists>v. pe_page_id p = PageU32 v"
  by (induction n bs arbitrary: ps rest rule: wire_pages.induct) (auto simp: Let_def split: if_splits)

lemma wire_header_fields:
  assumes "ph_page_id_size h = IdU32"
  shows "slice (wire_header h @ r) 0 5 = HADBP_MAGIC" "(wire_header h @ r) ! 5 = 1" "(wire_header h @ r) ! 6 = ph_flags h"
    "(wire_header h @ r) ! 7 = 4" "slice (wire_header h @ r) 8 4 = u32_to_be (ph_page_size h)"
    "slice (wire_header h @ r) 12 8 = u64_to_be (ph_seq h)" "slice (wire_header h @ r) 20 8 = u64_to_be (ph_prev_checksum h)"
    "slice (wire_header h @ r) 28 4 = u32_to_be (ph_page_count h)" "slice (wire_header h @ r) 32 8 = i64_to_be (ph_created_ms h)"
proof -
  have len: "length HADBP_MAGIC = 5" "\<And>x. length (i64_to_be x) = 8" by (simp_all add: HADBP_MAGIC_def i64_to_be_def)
  define pre where "pre = HADBP_MAGIC @ [1, ph_flags h, 4]"
  have pre: "length pre = 8" by (simp add: pre_def HADBP_MAGIC_def)
  have w: "wire_header h @ r = pre @ u32_to_be (ph_page_size h) @ u64_to_be (ph_seq h) @
      u64_to_be (ph_prev_checksum h) @ u32_to_be (ph_page_count h) @ i64_to_be (ph_created_ms h) @ r"
    using assms by (simp add: wire_header_def pre_def)
  show "slice (wire_header h @ r) 0 5 = HADBP_MAGIC" "(wire_header h @ r) ! 5 = 1" "(wire_header h @ r) ! 6 = ph_flags h"
    "(wire_header h @ r) ! 7 = 4"
    unfolding w pre_def by (simp_all add: slice_def HADBP_MAGIC_def)
  show "slice (wire_header h @ r) 8 4 = u32_to_be (ph_page_size h)"
    "slice (wire_header h @ r) 12 8 = u64_to_be (ph_seq h)" "slice (wire_header h @ r) 20 8 = u64_to_be (ph_prev_checksum h)"
    "slice (wire_header h @ r) 28 4 = u32_to_be (ph_page_count h)" "slice (wire_header h @ r) 32 8 = i64_to_be (ph_created_ms h)"
    unfolding w by (simp_all add: slice_skip slice_head len pre)
qed

lemma wire_roundtrips:
  assumes ids: "ph_page_id_size (cs_header cs) = IdU32" and cnt: "unat (ph_page_count (cs_header cs)) = length (cs_pages cs)"
    and ck: "cs_checksum cs = ck (ph_prev_checksum (cs_header cs)) (cs_pages cs)"
    and now: "\<exists>w :: u64. ph_created_ms (cs_header cs) = sint w" and pages: "sized_entries (cs_pages cs)"
  shows "codec_roundtrips (wire_codec ck now') cs"
proof -
  let ?b = "wire_encode cs"
  have i64: "i64_from_be (i64_to_be (ph_created_ms (cs_header cs))) = ph_created_ms (cs_header cs)"
    using now by (auto simp: i64_from_be_def i64_to_be_def)
  note F = wire_header_fields [OF ids, folded append_assoc]
  have pl: "length (page_bytes p) = 8 + length (pe_data p)" if "p \<in> set (cs_pages cs)" for p
    using page_bytes_u32 [of p] that pages by (auto simp: sized_entries_def)
  have len: "length ?b = 48 + sum_list (map (\<lambda>p. 8 + length (pe_data p)) (cs_pages cs))"
    using pl by (simp add: wire_encode_def length_concat comp_def cong: map_cong)
  have wp: "wire_pages (length (cs_pages cs)) (drop 40 ?b) = Some (cs_pages cs, u64_to_be (cs_checksum cs))"
    using wire_pages_encoded [of "cs_pages cs"] pages by (simp add: wire_encode_def sized_entries_def)
  have dec: "wire_decode ck ?b = Inr cs"
    using len wp cnt i64 ids ck unfolding wire_decode_def by (simp add: wire_encode_def F)
  show ?thesis
    using dec len ids unfolding codec_roundtrips_def by (simp add: wire_codec_def wire_encode_def F Let_def HADBP_HEADER_SIZE_def HADBP_TRAILER_SIZE_def)
qed

interpretation wire: hadbp_codec "wire_codec ck now" for ck now
proof
  show "new_changeset_ok (wire_codec ck now) seq prev psz es" for seq prev psz es
    by (simp add: new_changeset_ok_def wire_codec_def)
  show "codec_roundtrips (wire_codec ck now) (flagged fl (c_new (wire_codec ck now) seq prev IdU32 psz es))"
    if "sized_entries es" for es fl seq prev psz
    using that by (intro wire_roundtrips) (auto simp: wire_codec_def flagged_def sized_entries_def unat_of_nat)
  show "ids_u32 (cs_pages cs)" if "c_decode (wire_codec ck now) bs = Inr cs" for bs cs
  proof -
    from that obtain n ps rest where "wire_pages n (drop 40 bs) = Some (ps, rest)" "cs_pages cs = ps"
      by (auto simp: wire_codec_def wire_decode_def split: if_splits option.splits)
    then show ?thesis using wire_pages_ids [of n "drop 40 bs" ps rest] by (simp add: ids_u32_def)
  qed
qed (auto simp: wire_codec_def flagged_def wire_decode_def split: if_splits option.splits)

end
