(* ===== verification/SyncState.thy ===== *)
theory SyncState
  imports SyncRestore HadbpCodec
begin

text \<open>
  The state a publisher keeps for one database (\<^verbatim>\<open>sync.rs\<close>, \<^verbatim>\<open>SyncState\<close> and its persistence): the
  sequence number and checksum at the head of the published chain, the WAL cursor, and the two local
  write-ahead records, the publish intent and the external-base progress.

  A \<open>site\<close> is that state next to the world it acts on and the rollover events it has emitted.  A
  function with \<^verbatim>\<open>&mut SyncState\<close> is an action on sites, so what it assigned before an error stays
  assigned.  \<open>serde_json\<close> is the parameter \<open>json\<close>, UUIDs and clock values are arguments.  File offsets
  are naturals; sequence numbers and counters are 64-bit words.
\<close>

section \<open>Reading SQLite headers\<close>

definition change_counter_from_pages :: "(u32 \<times> bytes) list \<Rightarrow> u64 option" where
  "change_counter_from_pages pages =
     (case List.find (\<lambda>(pn, _). pn = 1) pages of
        None \<Rightarrow> None
      | Some (_, data) \<Rightarrow>
          if 28 \<le> length data
          then let cc = ucast (be32_at data 24) :: u64 in if 0 < cc then Some cc else None
          else None)"

definition change_counter_from_file :: "bytes option \<Rightarrow> failure + u64" where
  "change_counter_from_file file =
     (case file of
        None \<Rightarrow> Inl [Message ''open failed'']
      | Some f \<Rightarrow> if length f < 28 then Inl [Message ''unexpected end of file''] else Inr (ucast (be32_at f 24)))"

definition get_page_size :: "bytes option \<Rightarrow> failure + u32" where
  "get_page_size file =
     (case file of
        None \<Rightarrow> Inl [Message ''open failed'']
      | Some f \<Rightarrow>
          if length f < 100 then Inl [Message ''unexpected end of file'']
          else let page_size = word_of_nat (be_nat (slice f 16 2)) :: u32 in
            Inr (if page_size = 1 then 65536 else page_size))"

section \<open>The state\<close>

datatype delta_sequence = WalrustOwned | ExternalChangeCounter

record external_base_cursor =
  eb_seq :: u64
  eb_checksum :: u64

record rollover_event =
  ro_db_name :: string
  ro_mode :: string
  ro_recovered :: bool

text \<open>
  The database path is kept as directory and file name.  \<open>ss_observed\<close> tells whether a rollover
  observer is installed, \<open>ss_blocker\<close> whether the read transaction that pins the WAL is held.
\<close>

record sync_state =
  ss_name :: string
  ss_db_dir :: string
  ss_db_file :: string
  ss_wal_path :: string
  ss_wal_offset :: nat
  ss_wal_generation :: u64
  ss_current_seq :: u64
  ss_lineage_id :: "string option"
  ss_external_base :: "external_base_cursor option"
  ss_current_txid :: u64
  ss_last_snapshot :: "int option"
  ss_db_checksum :: "u64 option"
  ss_wal_salt :: "(u32 \<times> u32) option"
  ss_wal_checksum_chain :: "chain option"
  ss_observed :: bool
  ss_blocker :: bool

text \<open>\<^verbatim>\<open>Path::file_stem\<close>: the name up to its last dot, unless that dot comes first.\<close>

definition file_stem :: "string \<Rightarrow> string" where
  "file_stem file =
     (case rposition (\<lambda>c. c = CHR ''.'') file of
        None \<Rightarrow> file
      | Some i \<Rightarrow> if i = 0 then file else take i file)"

definition new_with_paths :: "string \<Rightarrow> string \<Rightarrow> string \<Rightarrow> failure + sync_state" where
  "new_with_paths dir file wal_path =
     (if file = [] then Inl [Message ''Invalid database path'']
      else Inr \<lparr>ss_name = file_stem file, ss_db_dir = dir, ss_db_file = file, ss_wal_path = wal_path, ss_wal_offset = 0,
        ss_wal_generation = 0, ss_current_seq = 0, ss_lineage_id = None, ss_external_base = None, ss_current_txid = 0,
        ss_last_snapshot = None, ss_db_checksum = None, ss_wal_salt = None, ss_wal_checksum_chain = None,
        ss_observed = False, ss_blocker = False\<rparr>)"

definition new_sync_state :: "string \<Rightarrow> string \<Rightarrow> failure + sync_state" where
  "new_sync_state dir file = new_with_paths dir file (output_path dir (file_stem file @ ''.db-wal''))"

text \<open>SQLite appends \<^verbatim>\<open>-wal\<close> to the whole file name, so the derived path is right for \<^verbatim>\<open>.db\<close> files only.\<close>

lemma wal_path_of_db_file:
  "new_sync_state dir (stem @ ''.db'') = Inr st \<Longrightarrow> stem \<noteq> [] \<Longrightarrow> ss_wal_path st = output_path dir (stem @ ''.db'' @ ''-wal'')"
  "new_sync_state ''d'' ''app.sqlite'' = Inr st \<Longrightarrow> ss_wal_path st = ''d/app.db-wal'' \<and> ss_wal_path st \<noteq> ''d/app.sqlite'' @ ''-wal''"
proof -
  have "rposition (\<lambda>c. c = CHR ''.'') (stem @ ''.db'') = Some (length stem)"
    by (induction stem) simp_all
  then show "ss_wal_path st = output_path dir (stem @ ''.db'' @ ''-wal'')" if "new_sync_state dir (stem @ ''.db'') = Inr st" "stem \<noteq> []"
    using that by (auto simp: new_sync_state_def new_with_paths_def file_stem_def)
  show "ss_wal_path st = ''d/app.db-wal'' \<and> ss_wal_path st \<noteq> ''d/app.sqlite'' @ ''-wal''" if "new_sync_state ''d'' ''app.sqlite'' = Inr st"
    using that by (auto simp: new_sync_state_def new_with_paths_def file_stem_def output_path_def)
qed

definition ensure_lineage_id :: "string \<Rightarrow> sync_state \<Rightarrow> sync_state" where
  "ensure_lineage_id uuid st = (case ss_lineage_id st of None \<Rightarrow> st\<lparr>ss_lineage_id := Some uuid\<rparr> | Some _ \<Rightarrow> st)"

definition init_checksum :: "(bytes \<Rightarrow> bytes) \<Rightarrow> bytes option \<Rightarrow> sync_state \<Rightarrow> failure + sync_state" where
  "init_checksum sha256 db st =
     (case compute_checksum_from_file sha256 db of
        Inl e \<Rightarrow> Inl [Message ''Failed to compute checksum'']
      | Inr c \<Rightarrow> Inr (st\<lparr>ss_db_checksum := Some c\<rparr>))"

definition build_state_changeset_key :: "'s hadb \<Rightarrow> string \<Rightarrow> sync_state \<Rightarrow> u64 \<Rightarrow> u64 \<Rightarrow> string" where
  "build_state_changeset_key h pre st generation seq =
     (case ss_lineage_id st of
        Some lineage_id \<Rightarrow> build_lineage_changeset_key pre (ss_name st) lineage_id generation seq (h_ext h)
      | None \<Rightarrow> h_format_key h pre (ss_name st) generation seq)"

section \<open>Sites\<close>

record 's site =
  si_sync :: sync_state
  si_world :: "'s world"
  si_events :: "rollover_event list"

definition in_world :: "('s world, failure, 'a) action \<Rightarrow> ('s site, failure, 'a) action" where
  "in_world m = (\<lambda>z. case m (si_world z) of (w', r) \<Rightarrow> (z\<lparr>si_world := w'\<rparr>, r))"

definition on_site_store :: "('s, failure, 'a) action \<Rightarrow> ('s site, failure, 'a) action" where
  "on_site_store m = in_world (on_world m)"

definition sync_state_of :: "('s site, failure, sync_state) action" where
  "sync_state_of = (\<lambda>z. (z, Inr (si_sync z)))"

definition update_sync :: "(sync_state \<Rightarrow> sync_state) \<Rightarrow> ('s site, failure, unit) action" where
  "update_sync f = (\<lambda>z. (z\<lparr>si_sync := f (si_sync z)\<rparr>, Inr ()))"

definition emit_rollover :: "string \<Rightarrow> bool \<Rightarrow> ('s site, failure, unit) action" where
  "emit_rollover mode recovered =
     (\<lambda>z. (if ss_observed (si_sync z)
           then z\<lparr>si_events := si_events z @ [\<lparr>ro_db_name = ss_name (si_sync z), ro_mode = mode, ro_recovered = recovered\<rparr>]\<rparr>
           else z, Inr ()))"

lemma wp_in_world [wp_simps]:
  "wp (in_world m) Q E z = wp m (\<lambda>a w'. Q a (z\<lparr>si_world := w'\<rparr>)) (\<lambda>e w'. E e (z\<lparr>si_world := w'\<rparr>)) (si_world z)"
  by (simp add: wp_def in_world_def split: prod.split sum.split)

lemma wp_on_site_store [wp_simps]:
  "wp (on_site_store m) Q E z =
     wp m (\<lambda>a s'. Q a (z\<lparr>si_world := (si_world z)\<lparr>w_store := s'\<rparr>\<rparr>))
          (\<lambda>e s'. E e (z\<lparr>si_world := (si_world z)\<lparr>w_store := s'\<rparr>\<rparr>)) (w_store (si_world z))"
  by (simp add: on_site_store_def wp_in_world wp_on_world)

lemma wp_sync_state_of [wp_simps]: "wp sync_state_of Q E z = Q (si_sync z) z"
  by (simp add: wp_def sync_state_of_def)

lemma wp_update_sync [wp_simps]: "wp (update_sync f) Q E z = Q () (z\<lparr>si_sync := f (si_sync z)\<rparr>)"
  by (simp add: wp_def update_sync_def)

lemma case_map_sum [simp]:
  "(case map_sum f id r of Inl e \<Rightarrow> F e | Inr a \<Rightarrow> G a) = (case r of Inl e \<Rightarrow> F (f e) | Inr a \<Rightarrow> G a)"
  by (cases r) simp_all

section \<open>Persistence\<close>

record saved_sync_state =
  sv_wal_offset :: "nat option"
  sv_wal_generation :: "u64 option"
  sv_current_seq :: "u64 option"
  sv_lineage_id :: "string option"
  sv_current_txid :: "u64 option"
  sv_db_checksum :: "u64 option"
  sv_last_snapshot :: "int option"
  sv_wal_salt :: "(u32 \<times> u32) option"
  sv_wal_checksum_chain :: "chain option"

record external_base_progress =
  xp_version :: u32
  xp_base_seq :: u64
  xp_base_checksum :: u64
  xp_current_seq :: u64
  xp_db_checksum :: u64
  xp_wal_offset :: nat
  xp_wal_generation :: u64
  xp_wal_salt :: "(u32 \<times> u32) option"
  xp_wal_checksum_chain :: "chain option"

record publish_intent =
  pi_version :: u32
  pi_lineage_id :: "string option"
  pi_seq :: u64
  pi_pre_checksum :: u64
  pi_changeset_checksum :: u64

record json =
  j_encode_state :: "saved_sync_state \<Rightarrow> string + bytes"
  j_decode_state :: "bytes \<Rightarrow> string + saved_sync_state"
  j_encode_progress :: "external_base_progress \<Rightarrow> string + bytes"
  j_decode_progress :: "bytes \<Rightarrow> string + external_base_progress"
  j_encode_intent :: "publish_intent \<Rightarrow> string + bytes"
  j_decode_intent :: "bytes \<Rightarrow> string + publish_intent"

definition state_json_value :: "sync_state \<Rightarrow> saved_sync_state" where
  "state_json_value st =
     \<lparr>sv_wal_offset = Some (ss_wal_offset st), sv_wal_generation = Some (ss_wal_generation st),
      sv_current_seq = Some (ss_current_seq st), sv_lineage_id = ss_lineage_id st, sv_current_txid = Some (ss_current_txid st),
      sv_db_checksum = ss_db_checksum st, sv_last_snapshot = ss_last_snapshot st, sv_wal_salt = ss_wal_salt st,
      sv_wal_checksum_chain = ss_wal_checksum_chain st\<rparr>"

definition state_json_bytes :: "json \<Rightarrow> sync_state \<Rightarrow> failure + bytes" where
  "state_json_bytes j st = map_sum (\<lambda>e. [Message e]) id (j_encode_state j (state_json_value st))"

definition save_state :: "'s backend \<Rightarrow> json \<Rightarrow> string \<Rightarrow> ('s site, failure, unit) action" where
  "save_state b j pre =
     and_then sync_state_of (\<lambda>st.
     and_then (from_result (state_json_bytes j st)) (\<lambda>data.
       on_site_store (storage_op (b_put b (state_key pre (ss_name st)) data))))"

definition ensure_no_saved_state :: "'s backend \<Rightarrow> string \<Rightarrow> string \<Rightarrow> ('s, failure, unit) action" where
  "ensure_no_saved_state b pre db_name =
     and_then (storage_op (b_exists b (state_key pre db_name))) (\<lambda>present.
       if present then raise [Message ''database already has replication state''] else return ())"

definition save_initial_state :: "'s backend \<Rightarrow> json \<Rightarrow> string \<Rightarrow> ('s site, failure, unit) action" where
  "save_initial_state b j pre =
     and_then sync_state_of (\<lambda>st.
     and_then (from_result (state_json_bytes j st)) (\<lambda>data.
     and_then (on_site_store (storage_op (b_put_if_absent b (state_key pre (ss_name st)) data))) (\<lambda>cas.
       if cas_success cas then return ()
       else raise [Message ''refusing to replace active walrust-owned lineage''])))"

text \<open>Creating a directory, syncing it, reading a file: operations that can fail but change no file.\<close>

definition disk_op :: "string \<Rightarrow> ('s world, failure, unit) action" where
  "disk_op msg = (\<lambda>w. case next_fault w of (w', None) \<Rightarrow> (w', Inr ()) | (w', Some _) \<Rightarrow> (w', Inl [Message msg]))"

definition read_local :: "string \<Rightarrow> string \<Rightarrow> ('s world, failure, bytes option) action" where
  "read_local msg path = (\<lambda>w. case next_fault w of (w', None) \<Rightarrow> (w', Inr (w_files w' path)) | (w', Some _) \<Rightarrow> (w', Inl [Message msg]))"

definition local_progress_dir_for :: "string \<Rightarrow> string \<Rightarrow> string" where
  "local_progress_dir_for dir file = output_path dir (''.walrust-'' @ file_stem file)"

definition external_base_progress_path :: "sync_state \<Rightarrow> string" where
  "external_base_progress_path st =
     output_path (local_progress_dir_for (ss_db_dir st) (ss_db_file st)) ''external-base-progress.json''"

definition publish_intent_path :: "sync_state \<Rightarrow> string" where
  "publish_intent_path st = output_path (local_progress_dir_for (ss_db_dir st) (ss_db_file st)) ''publish-intent.json''"

definition fsync_dir :: "('s world, failure, unit) action" where
  "fsync_dir = disk_op ''failed to fsync directory''"

text \<open>Temporary file, sync, rename over the record, sync of the directory.\<close>

definition install_file :: "string \<Rightarrow> bytes \<Rightarrow> ('s world, failure, unit) action" where
  "install_file path bs =
     and_then (write_file (path @ ''.tmp'') bs) (\<lambda>_.
     and_then (rename_file (path @ ''.tmp'') path) (\<lambda>_. fsync_dir))"

definition progress_from_state :: "sync_state \<Rightarrow> failure + external_base_progress" where
  "progress_from_state st =
     (case ss_external_base st of
        None \<Rightarrow> Inl [Message ''cannot save external-base progress without an external base anchor'']
      | Some base \<Rightarrow>
          (case ss_db_checksum st of
             None \<Rightarrow> Inl [Message ''cannot save external-base progress without current checksum'']
           | Some db_checksum \<Rightarrow>
               Inr \<lparr>xp_version = 1, xp_base_seq = eb_seq base, xp_base_checksum = eb_checksum base,
                    xp_current_seq = ss_current_seq st, xp_db_checksum = db_checksum, xp_wal_offset = ss_wal_offset st,
                    xp_wal_generation = ss_wal_generation st, xp_wal_salt = ss_wal_salt st,
                    xp_wal_checksum_chain = ss_wal_checksum_chain st\<rparr>))"

definition save_external_base_progress :: "json \<Rightarrow> sync_state \<Rightarrow> ('s world, failure, unit) action" where
  "save_external_base_progress j st =
     and_then (disk_op ''failed to create local external-base progress directory'') (\<lambda>_.
     and_then (from_result (progress_from_state st)) (\<lambda>progress.
     and_then (from_result (map_sum (\<lambda>e. [Message e]) id (j_encode_progress j progress))) (\<lambda>bs.
       install_file (external_base_progress_path st) bs)))"

definition load_external_base_progress :: "json \<Rightarrow> sync_state \<Rightarrow> ('s world, failure, external_base_progress option) action" where
  "load_external_base_progress j st =
     and_then (read_local ''failed to read local external-base progress file'' (external_base_progress_path st)) (\<lambda>file.
       case file of
         None \<Rightarrow> return None
       | Some bs \<Rightarrow>
           (case j_decode_progress j bs of
              Inl e \<Rightarrow> raise [Message ''failed to parse local external-base progress file'']
            | Inr progress \<Rightarrow>
                if xp_version progress \<noteq> 1 then raise [Message ''unsupported local external-base progress version'']
                else return (Some progress)))"

definition intent_of :: "sync_state \<Rightarrow> u64 \<Rightarrow> u64 \<Rightarrow> u64 \<Rightarrow> publish_intent" where
  "intent_of st seq pre_checksum changeset_checksum =
     \<lparr>pi_version = 1, pi_lineage_id = ss_lineage_id st, pi_seq = seq, pi_pre_checksum = pre_checksum,
      pi_changeset_checksum = changeset_checksum\<rparr>"

definition save_publish_intent :: "json \<Rightarrow> sync_state \<Rightarrow> u64 \<Rightarrow> u64 \<Rightarrow> u64 \<Rightarrow> ('s world, failure, unit) action" where
  "save_publish_intent j st seq pre_checksum changeset_checksum =
     and_then (disk_op ''failed to create local publish-intent directory'') (\<lambda>_.
     and_then (from_result (map_sum (\<lambda>e. [Message e]) id (j_encode_intent j (intent_of st seq pre_checksum changeset_checksum)))) (\<lambda>bs.
       install_file (publish_intent_path st) bs))"

definition load_publish_intent :: "json \<Rightarrow> sync_state \<Rightarrow> ('s world, failure, publish_intent option) action" where
  "load_publish_intent j st =
     and_then (read_local ''failed to read local publish-intent file'' (publish_intent_path st)) (\<lambda>file.
       case file of
         None \<Rightarrow> return None
       | Some bs \<Rightarrow>
           (case j_decode_intent j bs of
              Inl e \<Rightarrow> raise [Message ''failed to parse local publish-intent file'']
            | Inr intent \<Rightarrow>
                if pi_version intent \<noteq> 1 then raise [Message ''unsupported publish-intent version'']
                else return (Some intent)))"

end
