(* ===== verification/Publish.thy ===== *)
theory Publish
  imports SyncState
begin

text \<open>
  Publishing (\<^verbatim>\<open>sync.rs\<close>): the conditional put with its equivocation check, the write-ahead publish
  intent and the recovery it allows, reading the next batch of WAL frames, and the two operations
  that extend the chain, \<^verbatim>\<open>sync_wal\<close> in both modes and \<^verbatim>\<open>take_snapshot\<close>.

  SQLite runs next to the publisher, so what a call sees of the database, of the WAL and of SQLite's
  answers is an argument: \<open>wal_sight\<close> for a sync, \<open>snapshot_sight\<close> for a snapshot, with one field per
  look.  The order in which a \<^verbatim>\<open>HashMap\<close> is iterated is the argument \<open>hm\<close>.
\<close>

section \<open>Conditional publication\<close>

definition RETRY_DELAYS_MS :: "nat list" where
  "RETRY_DELAYS_MS = [10, 25, 50, 100]"

fun get_with_delays :: "'s backend \<Rightarrow> string \<Rightarrow> nat list \<Rightarrow> ('s, failure, bytes option) action" where
  "get_with_delays b key [] = return None"
| "get_with_delays b key (delay_ms # ds) =
     and_then (storage_op (b_get b key)) (\<lambda>found. case found of Some existing \<Rightarrow> return (Some existing) | None \<Rightarrow> get_with_delays b key ds)"

definition get_existing_after_failed_cas :: "'s backend \<Rightarrow> string \<Rightarrow> ('s, failure, bytes option) action" where
  "get_existing_after_failed_cas b key = get_with_delays b key (0 # RETRY_DELAYS_MS)"

definition put_changeset_if_absent :: "'s backend \<Rightarrow> string \<Rightarrow> bytes \<Rightarrow> ('s, failure, unit) action" where
  "put_changeset_if_absent b key bs =
     and_then (storage_op (b_put_if_absent b key bs)) (\<lambda>cas.
       if cas_success cas then return ()
       else and_then (get_existing_after_failed_cas b key) (\<lambda>found.
         case found of
           None \<Rightarrow> raise [Message ''duplicate changeset vanished after CAS failure'']
         | Some existing \<Rightarrow>
             if existing \<noteq> bs then raise [Typed (Equivocation ''duplicate changeset; refusing overwrite'')]
             else return ()))"

definition existing_changeset_is_our_publish ::
    "'s backend \<Rightarrow> codec \<Rightarrow> string \<Rightarrow> u64 \<Rightarrow> u64 \<Rightarrow> string option \<Rightarrow> publish_intent option \<Rightarrow> ('s, failure, u64 option) action" where
  "existing_changeset_is_our_publish b cd key seq our_pre_checksum lineage_id prior_intent =
     (case prior_intent of
        None \<Rightarrow> return None
      | Some intent \<Rightarrow>
          if pi_seq intent \<noteq> seq \<or> pi_pre_checksum intent \<noteq> our_pre_checksum \<or> pi_lineage_id intent \<noteq> lineage_id then return None
          else and_then (storage_op (b_get b key)) (\<lambda>found.
            case found of
              None \<Rightarrow> return None
            | Some existing \<Rightarrow>
                (case decode_sqlite_changeset cd existing of
                   Inl e \<Rightarrow> return None
                 | Inr decoded \<Rightarrow>
                     if ph_seq (cs_header decoded) = seq \<and> ph_prev_checksum (cs_header decoded) = our_pre_checksum \<and>
                        cs_checksum decoded = pi_changeset_checksum intent
                     then return (Some (cs_checksum decoded)) else return None)))"

section \<open>Reading the WAL\<close>

record wal_sight =
  vs_header :: "bytes option"
  vs_journal_mode :: "string + string"
  vs_size :: "bytes option"
  vs_frames :: wal_views
  vs_db :: "bytes option"

record wal_batch =
  wb_page_map :: "u32 \<rightharpoonup> bytes"
  wb_frame_count :: nat
  wb_new_offset :: nat
  wb_final_db_size :: u32
  wb_commit_count :: nat
  wb_rollover_detected :: bool

definition size_rollover :: "wal_sight \<Rightarrow> sync_state \<Rightarrow> bool" where
  "size_rollover v st \<longleftrightarrow> get_wal_size (vs_size v) < ss_wal_offset st"

definition salt_rollover :: "wal_header \<Rightarrow> sync_state \<Rightarrow> bool" where
  "salt_rollover header st \<longleftrightarrow> (case ss_wal_salt st of Some prev \<Rightarrow> prev \<noteq> header_salt header | None \<Rightarrow> False)"

definition rollover_cursor :: "wal_sight \<Rightarrow> wal_header \<Rightarrow> sync_state \<Rightarrow> sync_state" where
  "rollover_cursor v header st =
     (if size_rollover v st \<or> salt_rollover header st then st\<lparr>ss_wal_offset := 0, ss_wal_checksum_chain := None\<rparr> else st)
       \<lparr>ss_wal_salt := Some (header_salt header)\<rparr>"

definition batch_chain_seed :: "sync_state \<Rightarrow> chain option" where
  "batch_chain_seed st = (if ss_wal_offset st = 0 \<or> ss_wal_offset st = WAL_HEADER_SIZE then None else ss_wal_checksum_chain st)"

definition read_next_wal_batch :: "wal_sight \<Rightarrow> wal_header \<Rightarrow> ('s site, failure, wal_batch) action" where
  "read_next_wal_batch v header =
     and_then sync_state_of (\<lambda>st.
     and_then (update_sync (rollover_cursor v header)) (\<lambda>_.
     and_then sync_state_of (\<lambda>st1.
     and_then (from_result (map_sum (\<lambda>e. [WalRead e]) id
         (read_frames_as_page_map_checked (vs_frames v) (wh_page_size header) (ss_wal_offset st1) (batch_chain_seed st1)))) (\<lambda>r.
     and_then (case pm_chain r of None \<Rightarrow> return () | Some chain \<Rightarrow> update_sync (\<lambda>s. s\<lparr>ss_wal_checksum_chain := Some chain\<rparr>)) (\<lambda>_.
       return \<lparr>wb_page_map = pm_map r, wb_frame_count = pm_frames r, wb_new_offset = pm_offset r, wb_final_db_size = pm_db_size r,
               wb_commit_count = pm_commits r, wb_rollover_detected = (size_rollover v st \<or> salt_rollover header st)\<rparr>)))))"

text \<open>SQLite's answer to \<^verbatim>\<open>PRAGMA journal_mode\<close>, compared without regard to case.\<close>

definition ascii_lower :: "char \<Rightarrow> char" where
  "ascii_lower c = (let k = of_char c :: nat in if 65 \<le> k \<and> k \<le> 90 then char_of (k + 32) else c)"

definition ensure_database_in_wal_mode :: "wal_sight \<Rightarrow> ('s site, failure, unit) action" where
  "ensure_database_in_wal_mode v =
     (case vs_journal_mode v of
        Inl e \<Rightarrow> raise [Message e]
      | Inr mode \<Rightarrow>
          if map ascii_lower mode = ''wal'' then return ()
          else raise [Message ''SQLite journal_mode is not WAL; replication cannot continue''])"

section \<open>Snapshots\<close>

record snapshot_sight =
  sn_timestamp :: int
  sn_rollback :: "string + unit"
  sn_checkpoint :: "string + (int \<times> int \<times> int)"
  sn_reopen :: "string + unit"
  sn_header :: "bytes option"
  sn_counter :: "bytes option"
  sn_wal :: wal_views
  sn_db :: "bytes option"
  sn_wal_after :: "bytes option"

definition sqlite_answer :: "string + 'a \<Rightarrow> ('s site, failure, 'a) action" where
  "sqlite_answer r = from_result (map_sum (\<lambda>e. [Message e]) id r)"

definition release_checkpoint_blocker :: "snapshot_sight \<Rightarrow> ('s site, failure, unit) action" where
  "release_checkpoint_blocker sv =
     and_then sync_state_of (\<lambda>st.
       if ss_blocker st
       then and_then (update_sync (\<lambda>s. s\<lparr>ss_blocker := False\<rparr>)) (\<lambda>_. sqlite_answer (sn_rollback sv))
       else return ())"

definition checkpoint_wal :: "snapshot_sight \<Rightarrow> ('s site, failure, unit) action" where
  "checkpoint_wal sv =
     and_then (sqlite_answer (sn_checkpoint sv)) (\<lambda>(busy, log_frames, checkpointed_frames).
       if busy \<noteq> 0 \<or> checkpointed_frames < log_frames then raise [Message ''snapshot checkpoint incomplete''] else return ())"

definition reacquire_checkpoint_blocker :: "snapshot_sight \<Rightarrow> ('s site, failure, unit) action" where
  "reacquire_checkpoint_blocker sv =
     and_then sync_state_of (\<lambda>st.
       if ss_blocker st then return ()
       else and_then (sqlite_answer (sn_reopen sv)) (\<lambda>_. update_sync (\<lambda>s. s\<lparr>ss_blocker := True\<rparr>)))"

definition reset_wal_cursor_after_snapshot :: "snapshot_sight \<Rightarrow> sync_state \<Rightarrow> sync_state" where
  "reset_wal_cursor_after_snapshot sv st =
     st\<lparr>ss_wal_offset := 0, ss_wal_generation := ss_wal_generation st + 1,
        ss_wal_salt := (case read_header (sn_wal_after sv) of Inr (Some h) \<Rightarrow> Some (header_salt h) | _ \<Rightarrow> None),
        ss_wal_checksum_chain := None\<rparr>"

record prepared_snapshot =
  ps_txid :: u64
  ps_seq :: u64
  ps_bytes :: bytes
  ps_checksum :: u64

definition prepare_snapshot :: "codec \<Rightarrow> (bytes \<Rightarrow> bytes) \<Rightarrow> snapshot_sight \<Rightarrow> ('s site, failure, prepared_snapshot) action" where
  "prepare_snapshot cd sha256 sv =
     and_then (release_checkpoint_blocker sv) (\<lambda>_.
     and_then (checkpoint_wal sv) (\<lambda>_.
     and_then (reacquire_checkpoint_blocker sv) (\<lambda>_.
     and_then (from_result (get_page_size (sn_header sv))) (\<lambda>page_size.
     let cc = (case change_counter_from_file (sn_counter sv) of Inr c \<Rightarrow> c | Inl e \<Rightarrow> 0) in
     and_then (from_result (map_sum (\<lambda>e. [WalRead e]) id (count_wal_commits (sn_wal sv) page_size))) (\<lambda>wal_commits.
     and_then sync_state_of (\<lambda>st.
     let new_txid = (if ss_current_txid st < cc + word_of_nat wal_commits then cc + word_of_nat wal_commits else ss_current_txid st + 1);
         new_seq = ss_current_seq st + 1;
         prev_checksum = (case ss_db_checksum st of Some c \<Rightarrow> c | None \<Rightarrow> 0)
     in and_then (from_result (map_sum (\<lambda>e. [Changeset e]) id
           (encode_snapshot_with_checksum cd sha256 (sn_db sv) page_size new_seq prev_checksum))) (\<lambda>snapshot.
          return \<lparr>ps_txid = new_txid, ps_seq = new_seq, ps_bytes = es_bytes snapshot, ps_checksum = es_checksum snapshot\<rparr>)))))))"

definition finish_snapshot :: "snapshot_sight \<Rightarrow> prepared_snapshot \<Rightarrow> ('s site, failure, unit) action" where
  "finish_snapshot sv p =
     update_sync (\<lambda>st. reset_wal_cursor_after_snapshot sv
       (st\<lparr>ss_current_seq := ps_seq p, ss_current_txid := ps_txid p, ss_last_snapshot := Some (sn_timestamp sv),
           ss_db_checksum := Some (ps_checksum p)\<rparr>))"

definition take_snapshot ::
    "'s backend \<Rightarrow> 's hadb \<Rightarrow> codec \<Rightarrow> (bytes \<Rightarrow> bytes) \<Rightarrow> string \<Rightarrow> snapshot_sight \<Rightarrow> ('s site, failure, unit) action" where
  "take_snapshot b h cd sha256 pre sv =
     and_then (prepare_snapshot cd sha256 sv) (\<lambda>p.
     and_then sync_state_of (\<lambda>st.
     and_then (on_site_store (put_changeset_if_absent b (build_state_changeset_key h pre st GENERATION_SNAPSHOT (ps_seq p)) (ps_bytes p))) (\<lambda>_.
       finish_snapshot sv p)))"

section \<open>Incrementals\<close>

record prepared_changeset =
  pc_bytes :: bytes
  pc_pre_checksum :: u64
  pc_post_checksum :: u64
  pc_seq :: u64
  pc_max_txid :: u64

definition max_txid_of :: "sync_state \<Rightarrow> (u32 \<times> bytes) list \<Rightarrow> nat \<Rightarrow> u64" where
  "max_txid_of st pages commit_count =
     (case change_counter_from_pages pages of
        Some cc \<Rightarrow> if ss_current_txid st < cc then cc else ss_current_txid st + max (word_of_nat commit_count) 1
      | None \<Rightarrow> ss_current_txid st + max (word_of_nat commit_count) 1)"

definition prepare_changeset ::
    "codec \<Rightarrow> (bytes \<Rightarrow> bytes) \<Rightarrow> wal_sight \<Rightarrow> wal_header \<Rightarrow> wal_batch \<Rightarrow> (u32 \<times> bytes) list \<Rightarrow> ('s site, failure, prepared_changeset) action" where
  "prepare_changeset cd sha256 v header batch pages =
     and_then sync_state_of (\<lambda>st.
     and_then (case ss_db_checksum st of
                 Some c \<Rightarrow> return c
               | None \<Rightarrow> from_result (map_sum (\<lambda>e. [Changeset e]) id (compute_checksum_from_file sha256 (vs_db v)))) (\<lambda>pre_checksum.
     let max_txid = max_txid_of st pages (wb_commit_count batch); new_seq = ss_current_seq st + 1 in
     if wb_final_db_size batch = 0 then raise [Message ''WAL commit produced end_page_count=0; refusing to publish a truncating changeset'']
     else and_then (from_result (map_sum (\<lambda>e. [Changeset e]) id
            (encode_wal_changes_with_end_page_count cd pages (wh_page_size header) new_seq pre_checksum (ucast (wb_final_db_size batch))))) (\<lambda>(bs, post).
       return \<lparr>pc_bytes = bs, pc_pre_checksum = pre_checksum, pc_post_checksum = post, pc_seq = new_seq, pc_max_txid = max_txid\<rparr>)))"

definition advance_cursor :: "wal_batch \<Rightarrow> prepared_changeset \<Rightarrow> sync_state \<Rightarrow> sync_state" where
  "advance_cursor batch p st =
     st\<lparr>ss_wal_offset := wb_new_offset batch, ss_current_seq := pc_seq p, ss_current_txid := pc_max_txid p,
        ss_db_checksum := Some (pc_post_checksum p)\<rparr>"

definition restore_cursor :: "sync_state \<Rightarrow> sync_state \<Rightarrow> sync_state" where
  "restore_cursor previous st =
     st\<lparr>ss_wal_offset := ss_wal_offset previous, ss_wal_generation := ss_wal_generation previous,
        ss_wal_salt := ss_wal_salt previous, ss_wal_checksum_chain := ss_wal_checksum_chain previous\<rparr>"

definition reanchor ::
    "'s backend \<Rightarrow> 's hadb \<Rightarrow> json \<Rightarrow> codec \<Rightarrow> (bytes \<Rightarrow> bytes) \<Rightarrow> string \<Rightarrow> snapshot_sight \<Rightarrow> ('s site, failure, u64) action" where
  "reanchor b h j cd sha256 pre sv =
     and_then (take_snapshot b h cd sha256 pre sv) (\<lambda>_. and_then (save_state b j pre) (\<lambda>_. return 1))"

text \<open>The owned publish: the prior intent is read, the new one written, then the object is put.\<close>

definition adopt_or_fail ::
    "'s backend \<Rightarrow> 's hadb \<Rightarrow> json \<Rightarrow> codec \<Rightarrow> (bytes \<Rightarrow> bytes) \<Rightarrow> string \<Rightarrow> snapshot_sight \<Rightarrow> string \<Rightarrow> prepared_changeset \<Rightarrow>
      publish_intent option \<Rightarrow> failure \<Rightarrow> ('s site, failure, u64) action" where
  "adopt_or_fail b h j cd sha256 pre sv key p prior_intent e =
     (if is_equivocation e
      then and_then sync_state_of (\<lambda>st.
           and_then (on_site_store (existing_changeset_is_our_publish b cd key (pc_seq p) (pc_pre_checksum p) (ss_lineage_id st) prior_intent)) (\<lambda>ours.
             case ours of
               None \<Rightarrow> raise e
             | Some adopted_post \<Rightarrow>
                 and_then (emit_rollover ''walrust-owned'' True) (\<lambda>_.
                 and_then (update_sync (\<lambda>s. s\<lparr>ss_current_seq := pc_seq p, ss_current_txid := pc_max_txid p, ss_db_checksum := Some adopted_post\<rparr>)) (\<lambda>_.
                   reanchor b h j cd sha256 pre sv))))
      else raise e)"

definition publish_owned ::
    "'s backend \<Rightarrow> 's hadb \<Rightarrow> json \<Rightarrow> codec \<Rightarrow> (bytes \<Rightarrow> bytes) \<Rightarrow> string \<Rightarrow> snapshot_sight \<Rightarrow> wal_batch \<Rightarrow> prepared_changeset \<Rightarrow>
      ('s site, failure, u64) action" where
  "publish_owned b h j cd sha256 pre sv batch p =
     and_then sync_state_of (\<lambda>st.
     let key = build_state_changeset_key h pre st GENERATION_LIVE (pc_seq p) in
     and_then (in_world (load_publish_intent j st)) (\<lambda>prior_intent.
     and_then (in_world (save_publish_intent j st (pc_seq p) (pc_pre_checksum p) (pc_post_checksum p))) (\<lambda>_.
     and_then (attempt (on_site_store (put_changeset_if_absent b key (pc_bytes p)))) (\<lambda>put.
       case put of
         Inl e \<Rightarrow> adopt_or_fail b h j cd sha256 pre sv key p prior_intent e
       | Inr u \<Rightarrow>
           and_then (update_sync (advance_cursor batch p)) (\<lambda>_.
           and_then (save_state b j pre) (\<lambda>_. return (word_of_nat (wb_frame_count batch))))))))"

definition publish_external ::
    "'s backend \<Rightarrow> 's hadb \<Rightarrow> json \<Rightarrow> string \<Rightarrow> wal_batch \<Rightarrow> prepared_changeset \<Rightarrow> ('s site, failure, u64) action" where
  "publish_external b h j pre batch p =
     and_then sync_state_of (\<lambda>st.
     and_then (on_site_store (put_changeset_if_absent b (build_state_changeset_key h pre st GENERATION_LIVE (pc_seq p)) (pc_bytes p))) (\<lambda>_.
     and_then (update_sync (advance_cursor batch p)) (\<lambda>_.
     and_then sync_state_of (\<lambda>st'.
     and_then (if ss_external_base st' \<noteq> None then in_world (save_external_base_progress j st') else return ()) (\<lambda>_.
       return (word_of_nat (wb_frame_count batch)))))))"

definition on_rollover ::
    "'s backend \<Rightarrow> 's hadb \<Rightarrow> json \<Rightarrow> codec \<Rightarrow> (bytes \<Rightarrow> bytes) \<Rightarrow> string \<Rightarrow> delta_sequence \<Rightarrow> snapshot_sight \<Rightarrow> sync_state \<Rightarrow>
      ('s site, failure, u64) action" where
  "on_rollover b h j cd sha256 pre sequence sv previous =
     (case sequence of
        WalrustOwned \<Rightarrow> and_then (emit_rollover ''walrust-owned'' True) (\<lambda>_. reanchor b h j cd sha256 pre sv)
      | ExternalChangeCounter \<Rightarrow>
          and_then (update_sync (restore_cursor previous)) (\<lambda>_.
          and_then (emit_rollover ''external-base'' False) (\<lambda>_.
            raise [Message ''WAL rollover detected after external base; refusing to publish deltas until the external base is re-anchored''])))"

definition sync_wal_with_sequence ::
    "'s backend \<Rightarrow> 's hadb \<Rightarrow> json \<Rightarrow> codec \<Rightarrow> (bytes \<Rightarrow> bytes) \<Rightarrow> ((u32 \<rightharpoonup> bytes) \<Rightarrow> (u32 \<times> bytes) list) \<Rightarrow> string \<Rightarrow> delta_sequence \<Rightarrow>
      wal_sight \<Rightarrow> snapshot_sight \<Rightarrow> ('s site, failure, u64) action" where
  "sync_wal_with_sequence b h j cd sha256 hm pre sequence v sv =
     and_then (from_result (map_sum (\<lambda>e. [WalRead e]) id (read_header (vs_header v)))) (\<lambda>found.
       case found of
         None \<Rightarrow> and_then (ensure_database_in_wal_mode v) (\<lambda>_. return 0)
       | Some header \<Rightarrow>
           and_then sync_state_of (\<lambda>previous.
           and_then (read_next_wal_batch v header) (\<lambda>batch.
             if wb_rollover_detected batch then on_rollover b h j cd sha256 pre sequence sv previous
             else let pages = hm (wb_page_map batch) in
               if pages = [] then return 0
               else and_then (prepare_changeset cd sha256 v header batch pages) (\<lambda>p.
                 case sequence of
                   ExternalChangeCounter \<Rightarrow> publish_external b h j pre batch p
                 | WalrustOwned \<Rightarrow> publish_owned b h j cd sha256 pre sv batch p))))"

definition sync_wal ::
    "'s backend \<Rightarrow> 's hadb \<Rightarrow> json \<Rightarrow> codec \<Rightarrow> (bytes \<Rightarrow> bytes) \<Rightarrow> ((u32 \<rightharpoonup> bytes) \<Rightarrow> (u32 \<times> bytes) list) \<Rightarrow> string \<Rightarrow>
      wal_sight \<Rightarrow> snapshot_sight \<Rightarrow> ('s site, failure, u64) action" where
  "sync_wal b h j cd sha256 hm pre v sv = sync_wal_with_sequence b h j cd sha256 hm pre WalrustOwned v sv"

definition sync_wal_after_external_base ::
    "'s backend \<Rightarrow> 's hadb \<Rightarrow> json \<Rightarrow> codec \<Rightarrow> (bytes \<Rightarrow> bytes) \<Rightarrow> ((u32 \<rightharpoonup> bytes) \<Rightarrow> (u32 \<times> bytes) list) \<Rightarrow> string \<Rightarrow>
      wal_sight \<Rightarrow> snapshot_sight \<Rightarrow> ('s site, failure, u64) action" where
  "sync_wal_after_external_base b h j cd sha256 hm pre v sv =
     sync_wal_with_sequence b h j cd sha256 hm pre ExternalChangeCounter v sv"

section \<open>Retries\<close>

text \<open>
  \<^verbatim>\<open>RetryPolicy::execute_with_context\<close> belongs to \<^verbatim>\<open>hadb_io\<close>: it is the argument \<open>retry\<close>, which turns one
  attempt into a retried operation.  A lease is a check that may succeed or fail at every attempt.
\<close>

definition lease_held :: "('s, failure, unit) action option \<Rightarrow> ('s, failure, unit) action" where
  "lease_held lease = (case lease of None \<Rightarrow> return () | Some ensure_held \<Rightarrow> ensure_held)"

definition take_snapshot_with_retry_guarded ::
    "(('s, failure, unit) action \<Rightarrow> ('s, failure, unit) action) \<Rightarrow> 's backend \<Rightarrow> 's hadb \<Rightarrow> codec \<Rightarrow> (bytes \<Rightarrow> bytes) \<Rightarrow> string \<Rightarrow>
      ('s, failure, unit) action option \<Rightarrow> snapshot_sight \<Rightarrow> ('s site, failure, unit) action" where
  "take_snapshot_with_retry_guarded retry b h cd sha256 pre lease sv =
     and_then (prepare_snapshot cd sha256 sv) (\<lambda>p.
     and_then sync_state_of (\<lambda>st.
     let key = build_state_changeset_key h pre st GENERATION_SNAPSHOT (ps_seq p) in
     and_then (on_site_store (retry (and_then (lease_held lease) (\<lambda>_. put_changeset_if_absent b key (ps_bytes p))))) (\<lambda>_.
       finish_snapshot sv p)))"

definition take_snapshot_with_retry ::
    "(('s, failure, unit) action \<Rightarrow> ('s, failure, unit) action) \<Rightarrow> 's backend \<Rightarrow> 's hadb \<Rightarrow> codec \<Rightarrow> (bytes \<Rightarrow> bytes) \<Rightarrow> string \<Rightarrow>
      snapshot_sight \<Rightarrow> ('s site, failure, unit) action" where
  "take_snapshot_with_retry retry b h cd sha256 pre sv = take_snapshot_with_retry_guarded retry b h cd sha256 pre None sv"

definition sync_wal_with_retry ::
    "(('s, failure, unit) action \<Rightarrow> ('s, failure, unit) action) \<Rightarrow> 's backend \<Rightarrow> 's hadb \<Rightarrow> json \<Rightarrow> codec \<Rightarrow> (bytes \<Rightarrow> bytes) \<Rightarrow>
      ((u32 \<rightharpoonup> bytes) \<Rightarrow> (u32 \<times> bytes) list) \<Rightarrow> string \<Rightarrow> wal_sight \<Rightarrow> snapshot_sight \<Rightarrow> ('s site, failure, u64) action" where
  "sync_wal_with_retry retry b h j cd sha256 hm pre v sv =
     and_then (from_result (map_sum (\<lambda>e. [WalRead e]) id (read_header (vs_header v)))) (\<lambda>found.
       case found of
         None \<Rightarrow> and_then (ensure_database_in_wal_mode v) (\<lambda>_. return 0)
       | Some header \<Rightarrow>
           and_then (read_next_wal_batch v header) (\<lambda>batch.
             if wb_rollover_detected batch
             then and_then (take_snapshot_with_retry retry b h cd sha256 pre sv) (\<lambda>_.
                  and_then (save_state b j pre) (\<lambda>_. return 1))
             else let pages = hm (wb_page_map batch) in
               if pages = [] then return 0
               else and_then (prepare_changeset cd sha256 v header batch pages) (\<lambda>p.
                 and_then sync_state_of (\<lambda>st.
                 let key = build_state_changeset_key h pre st GENERATION_LIVE (pc_seq p) in
                 and_then (on_site_store (retry (put_changeset_if_absent b key (pc_bytes p)))) (\<lambda>_.
                 and_then (update_sync (advance_cursor batch p)) (\<lambda>_.
                 and_then (save_state b j pre) (\<lambda>_.
                   return (word_of_nat (wb_frame_count batch)))))))))"

end
