(* ===== verification/Durable.thy ===== *)
theory Durable
  imports RestorePlan
begin

text \<open>
  Backends on which a successful write stores the bytes it was given.  The general contract of
  \<open>storage_backend\<close> does not promise that, because the fault injector may flip bits; replication relies
  on it for the objects it has acknowledged.  The in-memory backend without silent corruption and the
  always-answering backend are instances.
\<close>

locale durable_backend = storage_backend +
  assumes put_stores: "\<And>s s'. b_put b k d s = (s', Inr ()) \<Longrightarrow> view s' k = Some d"
    and put_if_absent_stores: "\<And>s s' c. b_put_if_absent b k d s = (s', Inr c) \<Longrightarrow> cas_success c \<Longrightarrow> view s' k = Some d"

interpretation alist_durable: durable_backend alist_backend map_of
  by unfold_locales (auto simp: alist_backend_def update_conv' split: if_splits)

section \<open>The in-memory backend without silent corruption\<close>

definition keeps_bytes :: "mock_config \<Rightarrow> bool" where
  "keeps_bytes config \<longleftrightarrow> list_all (\<lambda>f. case f of SilentCorruption _ \<Rightarrow> False | _ \<Rightarrow> True) (mc_faults config)"

lemma maybe_corrupt_not:
  "list_all (\<lambda>f. case f of SilentCorruption _ \<Rightarrow> False | _ \<Rightarrow> True) fs \<Longrightarrow> maybe_corrupt rg fs d g = (d, False, g)"
  by (induction rg fs d g rule: maybe_corrupt.induct) auto

lemma write_object_stores:
  assumes "keeps_bytes config" "write_object rg config o' k d m = (m', Inr etag)"
  shows "mock_view m' k = Some d"
  using assms
  by (auto simp: write_object_def store_object_def insert_object_def next_etag_def mock_view_def update_conv' keeps_bytes_def maybe_corrupt_not
      split: option.splits if_splits prod.splits)

lemma write_then_stores:
  assumes "keeps_bytes config" "and_then (write_object rg config o' k d) (\<lambda>x. return (f x)) m = (m', Inr r)"
  shows "mock_view m' k = Some d"
  using assms(2) write_object_stores [OF assms(1), of rg o' k d m]
  by (auto simp: and_then_def return_def split: prod.splits sum.splits)

locale honest_mock = mock_storage +
  assumes keeps: "keeps_bytes config"

sublocale honest_mock \<subseteq> durable_backend "mock_backend trait_range_get trait_delete_many rg config" mock_view
proof
  fix k d m m' and c :: cas_result
  show "mock_view m' k = Some d" if "b_put (mock_backend trait_range_get trait_delete_many rg config) k d m = (m', Inr ())"
    using that [unfolded mock_backend_def backend.simps mock_put_def]
    by (rule guarded_cases) (auto dest: write_then_stores [OF keeps])
  show "mock_view m' k = Some d"
    if "b_put_if_absent (mock_backend trait_range_get trait_delete_many rg config) k d m = (m', Inr c)" "cas_success c"
    using that(1) [unfolded mock_backend_def backend.simps mock_put_if_absent_def]
    by (rule guarded_cases) (use that(2) in \<open>auto dest: write_then_stores [OF keeps] split: if_splits\<close>)
qed

interpretation quiet_mock: honest_mock rg mock_config_default "whole_range_get rg mock_config_default" "serial_delete_many rg mock_config_default"
  for rg :: "'g rng"
  by unfold_locales (simp add: keeps_bytes_def mock_config_default_def)

end
