(* ===== verification/PublishRules.thy ===== *)
theory PublishRules
  imports Publish Durable
begin

text \<open>
  What each step of the publisher does to the bucket, to the local files and to its state, as
  weakest-precondition rules over an arbitrary backend.  Every rule covers success and failure.
  \<open>grown k\<close> is the only change a publication makes to the objects: the absent object \<open>k\<close> appears.
\<close>

abbreviation store_of :: "'s site \<Rightarrow> 's" where
  "store_of z \<equiv> w_store (si_world z)"

abbreviation files_of :: "'s site \<Rightarrow> string \<rightharpoonup> bytes" where
  "files_of z \<equiv> w_files (si_world z)"

definition emitted :: "string \<Rightarrow> bool \<Rightarrow> 's site \<Rightarrow> 's site" where
  "emitted mode recovered z = fst (emit_rollover mode recovered z)"

lemma emitted_simps [simp]: "si_sync (emitted mode r z) = si_sync z" "si_world (emitted mode r z) = si_world z"
  by (simp_all add: emitted_def emit_rollover_def)

lemma wp_emit_rollover [wp_simps]: "wp (emit_rollover mode r) Q E z = Q () (emitted mode r z)"
  by (simp add: wp_def emit_rollover_def emitted_def)

context storage_backend
begin

text \<open>Outside \<open>K\<close> no object has changed or gone, and only objects of \<open>N\<close> that were absent have appeared.\<close>

definition evolves :: "string set \<Rightarrow> string set \<Rightarrow> 's \<Rightarrow> 's \<Rightarrow> bool" where
  "evolves K N s s' \<longleftrightarrow> (\<forall>j. j \<notin> K \<longrightarrow> j \<notin> N \<or> view s j \<noteq> None \<longrightarrow> view s' j = view s j)"

abbreviation grown :: "string \<Rightarrow> 's \<Rightarrow> 's \<Rightarrow> bool" where
  "grown k \<equiv> evolves {} {k}"

lemmas grown_def = evolves_def [of "{}" "{k}" for k, simplified]

lemma evolves_same [simp]: "view s' = view s \<Longrightarrow> evolves K N s s'"
  by (simp add: evolves_def)

lemma evolves_mono: "evolves K N s s' \<Longrightarrow> K \<subseteq> K' \<Longrightarrow> N \<subseteq> N' \<Longrightarrow> evolves K' N' s s'"
  by (auto simp: evolves_def)

lemma evolves_trans: "evolves K N s s' \<Longrightarrow> evolves K N s' s'' \<Longrightarrow> evolves K N s s''"
  by (simp add: evolves_def)

lemma only_evolves: "only K s s' \<Longrightarrow> evolves K N s s'"
  by (simp add: only_def evolves_def)

lemma evolves_keeps: "evolves K N s s' \<Longrightarrow> view s j = Some x \<Longrightarrow> j \<notin> K \<Longrightarrow> view s' j = Some x"
  by (simp add: evolves_def)

lemma wp_get_with_delays:
  assumes "\<And>s'. view s' = view s \<Longrightarrow> Q None s'"
    and "\<And>d s'. view s' = view s \<Longrightarrow> view s key = Some d \<Longrightarrow> Q (Some d) s'"
    and "\<And>e s'. view s' = view s \<Longrightarrow> E [Message e] s'"
  shows "wp (get_with_delays b key ds) Q E s"
  using assms
proof (induction ds arbitrary: s)
  case (Cons d ds)
  show ?case
    unfolding get_with_delays.simps wp_and_then storage_op_def wp_map_error
  proof (cases "b_get b key s")
    case (Pair s' r)
    from get [OF Pair] have v: "view s' = view s" "\<And>d. r = Inr (Some d) \<Longrightarrow> view s key = Some d" by auto
    show "wp (b_get b key) (\<lambda>a. wp (case a of None \<Rightarrow> get_with_delays b key ds | Some existing \<Rightarrow> return (Some existing)) Q E) (\<lambda>e. E [Message e]) s"
      using Pair v Cons by (cases r) (auto simp: wp_def [of "b_get b key"] wp_return split: option.split intro!: Cons.IH)
  qed
qed (simp add: wp_return)

lemma wp_put_changeset_if_absent:
  assumes "\<And>s'. grown key s s' \<Longrightarrow> view s' key \<noteq> None \<Longrightarrow> (durable_backend b view \<Longrightarrow> view s' key = Some bs) \<Longrightarrow> Q () s'"
    and "\<And>e s'. grown key s s' \<Longrightarrow>  is_equivocation e \<longrightarrow> view s' = view s \<and> (\<exists>x. view s key = Some x \<and> x \<noteq> bs) \<Longrightarrow> E e s'"
  shows "wp (put_changeset_if_absent b key bs) Q E s"
  unfolding put_changeset_if_absent_def wp_and_then storage_op_def wp_map_error
proof (cases "b_put_if_absent b key bs s")
  case (Pair s' r)
  from put_if_absent [OF Pair] have kept: "grown key s s'" by (auto simp: grown_def)
  show "wp (b_put_if_absent b key bs)
      (\<lambda>a. wp (if cas_success a then return ()
               else and_then (get_existing_after_failed_cas b key)
                      (\<lambda>found. case found of None \<Rightarrow> raise [Message ''duplicate changeset vanished after CAS failure'']
                         | Some existing \<Rightarrow> if existing \<noteq> bs then raise [Typed (Equivocation ''duplicate changeset; refusing overwrite'')] else return ()))
              Q E) (\<lambda>e. E [Message e]) s"
  proof (cases r)
    case (Inl e)
    then show ?thesis using Pair kept assms(2) by (simp add: wp_def is_equivocation_def)
  next
    case (Inr c)
    show ?thesis
    proof (cases "cas_success c")
      case True
      with put_if_absent [OF Pair] Inr have "view s key = None" "view s' key \<noteq> None" by auto
      moreover have "durable_backend b view \<Longrightarrow> view s' key = Some bs"
        by (rule durable_backend.put_if_absent_stores [OF _ Pair [unfolded Inr] True])
      ultimately show ?thesis using True Pair Inr kept assms(1) by (simp add: wp_def return_def)
    next
      case False
      with put_if_absent [OF Pair] Inr have v: "view s' = view s" "view s key \<noteq> None" by auto
      have "wp (get_existing_after_failed_cas b key)
          (\<lambda>found. wp (case found of None \<Rightarrow> raise [Message ''duplicate changeset vanished after CAS failure'']
             | Some existing \<Rightarrow> if existing \<noteq> bs then raise [Typed (Equivocation ''duplicate changeset; refusing overwrite'')] else return ()) Q E) E s'"
        unfolding get_existing_after_failed_cas_def
      proof (rule wp_get_with_delays, goal_cases)
        case (1 s'')
        then show ?case using v by (auto simp: wp_simps is_equivocation_def intro!: assms(2))
      next
        case (2 d s'')
        then have "d \<noteq> bs \<Longrightarrow> E [Typed (Equivocation ''duplicate changeset; refusing overwrite'')] s''"
          using v by (intro assms(2)) (auto simp: is_equivocation_def)
        moreover have "d = bs \<Longrightarrow> Q () s''" using 2 v by (intro assms(1)) auto
        ultimately show ?case by (simp add: wp_simps)
      next
        case (3 e s'')
        then show ?case using v by (intro assms(2)) (auto simp: is_equivocation_def)
      qed
      with False Pair Inr show ?thesis by (simp add: wp_def [of "b_put_if_absent b key bs"] wp_and_then)
    qed
  qed
qed

lemma wp_save_state:
  assumes "\<And>z' d. state_json_bytes j (si_sync z) = Inr d \<Longrightarrow> only {state_key pre (ss_name (si_sync z))} (store_of z) (store_of z') \<Longrightarrow>
      (durable_backend b view \<Longrightarrow> view (store_of z') (state_key pre (ss_name (si_sync z))) = Some d) \<Longrightarrow>
      si_sync z' = si_sync z \<Longrightarrow> files_of z' = files_of z \<Longrightarrow> si_events z' = si_events z \<Longrightarrow> Q () z'"
    and "\<And>e z'. only {state_key pre (ss_name (si_sync z))} (store_of z) (store_of z') \<Longrightarrow>
      si_sync z' = si_sync z \<Longrightarrow> files_of z' = files_of z \<Longrightarrow> si_events z' = si_events z \<Longrightarrow> E e z'"
  shows "wp (save_state b j pre) Q E z"
proof (cases "state_json_bytes j (si_sync z)")
  case (Inl e)
  then show ?thesis using assms(2) by (simp add: save_state_def wp_simps only_def)
next
  case (Inr d)
  let ?k = "state_key pre (ss_name (si_sync z))"
  obtain s' r where put: "b_put b ?k d (store_of z) = (s', r)" by (cases "b_put b ?k d (store_of z)") auto
  have o: "only {?k} (store_of z) s'" by (rule confined_run [OF writes_only(1) put])
  have "durable_backend b view \<Longrightarrow> r = Inr () \<Longrightarrow> view s' ?k = Some d"
    using put by (auto intro: durable_backend.put_stores)
  then show ?thesis
    using Inr put o assms by (cases r) (simp_all add: save_state_def wp_simps storage_op_def wp_def [of "b_put b ?k d"])
qed

end

section \<open>Snapshots\<close>

definition with_blocker :: "bool \<Rightarrow> 's site \<Rightarrow> 's site" where
  "with_blocker bl z = z\<lparr>si_sync := (si_sync z)\<lparr>ss_blocker := bl\<rparr>\<rparr>"

lemma with_blocker_simps [simp]:
  "si_world (with_blocker bl z) = si_world z" "si_events (with_blocker bl z) = si_events z"
  "si_sync (with_blocker bl z) = (si_sync z)\<lparr>ss_blocker := bl\<rparr>" "with_blocker bl (with_blocker bl' z) = with_blocker bl z"
  by (simp_all add: with_blocker_def)

lemma with_blocker_same [simp]: "ss_blocker (si_sync z) = bl \<Longrightarrow> with_blocker bl z = z"
  by (auto simp: with_blocker_def)

lemma wp_release_checkpoint_blocker:
  assumes "Q () (with_blocker False z)" "\<And>e. E [Message e] (with_blocker False z)"
  shows "wp (release_checkpoint_blocker sv) Q E z"
  using assms
  by (cases "ss_blocker (si_sync z)")
    (auto simp: release_checkpoint_blocker_def sqlite_answer_def wp_simps with_blocker_def [symmetric] split: sum.split)

lemma wp_checkpoint_wal:
  assumes "Q () z" "\<And>e. E [Message e] z"
  shows "wp (checkpoint_wal sv) Q E z"
  using assms by (auto simp: checkpoint_wal_def sqlite_answer_def wp_simps split: sum.split prod.split)

lemma wp_reacquire_checkpoint_blocker:
  assumes "Q () (with_blocker True z)" "\<And>e. E [Message e] z"
  shows "wp (reacquire_checkpoint_blocker sv) Q E z"
  using assms
  by (cases "ss_blocker (si_sync z)")
    (auto simp: reacquire_checkpoint_blocker_def sqlite_answer_def wp_simps with_blocker_def [symmetric] split: sum.split)

lemma wp_from_resultI:
  assumes "\<And>e. r = Inl e \<Longrightarrow> E e z" "\<And>a. r = Inr a \<Longrightarrow> Q a z"
  shows "wp (from_result r) Q E z"
  using assms by (simp add: wp_from_result split: sum.split)

lemma wp_prepare_snapshot:
  assumes "\<And>p psz es. encode_snapshot_with_checksum cd sha256 (sn_db sv) psz (ss_current_seq (si_sync z) + 1)
        (case ss_db_checksum (si_sync z) of Some c \<Rightarrow> c | None \<Rightarrow> 0) = Inr es \<Longrightarrow>
      ps_seq p = ss_current_seq (si_sync z) + 1 \<Longrightarrow> ps_bytes p = es_bytes es \<Longrightarrow> ps_checksum p = es_checksum es \<Longrightarrow>
      Q p (with_blocker True z)"
    and "\<And>e bl. \<not> is_equivocation e \<Longrightarrow> E e (with_blocker bl z)"
  shows "wp (prepare_snapshot cd sha256 sv) Q E z"
proof -
  have E: "E [c] (with_blocker bl z)" if "\<forall>m. c \<noteq> Typed (Equivocation m)" for c bl
    using that by (intro assms(2)) (auto simp: is_equivocation_def split: cause.split walrust_error.split)
  have "wp (from_result (get_page_size (sn_header sv)))
      (\<lambda>page_size. wp (let cc = (case change_counter_from_file (sn_counter sv) of Inr c \<Rightarrow> c | Inl e \<Rightarrow> 0) in
         and_then (from_result (map_sum (\<lambda>e. [WalRead e]) id (count_wal_commits (sn_wal sv) page_size))) (\<lambda>wal_commits.
         and_then sync_state_of (\<lambda>st.
         let new_txid = (if ss_current_txid st < cc + word_of_nat wal_commits then cc + word_of_nat wal_commits else ss_current_txid st + 1);
             new_seq = ss_current_seq st + 1;
             prev_checksum = (case ss_db_checksum st of Some c \<Rightarrow> c | None \<Rightarrow> 0)
         in and_then (from_result (map_sum (\<lambda>e. [Changeset e]) id
               (encode_snapshot_with_checksum cd sha256 (sn_db sv) page_size new_seq prev_checksum))) (\<lambda>snapshot.
              return \<lparr>ps_txid = new_txid, ps_seq = new_seq, ps_bytes = es_bytes snapshot, ps_checksum = es_checksum snapshot\<rparr>)))) Q E)
      E (with_blocker True z)"
    using E by (simp add: wp_simps Let_def get_page_size_def assms(1) split: option.split sum.split)
  then show ?thesis
    unfolding prepare_snapshot_def
    by (intro wp_and_thenI wp_release_checkpoint_blocker wp_checkpoint_wal wp_reacquire_checkpoint_blocker)
      (use E in \<open>simp_all add: wp_and_then\<close>)
qed

text \<open>The state after a successful snapshot.\<close>

definition snapshot_state :: "snapshot_sight \<Rightarrow> u64 \<Rightarrow> u64 \<Rightarrow> sync_state \<Rightarrow> sync_state" where
  "snapshot_state sv txid checksum st =
     reset_wal_cursor_after_snapshot sv
       (st\<lparr>ss_blocker := True, ss_current_seq := ss_current_seq st + 1, ss_current_txid := txid,
           ss_last_snapshot := Some (sn_timestamp sv), ss_db_checksum := Some checksum\<rparr>)"

abbreviation next_key :: "'s hadb \<Rightarrow> string \<Rightarrow> sync_state \<Rightarrow> u64 \<Rightarrow> string" where
  "next_key h pre st g \<equiv> build_state_changeset_key h pre st g (ss_current_seq st + 1)"

lemma changeset_key_cong:
  "ss_name st' = ss_name st \<Longrightarrow> ss_lineage_id st' = ss_lineage_id st \<Longrightarrow>
     build_state_changeset_key h pre st' g n = build_state_changeset_key h pre st g n"
  by (simp add: build_state_changeset_key_def split: option.split)

lemma changeset_key_blocker [simp]:
  "build_state_changeset_key h pre (st\<lparr>ss_blocker := bl\<rparr>) g n = build_state_changeset_key h pre st g n"
  by (rule changeset_key_cong) simp_all

context storage_backend
begin

text \<open>Actions that may create the object they are given and change nothing else.\<close>

definition stores_object :: "(string \<Rightarrow> bytes \<Rightarrow> ('s, failure, unit) action) \<Rightarrow> bool" where
  "stores_object put \<longleftrightarrow> (\<forall>key bs s. wp (put key bs)
     (\<lambda>_ s'. grown key s s' \<and> view s' key \<noteq> None \<and> (durable_backend b view \<longrightarrow> view s' key = Some bs)) (\<lambda>_ s'. grown key s s') s)"

lemma wp_stores_object:
  assumes "stores_object put"
    and "\<And>s'. grown key s s' \<Longrightarrow> view s' key \<noteq> None \<Longrightarrow> (durable_backend b view \<Longrightarrow> view s' key = Some bs) \<Longrightarrow> Q () s'"
    and "\<And>e s'. grown key s s' \<Longrightarrow> E e s'"
  shows "wp (put key bs) Q E s"
proof -
  from assms(1) have "wp (put key bs)
     (\<lambda>_ s'. grown key s s' \<and> view s' key \<noteq> None \<and> (durable_backend b view \<longrightarrow> view s' key = Some bs)) (\<lambda>_ s'. grown key s s') s"
    by (simp add: stores_object_def)
  then show ?thesis by (rule wp_mono) (use assms(2,3) in auto)
qed

lemma put_changeset_stores: "stores_object (put_changeset_if_absent b)"
  by (auto simp: stores_object_def intro: wp_put_changeset_if_absent)

end

text \<open>Taking a snapshot with any way of putting the object.\<close>

definition snapshot_via ::
    "(string \<Rightarrow> bytes \<Rightarrow> ('s, failure, unit) action) \<Rightarrow> 's hadb \<Rightarrow> codec \<Rightarrow> (bytes \<Rightarrow> bytes) \<Rightarrow> string \<Rightarrow> snapshot_sight \<Rightarrow> ('s site, failure, unit) action" where
  "snapshot_via put h cd sha256 pre sv =
     and_then (prepare_snapshot cd sha256 sv) (\<lambda>p.
     and_then sync_state_of (\<lambda>st.
     and_then (on_site_store (put (build_state_changeset_key h pre st GENERATION_SNAPSHOT (ps_seq p)) (ps_bytes p))) (\<lambda>_.
       finish_snapshot sv p)))"

lemma take_snapshot_via: "take_snapshot b h cd sha256 pre sv = snapshot_via (put_changeset_if_absent b) h cd sha256 pre sv"
  by (simp add: take_snapshot_def snapshot_via_def)

context storage_backend
begin

lemma wp_snapshot_via:
  assumes put: "stores_object put"
    and ok: "\<And>psz es txid z'.
      encode_snapshot_with_checksum cd sha256 (sn_db sv) psz (ss_current_seq (si_sync z) + 1)
        (case ss_db_checksum (si_sync z) of Some c \<Rightarrow> c | None \<Rightarrow> 0) = Inr es \<Longrightarrow>
      grown (next_key h pre (si_sync z) GENERATION_SNAPSHOT) (store_of z) (store_of z') \<Longrightarrow> view (store_of z') (next_key h pre (si_sync z) GENERATION_SNAPSHOT) \<noteq> None \<Longrightarrow>
      (durable_backend b view \<Longrightarrow> view (store_of z') (next_key h pre (si_sync z) GENERATION_SNAPSHOT) = Some (es_bytes es)) \<Longrightarrow>
      files_of z' = files_of z \<Longrightarrow> si_events z' = si_events z \<Longrightarrow>
      si_sync z' = snapshot_state sv txid (es_checksum es) (si_sync z) \<Longrightarrow> Q () z'"
    and err: "\<And>e z' bl. grown (next_key h pre (si_sync z) GENERATION_SNAPSHOT) (store_of z) (store_of z') \<Longrightarrow> files_of z' = files_of z \<Longrightarrow> si_events z' = si_events z \<Longrightarrow>
      si_sync z' = (si_sync z)\<lparr>ss_blocker := bl\<rparr> \<Longrightarrow> E e z'"
  shows "wp (snapshot_via put h cd sha256 pre sv) Q E z"
  unfolding snapshot_via_def
proof (rule wp_and_thenI, rule wp_prepare_snapshot, goal_cases)
  case (1 p psz es)
  show ?case
    unfolding wp_and_then wp_sync_state_of wp_on_site_store
  proof (rule wp_stores_object [OF put], goal_cases)
    case (1 s')
    then show ?case
      using \<open>ps_seq p = _\<close> \<open>ps_bytes p = _\<close> \<open>ps_checksum p = _\<close>
      by (auto simp: finish_snapshot_def wp_update_sync snapshot_state_def
          intro!: ok [OF \<open>encode_snapshot_with_checksum _ _ _ _ _ _ = _\<close>])
  next
    case (2 e s')
    then show ?case using \<open>ps_seq p = _\<close> by (intro err) auto
  qed
next
  case (2 e bl)
  then show ?case by (intro err) (auto simp: grown_def)
qed

end

section \<open>Retries\<close>

text \<open>
  What is relied on of a retry policy: it runs the attempt, possibly several times, each time from
  where the failed attempt before it ended, and returns the result of the last.
\<close>

inductive attempts :: "('s, failure, unit) action \<Rightarrow> 's \<Rightarrow> 's \<Rightarrow> failure + unit \<Rightarrow> bool" for m where
  last: "m s = (s', r) \<Longrightarrow> attempts m s s' r"
| again: "m s = (s1, Inl e) \<Longrightarrow> attempts m s1 s' r \<Longrightarrow> attempts m s s' r"

locale retry_policy =
  fixes retry :: "('s, failure, unit) action \<Rightarrow> ('s, failure, unit) action"
  assumes retries: "\<And>m s s' r. retry m s = (s', r) \<Longrightarrow> attempts m s s' r"
begin

lemma wp_retry:
  assumes "P s" "\<And>s1. P s1 \<Longrightarrow> wp m Q (\<lambda>e. P) s1" "\<And>e s1. P s1 \<Longrightarrow> E e s1"
  shows "wp (retry m) Q E s"
proof -
  have run: "case r of Inl e \<Rightarrow> P s' | Inr a \<Rightarrow> Q a s'" if "attempts m s s' r" "P s" for s' r s
    using that
  proof induction
    case (last s s' r)
    then show ?case using wp_run [OF assms(2)] by blast
  next
    case (again s s1 e s' r)
    then show ?case using wp_run [OF assms(2) again(1)] by simp
  qed
  show ?thesis
  proof (cases "retry m s")
    case (Pair s' r)
    from run [OF retries [OF Pair] assms(1)] assms(3) Pair show ?thesis by (cases r) (simp_all add: wp_def)
  qed
qed

end

fun retry_times :: "nat \<Rightarrow> ('s, failure, unit) action \<Rightarrow> ('s, failure, unit) action" where
  "retry_times 0 m s = m s"
| "retry_times (Suc n) m s = (case m s of (s1, Inl e) \<Rightarrow> retry_times n m s1 | (s1, Inr u) \<Rightarrow> (s1, Inr u))"

interpretation bounded: retry_policy "retry_times n" for n
proof
  show "attempts m s s' r" if "retry_times n m s = (s', r)" for m :: "('s, failure, unit) action" and s s' r
    using that by (induction n m s rule: retry_times.induct) (auto intro: attempts.intros split: prod.splits sum.splits)
qed

context storage_backend
begin

lemma retried_stores:
  assumes pol: "retry_policy retry" and held: "\<And>s. view (fst (held s)) = view s" and put: "stores_object put"
  shows "stores_object (\<lambda>key bs. retry (and_then held (\<lambda>_. put key bs)))"
  unfolding stores_object_def
proof (intro allI)
  fix key bs s
  show "wp (retry (and_then held (\<lambda>_. put key bs)))
     (\<lambda>_ s'. grown key s s' \<and> view s' key \<noteq> None \<and> (durable_backend b view \<longrightarrow> view s' key = Some bs)) (\<lambda>_ s'. grown key s s') s"
  proof (rule retry_policy.wp_retry [OF pol, where P = "grown key s"], goal_cases)
    case (2 s1)
    have h: "wp held (\<lambda>_ s2. view s2 = view s1) (\<lambda>_ s2. view s2 = view s1) s1" using held by (simp add: wp_fst)
    show ?case
      unfolding wp_and_then
    proof (rule wp_mono [OF h], goal_cases)
      case (1 u s2)
      have "grown key s s2" using \<open>grown key s s1\<close> 1 by (simp add: evolves_def)
      then show ?case by (intro wp_stores_object [OF put]) (auto intro: evolves_trans)
    next
      case (2 e s2)
      then show ?case using \<open>grown key s s1\<close> by (simp add: evolves_def)
    qed
  qed simp_all
qed

end

lemma and_then_return_left [simp]: "and_then (return a) f = f a"
  by (rule ext) (simp add: and_then_def return_def)

lemma guarded_snapshot_via:
  "take_snapshot_with_retry_guarded retry b h cd sha256 pre lease sv =
     snapshot_via (\<lambda>key bs. retry (and_then (lease_held lease) (\<lambda>_. put_changeset_if_absent b key bs))) h cd sha256 pre sv"
  by (simp add: take_snapshot_with_retry_guarded_def snapshot_via_def Let_def)

section \<open>Local records\<close>

lemma wp_disk_op:
  assumes "\<And>w'. w_store w' = w_store w \<Longrightarrow> w_files w' = w_files w \<Longrightarrow> Q () w'"
    and "\<And>w'. w_store w' = w_store w \<Longrightarrow> w_files w' = w_files w \<Longrightarrow> E [Message msg] w'"
  shows "wp (disk_op msg) Q E w"
proof (cases "next_fault w")
  case (Pair w' x)
  then show ?thesis using assms next_fault_frame [OF Pair] by (cases x) (simp_all add: wp_def disk_op_def)
qed

lemma wp_read_local:
  assumes "\<And>w'. w_store w' = w_store w \<Longrightarrow> w_files w' = w_files w \<Longrightarrow> Q (w_files w path) w'"
    and "\<And>w'. w_store w' = w_store w \<Longrightarrow> w_files w' = w_files w \<Longrightarrow> E [Message msg] w'"
  shows "wp (read_local msg path) Q E w"
proof (cases "next_fault w")
  case (Pair w' x)
  then show ?thesis using assms next_fault_frame [OF Pair] by (cases x) (simp_all add: wp_def read_local_def)
qed

text \<open>Files other than a record and its temporary file are untouched.\<close>

definition besides :: "string \<Rightarrow> (string \<rightharpoonup> bytes) \<Rightarrow> (string \<rightharpoonup> bytes) \<Rightarrow> bool" where
  "besides path fs fs' \<longleftrightarrow> (\<forall>q. q \<noteq> path \<and> q \<noteq> path @ ''.tmp'' \<longrightarrow> fs' q = fs q)"

lemma wp_install_file:
  assumes ok: "\<And>w'. w_store w' = w_store w \<Longrightarrow> besides path (w_files w) (w_files w') \<Longrightarrow> w_files w' path = Some bs \<Longrightarrow> Q () w'"
    and err: "\<And>e w'. w_store w' = w_store w \<Longrightarrow> besides path (w_files w) (w_files w') \<Longrightarrow>
      w_files w' path = w_files w path \<or> w_files w' path = Some bs \<Longrightarrow> E [Message e] w'"
  shows "wp (install_file path bs) Q E w"
proof -
  have ne: "path \<noteq> path @ ''.tmp''" by simp
  show ?thesis
  proof (cases "write_file (path @ ''.tmp'') bs w")
    case (Pair w1 r1)
    obtain x1 where f1: "w_store w1 = w_store w" "w_files w1 = (w_files w)(path @ ''.tmp'' := x1)" "r1 = Inr () \<longrightarrow> x1 = Some bs"
        "\<forall>e. r1 = Inl e \<longrightarrow> (\<exists>m. e = [Message m])"
      using Pair by (auto simp: write_file_def next_fault_def split: list.splits option.splits)
    obtain w2 r2 where Pair2: "rename_file (path @ ''.tmp'') path w1 = (w2, r2)" by (cases "rename_file (path @ ''.tmp'') path w1")
    have f2: "w_store w2 = w_store w1" "r2 = Inr () \<longrightarrow> w_files w2 = (w_files w1)(path @ ''.tmp'' := None, path := x1)"
        "\<forall>e. r2 = Inl e \<longrightarrow> (\<exists>m. e = [Message m]) \<and> w_files w2 = w_files w1"
      using Pair2 f1(2) by (auto simp: rename_file_def next_fault_def split: list.splits option.splits)
    show ?thesis
      unfolding install_file_def wp_and_then wp_def [of "write_file _ _"] Pair
    proof (cases r1)
      case (Inl e)
      then show "case (w1, r1) of (s', Inl e) \<Rightarrow> E e s' | (s', Inr a) \<Rightarrow> wp (rename_file (path @ ''.tmp'') path) (\<lambda>a. wp fsync_dir Q E) E s'"
        using f1 ne err by (fastforce simp: besides_def)
    next
      case (Inr u)
      have "wp (rename_file (path @ ''.tmp'') path) (\<lambda>a. wp fsync_dir Q E) E w1"
      proof (cases r2)
        case (Inl e)
        then show ?thesis using Pair2 f1 f2 ne err by (fastforce simp: wp_def [of "rename_file _ _"] besides_def)
      next
        case (Inr u')
        have "wp fsync_dir Q E w2"
          unfolding fsync_dir_def using f1 f2 Inr \<open>r1 = Inr u\<close> ne
          by (intro wp_disk_op ok err) (auto simp: besides_def)
        then show ?thesis using Pair2 Inr by (simp add: wp_def [of "rename_file _ _"])
      qed
      with Inr show "case (w1, r1) of (s', Inl e) \<Rightarrow> E e s' | (s', Inr a) \<Rightarrow> wp (rename_file (path @ ''.tmp'') path) (\<lambda>a. wp fsync_dir Q E) E s'"
        by simp
    qed
  qed
qed

lemma wp_save_publish_intent:
  assumes ok: "\<And>w' bs. w_store w' = w_store w \<Longrightarrow> besides (publish_intent_path st) (w_files w) (w_files w') \<Longrightarrow>
      j_encode_intent j (intent_of st n c0 c1) = Inr bs \<Longrightarrow> w_files w' (publish_intent_path st) = Some bs \<Longrightarrow> Q () w'"
    and err: "\<And>e w'. w_store w' = w_store w \<Longrightarrow> besides (publish_intent_path st) (w_files w) (w_files w') \<Longrightarrow> E [Message e] w'"
  shows "wp (save_publish_intent j st n c0 c1) Q E w"
  unfolding save_publish_intent_def
proof (rule wp_and_thenI, rule wp_disk_op, goal_cases)
  case (1 w')
  show ?case
  proof (cases "j_encode_intent j (intent_of st n c0 c1)")
    case (Inl e)
    then show ?thesis using 1 by (auto simp: wp_simps besides_def intro!: err)
  next
    case (Inr bs)
    have "wp (install_file (publish_intent_path st) bs) Q E w'"
      by (rule wp_install_file) (use 1 Inr in \<open>auto intro!: ok err\<close>)
    with Inr show ?thesis by (simp add: wp_simps)
  qed
next
  case (2 w')
  then show ?case by (intro err) (auto simp: besides_def)
qed

lemma wp_save_external_base_progress:
  assumes ok: "\<And>w' x bs. w_store w' = w_store w \<Longrightarrow> besides (external_base_progress_path st) (w_files w) (w_files w') \<Longrightarrow>
      progress_from_state st = Inr x \<Longrightarrow> j_encode_progress j x = Inr bs \<Longrightarrow> w_files w' (external_base_progress_path st) = Some bs \<Longrightarrow> Q () w'"
    and err: "\<And>e w'. w_store w' = w_store w \<Longrightarrow> besides (external_base_progress_path st) (w_files w) (w_files w') \<Longrightarrow> E [Message e] w'"
  shows "wp (save_external_base_progress j st) Q E w"
  unfolding save_external_base_progress_def
proof (rule wp_and_thenI, rule wp_disk_op, goal_cases)
  case (1 w')
  have E: "E [Message e] w'" for e using 1 by (intro err) (auto simp: besides_def)
  show ?case
  proof (cases "progress_from_state st")
    case (Inl e)
    then show ?thesis using E by (auto simp: wp_simps progress_from_state_def split: option.splits)
  next
    case (Inr x)
    show ?thesis
    proof (cases "j_encode_progress j x")
      case (Inr bs)
      have "wp (install_file (external_base_progress_path st) bs) Q E w'"
        by (rule wp_install_file) (use 1 \<open>progress_from_state st = Inr x\<close> Inr in \<open>auto intro!: ok err\<close>)
      with \<open>progress_from_state st = Inr x\<close> Inr show ?thesis by (simp add: wp_simps)
    qed (use \<open>progress_from_state st = Inr x\<close> E in \<open>simp add: wp_simps\<close>)
  qed
next
  case (2 w')
  then show ?case by (intro err) (auto simp: besides_def)
qed

text \<open>A loaded intent is the one on disk; an absent file is no intent.\<close>

definition local_intent :: "json \<Rightarrow> sync_state \<Rightarrow> (string \<rightharpoonup> bytes) \<Rightarrow> publish_intent option" where
  "local_intent j st fs =
     (case fs (publish_intent_path st) of
        None \<Rightarrow> None
      | Some bs \<Rightarrow> (case j_decode_intent j bs of Inr i \<Rightarrow> Some i | Inl e \<Rightarrow> None))"

lemma wp_load_publish_intent:
  assumes "\<And>w'. w_store w' = w_store w \<Longrightarrow> w_files w' = w_files w \<Longrightarrow> Q (local_intent j st (w_files w)) w'"
    and "\<And>e w'. w_store w' = w_store w \<Longrightarrow> w_files w' = w_files w \<Longrightarrow> E [Message e] w'"
  shows "wp (load_publish_intent j st) Q E w"
  unfolding load_publish_intent_def
proof (rule wp_and_thenI, rule wp_read_local, goal_cases)
  case (1 w')
  then show ?case using assms by (auto simp: wp_simps local_intent_def split: option.split sum.split)
qed (use assms(2) in auto)

section \<open>Reading and encoding a batch\<close>

text \<open>The state after a batch was read: cursor reset on rollover, salt and chain recorded.\<close>

definition batch_state :: "wal_sight \<Rightarrow> wal_header \<Rightarrow> page_map_read \<Rightarrow> sync_state \<Rightarrow> sync_state" where
  "batch_state v header r st =
     (let st1 = rollover_cursor v header st in case pm_chain r of None \<Rightarrow> st1 | Some chain \<Rightarrow> st1\<lparr>ss_wal_checksum_chain := Some chain\<rparr>)"

definition batch_of :: "wal_sight \<Rightarrow> wal_header \<Rightarrow> page_map_read \<Rightarrow> sync_state \<Rightarrow> wal_batch" where
  "batch_of v header r st =
     \<lparr>wb_page_map = pm_map r, wb_frame_count = pm_frames r, wb_new_offset = pm_offset r, wb_final_db_size = pm_db_size r,
      wb_commit_count = pm_commits r, wb_rollover_detected = (size_rollover v st \<or> salt_rollover header st)\<rparr>"

definition batch_read :: "wal_sight \<Rightarrow> wal_header \<Rightarrow> sync_state \<Rightarrow> wal_error + page_map_read" where
  "batch_read v header st =
     (let st1 = rollover_cursor v header st in
      read_frames_as_page_map_checked (vs_frames v) (wh_page_size header) (ss_wal_offset st1) (batch_chain_seed st1))"

lemma wp_read_next_wal_batch:
  assumes "\<And>r. batch_read v header (si_sync z) = Inr r \<Longrightarrow>
      Q (batch_of v header r (si_sync z)) (z\<lparr>si_sync := batch_state v header r (si_sync z)\<rparr>)"
    and "\<And>e. batch_read v header (si_sync z) = Inl e \<Longrightarrow> E [WalRead e] (z\<lparr>si_sync := rollover_cursor v header (si_sync z)\<rparr>)"
  shows "wp (read_next_wal_batch v header) Q E z"
  using assms
  by (cases "batch_read v header (si_sync z)")
    (auto simp: read_next_wal_batch_def wp_simps batch_read_def Let_def batch_of_def batch_state_def split: option.splits)

text \<open>The fields a batch read never changes.\<close>

lemma batch_state_frame [simp]:
  "ss_name (batch_state v header r st) = ss_name st" "ss_lineage_id (batch_state v header r st) = ss_lineage_id st"
  "ss_current_seq (batch_state v header r st) = ss_current_seq st" "ss_db_checksum (batch_state v header r st) = ss_db_checksum st"
  "ss_current_txid (batch_state v header r st) = ss_current_txid st" "ss_db_dir (batch_state v header r st) = ss_db_dir st"
  "ss_db_file (batch_state v header r st) = ss_db_file st" "ss_wal_path (batch_state v header r st) = ss_wal_path st"
  "ss_external_base (batch_state v header r st) = ss_external_base st" "ss_observed (batch_state v header r st) = ss_observed st"
  "ss_last_snapshot (batch_state v header r st) = ss_last_snapshot st" "ss_wal_generation (batch_state v header r st) = ss_wal_generation st"
  "ss_blocker (batch_state v header r st) = ss_blocker st"
  by (simp_all add: batch_state_def rollover_cursor_def Let_def split: option.split)

text \<open>The checksum the next incremental chains from.\<close>

definition base_checksum :: "(bytes \<Rightarrow> bytes) \<Rightarrow> wal_sight \<Rightarrow> sync_state \<Rightarrow> ltx_error + u64" where
  "base_checksum sha256 v st =
     (case ss_db_checksum st of Some c \<Rightarrow> Inr c | None \<Rightarrow> compute_checksum_from_file sha256 (vs_db v))"

definition encodes ::
    "codec \<Rightarrow> (bytes \<Rightarrow> bytes) \<Rightarrow> wal_sight \<Rightarrow> wal_header \<Rightarrow> wal_batch \<Rightarrow> (u32 \<times> bytes) list \<Rightarrow> sync_state \<Rightarrow> prepared_changeset \<Rightarrow> bool" where
  "encodes cd sha256 v header batch pages st p \<longleftrightarrow>
     base_checksum sha256 v st = Inr (pc_pre_checksum p) \<and> pc_seq p = ss_current_seq st + 1 \<and>
     pc_max_txid p = max_txid_of st pages (wb_commit_count batch) \<and> wb_final_db_size batch \<noteq> 0 \<and>
     encode_wal_changes_with_end_page_count cd pages (wh_page_size header) (pc_seq p) (pc_pre_checksum p) (ucast (wb_final_db_size batch)) =
       Inr (pc_bytes p, pc_post_checksum p)"

lemma wp_prepare_changeset:
  assumes "\<And>p. encodes cd sha256 v header batch pages (si_sync z) p \<Longrightarrow> Q p z" "\<And>e. \<not> is_equivocation e \<Longrightarrow> E e z"
  shows "wp (prepare_changeset cd sha256 v header batch pages) Q E z"
proof -
  have E: "E [Changeset e] z" "E [Message m] z" for e m using assms(2) by (simp_all add: is_equivocation_def)
  let ?pre = "and_then (case ss_db_checksum (si_sync z) of Some c \<Rightarrow> return c
      | None \<Rightarrow> from_result (map_sum (\<lambda>e. [Changeset e]) id (compute_checksum_from_file sha256 (vs_db v))))"
  have pre: "wp (?pre g) Q E z" if "\<And>c. base_checksum sha256 v (si_sync z) = Inr c \<Longrightarrow> wp (g c) Q E z" for g
    using that E by (auto simp: wp_simps base_checksum_def split: option.splits sum.splits)
  show ?thesis
    unfolding prepare_changeset_def wp_and_then [of sync_state_of] wp_sync_state_of
    by (rule pre) (use E assms(1) in \<open>auto simp: Let_def wp_simps encodes_def split: sum.split prod.split\<close>)
qed

section \<open>The object already stored\<close>

text \<open>The object under \<open>key\<close> is the publication the prior intent recorded.\<close>

definition our_publish ::
    "codec \<Rightarrow> (string \<rightharpoonup> bytes) \<Rightarrow> string \<Rightarrow> u64 \<Rightarrow> u64 \<Rightarrow> string option \<Rightarrow> publish_intent option \<Rightarrow> u64 \<Rightarrow> bool" where
  "our_publish cd objects key n c lineage prior adopted \<longleftrightarrow>
     (\<exists>intent bs cs. prior = Some intent \<and> pi_seq intent = n \<and> pi_pre_checksum intent = c \<and> pi_lineage_id intent = lineage \<and>
        objects key = Some bs \<and> decode_sqlite_changeset cd bs = Inr cs \<and> ph_seq (cs_header cs) = n \<and>
        ph_prev_checksum (cs_header cs) = c \<and> cs_checksum cs = pi_changeset_checksum intent \<and> adopted = cs_checksum cs)"

context storage_backend
begin

lemma wp_existing_changeset_is_our_publish:
  assumes "\<And>s'. view s' = view s \<Longrightarrow> Q None s'"
    and "\<And>s' adopted. view s' = view s \<Longrightarrow> our_publish cd (view s) key n c lineage prior adopted \<Longrightarrow> Q (Some adopted) s'"
    and "\<And>s' e. view s' = view s \<Longrightarrow> E [Message e] s'"
  shows "wp (existing_changeset_is_our_publish b cd key n c lineage prior) Q E s"
proof (cases "b_get b key s")
  case (Pair s' r)
  from get [OF Pair] have v: "view s' = view s" "\<And>d. r = Inr (Some d) \<Longrightarrow> view s key = Some d" by auto
  show ?thesis
  proof (cases prior)
    case None
    then show ?thesis using assms(1) by (simp add: existing_changeset_is_our_publish_def wp_simps)
  next
    case (Some i)
    have "Q (Some (cs_checksum cs)) s'"
      if "pi_seq i = n" "pi_pre_checksum i = c" "pi_lineage_id i = lineage" "r = Inr (Some bs)" "decode_sqlite_changeset cd bs = Inr cs"
        "ph_seq (cs_header cs) = n" "ph_prev_checksum (cs_header cs) = c" "cs_checksum cs = pi_changeset_checksum i" for bs cs
      using that v Some by (intro assms(2)) (auto simp: our_publish_def)
    then show ?thesis
      using Some Pair assms(1,3) v
      by (auto simp: existing_changeset_is_our_publish_def storage_op_def wp_simps wp_def [of "b_get b key"] split: sum.splits option.splits)
  qed
qed

end

end
