(* ===== verification/PublishChain.thy ===== *)
theory PublishChain
  imports PublishRules
begin

text \<open>
  What publication means for the bucket.  The abstract machine \<open>chain_step\<close> works on the objects, the
  head sequence number and the head checksum only: objects may appear under free keys (an attempt of
  this publisher or of another writer), the state object may be rewritten, and the head moves when a
  stored object encodes the next incremental, is the next snapshot, or is adopted.  Every run of the
  publisher, successful or not, refines a sequence of these steps.
\<close>

section \<open>The abstract machine\<close>

type_synonym chain_state = "(string \<rightharpoonup> bytes) \<times> u64 \<times> u64 option"

inductive chain_step :: "codec \<Rightarrow> (bytes \<Rightarrow> bytes) \<Rightarrow> (u64 \<Rightarrow> string) \<Rightarrow> (u64 \<Rightarrow> string) \<Rightarrow> string \<Rightarrow> chain_state \<Rightarrow> chain_state \<Rightarrow> bool"
  for cd sha256 live snap statek where
  appear: "(\<And>k. objects k \<noteq> None \<Longrightarrow> objects' k = objects k) \<Longrightarrow>
      chain_step cd sha256 live snap statek (objects, n, c) (objects', n, c)"
| save: "(\<And>k. k \<noteq> statek \<Longrightarrow> objects' k = objects k) \<Longrightarrow>
      chain_step cd sha256 live snap statek (objects, n, c) (objects', n, c)"
| incremental: "objects (live (n + 1)) = Some bs \<Longrightarrow> distinct (map fst pages) \<Longrightarrow>
      encode_wal_changes_with_end_page_count cd pages psz (n + 1) pre epc = Inr (bs, post) \<Longrightarrow> c = None \<or> c = Some pre \<Longrightarrow>
      chain_step cd sha256 live snap statek (objects, n, c) (objects, n + 1, Some post)"
| snapshot: "objects (snap (n + 1)) = Some (es_bytes es) \<Longrightarrow>
      encode_snapshot_with_checksum cd sha256 (Some f) psz (n + 1) prev = Inr es \<Longrightarrow> length f \<le> MAX_DECODED_DB_BYTES \<Longrightarrow>
      chain_step cd sha256 live snap statek (objects, n, c) (objects, n + 1, Some (es_checksum es))"
| adopt: "objects (live (n + 1)) = Some bs \<Longrightarrow> decode_sqlite_changeset cd bs = Inr cs \<Longrightarrow>
      ph_seq (cs_header cs) = n + 1 \<Longrightarrow> c = None \<or> c = Some (ph_prev_checksum (cs_header cs)) \<Longrightarrow>
      chain_step cd sha256 live snap statek (objects, n, c) (objects, n + 1, Some (cs_checksum cs))"

inductive_cases chain_stepE: "chain_step cd sha256 live snap statek (objects, n, c) a'"

section \<open>The chain invariant\<close>

text \<open>What the linear path of a restore applies to the snapshot \<open>s\<close>: the next \<open>m\<close> live objects.\<close>

definition live_chain :: "(u64 \<Rightarrow> string) \<Rightarrow> u64 \<Rightarrow> nat \<Rightarrow> discovered list" where
  "live_chain live s m = map (\<lambda>i. \<lparr>dc_key = live (s + word_of_nat (Suc i)), dc_seq = s + word_of_nat (Suc i)\<rparr>) [0..<m]"

definition chain_head ::
    "codec \<Rightarrow> (bytes \<Rightarrow> bytes) \<Rightarrow> (u64 \<Rightarrow> string) \<Rightarrow> (u64 \<Rightarrow> string) \<Rightarrow> (string \<rightharpoonup> bytes) \<Rightarrow> u64 \<Rightarrow> nat \<Rightarrow> (u64 \<times> u64 \<times> bytes) option" where
  "chain_head cd sha256 live snap objects s m =
     (case objects (snap s) of
        None \<Rightarrow> None
      | Some data \<Rightarrow>
          (case decode_to_db cd sha256 data of
             Inl e \<Rightarrow> None
           | Inr (base, res) \<Rightarrow> linear_applied cd objects (live_chain live s m) (s, ar_checksum res, base)))"

text \<open>The head of the state is the end of a chain in the bucket that restores.\<close>

definition anchored :: "codec \<Rightarrow> (bytes \<Rightarrow> bytes) \<Rightarrow> (u64 \<Rightarrow> string) \<Rightarrow> (u64 \<Rightarrow> string) \<Rightarrow> chain_state \<Rightarrow> bool" where
  "anchored cd sha256 live snap a =
     (case a of (objects, n, c) \<Rightarrow> \<exists>s m ck db. c = Some ck \<and> chain_head cd sha256 live snap objects s m = Some (n, ck, db))"

lemma linear_applied_mono:
  "linear_applied cd objects ds acc = Some x \<Longrightarrow> (\<And>d. d \<in> set ds \<Longrightarrow> objects (dc_key d) \<noteq> None \<Longrightarrow> objects' (dc_key d) = objects (dc_key d)) \<Longrightarrow>
     linear_applied cd objects' ds acc = Some x"
  by (induction cd objects ds acc rule: linear_applied.induct) (auto split: option.splits sum.splits if_splits)

lemma chain_head_mono:
  assumes "chain_head cd sha256 live snap objects s m = Some x"
    and "\<And>k. k \<in> range live \<union> range snap \<Longrightarrow> objects k \<noteq> None \<Longrightarrow> objects' k = objects k"
  shows "chain_head cd sha256 live snap objects' s m = Some x"
proof -
  from assms(1) obtain data base res where d: "objects (snap s) = Some data" "decode_to_db cd sha256 data = Inr (base, res)"
      "linear_applied cd objects (live_chain live s m) (s, ar_checksum res, base) = Some x"
    by (auto simp: chain_head_def split: option.splits sum.splits)
  have "objects' (snap s) = Some data" using assms(2) [of "snap s"] d(1) by auto
  moreover have "linear_applied cd objects' (live_chain live s m) (s, ar_checksum res, base) = Some x"
    using d(3) by (rule linear_applied_mono) (auto simp: live_chain_def intro!: assms(2))
  ultimately show ?thesis using d(2) by (simp add: chain_head_def)
qed

lemma anchored_mono:
  assumes "anchored cd sha256 live snap (objects, n, c)"
    and "\<And>k. k \<in> range live \<union> range snap \<Longrightarrow> objects k \<noteq> None \<Longrightarrow> objects' k = objects k"
  shows "anchored cd sha256 live snap (objects', n, c)"
proof -
  obtain s m ck db where h: "c = Some ck" "chain_head cd sha256 live snap objects s m = Some (n, ck, db)"
    using assms(1) by (auto simp: anchored_def)
  have "chain_head cd sha256 live snap objects' s m = Some (n, ck, db)" using h(2) by (rule chain_head_mono) (rule assms(2))
  with h(1) show ?thesis by (auto simp: anchored_def)
qed

lemma live_chain_Suc:
  "live_chain live s (Suc m) = live_chain live s m @ [\<lparr>dc_key = live (s + word_of_nat m + 1), dc_seq = s + word_of_nat m + 1\<rparr>]"
  by (simp add: live_chain_def ac_simps)

lemma linear_applied_last:
  "linear_applied cd objects (live_chain live s m) (s, c, f) = Some (n, ck, db) \<Longrightarrow> n = s + word_of_nat m"
proof (induction m arbitrary: n ck db)
  case (Suc m)
  have app: "linear_applied cd objects (xs @ [d]) acc = Some (n, ck, db) \<Longrightarrow> n = dc_seq d" for xs d acc
    by (induction cd objects xs acc rule: linear_applied.induct) (auto split: option.splits sum.splits if_splits)
  show ?case using app [OF Suc.prems [unfolded live_chain_Suc]] by simp
qed (simp add: live_chain_def)

lemma chain_head_extend:
  assumes "chain_head cd sha256 live snap objects s m = Some (n, ck, db)" "objects (live (n + 1)) = Some bs"
    "apply_changeset_to_db cd bs (Some db) ck = Inr (db', res)"
  shows "chain_head cd sha256 live snap objects s (Suc m) = Some (n + 1, ar_checksum res, db')"
proof -
  from assms(1) obtain data base r where d: "objects (snap s) = Some data" "decode_to_db cd sha256 data = Inr (base, r)"
      "linear_applied cd objects (live_chain live s m) (s, ar_checksum r, base) = Some (n, ck, db)"
    by (auto simp: chain_head_def split: option.splits sum.splits)
  have n: "n = s + word_of_nat m" by (rule linear_applied_last [OF d(3)])
  show ?thesis
    using linear_applied_snoc [OF d(3), of "\<lparr>dc_key = live (n + 1), dc_seq = n + 1\<rparr>"] assms(2,3) d(1,2)
    by (simp add: chain_head_def live_chain_Suc n)
qed

context hadbp_codec
begin

lemma snapshot_anchors:
  assumes "objects (snap n) = Some (es_bytes es)" "encode_snapshot_with_checksum cd sha256 (Some f) psz n prev = Inr es"
    "length f \<le> MAX_DECODED_DB_BYTES"
  shows "anchored cd sha256 live snap (objects, n, Some (es_checksum es))"
proof -
  have "chain_head cd sha256 live snap objects n 0 = Some (n, es_checksum es, f)"
    using snapshot_decodes [OF assms(2,3)] assms(1) by (auto simp: chain_head_def live_chain_def)
  then show ?thesis by (auto simp: anchored_def)
qed

lemma chain_step_anchored:
  assumes "chain_step cd sha256 live snap statek a a'" "anchored cd sha256 live snap a" "statek \<notin> range live \<union> range snap"
  shows "anchored cd sha256 live snap a'"
  using assms(1)
proof cases
  case (appear objects objects' n c)
  then show ?thesis using assms(2) anchored_mono by blast
next
  case (save objects' objects n c)
  have "objects' k = objects k" if "k \<in> range live \<union> range snap" for k using save(3) [of k] that assms(3) by blast
  then show ?thesis using assms(2) save anchored_mono by metis
next
  case (incremental objects n bs pages psz pre epc post c)
  then obtain s m db where h: "c = Some pre" "chain_head cd sha256 live snap objects s m = Some (n, pre, db)"
    using assms(2) by (auto simp: anchored_def)
  obtain cs where cs: "decode_sqlite_changeset cd bs = Inr cs" "ph_prev_checksum (cs_header cs) = pre" "cs_checksum cs = post"
    using incremental_decodes [OF incremental(5,4)] by blast
  from decoded_applies [OF cs(1,2), of db] chain_head_extend [OF h(2) incremental(3)] cs(3) incremental(2)
  show ?thesis by (fastforce simp: anchored_def)
next
  case (snapshot objects n es f psz prev c)
  then show ?thesis using snapshot_anchors by blast
next
  case (adopt objects n bs cs c)
  then obtain s m db where h: "chain_head cd sha256 live snap objects s m = Some (n, ph_prev_checksum (cs_header cs), db)"
    using assms(2) by (auto simp: anchored_def)
  from decoded_applies [OF adopt(4) refl, of db] chain_head_extend [OF h adopt(3)] adopt(2)
  show ?thesis by (fastforce simp: anchored_def)
qed

lemma chain_steps_anchored:
  assumes "(chain_step cd sha256 live snap statek)\<^sup>*\<^sup>* a a'" "anchored cd sha256 live snap a" "statek \<notin> range live \<union> range snap"
  shows "anchored cd sha256 live snap a'"
  using assms(1)
proof (induction rule: rtranclp_induct)
  case (step x y)
  then show ?case using chain_step_anchored assms(3) by blast
qed (rule assms(2))

end

section \<open>The publisher refines the machine\<close>

definition same_identity :: "sync_state \<Rightarrow> sync_state \<Rightarrow> bool" where
  "same_identity st st' \<longleftrightarrow>
     ss_name st' = ss_name st \<and> ss_db_dir st' = ss_db_dir st \<and> ss_db_file st' = ss_db_file st \<and> ss_wal_path st' = ss_wal_path st \<and>
     ss_lineage_id st' = ss_lineage_id st \<and> ss_external_base st' = ss_external_base st \<and> ss_observed st' = ss_observed st"

abbreviation live_key :: "'s hadb \<Rightarrow> string \<Rightarrow> sync_state \<Rightarrow> u64 \<Rightarrow> string" where
  "live_key h pre st \<equiv> build_state_changeset_key h pre st GENERATION_LIVE"

abbreviation snap_key :: "'s hadb \<Rightarrow> string \<Rightarrow> sync_state \<Rightarrow> u64 \<Rightarrow> string" where
  "snap_key h pre st \<equiv> build_state_changeset_key h pre st GENERATION_SNAPSHOT"

lemma same_identity_keys:
  "same_identity st st' \<Longrightarrow> build_state_changeset_key h pre st' g = build_state_changeset_key h pre st g"
  by (rule ext) (rule changeset_key_cong, simp_all add: same_identity_def)

lemma same_identity_refl [simp]: "same_identity st st"
  by (simp add: same_identity_def)

lemma same_identity_trans: "same_identity a b \<Longrightarrow> same_identity b c \<Longrightarrow> same_identity a c"
  by (simp add: same_identity_def)

text \<open>The head is the part of the state the chain depends on.\<close>

definition same_head :: "sync_state \<Rightarrow> sync_state \<Rightarrow> bool" where
  "same_head st st' \<longleftrightarrow> same_identity st st' \<and> ss_current_seq st' = ss_current_seq st \<and> ss_db_checksum st' = ss_db_checksum st"

lemma same_head_simps [simp]:
  "same_head st st" "same_head st (st\<lparr>ss_blocker := bl\<rparr>)" "same_head st (batch_state v header r st)" "same_head st (rollover_cursor v header st)"
  "same_head st (restore_cursor previous st)"
  by (simp_all add: same_head_def same_identity_def rollover_cursor_def restore_cursor_def)

definition iterates :: "((u32 \<rightharpoonup> bytes) \<Rightarrow> (u32 \<times> bytes) list) \<Rightarrow> bool" where
  "iterates hm \<longleftrightarrow> (\<forall>m. distinct (map fst (hm m)) \<and> (finite (dom m) \<longrightarrow> map_of (hm m) = m))"

definition snapshot_within_cap :: "snapshot_sight \<Rightarrow> bool" where
  "snapshot_within_cap sv \<longleftrightarrow> (case sn_db sv of None \<Rightarrow> True | Some f \<Rightarrow> length f \<le> MAX_DECODED_DB_BYTES)"

definition chain_of :: "('s \<Rightarrow> string \<rightharpoonup> bytes) \<Rightarrow> 's site \<Rightarrow> chain_state" where
  "chain_of view z = (view (store_of z), ss_current_seq (si_sync z), ss_db_checksum (si_sync z))"

context storage_backend
begin

definition advances :: "'t hadb \<Rightarrow> codec \<Rightarrow> (bytes \<Rightarrow> bytes) \<Rightarrow> string \<Rightarrow> 's site \<Rightarrow> 's site \<Rightarrow> bool" where
  "advances h cd sha256 pre z z' \<longleftrightarrow>
     same_identity (si_sync z) (si_sync z') \<and> evolves {state_key pre (ss_name (si_sync z))} UNIV (store_of z) (store_of z') \<and>
     (durable_backend b view \<longrightarrow>
        (chain_step cd sha256 (live_key h pre (si_sync z)) (snap_key h pre (si_sync z)) (state_key pre (ss_name (si_sync z))))\<^sup>*\<^sup>*
          (chain_of view z) (chain_of view z'))"

lemma advances_trans:
  assumes "advances h cd sha256 pre z z'" "advances h cd sha256 pre z' z''"
  shows "advances h cd sha256 pre z z''"
proof -
  have id: "same_identity (si_sync z) (si_sync z')" using assms(1) by (simp add: advances_def)
  then have n: "ss_name (si_sync z') = ss_name (si_sync z)" by (simp add: same_identity_def)
  show ?thesis
    using assms unfolding advances_def same_identity_keys [OF id] n
    by (auto intro: same_identity_trans evolves_trans rtranclp_trans)
qed

lemma advances_appear:
  assumes "same_head (si_sync z) (si_sync z')" "evolves {} N (store_of z) (store_of z')"
  shows "advances h cd sha256 pre z z'"
proof -
  have "chain_step cd sha256 live snap statek (chain_of view z) (chain_of view z')" for live snap statek
    using assms unfolding chain_of_def same_head_def by (auto simp: evolves_def intro!: chain_step.appear)
  then show ?thesis
    using assms evolves_mono [OF assms(2), of "{state_key pre (ss_name (si_sync z))}" UNIV]
    by (auto simp: advances_def same_head_def)
qed

lemma advances_save:
  assumes "same_head (si_sync z) (si_sync z')" "only {state_key pre (ss_name (si_sync z))} (store_of z) (store_of z')"
  shows "advances h cd sha256 pre z z'"
proof -
  have "chain_step cd sha256 live snap (state_key pre (ss_name (si_sync z))) (chain_of view z) (chain_of view z')" for live snap
    using assms unfolding chain_of_def same_head_def by (auto simp: only_def intro!: chain_step.save)
  then show ?thesis using assms only_evolves [OF assms(2)] by (auto simp: advances_def same_head_def)
qed

text \<open>A move of the head over an unchanged bucket.\<close>

lemma advances_move:
  assumes "same_identity (si_sync z) (si_sync z')" "store_of z' = store_of z"
    and "durable_backend b view \<Longrightarrow>
      chain_step cd sha256 (live_key h pre (si_sync z)) (snap_key h pre (si_sync z)) (state_key pre (ss_name (si_sync z))) (chain_of view z) (chain_of view z')"
  shows "advances h cd sha256 pre z z'"
  using assms by (auto simp: advances_def)

lemma wp_advances:
  assumes "wp m (\<lambda>_. advances h cd sha256 pre z') (\<lambda>_. advances h cd sha256 pre z') z'" "advances h cd sha256 pre z z'"
  shows "wp m (\<lambda>_. advances h cd sha256 pre z) (\<lambda>_. advances h cd sha256 pre z) z'"
  using assms(1) by (rule wp_mono) (auto intro: advances_trans [OF assms(2)])

lemma save_state_advances:
  "wp (save_state b j pre) (\<lambda>_. advances h cd sha256 pre z) (\<lambda>_. advances h cd sha256 pre z) z"
  by (rule wp_save_state) (auto intro: advances_save)

lemma snapshot_via_advances:
  assumes "snapshot_within_cap sv" "stores_object put"
  shows "wp (snapshot_via put h cd sha256 pre sv) (\<lambda>_. advances h cd sha256 pre z) (\<lambda>_. advances h cd sha256 pre z) z"
proof (rule wp_snapshot_via [OF assms(2)], goal_cases)
  case (1 psz es txid z')
  define z1 where "z1 = z'\<lparr>si_sync := si_sync z\<rparr>"
  have a: "advances h cd sha256 pre z z1"
    using 1 by (intro advances_appear [where N = "{next_key h pre (si_sync z) GENERATION_SNAPSHOT}"]) (simp_all add: z1_def)
  obtain f where f: "sn_db sv = Some f" using 1(1) by (auto simp: encode_snapshot_with_checksum_def split: option.splits)
  have "chain_step cd sha256 live (snap_key h pre (si_sync z)) statek (chain_of view z1) (chain_of view z')" if "durable_backend b view" for live statek
    using 1 that f assms(1) unfolding chain_of_def z1_def
    by (auto simp: snapshot_state_def reset_wal_cursor_after_snapshot_def snapshot_within_cap_def intro!: chain_step.snapshot)
  then have "advances h cd sha256 pre z1 z'"
    using 1 by (intro advances_move) (simp_all add: z1_def same_identity_def snapshot_state_def reset_wal_cursor_after_snapshot_def)
  then show ?case using a by (rule advances_trans [rotated])
next
  case (2 e z' bl)
  then show ?case by (intro advances_appear) simp_all
qed

lemma take_snapshot_advances:
  assumes "snapshot_within_cap sv"
  shows "wp (take_snapshot b h cd sha256 pre sv) (\<lambda>_. advances h cd sha256 pre z) (\<lambda>_. advances h cd sha256 pre z) z"
  unfolding take_snapshot_via by (rule snapshot_via_advances [OF assms put_changeset_stores])

lemma guarded_snapshot_advances:
  assumes "snapshot_within_cap sv" "retry_policy retry" "\<And>s. view (fst (lease_held lease s)) = view s"
  shows "wp (take_snapshot_with_retry_guarded retry b h cd sha256 pre lease sv) (\<lambda>_. advances h cd sha256 pre z) (\<lambda>_. advances h cd sha256 pre z) z"
  unfolding guarded_snapshot_via
  by (rule snapshot_via_advances [OF assms(1) retried_stores [OF assms(2,3) put_changeset_stores]])

lemma no_lease [simp]: "lease_held None = return ()"
  by (simp add: lease_held_def)

lemma retried_snapshot_advances:
  assumes "snapshot_within_cap sv" "retry_policy retry"
  shows "wp (take_snapshot_with_retry retry b h cd sha256 pre sv) (\<lambda>_. advances h cd sha256 pre z) (\<lambda>_. advances h cd sha256 pre z) z"
  unfolding take_snapshot_with_retry_def by (rule guarded_snapshot_advances [OF assms]) (simp add: return_def)

lemma retried_put_stores: "retry_policy retry \<Longrightarrow> stores_object (\<lambda>key bs. retry (put_changeset_if_absent b key bs))"
  using retried_stores [OF _ _ put_changeset_stores, of retry "return ()", unfolded and_then_return_left] by (simp add: return_def)

lemma reanchor_advances:
  assumes "snapshot_within_cap sv"
  shows "wp (reanchor b h j cd sha256 pre sv) (\<lambda>_. advances h cd sha256 pre z) (\<lambda>_. advances h cd sha256 pre z) z"
  unfolding reanchor_def wp_and_then wp_return
  by (rule wp_mono [OF take_snapshot_advances [OF assms]]) (auto intro: wp_advances [OF save_state_advances])

text \<open>After the put the stored object is the next incremental, so the head may move.\<close>

lemma incremental_advances:
  assumes p: "encodes cd sha256 v header batch pages st p" and st: "same_head st (si_sync z)"
    and z': "same_identity (si_sync z) (si_sync z')" "store_of z' = store_of z"
      "ss_current_seq (si_sync z') = pc_seq p" "ss_db_checksum (si_sync z') = Some (pc_post_checksum p)"
    and put: "durable_backend b view \<Longrightarrow> view (store_of z) (live_key h pre (si_sync z) (pc_seq p)) = Some (pc_bytes p)"
    and pages: "distinct (map fst pages)"
  shows "advances h cd sha256 pre z z'"
proof (rule advances_move [OF z'(1,2)])
  assume "durable_backend b view"
  moreover have "ss_db_checksum (si_sync z) = None \<or> ss_db_checksum (si_sync z) = Some (pc_pre_checksum p)"
    using p st by (auto simp: encodes_def base_checksum_def same_head_def split: option.splits)
  moreover have "pc_seq p = ss_current_seq (si_sync z) + 1" using p st by (simp add: encodes_def same_head_def)
  ultimately show "chain_step cd sha256 (live_key h pre (si_sync z)) (snap_key h pre (si_sync z)) (state_key pre (ss_name (si_sync z)))
      (chain_of view z) (chain_of view z')"
    using p pages put z' unfolding chain_of_def encodes_def by (auto intro!: chain_step.incremental)
qed

lemma put_and_save_advances:
  assumes put: "stores_object put" and p: "encodes cd sha256 v header batch pages (si_sync z) p" and pages: "distinct (map fst pages)"
  shows "wp (and_then (on_site_store (put (live_key h pre (si_sync z) (pc_seq p)) (pc_bytes p))) (\<lambda>_.
      and_then (update_sync (advance_cursor batch p)) (\<lambda>_. and_then (save_state b j pre) (\<lambda>_. return k))))
    (\<lambda>_. advances h cd sha256 pre z) (\<lambda>_. advances h cd sha256 pre z) z"
  unfolding wp_and_then wp_on_site_store wp_update_sync wp_return
proof (rule wp_stores_object [OF put], goal_cases)
  case (1 s')
  let ?z1 = "z\<lparr>si_world := (si_world z)\<lparr>w_store := s'\<rparr>\<rparr>"
  let ?z2 = "?z1\<lparr>si_sync := advance_cursor batch p (si_sync ?z1)\<rparr>"
  have "advances h cd sha256 pre z ?z1" using 1 by (intro advances_appear) simp_all
  moreover have "advances h cd sha256 pre ?z1 ?z2"
    by (rule incremental_advances [OF p]) (use 1 pages in \<open>simp_all add: advance_cursor_def same_identity_def\<close>)
  ultimately have "advances h cd sha256 pre z ?z2" by (rule advances_trans)
  from wp_advances [OF save_state_advances this] show ?case by simp
next
  case (2 e s')
  then show ?case by (intro advances_appear) simp_all
qed

lemma publish_external_advances:
  assumes p: "encodes cd sha256 v header batch pages (si_sync z) p" and pages: "distinct (map fst pages)"
  shows "wp (publish_external b h j pre batch p) (\<lambda>_. advances h cd sha256 pre z) (\<lambda>_. advances h cd sha256 pre z) z"
  unfolding publish_external_def wp_and_then wp_sync_state_of wp_on_site_store wp_update_sync wp_return wp_if wp_in_world
proof (rule wp_put_changeset_if_absent, goal_cases)
  case (1 s')
  let ?z1 = "z\<lparr>si_world := (si_world z)\<lparr>w_store := s'\<rparr>\<rparr>"
  let ?z2 = "?z1\<lparr>si_sync := advance_cursor batch p (si_sync ?z1)\<rparr>"
  have "advances h cd sha256 pre z ?z1" using 1 by (intro advances_appear) simp_all
  moreover have "advances h cd sha256 pre ?z1 ?z2"
    by (rule incremental_advances [OF p]) (use 1 pages in \<open>simp_all add: advance_cursor_def same_identity_def\<close>)
  ultimately have a: "advances h cd sha256 pre z ?z2" by (rule advances_trans)
  have "advances h cd sha256 pre z (?z2\<lparr>si_world := w'\<rparr>)" if "w_store w' = s'" for w'
    using a that by (simp add: advances_def chain_of_def)
  then have "wp (save_external_base_progress j (si_sync ?z2)) (\<lambda>_ w'. advances h cd sha256 pre z (?z2\<lparr>si_world := w'\<rparr>))
      (\<lambda>_ w'. advances h cd sha256 pre z (?z2\<lparr>si_world := w'\<rparr>)) (si_world ?z2)"
    by (intro wp_save_external_base_progress) simp_all
  with a show ?case by simp
next
  case (2 e s')
  then show ?case by (intro advances_appear) simp_all
qed

lemma adopt_or_fail_advances:
  assumes p: "encodes cd sha256 v header batch pages st p" and st: "same_head st (si_sync z)" and cap: "snapshot_within_cap sv"
  shows "wp (adopt_or_fail b h j cd sha256 pre sv (live_key h pre (si_sync z) (pc_seq p)) p prior e)
    (\<lambda>_. advances h cd sha256 pre z) (\<lambda>_. advances h cd sha256 pre z) z"
proof -
  let ?P = "\<lambda>_. advances h cd sha256 pre z"
  have refl: "advances h cd sha256 pre z (z\<lparr>si_world := (si_world z)\<lparr>w_store := s'\<rparr>\<rparr>)" if "view s' = view (store_of z)" for s'
    using that by (intro advances_appear [where N = "{}"]) simp_all
  have "wp (on_site_store (existing_changeset_is_our_publish b cd (live_key h pre (si_sync z) (pc_seq p)) (pc_seq p) (pc_pre_checksum p)
          (ss_lineage_id (si_sync z)) prior))
      (\<lambda>ours. wp (case ours of None \<Rightarrow> raise e
         | Some adopted_post \<Rightarrow> and_then (emit_rollover ''walrust-owned'' True) (\<lambda>_.
             and_then (update_sync (\<lambda>s. s\<lparr>ss_current_seq := pc_seq p, ss_current_txid := pc_max_txid p, ss_db_checksum := Some adopted_post\<rparr>)) (\<lambda>_.
               reanchor b h j cd sha256 pre sv))) ?P ?P) ?P z"
    unfolding wp_on_site_store
  proof (rule wp_existing_changeset_is_our_publish, goal_cases)
    case (2 s' adopted)
    define z1 where "z1 = z\<lparr>si_world := (si_world z)\<lparr>w_store := s'\<rparr>\<rparr>"
    define z2 where "z2 = emitted ''walrust-owned'' True z1"
    define z3 where "z3 = z2\<lparr>si_sync := (si_sync z2)\<lparr>ss_current_seq := pc_seq p, ss_current_txid := pc_max_txid p, ss_db_checksum := Some adopted\<rparr>\<rparr>"
    have z2: "si_sync z2 = si_sync z" "store_of z2 = s'"
      by (simp_all add: z2_def z1_def)
    from 2(2) obtain bs cs where cs: "view s' (live_key h pre (si_sync z) (pc_seq p)) = Some bs" "decode_sqlite_changeset cd bs = Inr cs"
        "ph_seq (cs_header cs) = pc_seq p" "ph_prev_checksum (cs_header cs) = pc_pre_checksum p" "adopted = cs_checksum cs"
      using 2(1) by (auto simp: our_publish_def)
    have ck: "ss_db_checksum (si_sync z) = None \<or> ss_db_checksum (si_sync z) = Some (pc_pre_checksum p)" "pc_seq p = ss_current_seq (si_sync z) + 1"
      using p st by (auto simp: encodes_def base_checksum_def same_head_def split: option.splits)
    have "chain_step cd sha256 (live_key h pre (si_sync z)) (snap_key h pre (si_sync z)) statek (chain_of view z2) (chain_of view z3)" for statek
      using cs ck z2 unfolding chain_of_def z3_def by (auto intro!: chain_step.adopt)
    then have "advances h cd sha256 pre z2 z3"
      using z2 by (intro advances_move) (simp_all add: z3_def same_identity_def)
    moreover have "advances h cd sha256 pre z z2"
      using 2(1) z2 by (intro advances_appear [where N = "{}"]) simp_all
    ultimately have a: "advances h cd sha256 pre z z3" by (blast intro: advances_trans)
    have "wp (reanchor b h j cd sha256 pre sv) ?P ?P z3"
      by (rule wp_advances [OF reanchor_advances [OF cap] a])
    then show ?case by (simp add: wp_simps z1_def [symmetric] z3_def z2_def)
  qed (auto simp: wp_simps intro: refl)
  then show ?thesis
    by (cases "is_equivocation e") (auto simp: adopt_or_fail_def wp_simps intro!: advances_appear [where N = "{}"])
qed

lemma publish_owned_advances:
  assumes p: "encodes cd sha256 v header batch pages (si_sync z) p" and pages: "distinct (map fst pages)" and cap: "snapshot_within_cap sv"
  shows "wp (publish_owned b h j cd sha256 pre sv batch p) (\<lambda>_. advances h cd sha256 pre z) (\<lambda>_. advances h cd sha256 pre z) z"
  unfolding publish_owned_def Let_def wp_and_then wp_sync_state_of wp_in_world
proof (rule wp_load_publish_intent, goal_cases)
  case (1 w1)
  note w1 = 1
  show ?case
    unfolding wp_and_then wp_in_world
  proof (rule wp_save_publish_intent, goal_cases)
    case (1 w2 bs)
    let ?z2 = "z\<lparr>si_world := w1, si_world := w2\<rparr>"
    have a: "advances h cd sha256 pre z ?z2" using w1 1 by (intro advances_appear [where N = "{}"]) simp_all
    show ?case
      unfolding wp_attempt wp_on_site_store
    proof (rule wp_put_changeset_if_absent, goal_cases)
      case (1 s')
      let ?z3 = "?z2\<lparr>si_world := (si_world ?z2)\<lparr>w_store := s'\<rparr>\<rparr>"
      let ?z4 = "?z3\<lparr>si_sync := advance_cursor batch p (si_sync ?z3)\<rparr>"
      have "advances h cd sha256 pre ?z2 ?z3" using 1 by (intro advances_appear) simp_all
      moreover have "advances h cd sha256 pre ?z3 ?z4"
        by (rule incremental_advances [OF p]) (use 1 pages in \<open>simp_all add: advance_cursor_def same_identity_def\<close>)
      ultimately have "advances h cd sha256 pre z ?z4" using a by (blast intro: advances_trans)
      from wp_advances [OF save_state_advances this] show ?case by (simp add: wp_simps wp_return_fun)
    next
      case (2 e s')
      let ?z3 = "?z2\<lparr>si_world := (si_world ?z2)\<lparr>w_store := s'\<rparr>\<rparr>"
      have "advances h cd sha256 pre ?z2 ?z3" using 2 by (intro advances_appear) simp_all
      then have "advances h cd sha256 pre z ?z3" using a by (blast intro: advances_trans)
      from wp_advances [OF adopt_or_fail_advances [OF p _ cap] this] show ?case by simp
    qed
  next
    case (2 e w2)
    then show ?case using w1 by (intro advances_appear [where N = "{}"]) simp_all
  qed
next
  case (2 e w1)
  then show ?case by (intro advances_appear [where N = "{}"]) simp_all
qed

lemma sync_wal_with_sequence_advances:
  assumes hm: "iterates hm" and cap: "snapshot_within_cap sv"
  shows "wp (sync_wal_with_sequence b h j cd sha256 hm pre sequence v sv) (\<lambda>_. advances h cd sha256 pre z) (\<lambda>_. advances h cd sha256 pre z) z"
proof -
  let ?P = "\<lambda>_. advances h cd sha256 pre z"
  have here: "?P x (z\<lparr>si_sync := st'\<rparr>)" if "same_head (si_sync z) st'" for x :: u64 and st'
    using that by (intro advances_appear [where N = "{}"]) simp_all
  have header: "wp (and_then (read_next_wal_batch v header) (\<lambda>batch.
      if wb_rollover_detected batch then on_rollover b h j cd sha256 pre sequence sv (si_sync z)
      else let pages = hm (wb_page_map batch) in
        if pages = [] then return 0
        else and_then (prepare_changeset cd sha256 v header batch pages) (\<lambda>p.
          case sequence of
            ExternalChangeCounter \<Rightarrow> publish_external b h j pre batch p
          | WalrustOwned \<Rightarrow> publish_owned b h j cd sha256 pre sv batch p))) ?P ?P z" for header
  proof (rule wp_and_thenI, rule wp_read_next_wal_batch, goal_cases)
    case (1 r)
    let ?batch = "batch_of v header r (si_sync z)"
    let ?z1 = "z\<lparr>si_sync := batch_state v header r (si_sync z)\<rparr>"
    have a: "advances h cd sha256 pre z ?z1" by (intro advances_appear [where N = "{}"]) simp_all
    have roll: "wp (on_rollover b h j cd sha256 pre sequence sv (si_sync z)) ?P ?P ?z1"
    proof (cases sequence)
      case WalrustOwned
      have "advances h cd sha256 pre z (emitted ''walrust-owned'' True ?z1)" by (intro advances_appear [where N = "{}"]) simp_all
      from wp_advances [OF reanchor_advances [OF cap] this] WalrustOwned show ?thesis by (simp add: on_rollover_def wp_simps)
    next
      case ExternalChangeCounter
      then show ?thesis
        by (auto simp: on_rollover_def wp_simps restore_cursor_def same_head_def same_identity_def intro!: advances_appear [where N = "{}"])
    qed
    have pub: "wp (prepare_changeset cd sha256 v header ?batch pages)
        (\<lambda>p. wp (case sequence of ExternalChangeCounter \<Rightarrow> publish_external b h j pre ?batch p
           | WalrustOwned \<Rightarrow> publish_owned b h j cd sha256 pre sv ?batch p) ?P ?P) ?P ?z1" if "distinct (map fst pages)" for pages
    proof (rule wp_prepare_changeset, goal_cases)
      case (1 p)
      then show ?case
        using wp_advances [OF publish_external_advances [OF 1 that] a] wp_advances [OF publish_owned_advances [OF 1 that cap] a]
        by (cases sequence) simp_all
    qed (rule a)
    show ?case using roll pub [of "hm (wb_page_map ?batch)"] a hm by (simp add: wp_simps Let_def iterates_def)
  next
    case (2 e)
    then show ?case by (intro here) simp
  qed
  have "?P x z" for x :: u64 using here [of "si_sync z"] by simp
  then show ?thesis
    using header by (auto simp: sync_wal_with_sequence_def ensure_database_in_wal_mode_def wp_simps split: sum.split option.split)
qed

lemma sync_wal_with_retry_advances:
  assumes hm: "iterates hm" and cap: "snapshot_within_cap sv" and pol: "retry_policy retry"
  shows "wp (sync_wal_with_retry retry b h j cd sha256 hm pre v sv) (\<lambda>_. advances h cd sha256 pre z) (\<lambda>_. advances h cd sha256 pre z) z"
proof -
  let ?P = "\<lambda>_. advances h cd sha256 pre z"
  have here: "?P x (z\<lparr>si_sync := st'\<rparr>)" if "same_head (si_sync z) st'" for x :: u64 and st'
    using that by (intro advances_appear [where N = "{}"]) simp_all
  have header: "wp (and_then (read_next_wal_batch v header) (\<lambda>batch.
      if wb_rollover_detected batch
      then and_then (take_snapshot_with_retry retry b h cd sha256 pre sv) (\<lambda>_. and_then (save_state b j pre) (\<lambda>_. return 1))
      else let pages = hm (wb_page_map batch) in
        if pages = [] then return 0
        else and_then (prepare_changeset cd sha256 v header batch pages) (\<lambda>p.
          and_then sync_state_of (\<lambda>st.
          let key = build_state_changeset_key h pre st GENERATION_LIVE (pc_seq p) in
          and_then (on_site_store (retry (put_changeset_if_absent b key (pc_bytes p)))) (\<lambda>_.
          and_then (update_sync (advance_cursor batch p)) (\<lambda>_.
          and_then (save_state b j pre) (\<lambda>_. return (word_of_nat (wb_frame_count batch))))))))) ?P ?P z" for header
  proof (rule wp_and_thenI, rule wp_read_next_wal_batch, goal_cases)
    case (1 r)
    let ?batch = "batch_of v header r (si_sync z)"
    let ?z1 = "z\<lparr>si_sync := batch_state v header r (si_sync z)\<rparr>"
    have a: "advances h cd sha256 pre z ?z1" by (intro advances_appear [where N = "{}"]) simp_all
    have roll: "wp (and_then (take_snapshot_with_retry retry b h cd sha256 pre sv) (\<lambda>_. and_then (save_state b j pre) (\<lambda>_. return 1))) ?P ?P ?z1"
      unfolding wp_and_then wp_return
      by (rule wp_mono [OF wp_advances [OF retried_snapshot_advances [OF cap pol] a]]) (auto intro: wp_advances [OF save_state_advances])
    have pub: "wp (and_then (prepare_changeset cd sha256 v header ?batch pages) (\<lambda>p.
          and_then sync_state_of (\<lambda>st.
          let key = build_state_changeset_key h pre st GENERATION_LIVE (pc_seq p) in
          and_then (on_site_store (retry (put_changeset_if_absent b key (pc_bytes p)))) (\<lambda>_.
          and_then (update_sync (advance_cursor ?batch p)) (\<lambda>_.
          and_then (save_state b j pre) (\<lambda>_. return (word_of_nat (wb_frame_count ?batch)))))))) ?P ?P ?z1"
      if "distinct (map fst pages)" for pages
    proof (rule wp_and_thenI, rule wp_prepare_changeset, goal_cases)
      case (1 p)
      show ?case
        unfolding Let_def wp_and_then [of sync_state_of] wp_sync_state_of
        by (rule wp_advances [OF put_and_save_advances [OF retried_put_stores [OF pol] 1 that] a])
    qed (rule a)
    show ?case
      using roll pub [of "hm (wb_page_map ?batch)"] a hm
      by (cases "wb_rollover_detected ?batch"; cases "hm (wb_page_map ?batch) = []") (simp_all add: wp_return iterates_def)
  next
    case (2 e)
    then show ?case by (intro here) simp
  qed
  have "?P x z" for x :: u64 using here [of "si_sync z"] by simp
  then show ?thesis
    using header by (auto simp: sync_wal_with_retry_def ensure_database_in_wal_mode_def wp_simps split: sum.split option.split)
qed

end

section \<open>Histories\<close>

text \<open>
  A publisher's history: its own operations, each seeing whatever SQLite shows it and ending in any
  way, interleaved with other writers of the bucket that never touch an existing object.
\<close>

inductive publisher_step ::
    "'s backend \<Rightarrow> ('s \<Rightarrow> string \<rightharpoonup> bytes) \<Rightarrow> 's hadb \<Rightarrow> json \<Rightarrow> codec \<Rightarrow> (bytes \<Rightarrow> bytes) \<Rightarrow> ((u32 \<rightharpoonup> bytes) \<Rightarrow> (u32 \<times> bytes) list) \<Rightarrow>
      (('s, failure, unit) action \<Rightarrow> ('s, failure, unit) action) \<Rightarrow> string \<Rightarrow> 's site \<Rightarrow> 's site \<Rightarrow> bool"
  for b view h j cd sha256 hm retry pre where
  sync: "snapshot_within_cap sv \<Longrightarrow> sync_wal_with_sequence b h j cd sha256 hm pre sequence v sv z = (z', r) \<Longrightarrow>
      publisher_step b view h j cd sha256 hm retry pre z z'"
| snapshot: "snapshot_within_cap sv \<Longrightarrow> take_snapshot b h cd sha256 pre sv z = (z', r) \<Longrightarrow>
      publisher_step b view h j cd sha256 hm retry pre z z'"
| retried_sync: "snapshot_within_cap sv \<Longrightarrow> sync_wal_with_retry retry b h j cd sha256 hm pre v sv z = (z', r) \<Longrightarrow>
      publisher_step b view h j cd sha256 hm retry pre z z'"
| retried_snapshot: "snapshot_within_cap sv \<Longrightarrow> (\<And>s. view (fst (lease_held lease s)) = view s) \<Longrightarrow>
      take_snapshot_with_retry_guarded retry b h cd sha256 pre lease sv z = (z', r) \<Longrightarrow>
      publisher_step b view h j cd sha256 hm retry pre z z'"
| saved: "save_state b j pre z = (z', r) \<Longrightarrow> publisher_step b view h j cd sha256 hm retry pre z z'"
| others: "(\<And>k. view (store_of z) k \<noteq> None \<Longrightarrow> view s' k = view (store_of z) k) \<Longrightarrow>
      publisher_step b view h j cd sha256 hm retry pre z (z\<lparr>si_world := (si_world z)\<lparr>w_store := s'\<rparr>\<rparr>)"

context storage_backend
begin

lemma wp_end: "wp m (\<lambda>_. P) (\<lambda>_. P) z \<Longrightarrow> m z = (z', r) \<Longrightarrow> P z'"
  by (metis wp_fst fst_conv)

lemma publisher_step_advances:
  assumes "publisher_step b view h j cd sha256 hm retry pre z z'" "iterates hm" "retry_policy retry"
  shows "advances h cd sha256 pre z z'"
  using assms(1)
proof cases
  case (sync sv sequence v r)
  show ?thesis by (rule wp_end [OF sync_wal_with_sequence_advances [OF assms(2) sync(1)] sync(2)])
next
  case (snapshot sv r)
  show ?thesis by (rule wp_end [OF take_snapshot_advances [OF snapshot(1)] snapshot(2)])
next
  case (retried_sync sv v r)
  show ?thesis by (rule wp_end [OF sync_wal_with_retry_advances [OF assms(2) retried_sync(1) assms(3)] retried_sync(2)])
next
  case (retried_snapshot sv lease r)
  show ?thesis by (rule wp_end [OF guarded_snapshot_advances [OF retried_snapshot(1) assms(3) retried_snapshot(2)] retried_snapshot(3)])
next
  case (saved r)
  show ?thesis by (rule wp_end [OF save_state_advances saved])
next
  case (others s')
  have "evolves {} UNIV (store_of z) s'" using others(2) by (auto simp: evolves_def)
  then show ?thesis using others(1) by (intro advances_appear) simp_all
qed

lemma publisher_steps_advance:
  assumes "(publisher_step b view h j cd sha256 hm retry pre)\<^sup>*\<^sup>* z z'" "iterates hm" "retry_policy retry"
  shows "advances h cd sha256 pre z z'"
  using assms(1)
proof (induction rule: rtranclp_induct)
  case base
  show ?case by (rule advances_appear [where N = "{}"]) simp_all
next
  case (step y z')
  then show ?case using publisher_step_advances [OF step(2) assms(2,3)] advances_trans by blast
qed

end


lemma publisher_keeps_anchored:
  assumes "durable_backend b view" "hadbp_codec cd" "iterates hm" "retry_policy retry" "(publisher_step b view h j cd sha256 hm retry pre)\<^sup>*\<^sup>* z z'"
    and "state_key pre (ss_name (si_sync z)) \<notin> range (live_key h pre (si_sync z)) \<union> range (snap_key h pre (si_sync z))"
    and "anchored cd sha256 (live_key h pre (si_sync z)) (snap_key h pre (si_sync z)) (chain_of view z)"
  shows "anchored cd sha256 (live_key h pre (si_sync z')) (snap_key h pre (si_sync z')) (chain_of view z')"
proof -
  have sb: "storage_backend b view" using assms(1) by (rule durable_backend.axioms(1))
  note A = storage_backend.publisher_steps_advance [OF sb assms(5,3,4)]
  have "same_identity (si_sync z) (si_sync z')" using A by (simp add: storage_backend.advances_def [OF sb])
  note K = same_identity_keys [OF this]
  have steps: "(chain_step cd sha256 (live_key h pre (si_sync z)) (snap_key h pre (si_sync z)) (state_key pre (ss_name (si_sync z))))\<^sup>*\<^sup>*
    (chain_of view z) (chain_of view z')"
    using A assms(1) by (simp add: storage_backend.advances_def [OF sb])
  show ?thesis unfolding K by (rule hadbp_codec.chain_steps_anchored [OF assms(2) steps assms(7,6)])
qed

text \<open>
  Claim C1: the published chain always restores.  From a state whose head is anchored (the chain from
  some stored snapshot through consecutive stored incrementals applies and ends exactly at the head
  sequence number and checksum), every history of the publisher and of other writers, under every
  fault, ends in an anchored state.
\<close>

theorem published_chain_restores:
  assumes "durable_backend b view" "hadbp_codec cd" "iterates hm" "retry_policy retry" "(publisher_step b view h j cd sha256 hm retry pre)\<^sup>*\<^sup>* z z'"
    and "state_key pre (ss_name (si_sync z)) \<notin> range (live_key h pre (si_sync z)) \<union> range (snap_key h pre (si_sync z))"
    and "anchored cd sha256 (live_key h pre (si_sync z)) (snap_key h pre (si_sync z)) (chain_of view z)"
  shows "anchored cd sha256 (live_key h pre (si_sync z')) (snap_key h pre (si_sync z')) (chain_of view z')"
  using assms by (rule publisher_keeps_anchored)

text \<open>
  Claim C27: published objects are immutable.  On every storage backend, under every fault it may have
  (lost and corrupted writes included), a history of the publisher never changes or removes an object
  that is in the bucket, except the state object, and never changes the identity of the stream.
\<close>

theorem published_objects_immutable:
  assumes "storage_backend b view" "iterates hm" "retry_policy retry" "(publisher_step b view h j cd sha256 hm retry pre)\<^sup>*\<^sup>* z z'"
    and "view (store_of z) k = Some d" "k \<noteq> state_key pre (ss_name (si_sync z))"
  shows "view (store_of z') k = Some d \<and> same_identity (si_sync z) (si_sync z')"
  using storage_backend.publisher_steps_advance [OF assms(1,4,2,3)] assms(5,6)
  by (auto simp: storage_backend.advances_def [OF assms(1)] storage_backend.evolves_def [OF assms(1)])

section \<open>Witnesses\<close>

text \<open>In a lineage the state object is apart from the changeset objects.\<close>

lemma state_key_apart:
  assumes "ss_lineage_id st = Some l" "ss_name st = name"
  shows "state_key pre name \<notin> range (live_key h pre st) \<union> range (snap_key h pre st)"
  using assms by (auto simp: state_key_def build_state_changeset_key_def build_lineage_changeset_key_def)

text \<open>A WAL that commits one zeroed page of 512 bytes.\<close>

lemma wal_checksum_short: "length d < 8 \<Longrightarrow> wal_checksum c d be = c"
  by (subst wal_checksum.simps) simp

lemma wal_checksum_block: "length d = 8 \<Longrightarrow> wal_checksum c (d @ ds) be =
   wal_checksum (let x0 = read_u32 (slice d 0 4) be; x1 = read_u32 (slice d 4 4) be; s0 = fst c + x0 + snd c in (s0, snd c + x1 + s0)) ds be"
  by (subst wal_checksum.simps) (simp add: Let_def slice_def)

fun zero_rounds :: "nat \<Rightarrow> chain \<Rightarrow> chain" where
  "zero_rounds 0 c = c"
| "zero_rounds (Suc n) c = zero_rounds n (fst c + snd c, snd c + (fst c + snd c))"

lemma zero_rounds_numeral:
  "zero_rounds (numeral k) c = zero_rounds (pred_numeral k) (fst c + snd c, snd c + (fst c + snd c))"
  by (simp add: numeral_eq_Suc)

lemma wal_checksum_zeros: "wal_checksum c (zeros (8 * n)) True = zero_rounds n c"
proof (induction n arbitrary: c)
  case (Suc n)
  have "zeros (8 * Suc n) = zeros 8 @ zeros (8 * n)" by (simp add: zeros_def flip: replicate_add)
  moreover have "read_u32 (slice (zeros 8) 0 4) True = 0" "read_u32 (slice (zeros 8) 4 4) True = 0"
    by (simp_all add: zeros_def slice_def read_u32_def u32_from_be_def be_nat_def numeral_eq_Suc)
  ultimately show ?case
    using wal_checksum_block [of "zeros 8" c "zeros (8 * n)" True] Suc by (simp add: zeros_def Let_def)
qed (simp add: zeros_def wal_checksum_short)

definition page_wal_header :: bytes where
  "page_wal_header = [55, 127, 6, 131, 0, 45, 226, 24, 0, 0, 2, 0, 0, 0, 0, 0, 0, 0, 0, 1, 0, 0, 0, 2, 22, 4, 202, 216, 188, 221, 164, 147]"

definition page_wal_frame :: bytes where
  "page_wal_frame = [0, 0, 0, 1, 0, 0, 0, 1, 0, 0, 0, 1, 0, 0, 0, 2, 37, 113, 131, 60, 184, 245, 30, 28]"

definition page_wal :: bytes where
  "page_wal = page_wal_header @ page_wal_frame @ zeros 512"

lemma page_checksum: "wal_checksum (3538055020, 2411729920) (zeros 512) True = (628196156, 3103071772)"
proof -
  have "zero_rounds 64 (3538055020, 2411729920) = (628196156, 3103071772)" by (simp add: zero_rounds_numeral)
  then show ?thesis using wal_checksum_zeros [of "(3538055020, 2411729920)" 64] by simp
qed

lemma page_wal_seed: "header_seed page_wal = Inr (Some ((369412824, 3168642195), True, (1, 2)))"
  by (simp add: header_seed_def page_wal_def page_wal_header_def wal_eval)

lemma page_wal_parsed:
  "\<exists>hdr. read_header (Some page_wal) = Inr (Some hdr) \<and> wh_page_size hdr = 512 \<and> header_salt hdr = (1, 2)"
  by (simp add: read_header_def page_wal_def page_wal_header_def wal_eval header_salt_def)

lemma page_wal_length: "length page_wal = 568"
  by (simp add: page_wal_def page_wal_header_def page_wal_frame_def zeros_def)

lemma page_wal_frame_read: "read_frame page_wal 512 32 = Inr (page_wal_frame, zeros 512)"
  by (simp add: read_frame_def read_exact_def page_wal_length FRAME_HEADER_SIZE_def) (simp add: page_wal_def page_wal_header_def page_wal_frame_def slice_def zeros_def)

lemma page_wal_verified: "verify_frame_checksum (369412824, 3168642195) page_wal_frame (zeros 512) True = Some (628196156, 3103071772)"
proof -
  have "wal_checksum (369412824, 3168642195) (slice page_wal_frame 0 8) True = (3538055020, 2411729920)"
    by (simp add: page_wal_frame_def wal_eval)
  moreover have "be32_at page_wal_frame 16 = 628196156" "be32_at page_wal_frame 20 = 3103071772"
    by (simp_all add: page_wal_frame_def wal_eval)
  ultimately show ?thesis by (simp add: verify_frame_checksum_def page_checksum)
qed

definition page_wal_batch :: page_map_read where
  "page_wal_batch =
     \<lparr>pm_map = [1 \<mapsto> zeros 512], pm_frames = 1, pm_offset = 568, pm_db_size = 1, pm_commits = 1, pm_chain = Some (628196156, 3103071772)\<rparr>"

lemma page_wal_read: "read_frames_as_page_map_checked (stable page_wal) 512 0 None = Inr page_wal_batch"
proof -
  have fields: "be32_at page_wal_frame 0 = 1" "be32_at page_wal_frame 4 = 1" "frame_salt page_wal_frame = (1, 2)"
    by (simp_all add: page_wal_frame_def frame_salt_def wal_eval)
  obtain hdr where hdr: "read_header (Some page_wal) = Inr (Some hdr)" "header_salt hdr = (1, 2)" using page_wal_parsed by blast
  have fill: "check_frame \<lparr>cm_running = (369412824, 3168642195), cm_big_endian = True, cm_validate = True, cm_salt = (1, 2)\<rparr> (369412824, 3168642195)
      (page_wal_frame, zeros 512) = Some (628196156, 3103071772)"
    by (simp add: check_frame_def fields page_wal_verified)
  show ?thesis
    by (simp add: read_frames_as_page_map_checked_def stable_def page_wal_seed page_wal_length WAL_HEADER_SIZE_def FRAME_HEADER_SIZE_def
        chain_mode_of_def seed_chain_of_def last_commit_def page_wal_frame_read fill fields page_wal_verified detect_reset_during_read_def get_wal_size_def hdr
        page_wal_batch_def)
qed

text \<open>A site with one published snapshot of a zeroed page.\<close>

definition demo_iter :: "(u32 \<rightharpoonup> bytes) \<Rightarrow> (u32 \<times> bytes) list" where
  "demo_iter m = map (\<lambda>k. (k, the (m k))) (sorted_list_of_set (dom m))"

lemma demo_iterates: "iterates demo_iter"
proof -
  have "map_of (demo_iter m) k = m k" if "finite (dom m)" for m k
  proof (cases "m k")
    case None
    then have "k \<notin> dom m" by auto
    then show ?thesis using None that by (simp add: demo_iter_def map_of_eq_None_iff image_image)
  next
    case (Some d)
    then have "(k, d) \<in> set (demo_iter m)" using that by (force simp: demo_iter_def)
    moreover have "distinct (map fst (demo_iter m))" by (simp add: demo_iter_def comp_def)
    ultimately show ?thesis using Some by simp
  qed
  then show ?thesis by (auto simp: iterates_def demo_iter_def comp_def)
qed

definition demo_json :: json where
  "demo_json =
     \<lparr>j_encode_state = (\<lambda>_. Inr []), j_decode_state = (\<lambda>_. Inl []), j_encode_progress = (\<lambda>_. Inr []), j_decode_progress = (\<lambda>_. Inl []),
      j_encode_intent = (\<lambda>_. Inr []), j_decode_intent = (\<lambda>_. Inl [])\<rparr>"

definition demo_wire :: codec where
  "demo_wire = wire_codec (\<lambda>prev ps. prev + 1) 0"

definition demo_published :: bytes where
  "demo_published = c_encode demo_wire (c_new demo_wire 1 0 IdU32 512 (snapshot_pages 512 1 (zeros 512)))"

definition demo_sync_state :: sync_state where
  "demo_sync_state =
     \<lparr>ss_name = ''app'', ss_db_dir = ''d'', ss_db_file = ''app.db'', ss_wal_path = ''d/app.db-wal'', ss_wal_offset = 0,
      ss_wal_generation = 1, ss_current_seq = 1, ss_lineage_id = Some ''l'', ss_external_base = None, ss_current_txid = 1,
      ss_last_snapshot = Some 0, ss_db_checksum = Some (finalize (\<lambda>x. x) (zeros 512)), ss_wal_salt = Some (1, 2),
      ss_wal_checksum_chain = None, ss_observed = True, ss_blocker = True\<rparr>"

definition demo_site :: "(string \<times> bytes) list site" where
  "demo_site =
     \<lparr>si_sync = demo_sync_state,
      si_world = \<lparr>w_store = [(snap_key demo_hadb [] demo_sync_state 1, demo_published)], w_files = Map.empty, w_faults = []\<rparr>,
      si_events = []\<rparr>"

lemma demo_fields [simp]:
  "si_sync demo_site = demo_sync_state" "ss_lineage_id demo_sync_state = Some ''l''" "ss_name demo_sync_state = ''app''"
  "ss_current_seq demo_sync_state = 1" "ss_db_checksum demo_sync_state = Some (finalize (\<lambda>x. x) (zeros 512))"
  by (simp_all add: demo_site_def demo_sync_state_def)

definition demo_wal_sight :: wal_sight where
  "demo_wal_sight =
     \<lparr>vs_header = Some page_wal, vs_journal_mode = Inr ''wal'', vs_size = Some page_wal, vs_frames = stable page_wal, vs_db = Some (zeros 512)\<rparr>"

definition demo_snapshot_sight :: snapshot_sight where
  "demo_snapshot_sight =
     \<lparr>sn_timestamp = 7, sn_rollback = Inr (), sn_checkpoint = Inr (0, 2, 2), sn_reopen = Inr (), sn_header = Some (zeros 512),
      sn_counter = Some (zeros 512), sn_wal = stable page_wal, sn_db = Some (zeros 512), sn_wal_after = Some page_wal\<rparr>"

lemma demo_encoded:
  "encode_snapshot_with_checksum demo_wire (\<lambda>x. x) (Some (zeros 512)) 512 1 0 =
     Inr \<lparr>es_bytes = demo_published, es_checksum = finalize (\<lambda>x. x) (zeros 512)\<rparr>"
proof -
  have "concat (map pe_data (snapshot_pages 512 1 (zeros 512))) = zeros 512"
    by (simp add: snapshot_pages_def slice_def)
  then show ?thesis
    by (simp add: encode_snapshot_with_checksum_def validate_page_size_iff SQLITE_PAGE_SIZES_def Let_def demo_published_def)
qed

lemma demo_codec_ok: "hadbp_codec demo_wire"
  unfolding demo_wire_def by (rule wire.hadbp_codec_axioms)

lemma demo_head:
  "chain_head demo_wire (\<lambda>x. x) (live_key demo_hadb [] demo_sync_state) (snap_key demo_hadb [] demo_sync_state)
      (map_of [(snap_key demo_hadb [] demo_sync_state 1, demo_published)]) 1 0 = Some (1, finalize (\<lambda>x. x) (zeros 512), zeros 512)"
proof -
  have "length (zeros 512) \<le> MAX_DECODED_DB_BYTES" by (simp add: MAX_DECODED_DB_BYTES_def zeros_def)
  from hadbp_codec.snapshot_decodes [OF demo_codec_ok demo_encoded this] show ?thesis
    by (auto simp: chain_head_def live_chain_def)
qed

lemma demo_anchored:
  "anchored demo_wire (\<lambda>x. x) (live_key demo_hadb [] (si_sync demo_site)) (snap_key demo_hadb [] (si_sync demo_site)) (chain_of map_of demo_site)"
  using demo_head by (auto simp: anchored_def chain_of_def demo_site_def)

definition demo_after :: "(string \<times> bytes) list site" where
  "demo_after =
     fst (take_snapshot alist_backend demo_hadb demo_wire (\<lambda>x. x) [] demo_snapshot_sight
       (fst (sync_wal_with_sequence alist_backend demo_hadb demo_json demo_wire (\<lambda>x. x) demo_iter [] WalrustOwned demo_wal_sight demo_snapshot_sight demo_site)))"

lemma demo_history:
  "(publisher_step alist_backend map_of demo_hadb demo_json demo_wire (\<lambda>x. x) demo_iter (retry_times 3) [])\<^sup>*\<^sup>* demo_site demo_after"
proof -
  have cap: "snapshot_within_cap demo_snapshot_sight"
    by (simp add: snapshot_within_cap_def demo_snapshot_sight_def MAX_DECODED_DB_BYTES_def zeros_def)
  let ?z = "fst (sync_wal_with_sequence alist_backend demo_hadb demo_json demo_wire (\<lambda>x. x) demo_iter [] WalrustOwned demo_wal_sight demo_snapshot_sight demo_site)"
  have "publisher_step alist_backend map_of demo_hadb demo_json demo_wire (\<lambda>x. x) demo_iter (retry_times 3) [] demo_site ?z"
    by (rule publisher_step.sync [OF cap]) (rule prod.collapse [symmetric])
  moreover have "publisher_step alist_backend map_of demo_hadb demo_json demo_wire (\<lambda>x. x) demo_iter (retry_times 3) [] ?z demo_after"
    unfolding demo_after_def by (rule publisher_step.snapshot [OF cap]) (rule prod.collapse [symmetric])
  ultimately show ?thesis by auto
qed


theorem published_chain_restores_witness:
  "anchored demo_wire (\<lambda>x. x) (live_key demo_hadb [] (si_sync demo_after)) (snap_key demo_hadb [] (si_sync demo_after)) (chain_of map_of demo_after)"
  by (rule published_chain_restores [OF alist_durable.durable_backend_axioms demo_codec_ok demo_iterates bounded.retry_policy_axioms demo_history _ demo_anchored])
    (rule state_key_apart, simp_all add: demo_site_def demo_sync_state_def)

theorem published_objects_immutable_witness:
  "map_of (store_of demo_after) (snap_key demo_hadb [] demo_sync_state 1) = Some demo_published"
proof -
  have "snap_key demo_hadb [] demo_sync_state 1 \<noteq> state_key [] (ss_name (si_sync demo_site))"
    using state_key_apart [of demo_sync_state "''l''" "''app''" "[]" demo_hadb] demo_fields by (metis UnI2 rangeI)
  then show ?thesis
    using published_objects_immutable [OF alist.storage_backend_axioms demo_iterates bounded.retry_policy_axioms demo_history] by (simp add: demo_site_def)
qed

end
