(* ===== verification/PublishContent.thy ===== *)
theory PublishContent
  imports PublishChain
begin

text \<open>
  What a published batch contains: the pages of the database after the commits it covers.
\<close>

lemma fill_page_map_finite:
  "fill_page_map look ps start_pos m i hs c pm = Inr (pm', c') \<Longrightarrow> finite (dom pm) \<Longrightarrow> finite (dom pm')"
  by (induction look ps start_pos m i hs c pm rule: fill_page_map.induct) (auto split: option.splits if_splits prod.splits)

lemma page_map_read_finite:
  "read_frames_as_page_map_checked v psz off seed = Inr r \<Longrightarrow> finite (dom (pm_map r))"
  by (auto simp: read_frames_as_page_map_checked_def Let_def empty_page_map_read_def
      split: option.splits if_splits prod.splits dest!: fill_page_map_finite)

lemma map_of_page_index:
  assumes "distinct (map fst pages)" "\<forall>(n, d)\<in>set pages. n \<noteq> (0 :: u32)" "i + 1 < 2 ^ 32"
  shows "map_of (map (\<lambda>(n, d). (unat n - 1, d)) pages) i = map_of pages (word_of_nat (i + 1))"
  using assms(1,2)
proof (induction pages)
  case (Cons p pages)
  obtain n d where p: "p = (n, d)" by force
  have u: "unat (word_of_nat (i + 1) :: u32) = i + 1" using assms(3) by (simp add: unat_of_nat del: of_nat_Suc of_nat_add)
  have "n \<noteq> 0" using Cons.prems(2) p by simp
  then have "0 < unat n" by (simp add: unat_gt_0)
  then have "unat n - 1 = i \<longleftrightarrow> n = word_of_nat (i + 1)" using u by (metis Suc_eq_plus1 Suc_pred' add_diff_cancel_right' word_unat_eq_iff)
  then show ?case using Cons p by (cases "unat n - 1 = i") auto
qed simp


context storage_backend
begin

lemma wp_publish_owned_absent:
  assumes d: "durable_backend b view" and absent: "view (store_of z) (live_key h pre (si_sync z) (pc_seq p)) = None"
    and ok: "\<And>z' bs. si_sync z' = advance_cursor batch p (si_sync z) \<Longrightarrow>
      evolves {state_key pre (ss_name (si_sync z))} UNIV (store_of z) (store_of z') \<Longrightarrow>
      live_key h pre (si_sync z) (pc_seq p) \<noteq> state_key pre (ss_name (si_sync z)) \<longrightarrow>
        view (store_of z') (live_key h pre (si_sync z) (pc_seq p)) = Some (pc_bytes p) \<Longrightarrow>
      state_json_bytes j (si_sync z') = Inr bs \<Longrightarrow> view (store_of z') (state_key pre (ss_name (si_sync z))) = Some bs \<Longrightarrow>
      Q (word_of_nat (wb_frame_count batch)) z'"
    and err: "\<And>e z'. E e z'"
  shows "wp (publish_owned b h j cd sha256 pre sv batch p) Q E z"
  unfolding publish_owned_def Let_def wp_and_then wp_sync_state_of wp_in_world
proof (rule wp_load_publish_intent, goal_cases)
  case (1 w1)
  note w1 = 1
  show ?case
    unfolding wp_and_then wp_in_world
  proof (rule wp_save_publish_intent, goal_cases)
    case (1 w2 bs)
    have w2: "w_store w2 = store_of z" using w1 1 by simp
    show ?case
      unfolding wp_attempt wp_on_site_store
    proof (rule wp_put_changeset_if_absent, goal_cases)
      case (1 s')
      let ?z4 = "z\<lparr>si_world := w2\<lparr>w_store := s'\<rparr>, si_sync := advance_cursor batch p (si_sync z)\<rparr>"
      have "wp (save_state b j pre) (\<lambda>_. Q (word_of_nat (wb_frame_count batch))) E ?z4"
      proof (rule wp_save_state, goal_cases)
        case (1 z' bs)
        have g: "evolves {} {live_key h pre (si_sync z) (pc_seq p)} (store_of z) s'" "view s' (live_key h pre (si_sync z) (pc_seq p)) = Some (pc_bytes p)"
          using \<open>grown _ _ s'\<close> \<open>durable_backend b view \<Longrightarrow> view s' _ = _\<close> d w2 by simp_all
        have o: "only {state_key pre (ss_name (si_sync z))} s' (store_of z')" using 1 by (simp add: advance_cursor_def)
        have "evolves {state_key pre (ss_name (si_sync z))} UNIV (store_of z) (store_of z')"
          using evolves_mono [OF g(1)] only_evolves [OF o] by (blast intro: evolves_trans)
        moreover have "live_key h pre (si_sync z) (pc_seq p) \<noteq> state_key pre (ss_name (si_sync z)) \<longrightarrow>
            view (store_of z') (live_key h pre (si_sync z) (pc_seq p)) = Some (pc_bytes p)"
          using g(2) o by (simp add: only_def)
        ultimately show ?case using 1 d by (intro ok [of z' bs]) (simp_all add: advance_cursor_def)
      qed (rule err)
      then show ?case by (simp add: wp_simps wp_return_fun)
    next
      case (2 e s')
      then have "\<not> is_equivocation e" using absent w2 by auto
      then show ?case by (simp add: adopt_or_fail_def wp_simps err)
    qed
  qed (rule err)
qed (rule err)

end

text \<open>The database a batch turns the pages \<open>L\<close> into: its page versions over the old ones, cut or filled to its size.\<close>

definition overlaid :: "nat \<Rightarrow> page_map_read \<Rightarrow> bytes list \<Rightarrow> bytes list \<Rightarrow> bool" where
  "overlaid ps r L L' \<longleftrightarrow>
     length L' = unat (pm_db_size r) \<and>
     (\<forall>i<length L'. L' ! i = (case pm_map r (word_of_nat (i + 1)) of Some d \<Rightarrow> d | None \<Rightarrow> if i < length L then L ! i else zeros ps))"

context hadbp_codec
begin

lemma batch_applies:
  assumes p: "encodes cd sha256 v header (batch_of v header r st0) (hm (pm_map r)) st p"
    and st: "ss_db_checksum st = Some ck"
    and hm: "iterates hm" "finite (dom (pm_map r))" and L: "page_list (unat (wh_page_size header)) L"
  shows "\<exists>L' res. apply_changeset_to_db cd (pc_bytes p) (Some (concat L)) ck = Inr (concat L', res) \<and> ar_checksum res = pc_post_checksum p \<and>
    page_list (unat (wh_page_size header)) L' \<and> overlaid (unat (wh_page_size header)) r L L'"
proof -
  let ?pages = "hm (pm_map r)" and ?ps = "unat (wh_page_size header)" and ?e = "unat (ucast (pm_db_size r) :: u64)"
  have enc: "encode_wal_changes_with_end_page_count cd ?pages (wh_page_size header) (pc_seq p) ck (ucast (pm_db_size r)) =
      Inr (pc_bytes p, pc_post_checksum p)"
    using p st by (auto simp: encodes_def base_checksum_def batch_of_def)
  have dist: "distinct (map fst ?pages)" and mo: "map_of ?pages = pm_map r" using hm by (auto simp: iterates_def)
  obtain L' res where L': "apply_changeset_to_db cd (pc_bytes p) (Some (concat L)) ck = Inr (concat L', res)" "page_list ?ps L'" "length L' = ?e"
      "\<forall>i<?e. L' ! i = (case map_of (map (\<lambda>(n, d). (unat n - 1, d)) ?pages) i of
          Some d \<Rightarrow> d | None \<Rightarrow> if i < length L then L ! i else zeros ?ps)" "ar_checksum res = pc_post_checksum p"
    using incremental_applies [OF enc dist L] by blast
  have e: "?e = unat (pm_db_size r)" by (rule unat_ucast_u32)
  have "check_wal_pages (wh_page_size header) (ucast (pm_db_size r)) ?pages = Inr ()"
    using enc by (auto simp: encode_wal_changes_with_end_page_count_def encode_wal_changes_inner_def split: if_splits)
  then have nz: "\<forall>(n, d)\<in>set ?pages. n \<noteq> 0" by (auto simp: check_wal_pages_ok)
  have "map_of (map (\<lambda>(n, d). (unat n - 1, d)) ?pages) i = pm_map r (word_of_nat (i + 1))" if "i < ?e" for i
    using map_of_page_index [OF dist nz, of i] that mo unat_u32_less [of "pm_db_size r"] unfolding e by simp
  then have "overlaid ?ps r L L'" using L'(3,4) e by (auto simp: overlaid_def)
  then show ?thesis using L'(1,2,5) by blast
qed

lemma batch_extends_chain:
  assumes p: "encodes cd sha256 v header (batch_of v header r st0) (hm (pm_map r)) st p"
    and st: "ss_current_seq st = n" "ss_db_checksum st = Some ck"
    and hm: "iterates hm" "finite (dom (pm_map r))"
    and head: "chain_head cd sha256 live snap objects s m = Some (n, ck, concat L)" "page_list (unat (wh_page_size header)) L"
    and stored: "objects (live (n + 1)) = Some (pc_bytes p)"
  shows "\<exists>L'. chain_head cd sha256 live snap objects s (Suc m) = Some (n + 1, pc_post_checksum p, concat L') \<and>
    page_list (unat (wh_page_size header)) L' \<and> overlaid (unat (wh_page_size header)) r L L' \<and>
    linear_applied cd objects [\<lparr>dc_key = live (n + 1), dc_seq = n + 1\<rparr>] (n, ck, concat L) = Some (n + 1, pc_post_checksum p, concat L')"
proof -
  obtain L' res where L': "apply_changeset_to_db cd (pc_bytes p) (Some (concat L)) ck = Inr (concat L', res)" "ar_checksum res = pc_post_checksum p"
      "page_list (unat (wh_page_size header)) L'" "overlaid (unat (wh_page_size header)) r L L'"
    using batch_applies [OF p st(2) hm head(2)] by blast
  then show ?thesis using chain_head_extend [OF head(1) stored L'(1)] stored by auto
qed

end

text \<open>What a successful sync publishes, and how it continues the database of the head.\<close>

lemma sync_wal_publishes:
  assumes d: "durable_backend b view" and cd: "hadbp_codec cd" and hm: "iterates hm"
    and apart: "state_key pre (ss_name (si_sync z)) \<notin> range (live_key h pre (si_sync z)) \<union> range (snap_key h pre (si_sync z))"
    and header: "read_header (vs_header v) = Inr (Some header)"
    and noroll: "\<not> size_rollover v (si_sync z)" "\<not> salt_rollover header (si_sync z)"
    and read: "batch_read v header (si_sync z) = Inr r" "hm (pm_map r) \<noteq> []"
    and absent: "view (store_of z) (next_key h pre (si_sync z) GENERATION_LIVE) = None"
    and ck: "ss_db_checksum (si_sync z) = Some ck"
    and head: "chain_head cd sha256 (live_key h pre (si_sync z)) (snap_key h pre (si_sync z)) (view (store_of z)) s m =
        Some (ss_current_seq (si_sync z), ck, concat L)" "page_list (unat (wh_page_size header)) L"
    and run: "sync_wal b h j cd sha256 hm pre v sv z = (z', Inr k)"
  shows "\<exists>L' ck' bs. chain_head cd sha256 (live_key h pre (si_sync z')) (snap_key h pre (si_sync z')) (view (store_of z')) s (Suc m) =
        Some (ss_current_seq (si_sync z'), ck', concat L') \<and>
      page_list (unat (wh_page_size header)) L' \<and> overlaid (unat (wh_page_size header)) r L L' \<and>
      ss_current_seq (si_sync z') = ss_current_seq (si_sync z) + 1 \<and> ss_db_checksum (si_sync z') = Some ck' \<and>
      ss_wal_offset (si_sync z') = pm_offset r \<and> k = word_of_nat (pm_frames r) \<and>
      state_json_bytes j (si_sync z') = Inr bs \<and> view (store_of z') (state_key pre (ss_name (si_sync z'))) = Some bs \<and>
      linear_applied cd (view (store_of z')) [\<lparr>dc_key = live_key h pre (si_sync z') (ss_current_seq (si_sync z')), dc_seq = ss_current_seq (si_sync z')\<rparr>]
        (ss_current_seq (si_sync z), ck, concat L) = Some (ss_current_seq (si_sync z'), ck', concat L') \<and> same_identity (si_sync z) (si_sync z')"
    (is "?concl k z'")
proof -
  let ?st = "si_sync z"
  have sb: "storage_backend b view" using d by (rule durable_backend.axioms(1))
  have fin: "finite (dom (pm_map r))" using read(1) by (auto simp: batch_read_def Let_def intro: page_map_read_finite)
  let ?batch = "batch_of v header r ?st" and ?z1 = "z\<lparr>si_sync := batch_state v header r ?st\<rparr>"
  have keys: "build_state_changeset_key h pre (batch_state v header r ?st) g = build_state_changeset_key h pre ?st g" for g
    by (rule same_identity_keys) (use same_head_simps(3) in \<open>simp add: same_head_def\<close>)
  have pub: "wp (publish_owned b h j cd sha256 pre sv ?batch p) ?concl (\<lambda>_ _. True) ?z1"
    if p: "encodes cd sha256 v header ?batch (hm (pm_map r)) (si_sync ?z1) p" for p
  proof (rule storage_backend.wp_publish_owned_absent [OF sb d], goal_cases)
    case 1
    then show ?case using absent p by (simp add: keys encodes_def)
  next
    case (2 z' bs)
    have n: "pc_seq p = ss_current_seq ?st + 1" using p by (simp add: encodes_def)
    have id: "same_identity ?st (si_sync z')"
      using 2(1) by (simp add: advance_cursor_def same_identity_def)
    have nk: "live_key h pre ?st x \<noteq> state_key pre (ss_name ?st)" "snap_key h pre ?st x \<noteq> state_key pre (ss_name ?st)" for x
      using apart by (metis UnI1 rangeI, metis UnI2 rangeI)
    have st: "view (store_of z') (live_key h pre ?st (ss_current_seq ?st + 1)) = Some (pc_bytes p)"
      using 2(3) nk by (simp add: keys n)
    have "chain_head cd sha256 (live_key h pre ?st) (snap_key h pre ?st) (view (store_of z')) s m = Some (ss_current_seq ?st, ck, concat L)"
      using head(1)
    proof (rule chain_head_mono)
      fix k assume "k \<in> range (live_key h pre ?st) \<union> range (snap_key h pre ?st)" "view (store_of z) k \<noteq> None"
      then show "view (store_of z') k = view (store_of z) k"
        using 2(2) nk by (auto simp: storage_backend.evolves_def [OF sb])
    qed
    from hadbp_codec.batch_extends_chain [OF cd p _ _ hm fin this head(2) st] ck obtain L' where
      "chain_head cd sha256 (live_key h pre ?st) (snap_key h pre ?st) (view (store_of z')) s (Suc m) = Some (ss_current_seq ?st + 1, pc_post_checksum p, concat L')"
      "page_list (unat (wh_page_size header)) L'" "overlaid (unat (wh_page_size header)) r L L'"
      "linear_applied cd (view (store_of z')) [\<lparr>dc_key = live_key h pre ?st (ss_current_seq ?st + 1), dc_seq = ss_current_seq ?st + 1\<rparr>]
        (ss_current_seq ?st, ck, concat L) = Some (ss_current_seq ?st + 1, pc_post_checksum p, concat L')" by auto
    moreover have "ss_current_seq (si_sync z') = ss_current_seq ?st + 1" "ss_db_checksum (si_sync z') = Some (pc_post_checksum p)"
        "ss_wal_offset (si_sync z') = pm_offset r" "ss_name (si_sync z') = ss_name ?st"
      using 2(1) n by (simp_all add: advance_cursor_def batch_of_def)
    moreover have "view (store_of z') (state_key pre (ss_name ?st)) = Some bs" using 2(5) by simp
    moreover have "word_of_nat (wb_frame_count ?batch) = (word_of_nat (pm_frames r) :: u64)" by (simp add: batch_of_def)
    ultimately show ?case using 2(4) id unfolding same_identity_keys [OF id] by metis
  qed simp
  have "wp (sync_wal b h j cd sha256 hm pre v sv) ?concl (\<lambda>_ _. True) z"
    unfolding sync_wal_def sync_wal_with_sequence_def
    apply (simp add: wp_simps header del: linear_applied.simps)
    apply (rule wp_read_next_wal_batch)
    subgoal for r'
      using read noroll pub by (auto simp: wp_simps batch_of_def Let_def simp del: linear_applied.simps intro!: wp_prepare_changeset)
    by simp
  from wp_run [OF this run] show ?thesis by simp
qed

text \<open>
  Claim C12: a sync replicates the batch.  On a backend that stores what it acknowledges, if the head is
  the end of a chain that restores to the pages \<open>L\<close>, a sync that reads new committed frames and succeeds
  leaves a chain one object longer that restores to exactly \<open>L\<close> overlaid with the page versions of the
  batch and cut or filled to the committed size; the state names the new sequence number, its checksum
  and the WAL offset behind the batch, and \<^verbatim>\<open>state.json\<close> holds that state.
\<close>

theorem sync_wal_replicates:
  assumes d: "durable_backend b view" and cd: "hadbp_codec cd" and hm: "iterates hm"
    and apart: "state_key pre (ss_name (si_sync z)) \<notin> range (live_key h pre (si_sync z)) \<union> range (snap_key h pre (si_sync z))"
    and header: "read_header (vs_header v) = Inr (Some header)"
    and noroll: "\<not> size_rollover v (si_sync z)" "\<not> salt_rollover header (si_sync z)"
    and read: "batch_read v header (si_sync z) = Inr r" "hm (pm_map r) \<noteq> []"
    and absent: "view (store_of z) (next_key h pre (si_sync z) GENERATION_LIVE) = None"
    and ck: "ss_db_checksum (si_sync z) = Some ck"
    and head: "chain_head cd sha256 (live_key h pre (si_sync z)) (snap_key h pre (si_sync z)) (view (store_of z)) s m =
        Some (ss_current_seq (si_sync z), ck, concat L)" "page_list (unat (wh_page_size header)) L"
    and run: "sync_wal b h j cd sha256 hm pre v sv z = (z', Inr k)"
  shows "\<exists>L' ck' bs. chain_head cd sha256 (live_key h pre (si_sync z')) (snap_key h pre (si_sync z')) (view (store_of z')) s (Suc m) =
        Some (ss_current_seq (si_sync z'), ck', concat L') \<and>
      page_list (unat (wh_page_size header)) L' \<and> overlaid (unat (wh_page_size header)) r L L' \<and>
      ss_current_seq (si_sync z') = ss_current_seq (si_sync z) + 1 \<and> ss_db_checksum (si_sync z') = Some ck' \<and>
      ss_wal_offset (si_sync z') = pm_offset r \<and> k = word_of_nat (pm_frames r) \<and>
      state_json_bytes j (si_sync z') = Inr bs \<and> view (store_of z') (state_key pre (ss_name (si_sync z'))) = Some bs"
  using sync_wal_publishes [OF assms] by blast


section \<open>Witness\<close>

lemma demo_iter_one: "demo_iter [1 \<mapsto> zeros 512] = [(1, zeros 512)]"
  by (simp add: demo_iter_def)

lemma demo_batch:
  assumes "read_header (Some page_wal) = Inr (Some hdr)" "wh_page_size hdr = 512" "header_salt hdr = (1, 2)"
  shows "batch_read demo_wal_sight hdr demo_sync_state = Inr page_wal_batch" "\<not> size_rollover demo_wal_sight demo_sync_state"
    "\<not> salt_rollover hdr demo_sync_state"
proof -
  show r: "\<not> size_rollover demo_wal_sight demo_sync_state" "\<not> salt_rollover hdr demo_sync_state"
    using assms(3) by (simp_all add: size_rollover_def salt_rollover_def demo_sync_state_def)
  have "ss_wal_offset demo_sync_state = 0" by (simp add: demo_sync_state_def)
  then show "batch_read demo_wal_sight hdr demo_sync_state = Inr page_wal_batch"
    using page_wal_read r assms(2) by (simp add: batch_read_def rollover_cursor_def Let_def batch_chain_seed_def demo_wal_sight_def)
qed

lemma demo_changes_encode:
  "\<exists>bs c. encode_wal_changes_with_end_page_count demo_wire [(1, zeros 512)] 512 n pre 1 = Inr (bs, c)"
  by (simp add: encode_wal_changes_with_end_page_count_def encode_wal_changes_inner_def validate_page_size_iff SQLITE_PAGE_SIZES_def Let_def zeros_def)

lemma demo_prepared:
  assumes "ss_db_checksum (si_sync z) = Some c" "wb_final_db_size batch = 1" "wh_page_size hdr = 512"
  shows "\<exists>p. prepare_changeset demo_wire sha256 v hdr batch [(1, zeros 512)] z = (z, Inr p) \<and> pc_seq p = ss_current_seq (si_sync z) + 1"
proof -
  obtain bs k where "encode_wal_changes_with_end_page_count demo_wire [(1, zeros 512)] 512 (ss_current_seq (si_sync z) + 1) c 1 = Inr (bs, k)"
    using demo_changes_encode by blast
  then show ?thesis
    using assms by (simp add: prepare_changeset_def and_then_def sync_state_of_def return_def from_result_def Let_def)
qed

text \<open>A disk without faults.\<close>

lemma demo_intent:
  assumes "w_faults w = []" "w_files w (publish_intent_path st) = None"
  shows "load_publish_intent demo_json st w = (w, Inr None)"
    "\<exists>fs. save_publish_intent demo_json st n c0 c1 w = (w\<lparr>w_files := fs\<rparr>, Inr ())"
  using assms
  by (auto simp: load_publish_intent_def save_publish_intent_def read_local_def next_fault_def and_then_def return_def disk_op_def
      from_result_def demo_json_def install_file_def write_file_def rename_file_def fsync_dir_def)

lemma demo_publishes:
  assumes "w_faults (si_world z) = []" "files_of z = Map.empty" "map_of (store_of z) (live_key demo_hadb [] (si_sync z) (pc_seq p)) = None"
  shows "\<exists>z' k. publish_owned alist_backend demo_hadb demo_json demo_wire sha256 [] sv batch p z = (z', Inr k) \<and>
    store_of z' = AList.update (state_key [] (ss_name (si_sync z))) [] (AList.update (live_key demo_hadb [] (si_sync z) (pc_seq p)) (pc_bytes p) (store_of z))"
proof -
  have put: "put_changeset_if_absent alist_backend (live_key demo_hadb [] (si_sync z) (pc_seq p)) (pc_bytes p) (store_of z) =
      (AList.update (live_key demo_hadb [] (si_sync z) (pc_seq p)) (pc_bytes p) (store_of z), Inr ())"
    using assms(3) by (simp add: put_changeset_if_absent_def storage_op_def map_error_def and_then_def return_def alist_backend_def)
  obtain fs where "save_publish_intent demo_json (si_sync z) (pc_seq p) (pc_pre_checksum p) (pc_post_checksum p) (si_world z) =
      ((si_world z)\<lparr>w_files := fs\<rparr>, Inr ())"
    using demo_intent(2) [of "si_world z" "si_sync z"] assms(1,2) by (metis (no_types))
  then show ?thesis
    using demo_intent(1) [of "si_world z" "si_sync z"] assms put
    by (simp add: publish_owned_def Let_def and_then_def sync_state_of_def in_world_def attempt_def on_site_store_def on_world_def on_store_with_def
        update_sync_def save_state_def state_json_bytes_def demo_json_def from_result_def return_def storage_op_def map_error_def alist_backend_def advance_cursor_def)
qed

lemma demo_disk: "w_faults (si_world demo_site) = []" "files_of demo_site = Map.empty"
  by (simp_all add: demo_site_def)

lemma demo_reads:
  obtains hdr p where "read_header (vs_header demo_wal_sight) = Inr (Some hdr)" "wh_page_size hdr = 512" "header_salt hdr = (1, 2)"
    "batch_read demo_wal_sight hdr demo_sync_state = Inr page_wal_batch" "\<not> size_rollover demo_wal_sight demo_sync_state"
    "\<not> salt_rollover hdr demo_sync_state"
    "read_next_wal_batch demo_wal_sight hdr demo_site =
       (demo_site\<lparr>si_sync := batch_state demo_wal_sight hdr page_wal_batch demo_sync_state\<rparr>, Inr (batch_of demo_wal_sight hdr page_wal_batch demo_sync_state))"
    "\<not> wb_rollover_detected (batch_of demo_wal_sight hdr page_wal_batch demo_sync_state)"
    "demo_iter (wb_page_map (batch_of demo_wal_sight hdr page_wal_batch demo_sync_state)) = [(1, zeros 512)]"
    "prepare_changeset demo_wire (\<lambda>x. x) demo_wal_sight hdr (batch_of demo_wal_sight hdr page_wal_batch demo_sync_state) [(1, zeros 512)]
       (demo_site\<lparr>si_sync := batch_state demo_wal_sight hdr page_wal_batch demo_sync_state\<rparr>) =
       (demo_site\<lparr>si_sync := batch_state demo_wal_sight hdr page_wal_batch demo_sync_state\<rparr>, Inr p)" "pc_seq p = 2"
proof -
  obtain hdr where hdr: "read_header (Some page_wal) = Inr (Some hdr)" "wh_page_size hdr = 512" "header_salt hdr = (1, 2)"
    using page_wal_parsed by blast
  note B = demo_batch [OF hdr]
  let ?z1 = "demo_site\<lparr>si_sync := batch_state demo_wal_sight hdr page_wal_batch demo_sync_state\<rparr>"
  let ?b = "batch_of demo_wal_sight hdr page_wal_batch demo_sync_state"
  have read: "read_next_wal_batch demo_wal_sight hdr demo_site = (?z1, Inr ?b)"
    using B(1)
    by (simp add: read_next_wal_batch_def and_then_def sync_state_of_def update_sync_def batch_read_def Let_def from_result_def return_def
        batch_of_def batch_state_def page_wal_batch_def)
  have b: "wb_final_db_size ?b = 1" "\<not> wb_rollover_detected ?b" "demo_iter (wb_page_map ?b) = [(1, zeros 512)]"
    using B demo_iter_one by (simp_all add: batch_of_def page_wal_batch_def)
  obtain p where p: "prepare_changeset demo_wire (\<lambda>x. x) demo_wal_sight hdr ?b [(1, zeros 512)] ?z1 = (?z1, Inr p)" "pc_seq p = 2"
    using demo_prepared [OF _ b(1) hdr(2), of ?z1 "finalize (\<lambda>x. x) (zeros 512)" "\<lambda>x. x" demo_wal_sight] by auto
  have "read_header (vs_header demo_wal_sight) = Inr (Some hdr)" by (simp add: demo_wal_sight_def hdr(1))
  then show ?thesis using that hdr(2,3) B read b(2,3) p by blast
qed

lemma demo_sync_runs:
  "\<exists>z' k bs. sync_wal alist_backend demo_hadb demo_json demo_wire (\<lambda>x. x) demo_iter [] demo_wal_sight demo_snapshot_sight demo_site = (z', Inr k) \<and>
     store_of z' = AList.update (state_key [] ''app'') [] (AList.update (live_key demo_hadb [] demo_sync_state 2) bs (store_of demo_site))"
proof (rule demo_reads)
  fix hdr p
  let ?z1 = "demo_site\<lparr>si_sync := batch_state demo_wal_sight hdr page_wal_batch demo_sync_state\<rparr>"
  let ?b = "batch_of demo_wal_sight hdr page_wal_batch demo_sync_state"
  assume h: "read_header (vs_header demo_wal_sight) = Inr (Some hdr)" and read: "read_next_wal_batch demo_wal_sight hdr demo_site = (?z1, Inr ?b)"
    and b: "\<not> wb_rollover_detected ?b" "demo_iter (wb_page_map ?b) = [(1, zeros 512)]"
    and p: "prepare_changeset demo_wire (\<lambda>x. x) demo_wal_sight hdr ?b [(1, zeros 512)] ?z1 = (?z1, Inr p)" "pc_seq p = 2"
  have "map_of (store_of ?z1) (live_key demo_hadb [] (si_sync ?z1) (pc_seq p)) = None"
    using p(2) by (simp add: demo_site_def build_state_changeset_key_def build_lineage_changeset_key_def hex4_generations GENERATION_LIVE_def GENERATION_SNAPSHOT_def)
  moreover have "ss_name (si_sync ?z1) = ''app''" by (simp add: batch_state_def rollover_cursor_def Let_def split: option.split)
  moreover have "live_key demo_hadb [] (si_sync ?z1) = live_key demo_hadb [] demo_sync_state"
    by (rule same_identity_keys) (simp add: same_identity_def batch_state_def rollover_cursor_def Let_def split: option.split)
  ultimately obtain z' k where "publish_owned alist_backend demo_hadb demo_json demo_wire (\<lambda>x. x) [] demo_snapshot_sight ?b p ?z1 = (z', Inr k)"
      "store_of z' = AList.update (state_key [] ''app'') [] (AList.update (live_key demo_hadb [] demo_sync_state 2) (pc_bytes p) (store_of demo_site))"
    using demo_publishes [of ?z1 p "\<lambda>x. x" demo_snapshot_sight ?b] demo_disk p(2) by auto
  then show ?thesis
    using h read b p(1)
    by (intro exI [of _ z'] exI [of _ k] exI [of _ "pc_bytes p"])
      (simp add: sync_wal_def sync_wal_with_sequence_def and_then_def from_result_def return_def sync_state_of_def Let_def)
qed

theorem sync_wal_replicates_witness:
  "\<exists>z' k L'. sync_wal alist_backend demo_hadb demo_json demo_wire (\<lambda>x. x) demo_iter [] demo_wal_sight demo_snapshot_sight demo_site = (z', Inr k) \<and>
     k = 1 \<and> ss_current_seq (si_sync z') = 2 \<and> ss_wal_offset (si_sync z') = 568 \<and> overlaid 512 page_wal_batch [zeros 512] L'"
proof -
  obtain hdr where hdr: "read_header (Some page_wal) = Inr (Some hdr)" "wh_page_size hdr = 512" "header_salt hdr = (1, 2)"
    using page_wal_parsed by blast
  note B = demo_batch [OF hdr]
  obtain z' k where run: "sync_wal alist_backend demo_hadb demo_json demo_wire (\<lambda>x. x) demo_iter [] demo_wal_sight demo_snapshot_sight demo_site = (z', Inr k)"
    using demo_sync_runs by blast
  have apart: "state_key [] (ss_name (si_sync demo_site)) \<notin> range (live_key demo_hadb [] (si_sync demo_site)) \<union> range (snap_key demo_hadb [] (si_sync demo_site))"
    by (rule state_key_apart) simp_all
  have h: "read_header (vs_header demo_wal_sight) = Inr (Some hdr)" using hdr(1) by (simp add: demo_wal_sight_def)
  have pages: "demo_iter (pm_map page_wal_batch) \<noteq> []" using demo_iter_one by (simp add: page_wal_batch_def)
  have absent: "map_of (store_of demo_site) (next_key demo_hadb [] (si_sync demo_site) GENERATION_LIVE) = None"
    by (simp add: demo_site_def build_state_changeset_key_def build_lineage_changeset_key_def hex4_generations GENERATION_LIVE_def GENERATION_SNAPSHOT_def)
  have pl: "page_list (unat (wh_page_size hdr)) [zeros 512]" by (simp add: hdr(2) page_list_def zeros_def)
  have "chain_head demo_wire (\<lambda>x. x) (live_key demo_hadb [] (si_sync demo_site)) (snap_key demo_hadb [] (si_sync demo_site)) (map_of (store_of demo_site)) 1 0 =
      Some (ss_current_seq (si_sync demo_site), finalize (\<lambda>x. x) (zeros 512), concat [zeros 512])"
    using demo_head by (simp add: demo_site_def)
  from sync_wal_replicates [OF alist_durable.durable_backend_axioms demo_codec_ok demo_iterates apart h _ _ _ pages absent _ this pl run] B
  show ?thesis using run hdr(2) by (fastforce simp: page_wal_batch_def)
qed

end
