(* ===== verification/Fenced.thy ===== *)
theory Fenced
  imports PublishContent
begin

text \<open>
  Fenced deltas (\<^verbatim>\<open>external_delta.rs\<close> and the TLM_DELTA part of \<^verbatim>\<open>sync.rs\<close>): the envelope around an
  incremental changeset, its conditional publication, discovery, and the follower that rebuilds a
  database from a base image.  Followers accept an envelope only from the epoch and writer of their
  cursor and only if it names the hash of the envelope before it.

  The CBOR serialiser and BLAKE3 are not part of the repository: they are the parameters \<open>cb\<close> and
  \<open>blake3\<close>, and the locale \<open>envelope_format\<close> states the one law of the serialiser that is used.
\<close>

section \<open>Envelopes\<close>

definition DELTA_MAGIC :: bytes where
  "DELTA_MAGIC = [0x54, 0x4c, 0x4d, 0x44]"

definition VERSION_V1 :: u16 where
  "VERSION_V1 = 1"

datatype delta_payload_error =
    Truncated nat
  | MagicMismatch bytes
  | UnsupportedVersion u16 u16
  | BodyDecode string
  | BodyEncode string

record delta_payload =
  dp_seq :: u64
  dp_epoch :: u64
  dp_writer_id :: string
  dp_prev_checksum :: bytes
  dp_end_page_count :: u64
  dp_ltx_payload :: bytes

record cbor =
  cb_into_writer :: "delta_payload \<Rightarrow> string + bytes"
  cb_from_reader :: "bytes \<Rightarrow> string + delta_payload"

definition u16_to_be :: "u16 \<Rightarrow> bytes" where
  "u16_to_be w = be_bytes 2 (unat w)"

definition u16_from_be :: "bytes \<Rightarrow> u16" where
  "u16_from_be bs = word_of_nat (be_nat bs)"

definition delta_encode :: "cbor \<Rightarrow> delta_payload \<Rightarrow> delta_payload_error + bytes" where
  "delta_encode cb payload =
     (case cb_into_writer cb payload of
        Inl e \<Rightarrow> Inl (BodyEncode e)
      | Inr body \<Rightarrow> Inr (DELTA_MAGIC @ u16_to_be VERSION_V1 @ body))"

definition delta_decode :: "cbor \<Rightarrow> bytes \<Rightarrow> delta_payload_error + delta_payload" where
  "delta_decode cb bs =
     (if length bs < length DELTA_MAGIC + 2 then Inl (Truncated (length bs))
      else let got = take (length DELTA_MAGIC) bs in
        if got \<noteq> DELTA_MAGIC then Inl (MagicMismatch got)
        else let version = u16_from_be (slice bs (length DELTA_MAGIC) 2) in
          if version \<noteq> VERSION_V1 then Inl (UnsupportedVersion version VERSION_V1)
          else case cb_from_reader cb (drop (length DELTA_MAGIC + 2) bs) of
            Inl e \<Rightarrow> Inl (BodyDecode e)
          | Inr payload \<Rightarrow> Inr payload)"

text \<open>The hash the next envelope points back to.\<close>

definition delta_checksum :: "(bytes \<Rightarrow> bytes) \<Rightarrow> bytes \<Rightarrow> bytes" where
  "delta_checksum blake3 envelope_bytes = blake3 envelope_bytes"

section \<open>Publication and discovery\<close>

record fenced_delta_sync_params =
  fp_epoch :: u64
  fp_writer_id :: string
  fp_prev_envelope_checksum :: bytes

record delta_publish_result =
  dr_seq :: u64
  dr_envelope_checksum :: bytes
  dr_end_page_count :: u64
  dr_frame_count :: u64

record discovered_delta =
  dd_key :: string
  dd_seq :: u64
  dd_payload :: delta_payload
  dd_envelope_checksum :: bytes

text \<open>
  After the encoding the steps are those of \<^verbatim>\<open>put_changeset_if_absent\<close>: the same put, re-read and
  comparison, with other message texts.
\<close>

definition publish_delta_envelope ::
    "'s backend \<Rightarrow> cbor \<Rightarrow> (bytes \<Rightarrow> bytes) \<Rightarrow> string \<Rightarrow> string \<Rightarrow> delta_payload \<Rightarrow> ('s, failure, bytes) action" where
  "publish_delta_envelope b cb blake3 pre db_name payload =
     (case delta_encode cb payload of
        Inl e \<Rightarrow> raise [Message ''encode delta envelope'']
      | Inr envelope \<Rightarrow>
          and_then (put_changeset_if_absent b (delta_envelope_key pre db_name (dp_seq payload)) envelope) (\<lambda>_.
            return (delta_checksum blake3 envelope)))"

definition delta_dir :: "string \<Rightarrow> string \<Rightarrow> string" where
  "delta_dir pre db_name = pre @ db_name @ ''/'' @ hex_pad 4 (unat GENERATION_LIVE) @ ''/''"

definition after_marker :: "string \<Rightarrow> string \<Rightarrow> u64 \<Rightarrow> string option" where
  "after_marker pre db_name after_seq =
     (if 0 < after_seq then Some (delta_dir pre db_name @ hex_pad 16 (unat after_seq) @ ''.'' @ DELTA_ENVELOPE_EXT) else None)"

text \<open>One listed key: anything that is not an envelope behind \<open>after_seq\<close> or has vanished is skipped.\<close>

definition collect_delta ::
    "'s backend \<Rightarrow> cbor \<Rightarrow> (bytes \<Rightarrow> bytes) \<Rightarrow> u64 \<Rightarrow> string \<Rightarrow> discovered_delta list \<Rightarrow> ('s, failure, discovered_delta list) action" where
  "collect_delta b cb blake3 after_seq key out =
     (case parse_delta_envelope_seq key of
        None \<Rightarrow> return out
      | Some seq \<Rightarrow>
          if seq \<le> after_seq then return out
          else and_then (storage_op (b_get b key)) (\<lambda>found.
            case found of
              None \<Rightarrow> return out
            | Some bs \<Rightarrow>
                (case delta_decode cb bs of
                   Inl e \<Rightarrow> raise [Message ''decode delta'']
                 | Inr payload \<Rightarrow>
                     if dp_seq payload \<noteq> seq then raise [Typed (IntegrityError ''delta envelope seq mismatch'')]
                     else return (out @ [\<lparr>dd_key = key, dd_seq = seq, dd_payload = payload, dd_envelope_checksum = delta_checksum blake3 bs\<rparr>]))))"

definition list_delta_envelopes_after ::
    "'s backend \<Rightarrow> cbor \<Rightarrow> (bytes \<Rightarrow> bytes) \<Rightarrow> string \<Rightarrow> string \<Rightarrow> u64 \<Rightarrow> ('s, failure, discovered_delta list) action" where
  "list_delta_envelopes_after b cb blake3 pre db_name after_seq =
     and_then (storage_op (b_list b (delta_dir pre db_name) (after_marker pre db_name after_seq))) (\<lambda>keys.
     and_then (fold_actions (collect_delta b cb blake3 after_seq) keys []) (\<lambda>out.
       return (sort_key dd_seq out)))"

definition fetch_delta_envelope ::
    "'s backend \<Rightarrow> cbor \<Rightarrow> (bytes \<Rightarrow> bytes) \<Rightarrow> string \<Rightarrow> string \<Rightarrow> u64 \<Rightarrow> ('s, failure, discovered_delta option) action" where
  "fetch_delta_envelope b cb blake3 pre db_name seq =
     (let key = delta_envelope_key pre db_name seq in
      and_then (storage_op (b_get b key)) (\<lambda>found.
        case found of
          None \<Rightarrow> return None
        | Some bs \<Rightarrow>
            (case delta_decode cb bs of
               Inl e \<Rightarrow> raise [Message ''decode delta'']
             | Inr payload \<Rightarrow>
                 return (Some \<lparr>dd_key = key, dd_seq = seq, dd_payload = payload, dd_envelope_checksum = delta_checksum blake3 bs\<rparr>))))"

section \<open>Follower\<close>

record fenced_follower_cursor =
  fc_base_seq :: u64
  fc_epoch :: u64
  fc_writer_id :: string
  fc_base_envelope_checksum :: bytes

record fenced_follower_result =
  fr_applied :: u64
  fr_head_seq :: u64
  fr_head_envelope_checksum :: bytes
  fr_db_checksum :: u64

definition copy_file :: "string \<Rightarrow> string \<Rightarrow> ('s world, failure, unit) action" where
  "copy_file src dst =
     and_then (file_at src) (\<lambda>found.
       case found of
         None \<Rightarrow> raise [Message ''copy fenced base'']
       | Some bs \<Rightarrow> map_error (\<lambda>e. [Message ''copy fenced base'']) (write_file dst bs))"

text \<open>One round of the loop: the four fences, the hash of the re-encoding, then the changeset.\<close>

definition apply_fenced ::
    "codec \<Rightarrow> cbor \<Rightarrow> (bytes \<Rightarrow> bytes) \<Rightarrow> fenced_follower_cursor \<Rightarrow> string \<Rightarrow> discovered_delta \<Rightarrow> u64 \<times> u64 \<times> bytes \<Rightarrow>
      ('s world, failure, u64 \<times> u64 \<times> bytes) action" where
  "apply_fenced cd cb blake3 cursor out d = (\<lambda>(applied, running_db, running_env).
     if dd_seq d \<noteq> fc_base_seq cursor + applied + 1 then raise [Typed (IntegrityError ''fenced envelope seq gap'')]
     else if dp_epoch (dd_payload d) \<noteq> fc_epoch cursor then raise [Typed (IntegrityError ''epoch fence rejected envelope'')]
     else if dp_writer_id (dd_payload d) \<noteq> fc_writer_id cursor then raise [Typed (IntegrityError ''writer fence rejected envelope'')]
     else if dp_prev_checksum (dd_payload d) \<noteq> running_env then raise [Typed (IntegrityError ''envelope chain break'')]
     else case delta_encode cb (dd_payload d) of
       Inl e \<Rightarrow> raise [Message ''re-encode fenced envelope'']
     | Inr bs \<Rightarrow>
         if delta_checksum blake3 bs \<noteq> dd_envelope_checksum d then raise [Typed (IntegrityError ''envelope checksum mismatch'')]
         else and_then (apply_changeset_to_path cd (dp_ltx_payload (dd_payload d)) out running_db) (\<lambda>step.
           return (applied + 1, ar_checksum step, dd_envelope_checksum d)))"

definition reconstruct_fenced_follower ::
    "'s backend \<Rightarrow> codec \<Rightarrow> cbor \<Rightarrow> (bytes \<Rightarrow> bytes) \<Rightarrow> (bytes \<Rightarrow> bytes) \<Rightarrow> string \<Rightarrow> string \<Rightarrow> fenced_follower_cursor \<Rightarrow> string \<Rightarrow> string \<Rightarrow>
      ('s world, failure, fenced_follower_result) action" where
  "reconstruct_fenced_follower b cd cb blake3 sha256 pre db_name cursor base_db_path out =
     and_then (copy_file base_db_path out) (\<lambda>_.
     and_then (file_at out) (\<lambda>copied.
     and_then (from_result (map_sum (\<lambda>e. [Changeset e]) id (compute_checksum_from_file sha256 copied))) (\<lambda>running_db.
     and_then (on_world (list_delta_envelopes_after b cb blake3 pre db_name (fc_base_seq cursor))) (\<lambda>deltas.
     and_then (fold_actions (apply_fenced cd cb blake3 cursor out) deltas (0, running_db, fc_base_envelope_checksum cursor)) (\<lambda>(applied, db, env).
       return \<lparr>fr_applied = applied, fr_head_seq = fc_base_seq cursor + applied, fr_head_envelope_checksum = env, fr_db_checksum = db\<rparr>)))))"

section \<open>Writer\<close>

text \<open>
  Reading, encoding and advancing are as in \<^verbatim>\<open>sync_wal_with_sequence\<close>; nothing is saved afterwards
  because the cursor lives in the external base manifest.
\<close>

definition sync_wal_fenced_delta ::
    "'s backend \<Rightarrow> codec \<Rightarrow> cbor \<Rightarrow> (bytes \<Rightarrow> bytes) \<Rightarrow> (bytes \<Rightarrow> bytes) \<Rightarrow> ((u32 \<rightharpoonup> bytes) \<Rightarrow> (u32 \<times> bytes) list) \<Rightarrow> string \<Rightarrow>
      fenced_delta_sync_params \<Rightarrow> wal_sight \<Rightarrow> ('s site, failure, delta_publish_result option) action" where
  "sync_wal_fenced_delta b cd cb blake3 sha256 hm pre params v =
     and_then (from_result (map_sum (\<lambda>e. [WalRead e]) id (read_header (vs_header v)))) (\<lambda>found.
       case found of
         None \<Rightarrow> and_then (ensure_database_in_wal_mode v) (\<lambda>_. return None)
       | Some header \<Rightarrow>
           and_then sync_state_of (\<lambda>previous.
           and_then (read_next_wal_batch v header) (\<lambda>batch.
             if wb_rollover_detected batch
             then and_then (update_sync (restore_cursor previous)) (\<lambda>_.
                  and_then (emit_rollover ''fenced-external'' False) (\<lambda>_.
                    raise [Message ''WAL rollover detected in fenced external mode; refusing to publish deltas until the external base is re-anchored'']))
             else let pages = hm (wb_page_map batch) in
               if pages = [] then return None
               else and_then (prepare_changeset cd sha256 v header batch pages) (\<lambda>p.
                 and_then sync_state_of (\<lambda>st.
                 let payload = \<lparr>dp_seq = pc_seq p, dp_epoch = fp_epoch params, dp_writer_id = fp_writer_id params,
                       dp_prev_checksum = fp_prev_envelope_checksum params, dp_end_page_count = ucast (wb_final_db_size batch),
                       dp_ltx_payload = pc_bytes p\<rparr>
                 in and_then (on_site_store (publish_delta_envelope b cb blake3 pre (ss_name st) payload)) (\<lambda>envelope_checksum.
                    and_then (update_sync (advance_cursor batch p)) (\<lambda>_.
                      return (Some \<lparr>dr_seq = pc_seq p, dr_envelope_checksum = envelope_checksum,
                        dr_end_page_count = ucast (wb_final_db_size batch), dr_frame_count = word_of_nat (wb_frame_count batch)\<rparr>))))))))"

section \<open>The envelope format\<close>

lemma u16_roundtrip [simp]: "u16_from_be (u16_to_be w) = w" "length (u16_to_be w) = 2"
proof -
  have "unat w < 256 ^ 2" using unsigned_less [of w] by simp
  then show "u16_from_be (u16_to_be w) = w" by (simp add: u16_to_be_def u16_from_be_def be_nat_be_bytes)
qed (simp add: u16_to_be_def)

lemma length_DELTA_MAGIC [simp]: "length DELTA_MAGIC = 4"
  by (simp add: DELTA_MAGIC_def)

lemma decode_envelope:
  "delta_decode cb (DELTA_MAGIC @ u16_to_be VERSION_V1 @ body) =
     (case cb_from_reader cb body of Inl e \<Rightarrow> Inl (BodyDecode e) | Inr payload \<Rightarrow> Inr payload)"
  by (simp add: delta_decode_def Let_def slice_skip slice_head)

lemma decode_envelopeE:
  assumes "delta_decode cb bs = Inr p"
  obtains body where "bs = DELTA_MAGIC @ u16_to_be VERSION_V1 @ body" "cb_from_reader cb body = Inr p"
proof
  let ?m = "length DELTA_MAGIC"
  from assms have len: "?m + 2 \<le> length bs" and m: "take ?m bs = DELTA_MAGIC"
      and v: "u16_from_be (slice bs ?m 2) = VERSION_V1" and c: "cb_from_reader cb (drop (?m + 2) bs) = Inr p"
    by (auto simp: delta_decode_def Let_def split: if_splits sum.splits)
  have "length (slice bs ?m 2) = 2" using len by (simp add: slice_def)
  then have "u16_to_be (u16_from_be (slice bs ?m 2)) = slice bs ?m 2"
    using be_bytes_be_nat [of "slice bs ?m 2"] be_nat_bound [of "slice bs ?m 2"]
    by (simp add: u16_to_be_def u16_from_be_def unat_of_nat)
  then have "slice bs ?m 2 = u16_to_be VERSION_V1" using v by simp
  moreover have "bs = take ?m bs @ slice bs ?m 2 @ drop (?m + 2) bs"
    by (simp add: slice_def take_add [symmetric] flip: append_assoc)
  ultimately show "bs = DELTA_MAGIC @ u16_to_be VERSION_V1 @ drop (?m + 2) bs" using m by simp
  show "cb_from_reader cb (drop (?m + 2) bs) = Inr p" by (rule c)
qed

text \<open>What is relied on of the CBOR serialiser.\<close>

locale envelope_format =
  fixes cb :: cbor
  assumes cbor_roundtrip: "cb_into_writer cb payload = Inr body \<Longrightarrow> cb_from_reader cb body = Inr payload"
begin

lemma envelope_decodes: "delta_encode cb payload = Inr bs \<Longrightarrow> delta_decode cb bs = Inr payload"
  by (auto simp: delta_encode_def decode_envelope cbor_roundtrip split: sum.splits)

end

text \<open>An instance: fixed-width numbers and length-prefixed strings.\<close>

definition plain_into_writer :: "delta_payload \<Rightarrow> string + bytes" where
  "plain_into_writer p =
     (if 2 ^ 64 \<le> length (dp_writer_id p) \<or> 2 ^ 64 \<le> length (dp_prev_checksum p) then Inl ''string too long''
      else Inr (u64_to_be (dp_seq p) @ u64_to_be (dp_epoch p) @ u64_to_be (dp_end_page_count p) @
        u64_to_be (word_of_nat (length (dp_writer_id p))) @ map (\<lambda>c. word_of_nat (of_char c)) (dp_writer_id p) @
        u64_to_be (word_of_nat (length (dp_prev_checksum p))) @ dp_prev_checksum p @ dp_ltx_payload p))"

definition plain_from_reader :: "bytes \<Rightarrow> string + delta_payload" where
  "plain_from_reader bs =
     (let n = unat (u64_from_be (slice bs 24 8)); r = drop (32 + n) bs; m = unat (u64_from_be (take 8 r)) in
      if length bs < 40 + n + m then Inl ''unexpected end''
      else Inr \<lparr>dp_seq = u64_from_be (slice bs 0 8), dp_epoch = u64_from_be (slice bs 8 8), dp_writer_id = map (\<lambda>x. char_of (unat x)) (slice bs 32 n),
        dp_prev_checksum = slice r 8 m, dp_end_page_count = u64_from_be (slice bs 16 8), dp_ltx_payload = drop (8 + m) r\<rparr>)"

definition plain_cbor :: cbor where
  "plain_cbor = \<lparr>cb_into_writer = plain_into_writer, cb_from_reader = plain_from_reader\<rparr>"

interpretation plain: envelope_format plain_cbor
proof
  fix p body assume "cb_into_writer plain_cbor p = Inr body"
  then have len: "length (dp_writer_id p) < 2 ^ 64" "length (dp_prev_checksum p) < 2 ^ 64"
    and b: "body = u64_to_be (dp_seq p) @ u64_to_be (dp_epoch p) @ u64_to_be (dp_end_page_count p) @
        u64_to_be (word_of_nat (length (dp_writer_id p))) @ map (\<lambda>c. word_of_nat (of_char c)) (dp_writer_id p) @
        u64_to_be (word_of_nat (length (dp_prev_checksum p))) @ dp_prev_checksum p @ dp_ltx_payload p"
    by (auto simp: plain_cbor_def plain_into_writer_def not_le split: if_splits)
  have chars: "map ((\<lambda>x. char_of (unat x)) \<circ> (\<lambda>c. word_of_nat (of_char c) :: u8)) xs = xs" for xs
    by (rule map_idI) (simp add: unat_of_nat)
  have u: "unat (word_of_nat (length (dp_writer_id p)) :: u64) = length (dp_writer_id p)"
      "unat (word_of_nat (length (dp_prev_checksum p)) :: u64) = length (dp_prev_checksum p)"
    using len by (simp_all add: unat_of_nat)
  show "cb_from_reader plain_cbor body = Inr p"
    unfolding b by (simp add: plain_cbor_def plain_from_reader_def Let_def slice_skip slice_head u chars)
qed

section \<open>Reference: replaying published envelopes\<close>

text \<open>
  The follower's contract over the stored objects: every key carries the next sequence number, its
  envelope decodes, has the same sequence number, the cursor's epoch and writer and the hash of the
  envelope before it, and its changeset applies on top of the running checksum.
\<close>

fun fenced_replay ::
    "codec \<Rightarrow> cbor \<Rightarrow> (bytes \<Rightarrow> bytes) \<Rightarrow> fenced_follower_cursor \<Rightarrow> (string \<rightharpoonup> bytes) \<Rightarrow> string list \<Rightarrow> u64 \<times> bytes \<times> u64 \<times> bytes \<Rightarrow>
      (u64 \<times> bytes \<times> u64 \<times> bytes) option" where
  "fenced_replay cd cb blake3 cursor objects [] x = Some x"
| "fenced_replay cd cb blake3 cursor objects (k # ks) (seq, env, ck, db) =
     (case objects k of
        None \<Rightarrow> None
      | Some bs \<Rightarrow>
          (case delta_decode cb bs of
             Inl e \<Rightarrow> None
           | Inr p \<Rightarrow>
               if parse_delta_envelope_seq k = Some (seq + 1) \<and> dp_seq p = seq + 1 \<and> dp_epoch p = fc_epoch cursor \<and>
                  dp_writer_id p = fc_writer_id cursor \<and> dp_prev_checksum p = env
               then (case apply_changeset_to_db cd (dp_ltx_payload p) (Some db) ck of
                       Inl e \<Rightarrow> None
                     | Inr (db', res) \<Rightarrow> fenced_replay cd cb blake3 cursor objects ks (seq + 1, delta_checksum blake3 bs, ar_checksum res, db'))
               else None))"

lemma fenced_replay_append:
  "fenced_replay cd cb blake3 cursor objects (ks @ ks') x =
     Option.bind (fenced_replay cd cb blake3 cursor objects ks x) (fenced_replay cd cb blake3 cursor objects ks')"
  by (induction cd cb blake3 cursor objects ks x rule: fenced_replay.induct) (simp_all split: option.split sum.split)

lemma fenced_replay_mono:
  assumes "fenced_replay cd cb blake3 cursor objects ks x = Some y" "\<And>k bs. k \<in> set ks \<Longrightarrow> objects k = Some bs \<Longrightarrow> objects' k = Some bs"
  shows "fenced_replay cd cb blake3 cursor objects' ks x = Some y"
  using assms
  by (induction cd cb blake3 cursor objects ks x rule: fenced_replay.induct) (auto split: option.splits sum.splits if_splits)

text \<open>What discovery reports of an object.\<close>

definition genuine :: "cbor \<Rightarrow> (bytes \<Rightarrow> bytes) \<Rightarrow> (string \<rightharpoonup> bytes) \<Rightarrow> u64 \<Rightarrow> discovered_delta \<Rightarrow> bool" where
  "genuine cb blake3 objects after_seq d \<longleftrightarrow>
     parse_delta_envelope_seq (dd_key d) = Some (dd_seq d) \<and> after_seq < dd_seq d \<and> dp_seq (dd_payload d) = dd_seq d \<and>
     (\<exists>bs. objects (dd_key d) = Some bs \<and> delta_decode cb bs = Inr (dd_payload d) \<and> dd_envelope_checksum d = delta_checksum blake3 bs)"

definition fenced_error :: "failure \<Rightarrow> bool" where
  "fenced_error e \<longleftrightarrow> (\<exists>m. e = [Typed (IntegrityError m)])"

context storage_backend
begin

lemma wp_collect_delta:
  assumes "\<And>s'. view s' = view s \<Longrightarrow> Q out s'"
    and "\<And>d s'. view s' = view s \<Longrightarrow> genuine cb blake3 (view s) after_seq d \<Longrightarrow> dd_key d = key \<Longrightarrow> Q (out @ [d]) s'"
    and "\<And>e s'. view s' = view s \<Longrightarrow> E e s'"
  shows "wp (collect_delta b cb blake3 after_seq key out) Q E s"
proof (cases "parse_delta_envelope_seq key")
  case None
  then show ?thesis using assms(1) by (simp add: collect_delta_def wp_simps)
next
  case (Some n)
  show ?thesis
  proof (cases "n \<le> after_seq")
    case True
    with Some show ?thesis using assms(1) by (simp add: collect_delta_def wp_simps)
  next
    case False
    show ?thesis
      unfolding collect_delta_def Some option.case if_not_P [OF False] wp_and_then storage_op_def wp_map_error
    proof (rule wp_get, goal_cases)
      case (1 r s')
      then show ?case
        using assms False Some by (auto simp: wp_simps genuine_def split: option.split sum.split)
    qed (rule assms(3))
  qed
qed

lemma wp_list_delta_envelopes:
  assumes "\<And>ds s'. view s' = view s \<Longrightarrow> sorted (map dd_seq ds) \<Longrightarrow>
      \<forall>d\<in>set ds. genuine cb blake3 (view s) after_seq d \<and> prefix (delta_dir pre db) (dd_key d) \<Longrightarrow> Q ds s'"
    and "\<And>e s'. view s' = view s \<Longrightarrow> E e s'"
  shows "wp (list_delta_envelopes_after b cb blake3 pre db after_seq) Q E s"
  unfolding list_delta_envelopes_after_def wp_and_then storage_op_def wp_map_error
proof (rule wp_list, goal_cases)
  case (1 keys s')
  let ?I = "\<lambda>ds s'. view s' = view s \<and> (\<forall>d\<in>set ds. genuine cb blake3 (view s) after_seq d \<and> prefix (delta_dir pre db) (dd_key d))"
  have "wp (fold_actions (collect_delta b cb blake3 after_seq) keys []) ?I (\<lambda>_ s'. view s' = view s) s'"
    by (rule wp_fold_actions) (use 1 in \<open>auto intro!: wp_collect_delta\<close>)
  then show ?case
    unfolding wp_return
    by (rule wp_mono) (use assms in auto)
qed (rule assms(2))

end

section \<open>The follower\<close>

lemma wp_write_file_message:
  assumes "\<And>w'. w_store w' = w_store w \<Longrightarrow> w_files w' = (w_files w)(path \<mapsto> bs) \<Longrightarrow> Q () w'"
    and "\<And>m w' junk. w_store w' = w_store w \<Longrightarrow> w_files w' = (w_files w)(path := junk) \<Longrightarrow> E [Message m] w'"
  shows "wp (write_file path bs) Q E w"
proof (cases "next_fault w")
  case (Pair w' x)
  then show ?thesis
    using assms next_fault_frame [OF Pair] by (cases x) (simp_all add: wp_def write_file_def)
qed

lemma wp_copy_file:
  assumes "\<And>bs w'. w_files w src = Some bs \<Longrightarrow> w_store w' = w_store w \<Longrightarrow> w_files w' = (w_files w)(dst \<mapsto> bs) \<Longrightarrow> Q () w'"
    and "\<And>m w' x. w_store w' = w_store w \<Longrightarrow> w_files w' = (w_files w)(dst := x) \<Longrightarrow> E [Message m] w'"
  shows "wp (copy_file src dst) Q E w"
proof (cases "w_files w src")
  case None
  have "w_files w = (w_files w)(dst := w_files w dst)" by simp
  with None show ?thesis using assms(2) [of w "w_files w dst"] by (simp add: copy_file_def wp_simps)
next
  case (Some bs)
  then show ?thesis
    by (simp add: copy_file_def wp_simps) (rule wp_write_file_message, use assms in auto)
qed

definition rejoins :: "string \<Rightarrow> 's world \<Rightarrow> 's world \<Rightarrow> bool" where
  "rejoins path w w' \<longleftrightarrow> w_store w' = w_store w \<and> staged_only path w w'"

lemma rejoins_write: "w_store w' = w_store w \<Longrightarrow> w_files w' = (w_files w)(path := x) \<Longrightarrow> rejoins path w w'"
  by (simp add: rejoins_def staged_only_def)

lemma rejoins_refl [simp]: "rejoins path w w"
  by (simp add: rejoins_def staged_only_def)

lemma rejoins_trans: "rejoins path u v \<Longrightarrow> rejoins path v w \<Longrightarrow> rejoins path u w"
  by (simp add: rejoins_def staged_only_def)

text \<open>
  One round.  The file is written only behind every fence; a fence that rejects leaves it alone.
\<close>

lemma wp_apply_fenced:
  assumes d: "genuine cb blake3 objects n d" and db: "w_files w out = Some db"
    and ok: "\<And>db' ck' w'. fenced_replay cd cb blake3 cursor objects [dd_key d] (fc_base_seq cursor + i, env, ck, db) =
        Some (fc_base_seq cursor + (i + 1), dd_envelope_checksum d, ck', db') \<Longrightarrow>
      rejoins out w w' \<Longrightarrow> w_files w' out = Some db' \<Longrightarrow> Q (i + 1, ck', dd_envelope_checksum d) w'"
    and err: "\<And>e w'. rejoins out w w' \<Longrightarrow> (fenced_error e \<Longrightarrow> w' = w) \<Longrightarrow> E e w'"
  shows "wp (apply_fenced cd cb blake3 cursor out d (i, ck, env)) Q E w"
proof -
  have E: "E [Typed (IntegrityError m)] w" "E [Message m] w" "E [Changeset x] w" for m x by (auto intro!: err)
  have ap: "wp (apply_changeset_to_path cd (dp_ltx_payload (dd_payload d)) out ck) (\<lambda>step. Q (i + 1, ar_checksum step, dd_envelope_checksum d)) E w"
    if "dd_seq d = fc_base_seq cursor + i + 1" "dp_epoch (dd_payload d) = fc_epoch cursor" "dp_writer_id (dd_payload d) = fc_writer_id cursor"
      "dp_prev_checksum (dd_payload d) = env"
  proof (cases "apply_changeset_to_db cd (dp_ltx_payload (dd_payload d)) (Some db) ck")
    case (Inl e)
    then show ?thesis using E db by (simp add: apply_changeset_to_path_def wp_simps)
  next
    case (Inr x)
    obtain f res where x: "x = (f, res)" by fastforce
    have "fenced_replay cd cb blake3 cursor objects [dd_key d] (fc_base_seq cursor + i, env, ck, db) =
        Some (fc_base_seq cursor + (i + 1), dd_envelope_checksum d, ar_checksum res, f)"
      using d that Inr x by (auto simp: genuine_def add.assoc)
    then show ?thesis
      unfolding apply_changeset_to_path_def wp_and_then wp_file_at db Inr x sum.case prod.case wp_return
      by (intro wp_write_file_message) (auto intro!: ok err simp: fenced_error_def dest: rejoins_write)
  qed
  show ?thesis
    using E ap by (simp add: apply_fenced_def wp_simps wp_return_fun split: sum.split)
qed

lemma wp_fenced_rounds:
  assumes "\<forall>d\<in>set ds. genuine cb blake3 objects n d" "w_files w out = Some db"
  shows "wp (fold_actions (apply_fenced cd cb blake3 cursor out) ds (i, ck, env))
     (\<lambda>(i', ck', env') w'. rejoins out w w' \<and> i' = i + word_of_nat (length ds) \<and>
        (\<exists>db'. w_files w' out = Some db' \<and>
           fenced_replay cd cb blake3 cursor objects (map dd_key ds) (fc_base_seq cursor + i, env, ck, db) = Some (fc_base_seq cursor + i', env', ck', db')))
     (\<lambda>e w'. rejoins out w w' \<and> (fenced_error e \<longrightarrow> (\<exists>m y db'. w_files w' out = Some db' \<and>
           fenced_replay cd cb blake3 cursor objects (map dd_key (take m ds)) (fc_base_seq cursor + i, env, ck, db) = Some y \<and> snd (snd (snd y)) = db'))) w"
  using assms
proof (induction ds arbitrary: i ck env w db)
  case Nil
  then show ?case by (simp add: wp_return)
next
  case (Cons d ds)
  show ?case
    unfolding fold_actions.simps
  proof (rule wp_and_thenI, rule wp_apply_fenced [OF _ Cons.prems(2), where cb = cb and objects = objects and n = n], goal_cases)
    case 1
    then show ?case using Cons.prems by simp
  next
    case (2 db' ck' w')
    have step: "fenced_replay cd cb blake3 cursor objects (dd_key d # ks) (fc_base_seq cursor + i, env, ck, db) =
        fenced_replay cd cb blake3 cursor objects ks (fc_base_seq cursor + (i + 1), dd_envelope_checksum d, ck', db')" for ks
      using fenced_replay_append [of cd cb blake3 cursor objects "[dd_key d]" ks, unfolded append_Cons append_Nil] 2(1)
      by (simp del: fenced_replay.simps)
    show ?case
    proof (rule wp_mono [OF Cons.IH [OF _ 2(3)]], goal_cases)
      case 1
      then show ?case using Cons.prems by simp
    next
      case (2 a w'')
      then show ?case using \<open>rejoins out w w'\<close> by (auto simp: step add.assoc simp del: fenced_replay.simps(2) intro: rejoins_trans)
    next
      case (3 e w'')
      then show ?case
      proof (intro conjI impI, goal_cases)
        case 1
        then show ?case using \<open>rejoins out w w'\<close> by (auto intro: rejoins_trans)
      next
        case 2
        then obtain m y db'' where "w_files w'' out = Some db''"
            "fenced_replay cd cb blake3 cursor objects (map dd_key (take m ds)) (fc_base_seq cursor + (i + 1), dd_envelope_checksum d, ck', db') = Some y"
            "snd (snd (snd y)) = db''" by blast
        then show ?case by (intro exI [of _ "Suc m"] exI [of _ y] exI [of _ db'']) (simp add: step del: fenced_replay.simps(2))
      qed
    qed
  next
    case (3 e w')
    then show ?case using Cons.prems(2) by (auto intro!: exI [of _ "0::nat"])
  qed
qed


context storage_backend
begin

lemma wp_reconstruct:
  assumes img: "w_files w base = Some img"
  shows "wp (reconstruct_fenced_follower b cd cb blake3 sha256 pre db cursor base out)
     (\<lambda>res w'. view (w_store w') = view (w_store w) \<and> staged_only out w w' \<and>
        (\<exists>ks ck0 img'. compute_checksum_from_file sha256 (Some img) = Inr ck0 \<and> list_all (prefix (delta_dir pre db)) ks \<and>
           fr_applied res = word_of_nat (length ks) \<and> w_files w' out = Some img' \<and>
           fenced_replay cd cb blake3 cursor (view (w_store w)) ks (fc_base_seq cursor, fc_base_envelope_checksum cursor, ck0, img) =
             Some (fr_head_seq res, fr_head_envelope_checksum res, fr_db_checksum res, img')))
     (\<lambda>e w'. view (w_store w') = view (w_store w) \<and> staged_only out w w' \<and>
        (fenced_error e \<longrightarrow> (\<exists>ks ck0 n env ck img'. w_files w' out = Some img' \<and>
           fenced_replay cd cb blake3 cursor (view (w_store w)) ks (fc_base_seq cursor, fc_base_envelope_checksum cursor, ck0, img) = Some (n, env, ck, img')))) w"
    (is "wp _ ?Q ?E w")
  unfolding reconstruct_fenced_follower_def
proof (rule wp_and_thenI, rule wp_copy_file, goal_cases)
  case (1 bs w1)
  then have bs: "bs = img" and w1: "rejoins out w w1" "w_files w1 out = Some img" using img rejoins_write [OF 1(2,3)] by auto
  have failed: "?E e (w1\<lparr>w_store := s'\<rparr>)" if "view s' = view (w_store w)" for e s'
    using w1 that
    by (intro conjI impI exI [of _ "[]"] exI [of _ img]) (auto simp: rejoins_def staged_only_def intro!: exI [of _ "[]"])
  show ?case
  proof (cases "compute_checksum_from_file sha256 (Some img)")
    case (Inl e)
    then show ?thesis using w1 failed [of "w_store w" "[Changeset e]"] by (simp add: wp_simps rejoins_def)
  next
    case (Inr ck0)
    have "wp (list_delta_envelopes_after b cb blake3 pre db (fc_base_seq cursor))
        (\<lambda>ds s'. wp (and_then (fold_actions (apply_fenced cd cb blake3 cursor out) ds (0, ck0, fc_base_envelope_checksum cursor)) (\<lambda>(applied, db, env).
           return \<lparr>fr_applied = applied, fr_head_seq = fc_base_seq cursor + applied, fr_head_envelope_checksum = env, fr_db_checksum = db\<rparr>)) ?Q ?E (w1\<lparr>w_store := s'\<rparr>))
        (\<lambda>e s'. ?E e (w1\<lparr>w_store := s'\<rparr>)) (w_store w1)"
    proof (rule wp_list_delta_envelopes, goal_cases)
      case (1 ds s')
      let ?w2 = "w1\<lparr>w_store := s'\<rparr>"
      have v: "view s' = view (w_store w)" "view (w_store w1) = view (w_store w)" using 1(1) w1 by (simp_all add: rejoins_def)
      have st: "view (w_store w') = view (w_store w) \<and> staged_only out w w'" if "rejoins out ?w2 w'" for w'
        using that v w1 by (auto simp: rejoins_def staged_only_def)
      have g: "\<forall>d\<in>set ds. genuine cb blake3 (view (w_store w)) (fc_base_seq cursor) d" "w_files ?w2 out = Some img"
        using 1(3) v w1(2) by simp_all
      show ?case
        unfolding wp_and_then
      proof (rule wp_mono [OF wp_fenced_rounds [OF g]], goal_cases)
        case (1 a w')
        obtain i ck env where a: "a = (i, ck, env)" by (metis prod_cases3)
        from 1(1) a obtain img' where R: "rejoins out ?w2 w'" "i = word_of_nat (length ds)" "w_files w' out = Some img'"
            "fenced_replay cd cb blake3 cursor (view (w_store w)) (map dd_key ds) (fc_base_seq cursor, fc_base_envelope_checksum cursor, ck0, img) =
              Some (fc_base_seq cursor + i, env, ck, img')" by auto
        have "list_all (prefix (delta_dir pre db)) (map dd_key ds)" using \<open>\<forall>d\<in>set ds. _ \<and> _\<close> by (simp add: list_all_iff)
        then show ?case
          unfolding a prod.case wp_return using st [OF R(1)] R(2,3,4) Inr
          by (intro conjI exI [of _ "map dd_key ds"] exI [of _ ck0] exI [of _ img']) simp_all
      next
        case (2 e w')
        then show ?case using st [of w'] by (auto simp del: fenced_replay.simps) (metis prod_cases4)
      qed
    next
      case (2 e s')
      then show ?case using w1 by (intro failed) (simp add: rejoins_def)
    qed
    then show ?thesis using Inr w1 by (simp add: wp_simps)
  qed
next
  case (2 m w1 x)
  then show ?case using rejoins_write [OF 2] by (simp add: rejoins_def fenced_error_def)
qed

end

text \<open>
  Claim C10: a follower applies nothing but the fenced chain.  On every backend and under every fault a
  reconstruction changes no object and no file but its output.  When it succeeds, the output is the
  base image with stored envelopes applied in order: consecutive sequence numbers from the base on, in
  the envelope and in the key, the cursor's epoch and writer, each naming the hash of the envelope
  before it; head, hash and checksum returned are those of the last one.  When a fence rejects an
  envelope, the output holds the base with an accepted part of that chain applied, and nothing of the
  rejected envelope.
\<close>

theorem fenced_follower_sound:
  assumes "storage_backend b view" "w_files w base = Some img"
    and "reconstruct_fenced_follower b cd cb blake3 sha256 pre db cursor base out w = (w', r)"
  shows "view (w_store w') = view (w_store w) \<and> staged_only out w w' \<and>
    (case r of
       Inr res \<Rightarrow> \<exists>ks ck0 img'. compute_checksum_from_file sha256 (Some img) = Inr ck0 \<and> list_all (prefix (delta_dir pre db)) ks \<and>
         fr_applied res = word_of_nat (length ks) \<and> w_files w' out = Some img' \<and>
         fenced_replay cd cb blake3 cursor (view (w_store w)) ks (fc_base_seq cursor, fc_base_envelope_checksum cursor, ck0, img) =
           Some (fr_head_seq res, fr_head_envelope_checksum res, fr_db_checksum res, img')
     | Inl e \<Rightarrow> fenced_error e \<longrightarrow> (\<exists>ks ck0 n env ck img'. w_files w' out = Some img' \<and>
         fenced_replay cd cb blake3 cursor (view (w_store w)) ks (fc_base_seq cursor, fc_base_envelope_checksum cursor, ck0, img) = Some (n, env, ck, img')))"
  using wp_run [OF storage_backend.wp_reconstruct [OF assms(1,2)] assms(3)] by (cases r) simp_all

section \<open>The writer\<close>

context storage_backend
begin

lemma wp_publish_delta_envelope:
  assumes "\<And>bs s'. delta_encode cb p = Inr bs \<Longrightarrow> grown (delta_envelope_key pre db (dp_seq p)) s s' \<Longrightarrow>
      (durable_backend b view \<Longrightarrow> view s' (delta_envelope_key pre db (dp_seq p)) = Some bs) \<Longrightarrow> Q (delta_checksum blake3 bs) s'"
    and "\<And>e s'. grown (delta_envelope_key pre db (dp_seq p)) s s' \<Longrightarrow> E e s'"
  shows "wp (publish_delta_envelope b cb blake3 pre db p) Q E s"
proof (cases "delta_encode cb p")
  case (Inl e)
  then show ?thesis using assms(2) by (simp add: publish_delta_envelope_def wp_simps)
next
  case (Inr bs)
  then show ?thesis
    by (simp add: publish_delta_envelope_def wp_simps wp_return_fun) (rule wp_put_changeset_if_absent, use assms in auto)
qed

end

lemma fenced_replay_extend:
  assumes cbor: "envelope_format cb"
    and head: "fenced_replay cd cb blake3 cursor objects ks x = Some (n, env, ck, db)"
    and p: "dp_seq p = n + 1" "dp_epoch p = fc_epoch cursor" "dp_writer_id p = fc_writer_id cursor" "dp_prev_checksum p = env"
    and stored: "delta_encode cb p = Inr bs" "objects (delta_envelope_key pre name (n + 1)) = Some bs"
    and ap: "apply_changeset_to_db cd (dp_ltx_payload p) (Some db) ck = Inr (db', res)"
  shows "fenced_replay cd cb blake3 cursor objects (ks @ [delta_envelope_key pre name (n + 1)]) x = Some (n + 1, delta_checksum blake3 bs, ar_checksum res, db')"
  using assms envelope_format.envelope_decodes [OF cbor stored(1)] by (simp add: fenced_replay_append parse_delta_envelope_key)

text \<open>
  Claim C25: a fenced sync extends the follower's chain.  If replaying the published envelopes on the base
  yields the pages \<open>L\<close>, the writer's sequence number and checksum, and the envelope hash the caller
  passes, then a sync that reads new committed frames and succeeds publishes one more envelope, after
  which replaying yields \<open>L\<close> overlaid with the page versions of the batch at the committed size, the
  writer's new sequence number and checksum, and the hash returned for the next call.
\<close>

theorem fenced_sync_extends:
  assumes d: "durable_backend b view" and cd: "hadbp_codec cd" and cbor: "envelope_format cb" and hm: "iterates hm"
    and header: "read_header (vs_header v) = Inr (Some header)"
    and noroll: "\<not> size_rollover v (si_sync z)" "\<not> salt_rollover header (si_sync z)"
    and read: "batch_read v header (si_sync z) = Inr r" "hm (pm_map r) \<noteq> []"
    and ck: "ss_db_checksum (si_sync z) = Some ck"
    and head: "fenced_replay cd cb blake3 cursor (view (store_of z)) ks x = Some (ss_current_seq (si_sync z), fp_prev_envelope_checksum params, ck, concat L)"
      "page_list (unat (wh_page_size header)) L"
    and fence: "fp_epoch params = fc_epoch cursor" "fp_writer_id params = fc_writer_id cursor"
    and run: "sync_wal_fenced_delta b cd cb blake3 sha256 hm pre params v z = (z', Inr published)"
  shows "\<exists>res L' ck'. published = Some res \<and> dr_seq res = ss_current_seq (si_sync z) + 1 \<and> dr_frame_count res = word_of_nat (pm_frames r) \<and>
      fenced_replay cd cb blake3 cursor (view (store_of z')) (ks @ [delta_envelope_key pre (ss_name (si_sync z)) (dr_seq res)]) x =
        Some (ss_current_seq (si_sync z'), dr_envelope_checksum res, ck', concat L') \<and>
      page_list (unat (wh_page_size header)) L' \<and> overlaid (unat (wh_page_size header)) r L L' \<and>
      ss_current_seq (si_sync z') = dr_seq res \<and> ss_db_checksum (si_sync z') = Some ck' \<and> ss_wal_offset (si_sync z') = pm_offset r"
    (is "?concl published z'")
proof -
  let ?st = "si_sync z"
  have sb: "storage_backend b view" using d by (rule durable_backend.axioms(1))
  have fin: "finite (dom (pm_map r))" using read(1) by (auto simp: batch_read_def Let_def intro: page_map_read_finite)
  let ?batch = "batch_of v header r ?st" and ?z1 = "z\<lparr>si_sync := batch_state v header r ?st\<rparr>"
  let ?pay = "\<lambda>p. \<lparr>dp_seq = pc_seq p, dp_epoch = fp_epoch params, dp_writer_id = fp_writer_id params,
      dp_prev_checksum = fp_prev_envelope_checksum params, dp_end_page_count = ucast (wb_final_db_size ?batch), dp_ltx_payload = pc_bytes p\<rparr>"
  have pub: "wp (publish_delta_envelope b cb blake3 pre (ss_name ?st) (?pay p))
      (\<lambda>env s'. ?concl (Some \<lparr>dr_seq = pc_seq p, dr_envelope_checksum = env, dr_end_page_count = ucast (wb_final_db_size ?batch),
           dr_frame_count = word_of_nat (wb_frame_count ?batch)\<rparr>)
         (z\<lparr>si_world := (si_world z)\<lparr>w_store := s'\<rparr>, si_sync := advance_cursor ?batch p (batch_state v header r ?st)\<rparr>)) (\<lambda>_ _. True) (store_of z)"
    if p: "encodes cd sha256 v header ?batch (hm (pm_map r)) (si_sync ?z1) p" for p
  proof (rule storage_backend.wp_publish_delta_envelope [OF sb], goal_cases)
    case (1 bs s')
    have n: "pc_seq p = ss_current_seq ?st + 1" using p by (simp add: encodes_def)
    obtain L' res where L': "apply_changeset_to_db cd (pc_bytes p) (Some (concat L)) ck = Inr (concat L', res)" "ar_checksum res = pc_post_checksum p"
        "page_list (unat (wh_page_size header)) L'" "overlaid (unat (wh_page_size header)) r L L'"
      using hadbp_codec.batch_applies [OF cd p _ hm fin head(2)] ck by auto
    have "fenced_replay cd cb blake3 cursor (view s') ks x = Some (ss_current_seq ?st, fp_prev_envelope_checksum params, ck, concat L)"
      using head(1) by (rule fenced_replay_mono) (use storage_backend.evolves_keeps [OF sb 1(2)] in simp)
    from fenced_replay_extend [OF cbor this _ _ _ _ 1(1) _, of pre "ss_name ?st"] 1(3) d fence n L'(1)
    have "fenced_replay cd cb blake3 cursor (view s') (ks @ [delta_envelope_key pre (ss_name ?st) (pc_seq p)]) x =
        Some (pc_seq p, delta_checksum blake3 bs, pc_post_checksum p, concat L')"
      using L'(2) by simp
    then show ?case using L'(3,4) n by (auto simp: advance_cursor_def batch_of_def simp del: fenced_replay.simps)
  qed simp
  have "wp (sync_wal_fenced_delta b cd cb blake3 sha256 hm pre params v) ?concl (\<lambda>_ _. True) z"
    unfolding sync_wal_fenced_delta_def
    apply (simp only: wp_and_then wp_from_result header sum.case id_apply map_sum.simps option.case wp_sync_state_of)
    apply (rule wp_read_next_wal_batch)
    subgoal for r'
      using read noroll pub
      by (auto simp: wp_simps batch_of_def Let_def simp del: fenced_replay.simps intro!: wp_prepare_changeset)
    by simp
  from wp_run [OF this run] show ?thesis by simp
qed

section \<open>A follower that can succeed does\<close>

definition delta_at :: "cbor \<Rightarrow> (bytes \<Rightarrow> bytes) \<Rightarrow> (string \<rightharpoonup> bytes) \<Rightarrow> string \<Rightarrow> discovered_delta" where
  "delta_at cb blake3 objects k =
     \<lparr>dd_key = k, dd_seq = the (parse_delta_envelope_seq k), dd_payload = projr (delta_decode cb (the (objects k))),
      dd_envelope_checksum = delta_checksum blake3 (the (objects k))\<rparr>"

definition pending_delta :: "u64 \<Rightarrow> string \<Rightarrow> bool" where
  "pending_delta after_seq k \<longleftrightarrow> (case parse_delta_envelope_seq k of None \<Rightarrow> False | Some n \<Rightarrow> after_seq < n)"

definition readable :: "cbor \<Rightarrow> (string \<rightharpoonup> bytes) \<Rightarrow> string \<Rightarrow> bool" where
  "readable cb objects k \<longleftrightarrow>
     (\<exists>bs p. objects k = Some bs \<and> delta_decode cb bs = Inr p \<and> parse_delta_envelope_seq k = Some (dp_seq p) \<and> delta_encode cb p = Inr bs)"

context storage_backend
begin

lemma collect_answering:
  assumes get: "\<And>k s. snd (b_get b k s) = Inr (view s k)"
    and keys: "\<And>k. k \<in> set keys \<Longrightarrow> pending_delta a k \<Longrightarrow> readable cb (view s) k"
  shows "\<exists>s'. view s' = view s \<and> fold_actions (collect_delta b cb blake3 a) keys out s =
    (s', Inr (out @ map (delta_at cb blake3 (view s)) (filter (pending_delta a) keys)))"
  using keys
proof (induction keys arbitrary: s out)
  case Nil
  then show ?case by (simp add: return_def)
next
  case (Cons k keys)
  show ?case
  proof (cases "pending_delta a k")
    case False
    then have "collect_delta b cb blake3 a k out = return out"
      by (auto simp: pending_delta_def collect_delta_def not_less split: option.splits)
    with False Cons show ?thesis by (simp add: and_then_def return_def)
  next
    case True
    obtain bs p where k: "view s k = Some bs" "delta_decode cb bs = Inr p" "parse_delta_envelope_seq k = Some (dp_seq p)"
      using Cons.prems [OF _ True] by (auto simp: readable_def)
    obtain s1 r where g: "b_get b k s = (s1, r)" by fastforce
    then have r: "r = Inr (Some bs)" "view s1 = view s" using get [of k s] storage_backend_axioms k(1) by (auto dest: storage_backend.get)
    have "collect_delta b cb blake3 a k out s = (s1, Inr (out @ [delta_at cb blake3 (view s) k]))"
      using True k g r by (simp add: collect_delta_def pending_delta_def and_then_def storage_op_def map_error_def return_def delta_at_def leD)
    moreover obtain s' where "view s' = view s1" "fold_actions (collect_delta b cb blake3 a) keys (out @ [delta_at cb blake3 (view s) k]) s1 =
        (s', Inr ((out @ [delta_at cb blake3 (view s) k]) @ map (delta_at cb blake3 (view s1)) (filter (pending_delta a) keys)))"
      using Cons.IH [of s1 "out @ [delta_at cb blake3 (view s) k]"] Cons.prems r(2) by auto
    ultimately show ?thesis using True r(2) by (simp add: and_then_def)
  qed
qed

end

lemma fenced_replay_keys:
  assumes "fenced_replay cd cb blake3 cursor objects ks (n, env, ck, db) = Some y"
  shows "map parse_delta_envelope_seq ks = map (\<lambda>i. Some (n + word_of_nat (Suc i))) [0..<length ks]"
  using assms
proof (induction ks arbitrary: n env ck db)
  case (Cons k ks)
  then obtain env' ck' db' where "fenced_replay cd cb blake3 cursor objects ks (n + 1, env', ck', db') = Some y" "parse_delta_envelope_seq k = Some (n + 1)"
    by (auto split: option.splits sum.splits if_splits)
  from this(2) Cons.IH [OF this(1)] show ?case
    by (simp add: upt_conv_Cons map_Suc_upt [symmetric] comp_def add.assoc del: upt_Suc)
qed simp

lemma fenced_replay_head:
  "fenced_replay cd cb blake3 cursor objects ks x = Some y \<Longrightarrow> fst y = fst x + word_of_nat (length ks)"
  by (induction cd cb blake3 cursor objects ks x rule: fenced_replay.induct) (auto split: option.splits sum.splits if_splits)

lemma rounds_answering:
  assumes "fenced_replay cd cb blake3 cursor objects ks (fc_base_seq cursor + i, env, ck, db) = Some (n, env', ck', db')"
    and "\<And>k. k \<in> set ks \<Longrightarrow> readable cb objects k" "w_faults w = []" "w_files w out = Some db"
  shows "fold_actions (apply_fenced cd cb blake3 cursor out) (map (delta_at cb blake3 objects) ks) (i, ck, env) w =
    (w\<lparr>w_files := (w_files w)(out \<mapsto> db')\<rparr>, Inr (i + word_of_nat (length ks), ck', env'))"
  using assms
proof (induction ks arbitrary: i env ck db w)
  case Nil
  then show ?case by (simp add: return_def fun_upd_idem)
next
  case (Cons k ks)
  obtain bs p where k: "objects k = Some bs" "delta_decode cb bs = Inr p" "parse_delta_envelope_seq k = Some (dp_seq p)" "delta_encode cb p = Inr bs"
    using Cons.prems(2) [of k] by (auto simp: readable_def)
  with Cons.prems(1) obtain f res where p: "dp_seq p = fc_base_seq cursor + i + 1" "dp_epoch p = fc_epoch cursor" "dp_writer_id p = fc_writer_id cursor"
      "dp_prev_checksum p = env" "apply_changeset_to_db cd (dp_ltx_payload p) (Some db) ck = Inr (f, res)"
    and rest: "fenced_replay cd cb blake3 cursor objects ks (fc_base_seq cursor + (i + 1), delta_checksum blake3 bs, ar_checksum res, f) = Some (n, env', ck', db')"
    by (auto simp: add.assoc split: sum.splits if_splits)
  have "apply_fenced cd cb blake3 cursor out (delta_at cb blake3 objects k) (i, ck, env) w =
      (w\<lparr>w_files := (w_files w)(out \<mapsto> f)\<rparr>, Inr (i + 1, ar_checksum res, delta_checksum blake3 bs))"
    using k p Cons.prems(3,4)
    by (simp add: apply_fenced_def delta_at_def apply_changeset_to_path_def file_at_def and_then_def write_file_def next_fault_def return_def)
  moreover have "fold_actions (apply_fenced cd cb blake3 cursor out) (map (delta_at cb blake3 objects) ks) (i + 1, ar_checksum res, delta_checksum blake3 bs)
      (w\<lparr>w_files := (w_files w)(out \<mapsto> f)\<rparr>) = (w\<lparr>w_files := (w_files w)(out \<mapsto> db')\<rparr>, Inr (i + 1 + word_of_nat (length ks), ck', env'))"
    using Cons.IH [OF rest, of "w\<lparr>w_files := (w_files w)(out \<mapsto> f)\<rparr>"] Cons.prems(2,3)
    by (simp add: fun_upd_def cong: if_cong)
  ultimately show ?case by (simp add: and_then_def add.assoc fun_upd_def)
qed

text \<open>
  Claim C26: a follower that can succeed does.  If the backend answers reads, the listing shows each
  envelope behind the base once, those envelopes are encodings as the writer stores them, the fenced
  chain over them replays and the disk has no fault, then the reconstruction returns the head of that
  chain and the output file is the replayed database.
\<close>

theorem fenced_follower_complete:
  assumes sb: "storage_backend b view" and get: "\<forall>k s. snd (b_get b k s) = Inr (view s k)"
    and list: "snd (b_list b (delta_dir pre db) (after_marker pre db (fc_base_seq cursor)) (w_store w)) = Inr keys"
      "mset (filter (pending_delta (fc_base_seq cursor)) keys) = mset ks"
    and stored: "\<forall>k\<in>set ks. readable cb (view (w_store w)) k" "unat (fc_base_seq cursor) + length ks < 2 ^ 64"
    and base: "w_files w base = Some img" "compute_checksum_from_file sha256 (Some img) = Inr ck0" "w_faults w = []"
    and replay: "fenced_replay cd cb blake3 cursor (view (w_store w)) ks (fc_base_seq cursor, fc_base_envelope_checksum cursor, ck0, img) = Some (n, env, ck, img')"
  shows "\<exists>w'. reconstruct_fenced_follower b cd cb blake3 sha256 pre db cursor base out w =
      (w', Inr \<lparr>fr_applied = word_of_nat (length ks), fr_head_seq = n, fr_head_envelope_checksum = env, fr_db_checksum = ck\<rparr>) \<and>
    w_files w' = (w_files w)(out \<mapsto> img') \<and> view (w_store w') = view (w_store w)"
proof -
  let ?v = "view (w_store w)" and ?b = "fc_base_seq cursor"
  obtain s1 where l: "b_list b (delta_dir pre db) (after_marker pre db ?b) (w_store w) = (s1, Inr keys)" "view s1 = ?v"
    using list(1) storage_backend.list [OF sb] by (metis prod.collapse)
  have "readable cb (view s1) k" if "k \<in> set keys" "pending_delta ?b k" for k
    using that stored(1) mset_eq_setD [OF list(2)] l(2) by auto
  from storage_backend.collect_answering [OF sb get [rule_format] this, where keys = keys and out = "[]"] l(2)
  obtain s2 where s2: "view s2 = ?v" "fold_actions (collect_delta b cb blake3 ?b) keys [] s1 =
      (s2, Inr (map (delta_at cb blake3 ?v) (filter (pending_delta ?b) keys)))" by auto
  have seqs: "map (\<lambda>k. dd_seq (delta_at cb blake3 ?v k)) ks = map (\<lambda>i. ?b + word_of_nat (Suc i)) [0..<length ks]"
    using arg_cong [OF fenced_replay_keys [OF replay], of "map the"] by (simp add: delta_at_def comp_def)
  have un: "unat (?b + word_of_nat (Suc i)) = unat ?b + Suc i" if "i < length ks" for i
  proof -
    have "unat ?b + Suc i < 2 ^ 64" using that stored(2) by simp
    then show ?thesis by (simp add: unat_word_ariths unat_of_nat del: of_nat_Suc)
  qed
  have inj: "x = y" if "x < length ks" "y < length ks" "?b + word_of_nat (Suc x) = ?b + word_of_nat (Suc y)" for x y
    using un [OF that(1)] un [OF that(2)] unfolding that(3) by linarith
  have mono: "sorted (map dd_seq (map (delta_at cb blake3 ?v) ks))"
    unfolding map_map comp_def seqs sorted_iff_nth_mono by (simp add: word_le_nat_alt un del: of_nat_Suc)
  have dist: "distinct (map dd_seq (map (delta_at cb blake3 ?v) ks))"
    unfolding map_map comp_def seqs distinct_map by (auto intro!: inj_onI intro: inj simp del: of_nat_Suc add_left_cancel)
  have "sort_key dd_seq (map (delta_at cb blake3 ?v) (filter (pending_delta ?b) keys)) = map (delta_at cb blake3 ?v) ks"
  proof (rule sort_key_inj_key_eq)
    show "mset (map (delta_at cb blake3 ?v) (filter (pending_delta ?b) keys)) = mset (map (delta_at cb blake3 ?v) ks)"
      using list(2) by (metis mset_map)
    show "inj_on dd_seq (set (map (delta_at cb blake3 ?v) (filter (pending_delta ?b) keys)))"
      using dist mset_eq_setD [OF list(2)] unfolding distinct_map set_map by metis
  qed (rule mono)
  then have "list_delta_envelopes_after b cb blake3 pre db ?b (w_store w) = (s2, Inr (map (delta_at cb blake3 ?v) ks))"
    using l s2 by (simp add: list_delta_envelopes_after_def storage_op_def map_error_def and_then_def return_def)
  moreover let ?w2 = "w\<lparr>w_files := (w_files w)(out \<mapsto> img), w_store := s2\<rparr>"
  have "fold_actions (apply_fenced cd cb blake3 cursor out) (map (delta_at cb blake3 ?v) ks) (0, ck0, fc_base_envelope_checksum cursor) ?w2 =
      (?w2\<lparr>w_files := (w_files ?w2)(out \<mapsto> img')\<rparr>, Inr (word_of_nat (length ks), ck, env))"
    using rounds_answering [of cd cb blake3 cursor ?v ks 0 _ _ _ _ _ _ _ ?w2 out] replay stored(1) base(3) by simp
  moreover have "n = ?b + word_of_nat (length ks)"
    using fenced_replay_head [OF replay] by simp
  ultimately show ?thesis
    using base
    by (simp add: reconstruct_fenced_follower_def copy_file_def file_at_def and_then_def map_error_def write_file_def next_fault_def from_result_def
        return_def on_world_def on_store_with_def s2(1))
qed

section \<open>Witnesses\<close>

definition demo_cursor :: fenced_follower_cursor where
  "demo_cursor = \<lparr>fc_base_seq = 1, fc_epoch = 7, fc_writer_id = ''w'', fc_base_envelope_checksum = []\<rparr>"

definition demo_params :: fenced_delta_sync_params where
  "demo_params = \<lparr>fp_epoch = 7, fp_writer_id = ''w'', fp_prev_envelope_checksum = []\<rparr>"

lemma demo_cursor_fields [simp]:
  "fc_base_seq demo_cursor = 1" "fc_epoch demo_cursor = 7" "fc_writer_id demo_cursor = ''w''" "fc_base_envelope_checksum demo_cursor = []"
  "fp_epoch demo_params = 7" "fp_writer_id demo_params = ''w''" "fp_prev_envelope_checksum demo_params = []"
  by (simp_all add: demo_cursor_def demo_params_def)

lemma demo_envelope:
  "dp_writer_id p = ''w'' \<Longrightarrow> dp_prev_checksum p = [] \<Longrightarrow> \<exists>bs. delta_encode plain_cbor p = Inr bs"
  by (simp add: delta_encode_def plain_cbor_def plain_into_writer_def)

lemma demo_fenced_runs:
  "\<exists>z' r. sync_wal_fenced_delta alist_backend demo_wire plain_cbor (\<lambda>x. x) (\<lambda>x. x) demo_iter [] demo_params demo_wal_sight demo_site = (z', Inr r)"
proof (rule demo_reads)
  fix hdr p
  let ?z1 = "demo_site\<lparr>si_sync := batch_state demo_wal_sight hdr page_wal_batch demo_sync_state\<rparr>"
  let ?b = "batch_of demo_wal_sight hdr page_wal_batch demo_sync_state"
  assume h: "read_header (vs_header demo_wal_sight) = Inr (Some hdr)" and read: "read_next_wal_batch demo_wal_sight hdr demo_site = (?z1, Inr ?b)"
    and b: "\<not> wb_rollover_detected ?b" "demo_iter (wb_page_map ?b) = [(1, zeros 512)]"
    and p: "prepare_changeset demo_wire (\<lambda>x. x) demo_wal_sight hdr ?b [(1, zeros 512)] ?z1 = (?z1, Inr p)" "pc_seq p = 2"
  let ?pay = "\<lparr>dp_seq = 2, dp_epoch = 7, dp_writer_id = ''w'', dp_prev_checksum = [], dp_end_page_count = ucast (wb_final_db_size ?b), dp_ltx_payload = pc_bytes p\<rparr>"
  obtain bs where bs: "delta_encode plain_cbor ?pay = Inr bs" using demo_envelope [of ?pay] by auto
  have "map_of (store_of demo_site) (delta_envelope_key [] ''app'' 2) = None"
    by (simp add: demo_site_def delta_envelope_key_def build_state_changeset_key_def build_lineage_changeset_key_def hex4_generations
        GENERATION_LIVE_def GENERATION_SNAPSHOT_def)
  then have "put_changeset_if_absent alist_backend (delta_envelope_key [] ''app'' 2) bs (store_of demo_site) =
      (AList.update (delta_envelope_key [] ''app'' 2) bs (store_of demo_site), Inr ())"
    by (simp add: put_changeset_if_absent_def storage_op_def map_error_def and_then_def return_def alist_backend_def)
  then show ?thesis
    using h read b p bs
    by (simp add: sync_wal_fenced_delta_def and_then_def from_result_def return_def sync_state_of_def Let_def publish_delta_envelope_def
        on_site_store_def on_world_def on_store_with_def in_world_def update_sync_def)
qed

theorem fenced_sync_extends_witness:
  "\<exists>z' res L'. sync_wal_fenced_delta alist_backend demo_wire plain_cbor (\<lambda>x. x) (\<lambda>x. x) demo_iter [] demo_params demo_wal_sight demo_site = (z', Inr (Some res)) \<and>
     dr_seq res = 2 \<and> overlaid 512 page_wal_batch [zeros 512] L' \<and>
     (\<exists>env ck. fenced_replay demo_wire plain_cbor (\<lambda>x. x) demo_cursor (map_of (store_of z')) [delta_envelope_key [] ''app'' 2]
        (1, [], finalize (\<lambda>x. x) (zeros 512), zeros 512) = Some (2, env, ck, concat L'))"
proof (rule demo_reads)
  fix hdr p
  assume h: "read_header (vs_header demo_wal_sight) = Inr (Some hdr)" "wh_page_size hdr = 512"
    and B: "batch_read demo_wal_sight hdr demo_sync_state = Inr page_wal_batch" "\<not> size_rollover demo_wal_sight demo_sync_state"
      "\<not> salt_rollover hdr demo_sync_state"
  obtain z' r where run: "sync_wal_fenced_delta alist_backend demo_wire plain_cbor (\<lambda>x. x) (\<lambda>x. x) demo_iter [] demo_params demo_wal_sight demo_site = (z', Inr r)"
    using demo_fenced_runs by blast
  have pages: "demo_iter (pm_map page_wal_batch) \<noteq> []" using demo_iter_one by (simp add: page_wal_batch_def)
  have pl: "page_list (unat (wh_page_size hdr)) [zeros 512]" by (simp add: h(2) page_list_def zeros_def)
  have head: "fenced_replay demo_wire plain_cbor (\<lambda>x. x) demo_cursor (map_of (store_of demo_site)) [] (1, [], finalize (\<lambda>x. x) (zeros 512), zeros 512) =
      Some (ss_current_seq (si_sync demo_site), fp_prev_envelope_checksum demo_params, finalize (\<lambda>x. x) (zeros 512), concat [zeros 512])"
    by simp
  from fenced_sync_extends [OF alist_durable.durable_backend_axioms demo_codec_ok plain.envelope_format_axioms demo_iterates h(1) _ _ _ pages _ head pl _ _ run] B h(2)
  show ?thesis using run by (fastforce simp del: fenced_replay.simps(2))
qed

definition demo_follower :: "bytes \<Rightarrow> (string \<times> bytes) list world" where
  "demo_follower env = \<lparr>w_store = [(delta_envelope_key [] ''app'' 2, env)], w_files = [''base'' \<mapsto> zeros 512], w_faults = []\<rparr>"

lemma demo_follower_fields [simp]:
  "w_files (demo_follower env) = [''base'' \<mapsto> zeros 512]" "w_faults (demo_follower env) = []"
  "w_store (demo_follower env) = [(delta_envelope_key [] ''app'' 2, env)]"
  by (simp_all add: demo_follower_def)

lemma demo_published_envelope:
  "\<exists>env ck img. readable plain_cbor [delta_envelope_key [] ''app'' 2 \<mapsto> env] (delta_envelope_key [] ''app'' 2) \<and>
     fenced_replay demo_wire plain_cbor (\<lambda>x. x) demo_cursor [delta_envelope_key [] ''app'' 2 \<mapsto> env] [delta_envelope_key [] ''app'' 2]
       (1, [], finalize (\<lambda>x. x) (zeros 512), zeros 512) = Some (2, env, ck, img)"
proof -
  let ?ck = "finalize (\<lambda>x. x) (zeros 512)"
  obtain bs c where enc: "encode_wal_changes_with_end_page_count demo_wire [(1, zeros 512)] 512 2 ?ck 1 = Inr (bs, c)"
    using demo_changes_encode by blast
  have "page_list (unat (512 :: u32)) [zeros 512]" by (simp add: page_list_def zeros_def)
  from hadbp_codec.incremental_applies [OF demo_codec_ok enc _ this]
  obtain img res where ap: "apply_changeset_to_db demo_wire bs (Some (zeros 512)) ?ck = Inr (img, res)" by auto
  let ?p = "\<lparr>dp_seq = 2, dp_epoch = 7, dp_writer_id = ''w'', dp_prev_checksum = [], dp_end_page_count = 1, dp_ltx_payload = bs\<rparr>"
  obtain env where env: "delta_encode plain_cbor ?p = Inr env" using demo_envelope [of ?p] by auto
  have dec: "delta_decode plain_cbor env = Inr ?p" using env by (rule plain.envelope_decodes)
  have "readable plain_cbor [delta_envelope_key [] ''app'' 2 \<mapsto> env] (delta_envelope_key [] ''app'' 2)"
    using env dec by (simp add: readable_def parse_delta_envelope_key)
  moreover have "fenced_replay demo_wire plain_cbor (\<lambda>x. x) demo_cursor [delta_envelope_key [] ''app'' 2 \<mapsto> env] [delta_envelope_key [] ''app'' 2]
       (1, [], ?ck, zeros 512) = Some (2, env, ar_checksum res, img)"
    using dec ap by (simp add: parse_delta_envelope_key delta_checksum_def)
  ultimately show ?thesis by blast
qed

theorem fenced_follower_complete_witness:
  "\<exists>env ck img w'. reconstruct_fenced_follower alist_backend demo_wire plain_cbor (\<lambda>x. x) (\<lambda>x. x) [] ''app'' demo_cursor ''base'' ''out'' (demo_follower env) =
      (w', Inr \<lparr>fr_applied = 1, fr_head_seq = 2, fr_head_envelope_checksum = env, fr_db_checksum = ck\<rparr>) \<and>
    w_files w' ''out'' = Some img"
proof -
  let ?k = "delta_envelope_key [] ''app'' 2"
  obtain env ck img where R: "readable plain_cbor [?k \<mapsto> env] ?k"
      "fenced_replay demo_wire plain_cbor (\<lambda>x. x) demo_cursor [?k \<mapsto> env] [?k] (1, [], finalize (\<lambda>x. x) (zeros 512), zeros 512) = Some (2, env, ck, img)"
    using demo_published_envelope by blast
  have view: "map_of (w_store (demo_follower env)) = [?k \<mapsto> env]" by (simp add: fun_eq_iff)
  have marker: "after_marker [] ''app'' 1 = Some (delta_envelope_key [] ''app'' 1)"
    by (simp add: after_marker_def delta_dir_def delta_envelope_key_def)
  have dir: "prefix (delta_dir [] ''app'') ?k" by (simp add: delta_dir_def delta_envelope_key_def)
  have list: "snd (b_list alist_backend (delta_dir [] ''app'') (after_marker [] ''app'' (fc_base_seq demo_cursor)) (w_store (demo_follower env))) = Inr [?k]"
    using dir by (simp add: alist_backend_def marker delta_envelope_key_less)
  have get: "\<forall>k s. snd (b_get alist_backend k s) = Inr (map_of s k)" by (simp add: alist_backend_def)
  have pend: "mset (filter (pending_delta (fc_base_seq demo_cursor)) [?k]) = mset [?k]"
    by (simp add: pending_delta_def parse_delta_envelope_key)
  have read: "\<forall>k\<in>set [?k]. readable plain_cbor (map_of (w_store (demo_follower env))) k" using R(1) unfolding view by simp
  have ck: "compute_checksum_from_file (\<lambda>x. x) (Some (zeros 512)) = Inr (finalize (\<lambda>x. x) (zeros 512))"
    by (simp add: compute_checksum_from_file_def feed_blocks_all)
  have img: "w_files (demo_follower env) ''base'' = Some (zeros 512)" and quiet: "w_faults (demo_follower env) = []"
    and few: "unat (fc_base_seq demo_cursor) + length [?k] < 2 ^ 64"
    by simp_all
  from R(2) have "fenced_replay demo_wire plain_cbor (\<lambda>x. x) demo_cursor (map_of (w_store (demo_follower env))) [?k]
      (fc_base_seq demo_cursor, fc_base_envelope_checksum demo_cursor, finalize (\<lambda>x. x) (zeros 512), zeros 512) = Some (2, env, ck, img)"
    unfolding view by simp
  from fenced_follower_complete [OF alist.storage_backend_axioms get list pend read few img ck quiet this, of "''out''"]
  show ?thesis by (metis One_nat_def fun_upd_same length_Cons list.size(3) of_nat_1)
qed

theorem fenced_follower_sound_witness:
  "\<exists>w' r. reconstruct_fenced_follower alist_backend demo_wire plain_cbor (\<lambda>x. x) (\<lambda>x. x) [] ''app'' demo_cursor ''base'' ''out'' (demo_follower [1, 2, 3]) = (w', r) \<and>
     map_of (w_store w') = map_of (w_store (demo_follower [1, 2, 3])) \<and> staged_only ''out'' (demo_follower [1, 2, 3]) w'"
proof -
  obtain w' r where run: "reconstruct_fenced_follower alist_backend demo_wire plain_cbor (\<lambda>x. x) (\<lambda>x. x) [] ''app'' demo_cursor ''base'' ''out'' (demo_follower [1, 2, 3]) = (w', r)"
    by fastforce
  have "w_files (demo_follower [1, 2, 3]) ''base'' = Some (zeros 512)" by simp
  from fenced_follower_sound [OF alist.storage_backend_axioms this run] show ?thesis using run by blast
qed

end
