(* ===== verification/Replication.thy ===== *)
theory Replication
  imports PublishContent
begin

text \<open>
  The replication loops and the resumption of a stream after a restore (\<^verbatim>\<open>sync.rs\<close>).  A loop waits for
  timers and for its cancellation; here it consumes a list of events, each with what its call sees.
  An exhausted list leaves the loop running, so every prefix of an execution is covered.
\<close>

section \<open>Configuration\<close>

datatype snapshot_ownership = Walrust | External

definition is_external :: "snapshot_ownership \<Rightarrow> bool" where
  "is_external o' = (case o' of External \<Rightarrow> True | Walrust \<Rightarrow> False)"

record replication_config =
  rc_sync_interval_ms :: nat
  rc_snapshot_interval_ms :: nat
  rc_db_name :: "string option"
  rc_autonomous_snapshots :: bool
  rc_snapshot_ownership :: snapshot_ownership
  rc_observed :: bool
  rc_compaction :: compaction_settings

definition replication_config_default :: replication_config where
  "replication_config_default =
     \<lparr>rc_sync_interval_ms = 1000, rc_snapshot_interval_ms = 3600000, rc_db_name = None, rc_autonomous_snapshots = True,
      rc_snapshot_ownership = Walrust, rc_observed = False, rc_compaction = compaction_settings_default\<rparr>"

definition validate_config :: "replication_config \<Rightarrow> failure + unit" where
  "validate_config c =
     (if is_external (rc_snapshot_ownership c) \<and> rc_autonomous_snapshots c
      then Inl [Message ''external snapshot ownership and autonomous snapshots are mutually exclusive''] else Inr ())"

section \<open>Loops\<close>

datatype replication_event =
    CancelChanged bool wal_sight snapshot_sight
  | SyncTick wal_sight snapshot_sight
  | SnapshotTick snapshot_sight

datatype loop_status = Running | Stopped

fun replication_loop ::
    "(('s, failure, unit) action \<Rightarrow> ('s, failure, unit) action) \<Rightarrow> 's backend \<Rightarrow> 's hadb \<Rightarrow> json \<Rightarrow> codec \<Rightarrow> (bytes \<Rightarrow> bytes) \<Rightarrow>
      ((u32 \<rightharpoonup> bytes) \<Rightarrow> (u32 \<times> bytes) list) \<Rightarrow> string \<Rightarrow> replication_event list \<Rightarrow> ('s site, failure, loop_status) action" where
  "replication_loop retry b h j cd sha256 hm pre [] = return Running"
| "replication_loop retry b h j cd sha256 hm pre (CancelChanged cancelled v sv # es) =
     (if cancelled
      then and_then (map_error (\<lambda>e. [Message ''Final sync failed'']) (sync_wal b h j cd sha256 hm pre v sv)) (\<lambda>_. return Stopped)
      else replication_loop retry b h j cd sha256 hm pre es)"
| "replication_loop retry b h j cd sha256 hm pre (SyncTick v sv # es) =
     and_then (map_error (\<lambda>e. [Message ''WAL sync failed'']) (sync_wal b h j cd sha256 hm pre v sv)) (\<lambda>_.
       replication_loop retry b h j cd sha256 hm pre es)"
| "replication_loop retry b h j cd sha256 hm pre (SnapshotTick sv # es) =
     and_then (attempt (take_snapshot_with_retry retry b h cd sha256 pre sv)) (\<lambda>_.
       replication_loop retry b h j cd sha256 hm pre es)"

text \<open>The state a new stream starts from; \<open>db\<close> is the content of the database file, if it exists.\<close>

definition initial_state ::
    "(bytes \<Rightarrow> bytes) \<Rightarrow> replication_config \<Rightarrow> string \<Rightarrow> string \<Rightarrow> bytes option \<Rightarrow> string \<Rightarrow> failure + sync_state" where
  "initial_state sha256 config dir file db uuid =
     (case new_sync_state dir file of
        Inl e \<Rightarrow> Inl e
      | Inr st \<Rightarrow>
          let named = (case rc_db_name config of None \<Rightarrow> st | Some name \<Rightarrow> st\<lparr>ss_name := name\<rparr>);
              observed = named\<lparr>ss_observed := rc_observed config\<rparr>
          in (case (if db \<noteq> None then init_checksum sha256 db observed else Inr observed) of
                Inl e \<Rightarrow> Inl e
              | Inr st' \<Rightarrow> Inr (ensure_lineage_id uuid st')))"

definition start_replication ::
    "(('s, failure, unit) action \<Rightarrow> ('s, failure, unit) action) \<Rightarrow> 's backend \<Rightarrow> 's hadb \<Rightarrow> json \<Rightarrow> codec \<Rightarrow> (bytes \<Rightarrow> bytes) \<Rightarrow> string \<Rightarrow>
      replication_config \<Rightarrow> string \<Rightarrow> string \<Rightarrow> bytes option \<Rightarrow> string \<Rightarrow> snapshot_sight \<Rightarrow> ('s site, failure, unit) action" where
  "start_replication retry b h j cd sha256 pre config dir file db uuid sv =
     and_then (from_result (validate_config config)) (\<lambda>_.
     if is_external (rc_snapshot_ownership config)
     then raise [Message ''run_replication() requires walrust-owned snapshots; use run_wal_replication() for external base state'']
     else and_then (from_result (initial_state sha256 config dir file db uuid)) (\<lambda>st.
       and_then (update_sync (\<lambda>_. st)) (\<lambda>_.
       and_then (take_snapshot_with_retry retry b h cd sha256 pre sv) (\<lambda>_.
         save_state b j pre))))"

definition run_replication ::
    "(('s, failure, unit) action \<Rightarrow> ('s, failure, unit) action) \<Rightarrow> 's backend \<Rightarrow> 's hadb \<Rightarrow> json \<Rightarrow> codec \<Rightarrow> (bytes \<Rightarrow> bytes) \<Rightarrow>
      ((u32 \<rightharpoonup> bytes) \<Rightarrow> (u32 \<times> bytes) list) \<Rightarrow> string \<Rightarrow> replication_config \<Rightarrow> string \<Rightarrow> string \<Rightarrow> bytes option \<Rightarrow> string \<Rightarrow> snapshot_sight \<Rightarrow>
      replication_event list \<Rightarrow> ('s site, failure, loop_status) action" where
  "run_replication retry b h j cd sha256 hm pre config dir file db uuid sv events =
     and_then (start_replication retry b h j cd sha256 pre config dir file db uuid sv) (\<lambda>_.
       replication_loop retry b h j cd sha256 hm pre events)"

fun wal_replication_loop ::
    "'s backend \<Rightarrow> 's hadb \<Rightarrow> json \<Rightarrow> codec \<Rightarrow> (bytes \<Rightarrow> bytes) \<Rightarrow> ((u32 \<rightharpoonup> bytes) \<Rightarrow> (u32 \<times> bytes) list) \<Rightarrow> string \<Rightarrow>
      (bool option \<times> wal_sight \<times> snapshot_sight) list \<Rightarrow> ('s site, failure, loop_status) action" where
  "wal_replication_loop b h j cd sha256 hm pre [] = return Running"
| "wal_replication_loop b h j cd sha256 hm pre ((cancel, v, sv) # es) =
     (case cancel of
        Some cancelled \<Rightarrow>
          if cancelled
          then and_then (map_error (\<lambda>e. [Message ''Final sync failed'']) (sync_wal b h j cd sha256 hm pre v sv)) (\<lambda>_. return Stopped)
          else wal_replication_loop b h j cd sha256 hm pre es
      | None \<Rightarrow>
          and_then (map_error (\<lambda>e. [Message ''WAL sync failed'']) (sync_wal b h j cd sha256 hm pre v sv)) (\<lambda>_.
            wal_replication_loop b h j cd sha256 hm pre es))"

definition run_wal_replication ::
    "'s backend \<Rightarrow> 's hadb \<Rightarrow> json \<Rightarrow> codec \<Rightarrow> (bytes \<Rightarrow> bytes) \<Rightarrow> ((u32 \<rightharpoonup> bytes) \<Rightarrow> (u32 \<times> bytes) list) \<Rightarrow> string \<Rightarrow> replication_config \<Rightarrow>
      u64 \<Rightarrow> bytes option \<Rightarrow> (bool option \<times> wal_sight \<times> snapshot_sight) list \<Rightarrow> ('s site, failure, loop_status) action" where
  "run_wal_replication b h j cd sha256 hm pre config initial_seq db events =
     and_then (from_result (validate_config config)) (\<lambda>_.
     and_then (update_sync (\<lambda>st. st\<lparr>ss_current_seq := initial_seq, ss_current_txid := initial_seq,
        ss_observed := (ss_observed st \<or> rc_observed config)\<rparr>)) (\<lambda>_.
     and_then sync_state_of (\<lambda>st.
     and_then (if ss_db_checksum st = None \<and> db \<noteq> None
               then and_then (from_result (init_checksum sha256 db st)) (\<lambda>st'. update_sync (\<lambda>_. st')) else return ()) (\<lambda>_.
       wal_replication_loop b h j cd sha256 hm pre events))))"

section \<open>Resuming after a restore\<close>

definition fresh_state :: "sync_state \<Rightarrow> bool" where
  "fresh_state st \<longleftrightarrow>
     ss_current_seq st = 0 \<and> ss_current_txid st = 0 \<and> ss_wal_offset st = 0 \<and> ss_wal_generation st = 0 \<and> ss_lineage_id st = None \<and>
     ss_external_base st = None \<and> ss_db_checksum st = None \<and> \<not> ss_blocker st"

definition ensure_unused ::
    "'s backend \<Rightarrow> 's hadb \<Rightarrow> string \<Rightarrow> sync_state \<Rightarrow> u64 \<Rightarrow> u64 \<Rightarrow> ('s, failure, unit) action" where
  "ensure_unused b h pre namespace next_seq generation =
     and_then (storage_op (b_get b (build_state_changeset_key h pre namespace generation next_seq))) (\<lambda>found.
       if found \<noteq> None then raise [Typed (Equivocation ''cannot resume because another walrust-owned object already exists'')] else return ())"

definition ensure_not_compacted :: "'s backend \<Rightarrow> string \<Rightarrow> string \<Rightarrow> u64 \<Rightarrow> ('s, failure, unit) action" where
  "ensure_not_compacted b pre db_name next_seq =
     and_then (storage_op (b_list b (pre @ db_name @ ''/levels/'') None)) (\<lambda>keys.
       if list_ex (\<lambda>key. case parse_range_name (rsplit_last key (CHR ''/'')) ''hadbp'' of
            None \<Rightarrow> False | Some range' \<Rightarrow> rmin range' \<le> next_seq \<and> next_seq \<le> rmax range') keys
       then raise [Typed (Equivocation ''cannot resume because compacted history already covers that sequence'')] else return ())"

definition check_resumable :: "string \<Rightarrow> restore_result \<Rightarrow> sync_state \<Rightarrow> failure + u64" where
  "check_resumable pre restored state =
     (if \<not> rr_latest restored then Inl [Message ''cannot resume walrust-owned replication from a point-in-time restore'']
      else if rr_prefix restored \<noteq> pre then Inl [Message ''restore prefix does not match resume prefix'']
      else if rr_db_name restored \<noteq> ss_name state then Inl [Message ''restore database does not match SyncState database'']
      else if rr_output restored \<noteq> output_path (ss_db_dir state) (ss_db_file state)
      then Inl [Message ''restored output does not match SyncState database path'']
      else if \<not> fresh_state state then Inl [Message ''resume_owned_after_restore requires a fresh SyncState'']
      else if rr_seq restored = -1 then Inl [Message ''cannot resume walrust-owned replication beyond u64::MAX'']
      else Inr (rr_seq restored + 1))"

lemma check_resumable_ok:
  "check_resumable pre restored state = Inr n \<Longrightarrow>
     rr_latest restored \<and> rr_prefix restored = pre \<and> rr_db_name restored = ss_name state \<and>
     rr_output restored = output_path (ss_db_dir state) (ss_db_file state) \<and> fresh_state state \<and> rr_seq restored \<noteq> -1 \<and> n = rr_seq restored + 1"
  by (simp add: check_resumable_def split: if_splits)

definition resumed_state :: "restore_result \<Rightarrow> bytes option \<Rightarrow> sync_state \<Rightarrow> sync_state" where
  "resumed_state restored db st =
     st\<lparr>ss_current_seq := rr_seq restored, ss_current_txid := (case change_counter_from_file db of Inr c \<Rightarrow> c | Inl e \<Rightarrow> 0),
        ss_db_checksum := Some (rr_checksum restored), ss_lineage_id := rr_lineage_id restored\<rparr>"

text \<open>The state object is written last, under the lease.\<close>

definition save_resumed_state ::
    "(('s, failure, unit) action \<Rightarrow> ('s, failure, unit) action) \<Rightarrow> 's backend \<Rightarrow> json \<Rightarrow> string \<Rightarrow> ('s, failure, unit) action \<Rightarrow>
      ('s site, failure, unit) action" where
  "save_resumed_state retry b j pre ensure_held =
     and_then (on_site_store ensure_held) (\<lambda>_.
     and_then sync_state_of (\<lambda>st.
     and_then (from_result (state_json_bytes j st)) (\<lambda>state_data.
     and_then (on_site_store (retry (and_then ensure_held (\<lambda>_. storage_op (b_put b (state_key pre (ss_name st)) state_data))))) (\<lambda>_.
       on_site_store ensure_held))))"

definition resume_owned_after_restore ::
    "(('s, failure, unit) action \<Rightarrow> ('s, failure, unit) action) \<Rightarrow> 's backend \<Rightarrow> 's hadb \<Rightarrow> json \<Rightarrow> codec \<Rightarrow> (bytes \<Rightarrow> bytes) \<Rightarrow> string \<Rightarrow>
      restore_result \<Rightarrow> ('s, failure, unit) action \<Rightarrow> bytes option \<Rightarrow> snapshot_sight \<Rightarrow> ('s site, failure, unit) action" where
  "resume_owned_after_restore retry b h j cd sha256 pre restored ensure_held db sv =
     and_then (on_site_store ensure_held) (\<lambda>_.
     and_then sync_state_of (\<lambda>state.
     and_then (from_result (check_resumable pre restored state)) (\<lambda>next_seq.
     let namespace = state\<lparr>ss_lineage_id := rr_lineage_id restored\<rparr> in
     and_then (on_site_store (ensure_unused b h pre namespace next_seq GENERATION_LIVE)) (\<lambda>_.
     and_then (on_site_store (ensure_unused b h pre namespace next_seq GENERATION_SNAPSHOT)) (\<lambda>_.
     and_then (if rr_lineage_id restored = None then on_site_store (ensure_not_compacted b pre (rr_db_name restored) next_seq) else return ()) (\<lambda>_.
     and_then (on_site_store ensure_held) (\<lambda>_.
     and_then (update_sync (resumed_state restored db)) (\<lambda>_.
     and_then (attempt (take_snapshot_with_retry_guarded retry b h cd sha256 pre (Some ensure_held) sv)) (\<lambda>taken.
       case taken of
         Inl e \<Rightarrow> and_then (update_sync (\<lambda>_. state)) (\<lambda>_. raise e)
       | Inr u \<Rightarrow> save_resumed_state retry b j pre ensure_held)))))))))"

section \<open>The loop as a history of the publisher\<close>

fun event_within_cap :: "replication_event \<Rightarrow> bool" where
  "event_within_cap (CancelChanged cancelled v sv) = snapshot_within_cap sv"
| "event_within_cap (SyncTick v sv) = snapshot_within_cap sv"
| "event_within_cap (SnapshotTick sv) = snapshot_within_cap sv"

lemma sync_is_step:
  assumes "snapshot_within_cap sv" "sync_wal b h j cd sha256 hm pre v sv z = (z', r)"
  shows "publisher_step b view h j cd sha256 hm retry pre z z'"
  using publisher_step.sync [OF assms(1)] assms(2) unfolding sync_wal_def by blast

lemma retried_snapshot_is_step:
  assumes "snapshot_within_cap sv" "take_snapshot_with_retry retry b h cd sha256 pre sv z = (z', r)"
  shows "publisher_step b view h j cd sha256 hm retry pre z z'"
  using assms by (intro publisher_step.retried_snapshot [where lease = None and sv = sv and r = r]) (simp_all add: take_snapshot_with_retry_def return_def)

text \<open>An action followed by the rest of the loop: its end state is passed on, or the run ends in it.\<close>

lemma and_thenE:
  assumes "and_then m f z = (z', r)"
  obtains z1 a where "m z = (z1, Inr a)" "f a z1 = (z', r)" | e where "m z = (z', Inl e)" "r = Inl e"
  using assms by (auto simp: and_then_def split: prod.splits sum.splits)

lemma map_errorE:
  assumes "map_error g m z = (z', r)"
  obtains r' where "m z = (z', r')" "r = map_sum g id r'"
  using assms by (auto simp: map_error_def split: prod.splits sum.splits)

lemma attemptE:
  assumes "attempt m z = (z', r)"
  obtains r' where "m z = (z', r')" "r = Inr r'"
  using assms by (auto simp: attempt_def split: prod.splits)

lemma replication_loop_steps:
  assumes "replication_loop retry b h j cd sha256 hm pre events z = (z', r)" "list_all event_within_cap events"
  shows "(publisher_step b view h j cd sha256 hm retry pre)\<^sup>*\<^sup>* z z'"
  using assms
proof (induction events arbitrary: z)
  case Nil
  then show ?case by (simp add: return_def)
next
  case (Cons ev es)
  let ?S = "publisher_step b view h j cd sha256 hm retry pre"
  have rest: "?S\<^sup>*\<^sup>* z1 z'" if "replication_loop retry b h j cd sha256 hm pre es z1 = (z', r)" for z1
    using Cons.IH [OF that] Cons.prems(2) by simp
  show ?case
  proof (cases ev)
    case (CancelChanged cancelled v sv)
    have cap: "snapshot_within_cap sv" using Cons.prems(2) CancelChanged by simp
    show ?thesis
    proof (cases cancelled)
      case True
      with Cons.prems(1) CancelChanged
      have "and_then (map_error (\<lambda>e. [Message ''Final sync failed'']) (sync_wal b h j cd sha256 hm pre v sv)) (\<lambda>_. return Stopped) z = (z', r)" by simp
      then obtain r' where "sync_wal b h j cd sha256 hm pre v sv z = (z', r')"
        by (elim and_thenE map_errorE) (auto simp: return_def)
      then show ?thesis by (auto intro: sync_is_step [OF cap])
    next
      case False
      then show ?thesis using rest Cons.prems(1) CancelChanged by simp
    qed
  next
    case (SyncTick v sv)
    have cap: "snapshot_within_cap sv" using Cons.prems(2) SyncTick by simp
    from Cons.prems(1) SyncTick
    have "and_then (map_error (\<lambda>e. [Message ''WAL sync failed'']) (sync_wal b h j cd sha256 hm pre v sv)) (\<lambda>_. replication_loop retry b h j cd sha256 hm pre es) z = (z', r)"
      by simp
    then show ?thesis
    proof (rule and_thenE)
      fix z1 a
      assume "map_error (\<lambda>e. [Message ''WAL sync failed'']) (sync_wal b h j cd sha256 hm pre v sv) z = (z1, Inr a)"
        "replication_loop retry b h j cd sha256 hm pre es z1 = (z', r)"
      then obtain r1 where "sync_wal b h j cd sha256 hm pre v sv z = (z1, r1)" "?S\<^sup>*\<^sup>* z1 z'" using rest by (elim map_errorE) blast
      then show ?thesis by (auto intro: converse_rtranclp_into_rtranclp sync_is_step [OF cap])
    next
      fix e
      assume "map_error (\<lambda>e. [Message ''WAL sync failed'']) (sync_wal b h j cd sha256 hm pre v sv) z = (z', Inl e)"
      then obtain r1 where "sync_wal b h j cd sha256 hm pre v sv z = (z', r1)" by (elim map_errorE)
      then show ?thesis by (auto intro: sync_is_step [OF cap])
    qed
  next
    case (SnapshotTick sv)
    have cap: "snapshot_within_cap sv" using Cons.prems(2) SnapshotTick by simp
    from Cons.prems(1) SnapshotTick
    have "and_then (attempt (take_snapshot_with_retry retry b h cd sha256 pre sv)) (\<lambda>_. replication_loop retry b h j cd sha256 hm pre es) z = (z', r)" by simp
    then obtain z1 r1 where "take_snapshot_with_retry retry b h cd sha256 pre sv z = (z1, r1)" "replication_loop retry b h j cd sha256 hm pre es z1 = (z', r)"
      by (elim and_thenE attemptE) auto
    then show ?thesis using rest by (auto intro: converse_rtranclp_into_rtranclp retried_snapshot_is_step [OF cap])
  qed
qed

section \<open>A snapshot anchors the chain\<close>

context storage_backend
begin

text \<open>Whatever was in the bucket, a successful snapshot is the new anchor.\<close>

lemma snapshot_via_anchors:
  assumes d: "durable_backend b view" and cd: "hadbp_codec cd" and cap: "snapshot_within_cap sv" and put: "stores_object put"
    and ok: "\<And>z'. anchored cd sha256 (live_key h pre (si_sync z')) (snap_key h pre (si_sync z')) (chain_of view z') \<Longrightarrow>
      same_identity (si_sync z) (si_sync z') \<Longrightarrow> ss_current_seq (si_sync z') = ss_current_seq (si_sync z) + 1 \<Longrightarrow>
      grown (next_key h pre (si_sync z) GENERATION_SNAPSHOT) (store_of z) (store_of z') \<Longrightarrow> Q () z'"
    and err: "\<And>e z'. same_head (si_sync z) (si_sync z') \<Longrightarrow>
      grown (next_key h pre (si_sync z) GENERATION_SNAPSHOT) (store_of z) (store_of z') \<Longrightarrow> E e z'"
  shows "wp (snapshot_via put h cd sha256 pre sv) Q E z"
proof (rule wp_snapshot_via [OF put], goal_cases)
  case (1 psz es txid z')
  obtain f where f: "sn_db sv = Some f" using 1(1) by (auto simp: encode_snapshot_with_checksum_def split: option.splits)
  have id: "same_identity (si_sync z) (si_sync z')" and st: "ss_current_seq (si_sync z') = ss_current_seq (si_sync z) + 1"
      "ss_db_checksum (si_sync z') = Some (es_checksum es)"
    using 1(7) by (simp_all add: snapshot_state_def reset_wal_cursor_after_snapshot_def same_identity_def)
  have "anchored cd sha256 (live_key h pre (si_sync z)) (snap_key h pre (si_sync z)) (chain_of view z')"
    unfolding chain_of_def st
    by (rule hadbp_codec.snapshot_anchors [OF cd]) (use 1 d f cap in \<open>auto simp: snapshot_within_cap_def\<close>)
  then have "anchored cd sha256 (live_key h pre (si_sync z')) (snap_key h pre (si_sync z')) (chain_of view z')"
    unfolding same_identity_keys [OF id] .
  then show ?case by (rule ok [OF _ id st(1) 1(2)])
next
  case (2 e z' bl)
  then show ?case by (intro err) simp_all
qed

end

section \<open>Replication keeps the chain restorable\<close>

abbreviation anchored_site :: "'s hadb \<Rightarrow> codec \<Rightarrow> (bytes \<Rightarrow> bytes) \<Rightarrow> string \<Rightarrow> ('s \<Rightarrow> string \<rightharpoonup> bytes) \<Rightarrow> 's site \<Rightarrow> bool" where
  "anchored_site h cd sha256 pre view z \<equiv>
     anchored cd sha256 (live_key h pre (si_sync z)) (snap_key h pre (si_sync z)) (chain_of view z)"

text \<open>Rewriting the state object cannot break the chain.\<close>

lemma anchored_state_write:
  assumes "anchored_site h cd sha256 pre view z" "si_sync z' = si_sync z"
    and "\<And>k. k \<noteq> state_key pre (ss_name (si_sync z)) \<Longrightarrow> view (store_of z') k = view (store_of z) k"
    and "state_key pre (ss_name (si_sync z)) \<notin> range (live_key h pre (si_sync z)) \<union> range (snap_key h pre (si_sync z))"
  shows "anchored_site h cd sha256 pre view z'"
  using assms(1) unfolding chain_of_def assms(2)
proof (rule anchored_mono)
  fix k assume "k \<in> range (live_key h pre (si_sync z)) \<union> range (snap_key h pre (si_sync z))"
  then have "k \<noteq> state_key pre (ss_name (si_sync z))" using assms(4) by metis
  then show "view (store_of z') k = view (store_of z) k" by (rule assms(3))
qed

lemma new_sync_state_lineage: "new_sync_state dir file = Inr st \<Longrightarrow> ss_lineage_id st = None"
  by (cases "file = []") (auto simp: new_sync_state_def new_with_paths_def)

lemma init_checksum_lineage: "init_checksum sha256 db st = Inr st' \<Longrightarrow> ss_lineage_id st' = ss_lineage_id st"
  by (auto simp: init_checksum_def split: sum.splits)

lemma initial_state_lineage:
  assumes "initial_state sha256 config dir file db uuid = Inr st"
  shows "ss_lineage_id st = Some uuid"
proof -
  define name where "name st = (case rc_db_name config of None \<Rightarrow> st | Some name \<Rightarrow> st\<lparr>ss_name := name\<rparr>)" for st :: sync_state
  have keeps: "ss_lineage_id ((name st)\<lparr>ss_observed := rc_observed config\<rparr>) = ss_lineage_id st" for st by (simp add: name_def split: option.split)
  from assms obtain st0 st1 where "new_sync_state dir file = Inr st0" "st = ensure_lineage_id uuid st1"
      "(if db \<noteq> None then init_checksum sha256 db ((name st0)\<lparr>ss_observed := rc_observed config\<rparr>) else Inr ((name st0)\<lparr>ss_observed := rc_observed config\<rparr>)) = Inr st1"
    unfolding initial_state_def Let_def name_def [symmetric] by (auto split: sum.splits)
  with keeps [of st0] show ?thesis
    by (auto simp: ensure_lineage_id_def dest!: new_sync_state_lineage init_checksum_lineage split: if_splits)
qed

context storage_backend
begin

lemma retried_snapshot_anchors:
  assumes "durable_backend b view" "hadbp_codec cd" "snapshot_within_cap sv" "retry_policy retry" "\<And>s. view (fst (lease_held lease s)) = view s"
    and "\<And>z'. anchored_site h cd sha256 pre view z' \<Longrightarrow> same_identity (si_sync z) (si_sync z') \<Longrightarrow> ss_current_seq (si_sync z') = ss_current_seq (si_sync z) + 1 \<Longrightarrow>
      grown (next_key h pre (si_sync z) GENERATION_SNAPSHOT) (store_of z) (store_of z') \<Longrightarrow> Q () z'"
    and "\<And>e z'. same_head (si_sync z) (si_sync z') \<Longrightarrow> grown (next_key h pre (si_sync z) GENERATION_SNAPSHOT) (store_of z) (store_of z') \<Longrightarrow> E e z'"
  shows "wp (take_snapshot_with_retry_guarded retry b h cd sha256 pre lease sv) Q E z"
  unfolding guarded_snapshot_via
  by (rule snapshot_via_anchors [OF assms(1-3) retried_stores [OF assms(4,5) put_changeset_stores]]) (use assms(6,7) in auto)

lemma start_anchors:
  assumes "durable_backend b view" "hadbp_codec cd" "snapshot_within_cap sv" "retry_policy retry"
  shows "wp (start_replication retry b h j cd sha256 pre config dir file db uuid sv)
    (\<lambda>_ z1. anchored_site h cd sha256 pre view z1 \<and> (\<exists>st. initial_state sha256 config dir file db uuid = Inr st \<and> same_identity st (si_sync z1)) \<and>
       (\<forall>k. view (store_of z) k \<noteq> None \<longrightarrow> k \<noteq> state_key pre (ss_name (si_sync z1)) \<longrightarrow> view (store_of z1) k = view (store_of z) k)) (\<lambda>_ _. True) z"
proof (cases "initial_state sha256 config dir file db uuid")
  case (Inr st)
  let ?z0 = "z\<lparr>si_sync := st\<rparr>"
  let ?Q = "\<lambda>_ z1. anchored_site h cd sha256 pre view z1 \<and> same_identity st (si_sync z1) \<and>
      (\<forall>k. view (store_of z) k \<noteq> None \<longrightarrow> k \<noteq> state_key pre (ss_name (si_sync z1)) \<longrightarrow> view (store_of z1) k = view (store_of z) k)"
  have "wp (take_snapshot_with_retry retry b h cd sha256 pre sv) (\<lambda>_. wp (save_state b j pre) ?Q (\<lambda>_ _. True)) (\<lambda>_ _. True) ?z0"
    unfolding take_snapshot_with_retry_def
  proof (rule retried_snapshot_anchors [OF assms], goal_cases)
    case (2 z1)
    have l: "ss_lineage_id (si_sync z1) = Some uuid" using 2(2) initial_state_lineage [OF Inr] by (simp add: same_identity_def)
    show ?case
    proof (rule wp_save_state, goal_cases)
      case (1 z2 d)
      have "anchored_site h cd sha256 pre view z2"
        using 2(1) 1(4) by (rule anchored_state_write) (use 1(2) state_key_apart [OF l refl, of pre h] in \<open>auto simp: only_def\<close>)
      moreover have "view (store_of z2) k = view (store_of z) k" if "view (store_of z) k \<noteq> None" "k \<noteq> state_key pre (ss_name (si_sync z2))" for k
      proof -
        have "view (store_of z1) k = view (store_of z) k" using 2(4) that(1) unfolding evolves_def
          by (cases "k = next_key h pre st GENERATION_SNAPSHOT") simp_all
        then show ?thesis using that(2) 1(2,4) by (simp add: only_def)
      qed
      ultimately show ?case using 2(2) 1(4) by simp
    qed simp
  qed (simp_all add: return_def)
  then show ?thesis
    unfolding start_replication_def using Inr by (auto simp: wp_simps split: sum.split elim!: wp_mono)
qed (simp add: start_replication_def wp_simps split: sum.split)

end


text \<open>A first start: an empty bucket, a database of one page, SQLite answering every request.\<close>

definition boot_db :: bytes where
  "boot_db = zeros 16 @ [2, 0] @ zeros 494"

definition boot_sight :: snapshot_sight where
  "boot_sight =
     \<lparr>sn_timestamp = 7, sn_rollback = Inr (), sn_checkpoint = Inr (0, 0, 0), sn_reopen = Inr (), sn_header = Some boot_db,
      sn_counter = Some boot_db, sn_wal = (stable [])\<lparr>v_open := None\<rparr>, sn_db = Some boot_db, sn_wal_after = None\<rparr>"

definition boot_site :: "(string \<times> bytes) list site" where
  "boot_site = \<lparr>si_sync = demo_sync_state, si_world = \<lparr>w_store = [], w_files = Map.empty, w_faults = []\<rparr>, si_events = []\<rparr>"

lemma boot_length: "length boot_db = 512"
  by (simp add: boot_db_def zeros_def)

lemma boot_header: "get_page_size (Some boot_db) = Inr 512"
proof -
  have "slice boot_db 16 2 = [2, 0]" by (simp add: boot_db_def slice_def zeros_def)
  then show ?thesis using boot_length by (simp add: get_page_size_def be_nat_def)
qed

lemma boot_cap: "snapshot_within_cap boot_sight"
  using boot_length by (simp add: snapshot_within_cap_def boot_sight_def MAX_DECODED_DB_BYTES_def)

lemma boot_encodes: "\<exists>es. encode_snapshot_with_checksum demo_wire sha256 (Some boot_db) 512 n c = Inr es"
  using boot_length by (simp add: encode_snapshot_with_checksum_def validate_page_size_iff SQLITE_PAGE_SIZES_def Let_def)

lemma boot_prepared:
  "\<exists>p. prepare_snapshot demo_wire sha256 boot_sight z = (with_blocker True z, Inr p) \<and> ps_seq p = ss_current_seq (si_sync z) + 1"
proof -
  obtain es where "encode_snapshot_with_checksum demo_wire sha256 (Some boot_db) 512 (ss_current_seq (si_sync z) + 1)
      (case ss_db_checksum (si_sync z) of Some c \<Rightarrow> c | None \<Rightarrow> 0) = Inr es" using boot_encodes by blast
  then have "\<exists>p z'. prepare_snapshot demo_wire sha256 boot_sight z = (z', Inr p)"
    using boot_header
    by (cases "ss_blocker (si_sync z)")
      (simp_all add: prepare_snapshot_def release_checkpoint_blocker_def checkpoint_wal_def reacquire_checkpoint_blocker_def sqlite_answer_def boot_sight_def
        and_then_def sync_state_of_def update_sync_def from_result_def return_def count_wal_commits_def Let_def)
  then obtain p z' where run: "prepare_snapshot demo_wire sha256 boot_sight z = (z', Inr p)" by blast
  have "wp (prepare_snapshot demo_wire sha256 boot_sight) (\<lambda>p z'. z' = with_blocker True z \<and> ps_seq p = ss_current_seq (si_sync z) + 1) (\<lambda>_ _. True) z"
    by (rule wp_prepare_snapshot) simp_all
  from wp_run [OF this run] run show ?thesis by simp
qed

lemma boot_starts:
  "\<exists>z'. start_replication (retry_times 3) alist_backend demo_hadb demo_json demo_wire (\<lambda>x. x) [] replication_config_default ''d'' ''app.db''
     (Some boot_db) ''l'' boot_sight boot_site = (z', Inr ())"
proof -
  obtain st where st: "initial_state (\<lambda>x. x) replication_config_default ''d'' ''app.db'' (Some boot_db) ''l'' = Inr st"
    by (auto simp: initial_state_def new_sync_state_def new_with_paths_def init_checksum_def compute_checksum_from_file_def)
  obtain p z1 where p: "prepare_snapshot demo_wire (\<lambda>x. x) boot_sight (boot_site\<lparr>si_sync := st\<rparr>) = (z1, Inr p)" "store_of z1 = []"
    using boot_prepared [of "\<lambda>x. x" "boot_site\<lparr>si_sync := st\<rparr>"] by (force simp: boot_site_def)
  have put: "retry_times 3 (put_changeset_if_absent alist_backend key bs) [] = ([(key, bs)], Inr ())" for key bs
    by (simp add: numeral_eq_Suc put_changeset_if_absent_def storage_op_def map_error_def and_then_def return_def alist_backend_def)
  show ?thesis
    using st p put
    by (simp add: start_replication_def validate_config_def replication_config_default_def is_external_def and_then_def [of _ "\<lambda>_. _"] from_result_def return_def
        update_sync_def take_snapshot_with_retry_def take_snapshot_with_retry_guarded_def sync_state_of_def and_then_def Let_def lease_held_def
        on_site_store_def in_world_def on_world_def on_store_with_def finish_snapshot_def save_state_def state_json_bytes_def demo_json_def
        storage_op_def map_error_def alist_backend_def)
qed


section \<open>Resumption\<close>

context storage_backend
begin

text \<open>A step on the store that changes no object.\<close>

lemma wp_quiet:
  assumes "\<And>s. view (fst (m s)) = view s"
    and "\<And>a z'. si_sync z' = si_sync z \<Longrightarrow> view (store_of z') = view (store_of z) \<Longrightarrow> Q a z'"
    and "\<And>e z'. si_sync z' = si_sync z \<Longrightarrow> view (store_of z') = view (store_of z) \<Longrightarrow> E e z'"
  shows "wp (on_site_store m) Q E z"
proof -
  have "wp m (\<lambda>_ s'. view s' = view (store_of z)) (\<lambda>_ s'. view s' = view (store_of z)) (store_of z)" using assms(1) by (simp add: wp_fst)
  then show ?thesis unfolding wp_on_site_store by (rule wp_mono) (auto intro: assms(2,3))
qed

lemma ensure_unused_quiet: "view (fst (ensure_unused b h pre namespace n g s)) = view s"
proof -
  have "wp (ensure_unused b h pre namespace n g) (\<lambda>_ s'. view s' = view s) (\<lambda>_ s'. view s' = view s) s"
    unfolding ensure_unused_def wp_and_then storage_op_def wp_map_error
    using get by (auto simp: wp_def [of "b_get b _"] wp_simps split: prod.split sum.split)
  then show ?thesis by (simp add: wp_fst)
qed

lemma ensure_not_compacted_quiet: "view (fst (ensure_not_compacted b pre db_name n s)) = view s"
proof -
  have "wp (ensure_not_compacted b pre db_name n) (\<lambda>_ s'. view s' = view s) (\<lambda>_ s'. view s' = view s) s"
    unfolding ensure_not_compacted_def wp_and_then storage_op_def wp_map_error
    using list by (auto simp: wp_def [of "b_list b _ _"] wp_simps split: prod.split sum.split)
  then show ?thesis by (simp add: wp_fst)
qed

text \<open>The final state write, retried under the lease.\<close>

lemma wp_guarded_state_put:
  assumes pol: "retry_policy retry" and held: "\<And>s. view (fst (held s)) = view s"
    and ok: "\<And>z'. si_sync z' = si_sync z \<Longrightarrow> only {k} (store_of z) (store_of z') \<Longrightarrow> (durable_backend b view \<Longrightarrow> view (store_of z') k = Some d) \<Longrightarrow> Q () z'"
    and err: "\<And>e z'. si_sync z' = si_sync z \<Longrightarrow> only {k} (store_of z) (store_of z') \<Longrightarrow> E e z'"
  shows "wp (on_site_store (retry (and_then held (\<lambda>_. storage_op (b_put b k d))))) Q E z"
  unfolding wp_on_site_store
proof (rule retry_policy.wp_retry [OF pol, where P = "only {k} (store_of z)"], goal_cases)
  case (2 s1)
  have "wp held (\<lambda>_ s2. view s2 = view s1) (\<lambda>_ s2. view s2 = view s1) s1" using held by (simp add: wp_fst)
  then show ?case
    unfolding wp_and_then
  proof (rule wp_mono, goal_cases)
    case (1 u s2)
    show ?case
    proof (cases "b_put b k d s2")
      case (Pair s3 r)
      have o3: "only {k} (store_of z) s3" using put [OF Pair] 1 \<open>only {k} (store_of z) s1\<close> by (simp add: only_def)
      show ?thesis
        using Pair o3 durable_backend.put_stores [of b view k d s2 s3]
        by (cases r) (auto simp: storage_op_def wp_map_error wp_def [of "b_put b k d"] intro!: ok)
    qed
  next
    case (2 e s2)
    then show ?case using \<open>only {k} (store_of z) s1\<close> by (simp add: only_def)
  qed
next
  case (3 e s1)
  then show ?case by (intro err) simp_all
qed (simp add: only_def)

lemma wp_save_resumed_state:
  assumes pol: "retry_policy retry" and held: "\<And>s. view (fst (held s)) = view s"
    and ok: "\<And>z' d. si_sync z' = si_sync z \<Longrightarrow> only {state_key pre (ss_name (si_sync z))} (store_of z) (store_of z') \<Longrightarrow>
      state_json_bytes j (si_sync z) = Inr d \<Longrightarrow> (durable_backend b view \<Longrightarrow> view (store_of z') (state_key pre (ss_name (si_sync z))) = Some d) \<Longrightarrow> Q () z'"
    and err: "\<And>e z'. si_sync z' = si_sync z \<Longrightarrow> only {state_key pre (ss_name (si_sync z))} (store_of z) (store_of z') \<Longrightarrow> E e z'"
  shows "wp (save_resumed_state retry b j pre held) Q E z"
  unfolding save_resumed_state_def wp_and_then wp_sync_state_of wp_from_result
proof (rule wp_quiet [OF held], goal_cases)
  case (1 u z1)
  show ?case
  proof (cases "state_json_bytes j (si_sync z1)")
    case (Inl e)
    then show ?thesis using 1 by (simp add: err only_def)
  next
    case (Inr d)
    have "wp (on_site_store (retry (and_then held (\<lambda>_. storage_op (b_put b (state_key pre (ss_name (si_sync z1))) d)))))
        (\<lambda>_. wp (on_site_store held) Q E) E z1"
    proof (rule wp_guarded_state_put [OF pol held], goal_cases)
      case (1 z2)
      then show ?case
        using \<open>si_sync z1 = _\<close> \<open>view (store_of z1) = _\<close> Inr
        by (intro wp_quiet [OF held]) (auto simp: only_def intro!: ok err)
    next
      case (2 e z2)
      then show ?case using \<open>si_sync z1 = _\<close> \<open>view (store_of z1) = _\<close> by (auto simp: only_def intro!: err)
    qed
    with Inr show ?thesis by simp
  qed
qed (simp add: err only_def)

text \<open>Everything up to the snapshot only reads.\<close>

lemma wp_resume:
  assumes held: "\<And>s. view (fst (ensure_held s)) = view s"
    and run: "\<And>z'. check_resumable pre restored (si_sync z) = Inr (rr_seq restored + 1) \<Longrightarrow> si_sync z' = resumed_state restored db (si_sync z) \<Longrightarrow>
      view (store_of z') = view (store_of z) \<Longrightarrow>
      wp (take_snapshot_with_retry_guarded retry b h cd sha256 pre (Some ensure_held) sv)
        (\<lambda>_. wp (save_resumed_state retry b j pre ensure_held) Q E) (\<lambda>e z''. E e (z''\<lparr>si_sync := si_sync z\<rparr>)) z'"
    and err: "\<And>e z'. si_sync z' = si_sync z \<Longrightarrow> view (store_of z') = view (store_of z) \<Longrightarrow> E e z'"
  shows "wp (resume_owned_after_restore retry b h j cd sha256 pre restored ensure_held db sv) Q E z"
  unfolding resume_owned_after_restore_def wp_and_then [of "on_site_store ensure_held"]
proof (rule wp_quiet [OF held], goal_cases)
  case (1 u z1)
  show ?case
  proof (cases "check_resumable pre restored (si_sync z1)")
    case (Inl e)
    then show ?thesis using 1 by (simp add: err wp_and_then wp_sync_state_of wp_from_result)
  next
    case (Inr n)
    then have n: "n = rr_seq restored + 1" by (simp add: check_resumable_def split: if_splits)
    define tail where "tail = and_then (on_site_store ensure_held) (\<lambda>_. and_then (update_sync (resumed_state restored db)) (\<lambda>_.
      and_then (attempt (take_snapshot_with_retry_guarded retry b h cd sha256 pre (Some ensure_held) sv)) (\<lambda>taken.
        case taken of Inl e \<Rightarrow> and_then (update_sync (\<lambda>_. si_sync z)) (\<lambda>_. raise e) | Inr u \<Rightarrow> save_resumed_state retry b j pre ensure_held)))"
    have tail: "wp tail Q E z2" if "si_sync z2 = si_sync z" "view (store_of z2) = view (store_of z)" for z2
      unfolding tail_def wp_and_then wp_update_sync wp_attempt sum.case wp_raise
      by (rule wp_quiet [OF held]) (use that 1 Inr n in \<open>auto intro!: run err\<close>)
    have mid: "wp (if rr_lineage_id restored = None then on_site_store (ensure_not_compacted b pre (rr_db_name restored) n) else return ()) (\<lambda>_. wp tail Q E) E z2"
      if "si_sync z2 = si_sync z" "view (store_of z2) = view (store_of z)" for z2
      using that by (auto simp: wp_return intro!: wp_quiet [OF ensure_not_compacted_quiet] tail err)
    have unused: "wp (and_then (on_site_store (ensure_unused b h pre ns n g)) (\<lambda>_. m)) Q E z2"
      if "si_sync z2 = si_sync z" "view (store_of z2) = view (store_of z)" "\<And>z3. si_sync z3 = si_sync z \<Longrightarrow> view (store_of z3) = view (store_of z) \<Longrightarrow> wp m Q E z3" for ns g m z2
      unfolding wp_and_then by (rule wp_quiet [OF ensure_unused_quiet]) (use that in \<open>auto intro: err\<close>)
    let ?ns = "(si_sync z1)\<lparr>ss_lineage_id := rr_lineage_id restored\<rparr>"
    have "wp (and_then (on_site_store (ensure_unused b h pre ?ns n GENERATION_LIVE)) (\<lambda>_. and_then (on_site_store (ensure_unused b h pre ?ns n GENERATION_SNAPSHOT)) (\<lambda>_.
        and_then (if rr_lineage_id restored = None then on_site_store (ensure_not_compacted b pre (rr_db_name restored) n) else return ()) (\<lambda>_. tail)))) Q E z1"
      using 1 by (intro unused) (simp_all only: wp_and_then [of "if _ then _ else _"] mid)
    then show ?thesis
      unfolding tail_def using 1(1) Inr by (simp only: wp_and_then [of sync_state_of] wp_sync_state_of wp_and_then [of "from_result _"] wp_from_result sum.case Let_def)
  qed
qed (simp add: err)

text \<open>The stream continues the restored lineage, one past the restored sequence number.\<close>

definition resumed ::
    "'t hadb \<Rightarrow> codec \<Rightarrow> (bytes \<Rightarrow> bytes) \<Rightarrow> string \<Rightarrow> restore_result \<Rightarrow> bytes option \<Rightarrow> sync_state \<Rightarrow> 's site \<Rightarrow> bool" where
  "resumed h cd sha256 pre restored db st z' \<longleftrightarrow>
     same_identity (resumed_state restored db st) (si_sync z') \<and> ss_current_seq (si_sync z') = rr_seq restored + 1 \<and>
     anchored cd sha256 (live_key h pre (si_sync z')) (snap_key h pre (si_sync z')) (chain_of view z')"

lemma resume_wp:
  assumes d: "durable_backend b view" and cd: "hadbp_codec cd" and pol: "retry_policy retry" and cap: "snapshot_within_cap sv"
    and held: "\<And>s. view (fst (ensure_held s)) = view s"
    and apart: "state_key pre (ss_name (si_sync z)) \<notin>
      range (live_key h pre (resumed_state restored db (si_sync z))) \<union> range (snap_key h pre (resumed_state restored db (si_sync z)))"
  shows "wp (resume_owned_after_restore retry b h j cd sha256 pre restored ensure_held db sv)
    (\<lambda>_ z'. evolves {state_key pre (ss_name (si_sync z))} UNIV (store_of z) (store_of z') \<and> check_resumable pre restored (si_sync z) = Inr (rr_seq restored + 1) \<and>
       (\<exists>bs. state_json_bytes j (si_sync z') = Inr bs \<and> view (store_of z') (state_key pre (ss_name (si_sync z))) = Some bs) \<and>
       resumed h cd sha256 pre restored db (si_sync z) z')
    (\<lambda>_ z'. evolves {state_key pre (ss_name (si_sync z))} UNIV (store_of z) (store_of z') \<and>
       (si_sync z' = si_sync z \<or> resumed h cd sha256 pre restored db (si_sync z) z')) z"
proof (rule wp_resume [OF held], goal_cases)
  case (1 z1)
  let ?st = "resumed_state restored db (si_sync z)"
  show ?case
  proof (rule retried_snapshot_anchors [OF d cd cap pol], goal_cases)
    case (2 z2)
    have id: "same_identity ?st (si_sync z2)" using 1(2) 2(2) by simp
    then have name: "ss_name (si_sync z2) = ss_name (si_sync z)" by (simp add: same_identity_def resumed_state_def)
    have seq: "ss_current_seq (si_sync z2) = rr_seq restored + 1" using 1(2) 2(3) by (simp add: resumed_state_def)
    have ev: "evolves {state_key pre (ss_name (si_sync z))} UNIV (store_of z) (store_of z2)"
      using evolves_mono [OF 2(4), of "{state_key pre (ss_name (si_sync z))}" UNIV] 1(3) by (simp add: evolves_def)
    have state: "resumed h cd sha256 pre restored db (si_sync z) z3 \<and> evolves {state_key pre (ss_name (si_sync z))} UNIV (store_of z) (store_of z3)"
      if "si_sync z3 = si_sync z2" "only {state_key pre (ss_name (si_sync z2))} (store_of z2) (store_of z3)" for z3
    proof -
      have "anchored_site h cd sha256 pre view z3"
        using 2(1) that(1) by (rule anchored_state_write) (use that(2) apart in \<open>simp_all add: only_def name same_identity_keys [OF id]\<close>)
      then show ?thesis using id seq that ev evolves_trans [OF ev only_evolves] by (simp add: resumed_def name)
    qed
    show ?case
      by (rule wp_save_resumed_state [OF pol held]) (use state name d 1(1) in auto)
  next
    case (3 e z2)
    then show ?case using evolves_mono [OF 3(2), of "{state_key pre (ss_name (si_sync z))}" UNIV] 1(3) by (simp add: evolves_def)
  qed (simp add: lease_held_def held)
qed simp

end

text \<open>
  Claim C24: resuming after a restore is safe.  On a backend that stores what it acknowledges, whatever
  the lease answers and however often storage fails, no object that was in the bucket changes except
  the state object.  Success means that the restore was the latest one of this database and prefix, the
  state was fresh, the sequence number does not wrap, and the stream continues the restored lineage one
  past the restored sequence number, with a head that restores and a saved state that records it.  A
  failure leaves the state of the caller unchanged or, after the snapshot was published, at that head.
\<close>

theorem resume_owned_safe:
  assumes d: "durable_backend b view" and cd: "hadbp_codec cd" and pol: "retry_policy retry" and cap: "snapshot_within_cap sv"
    and held: "\<And>s. view (fst (ensure_held s)) = view s"
    and apart: "state_key pre (ss_name (si_sync z)) \<notin>
      range (live_key h pre (resumed_state restored db (si_sync z))) \<union> range (snap_key h pre (resumed_state restored db (si_sync z)))"
    and run: "resume_owned_after_restore retry b h j cd sha256 pre restored ensure_held db sv z = (z', r)"
  shows "(\<forall>k. view (store_of z) k \<noteq> None \<longrightarrow> k \<noteq> state_key pre (ss_name (si_sync z)) \<longrightarrow> view (store_of z') k = view (store_of z) k) \<and>
    (r = Inr () \<longrightarrow> rr_latest restored \<and> rr_prefix restored = pre \<and> rr_db_name restored = ss_name (si_sync z) \<and>
       rr_output restored = output_path (ss_db_dir (si_sync z)) (ss_db_file (si_sync z)) \<and> fresh_state (si_sync z) \<and> rr_seq restored \<noteq> -1 \<and>
       (\<exists>bs. state_json_bytes j (si_sync z') = Inr bs \<and> view (store_of z') (state_key pre (ss_name (si_sync z))) = Some bs)) \<and>
    (r = Inr () \<or> si_sync z' \<noteq> si_sync z \<longrightarrow>
       same_identity (resumed_state restored db (si_sync z)) (si_sync z') \<and> ss_current_seq (si_sync z') = rr_seq restored + 1 \<and>
       anchored_site h cd sha256 pre view z')"
proof -
  have sb: "storage_backend b view" using d by (rule durable_backend.axioms(1))
  from wp_run [OF storage_backend.resume_wp [OF sb d cd pol cap held apart] run] show ?thesis
    by (cases r) (auto simp: storage_backend.evolves_def [OF sb] storage_backend.resumed_def [OF sb] dest!: check_resumable_ok)
qed

text \<open>A restore of the one snapshot of \<open>demo_site\<close>, resumed under a lease that holds.\<close>

definition resume_site :: "(string \<times> bytes) list site" where
  "resume_site = demo_site\<lparr>si_sync := (case new_sync_state ''d'' ''app.db'' of Inr st \<Rightarrow> st | Inl e \<Rightarrow> demo_sync_state)\<rparr>"

definition demo_restored :: restore_result where
  "demo_restored =
     \<lparr>rr_seq = 1, rr_checksum = finalize (\<lambda>x. x) (zeros 512), rr_db_name = ''app'', rr_prefix = [], rr_output = ''d/app.db'',
      rr_lineage_id = Some ''l'', rr_latest = True\<rparr>"

lemma resume_site_fields:
  "ss_name (si_sync resume_site) = ''app''" "check_resumable [] demo_restored (si_sync resume_site) = Inr 2"
  "store_of resume_site = [(snap_key demo_hadb [] demo_sync_state 1, demo_published)]"
  by (simp_all add: resume_site_def new_sync_state_def new_with_paths_def file_stem_def check_resumable_def demo_restored_def fresh_state_def output_path_def
      demo_site_def)

lemma lineage_keys:
  assumes "ss_lineage_id st = Some ''l''" "ss_name st = ''app''"
  shows "build_state_changeset_key demo_hadb [] st g n = build_state_changeset_key demo_hadb [] demo_sync_state g n"
  by (rule changeset_key_cong) (simp_all add: assms)

lemma next_free:
  assumes "g = GENERATION_LIVE \<or> g = GENERATION_SNAPSHOT"
  shows "build_state_changeset_key demo_hadb [] demo_sync_state g 2 \<noteq> snap_key demo_hadb [] demo_sync_state 1"
proof -
  have "hex_pad 16 (unat (2 :: u64)) \<noteq> hex_pad 16 (unat (1 :: u64))"
    using from_str_radix16_hex16 [of 2] from_str_radix16_hex16 [of 1] by fastforce
  then show ?thesis
    using assms
    by (auto simp: build_state_changeset_key_def build_lineage_changeset_key_def hex4_generations GENERATION_LIVE_def GENERATION_SNAPSHOT_def)
qed

lemma resume_runs:
  "\<exists>z'. resume_owned_after_restore (retry_times 3) alist_backend demo_hadb demo_json demo_wire (\<lambda>x. x) [] demo_restored (return ()) (Some boot_db)
     boot_sight resume_site = (z', Inr ())"
proof -
  let ?ns = "(si_sync resume_site)\<lparr>ss_lineage_id := rr_lineage_id demo_restored\<rparr>"
  let ?z1 = "resume_site\<lparr>si_sync := resumed_state demo_restored (Some boot_db) (si_sync resume_site)\<rparr>"
  have lin: "rr_lineage_id demo_restored = Some ''l''" by (simp add: demo_restored_def)
  have keys: "build_state_changeset_key demo_hadb [] ?ns g n = build_state_changeset_key demo_hadb [] demo_sync_state g n" for g n
    by (rule lineage_keys) (simp_all add: lin resume_site_fields)
  have unused: "ensure_unused alist_backend demo_hadb [] ?ns 2 g (store_of resume_site) = (store_of resume_site, Inr ())"
    if "g = GENERATION_LIVE \<or> g = GENERATION_SNAPSHOT" for g
    using next_free [OF that] unfolding ensure_unused_def keys
    by (simp add: and_then_def storage_op_def map_error_def alist_backend_def resume_site_fields return_def)
  obtain p where p: "prepare_snapshot demo_wire (\<lambda>x. x) boot_sight ?z1 = (with_blocker True ?z1, Inr p)" "ps_seq p = 2"
    using boot_prepared [of "\<lambda>x. x" ?z1] by (auto simp: resumed_state_def demo_restored_def)
  let ?key = "snap_key demo_hadb [] (si_sync (with_blocker True ?z1)) (ps_seq p)"
  have "?key = snap_key demo_hadb [] demo_sync_state 2"
    unfolding p(2) by (rule lineage_keys) (simp_all add: resumed_state_def lin resume_site_fields)
  then have "map_of (store_of resume_site) ?key = None" using next_free [of GENERATION_SNAPSHOT] by (simp add: resume_site_fields)
  then have put: "\<exists>s'. retry_times 3 (put_changeset_if_absent alist_backend ?key (ps_bytes p)) (store_of resume_site) = (s', Inr ())"
    by (simp add: numeral_eq_Suc put_changeset_if_absent_def storage_op_def map_error_def and_then_def return_def alist_backend_def)
  have save: "\<exists>z'. save_resumed_state (retry_times 3) alist_backend demo_json [] (return ()) z = (z', Inr ())" for z
    by (simp add: save_resumed_state_def on_site_store_def in_world_def on_world_def on_store_with_def and_then_def return_def sync_state_of_def from_result_def
        state_json_bytes_def demo_json_def storage_op_def map_error_def alist_backend_def numeral_eq_Suc)
  have take: "\<exists>z'. take_snapshot_with_retry_guarded (retry_times 3) alist_backend demo_hadb demo_wire (\<lambda>x. x) [] (Some (return ())) boot_sight ?z1 = (z', Inr ())"
    unfolding take_snapshot_with_retry_guarded_def lease_held_def option.case and_then_return_left using p(1) put
    by (auto simp: Let_def and_then_def sync_state_of_def on_site_store_def in_world_def on_world_def on_store_with_def finish_snapshot_def update_sync_def)
  have quiet: "on_site_store m z = (z, Inr ())" if "m (store_of z) = (store_of z, Inr ())" for m and z :: "(string \<times> bytes) list site"
    using that by (simp add: on_site_store_def in_world_def on_world_def on_store_with_def)
  have q: "on_site_store (ensure_unused alist_backend demo_hadb [] ?ns 2 GENERATION_LIVE) resume_site = (resume_site, Inr ())"
      "on_site_store (ensure_unused alist_backend demo_hadb [] ?ns 2 GENERATION_SNAPSHOT) resume_site = (resume_site, Inr ())"
      "on_site_store (return ()) resume_site = (resume_site, Inr ())"
    by (auto intro!: quiet unused simp: return_def)
  from take save show ?thesis
    unfolding resume_owned_after_restore_def
    by (auto simp: and_then_def q [unfolded lin] lin sync_state_of_def from_result_def resume_site_fields Let_def fun_cong [OF return_def] update_sync_def attempt_def)
qed

theorem resume_owned_safe_witness:
  "\<exists>z'. resume_owned_after_restore (retry_times 3) alist_backend demo_hadb demo_json demo_wire (\<lambda>x. x) [] demo_restored (return ()) (Some boot_db)
     boot_sight resume_site = (z', Inr ()) \<and> ss_current_seq (si_sync z') = 2 \<and> ss_lineage_id (si_sync z') = Some ''l'' \<and>
     map_of (store_of z') (snap_key demo_hadb [] demo_sync_state 1) = Some demo_published \<and>
     anchored_site demo_hadb demo_wire (\<lambda>x. x) [] map_of z'"
proof -
  obtain z' where run: "resume_owned_after_restore (retry_times 3) alist_backend demo_hadb demo_json demo_wire (\<lambda>x. x) [] demo_restored (return ())
      (Some boot_db) boot_sight resume_site = (z', Inr ())" using resume_runs by blast
  let ?st = "resumed_state demo_restored (Some boot_db) (si_sync resume_site)"
  have st: "ss_lineage_id ?st = Some ''l''" "ss_name ?st = ''app''" by (simp_all add: resumed_state_def demo_restored_def resume_site_fields)
  have apart: "state_key [] (ss_name (si_sync resume_site)) \<notin> range (live_key demo_hadb [] ?st) \<union> range (snap_key demo_hadb [] ?st)"
    using state_key_apart [OF st] by (simp only: resume_site_fields)
  have "snap_key demo_hadb [] demo_sync_state 1 \<noteq> state_key [] ''app''"
    using state_key_apart [OF st, of "[]" demo_hadb] lineage_keys [OF st, of GENERATION_SNAPSHOT 1] by (metis UnI2 rangeI)
  moreover have "rr_seq demo_restored + 1 = 2" by (simp add: demo_restored_def)
  ultimately show ?thesis
    using resume_owned_safe [OF alist_durable.durable_backend_axioms demo_codec_ok bounded.retry_policy_axioms boot_cap _ apart run] st run
    by (auto simp: return_def resume_site_fields same_identity_def)
qed

end
