(* ===== verification/Follower.thy ===== *)
theory Follower
  imports PublishContent
begin

text \<open>
  Followers (\<^verbatim>\<open>sync.rs\<close> and \<^verbatim>\<open>replay_sink.rs\<close>): pulling new changesets into a database file or into a
  page-replay sink, and restoring on top of an external snapshot source.

  Downloads run concurrently.  The argument \<open>pick\<close> chooses which of the pending downloads completes
  next, so a theorem for every \<open>pick\<close> covers every completion order; each download is one atomic read.
  A sink and a snapshot source are the caller's code: they are arguments.
\<close>

section \<open>Concurrent downloads\<close>

definition PULL_CONCURRENCY :: nat where
  "PULL_CONCURRENCY = 8"

definition download_one :: "'s backend \<Rightarrow> string \<Rightarrow> nat \<Rightarrow> 's \<Rightarrow> 's \<times> nat \<times> (failure + bytes)" where
  "download_one b key idx s =
     (case b_get b key s of
        (s', Inl e) \<Rightarrow> (s', idx, Inl [Message e])
      | (s', Inr None) \<Rightarrow> (s', idx, Inl [Message (''key '' @ key @ '' not found'')])
      | (s', Inr (Some d)) \<Rightarrow> (s', idx, Inr d))"

text \<open>Which position of the pending list completes next.\<close>

definition chosen :: "(nat list \<Rightarrow> nat) \<Rightarrow> nat list \<Rightarrow> nat" where
  "chosen pick pending = pick pending mod length pending"

definition without :: "nat \<Rightarrow> 'a list \<Rightarrow> 'a list" where
  "without i xs = take i xs @ drop (Suc i) xs"

lemma chosen_less [simp]: "pending \<noteq> [] \<Longrightarrow> chosen pick pending < length pending"
  by (simp add: chosen_def)

lemma length_without [simp]: "i < length xs \<Longrightarrow> length (without i xs) = length xs - 1"
  by (simp add: without_def min_def)

lemma mset_without: "i < length xs \<Longrightarrow> add_mset (xs ! i) (mset (without i xs)) = mset xs"
  by (metis id_take_nth_drop mset.simps(2) mset_append union_mset_add_mset_right without_def)

function download_loop ::
    "(nat list \<Rightarrow> nat) \<Rightarrow> 's backend \<Rightarrow> discovered list \<Rightarrow> nat list \<Rightarrow> nat \<Rightarrow> (failure + bytes) option list \<Rightarrow> 's \<Rightarrow>
      's \<times> (failure + bytes) option list" where
  "download_loop pick b files pending next_idx results s =
     (if pending = [] then (s, results)
      else let i = chosen pick pending in
        case download_one b (dc_key (files ! (pending ! i))) (pending ! i) s of (s', idx, data) \<Rightarrow>
          if next_idx < length files
          then download_loop pick b files (without i pending @ [next_idx]) (next_idx + 1) (results[idx := Some data]) s'
          else download_loop pick b files (without i pending) next_idx (results[idx := Some data]) s')"
  by auto
termination
  by (relation "measure (\<lambda>(_, _, files, pending, next_idx, _, _). length pending + (length files - next_idx))") auto

declare download_loop.simps [simp del]

text \<open>The result is \<open>None\<close> where the code would panic because a download is missing.\<close>

definition download_parallel ::
    "(nat list \<Rightarrow> nat) \<Rightarrow> 's backend \<Rightarrow> discovered list \<Rightarrow> nat \<Rightarrow> 's \<Rightarrow> 's \<times> (failure + bytes) list option" where
  "download_parallel pick b files concurrency s =
     (if files = [] then (s, Some [])
      else if length files = 1 then (case download_one b (dc_key (files ! 0)) 0 s of (s', _, fetched) \<Rightarrow> (s', Some [fetched]))
      else let first = min concurrency (length files) in
        case download_loop pick b files [0..<first] first (replicate (length files) None) s of (s', results) \<Rightarrow> (s', those results))"

section \<open>Decoding and verification\<close>

record pull_cursor =
  pu_seq :: u64
  pu_checksum :: u64

record decoded_pull =
  dq_seq :: u64
  dq_key :: string
  dq_changeset :: changeset

fun decode_pulled :: "codec \<Rightarrow> discovered list \<Rightarrow> (failure + bytes) list \<Rightarrow> failure + decoded_pull list" where
  "decode_pulled cd (file # files) (Inl e # downloaded) = Inl e"
| "decode_pulled cd (file # files) (Inr data # downloaded) =
     (case decode_sqlite_changeset cd data of
        Inl e \<Rightarrow> Inl [Message ''Failed to decode changeset'']
      | Inr cs \<Rightarrow> rbind (decode_pulled cd files downloaded) (\<lambda>rest. Inr (\<lparr>dq_seq = dc_seq file, dq_key = dc_key file, dq_changeset = cs\<rparr> # rest)))"
| "decode_pulled cd _ _ = Inr []"

definition download_decode_pull_changesets ::
    "(nat list \<Rightarrow> nat) \<Rightarrow> 's backend \<Rightarrow> codec \<Rightarrow> discovered list \<Rightarrow> ('s, failure, decoded_pull list) action" where
  "download_decode_pull_changesets pick b cd files =
     (\<lambda>s. case download_parallel pick b files PULL_CONCURRENCY s of
        (s', None) \<Rightarrow> (s', Inl [Message ''panic: all downloads completed''])
      | (s', Some downloaded) \<Rightarrow> (s', decode_pulled cd files downloaded))"

fun verify_decoded_pull_chain :: "codec \<Rightarrow> decoded_pull list \<Rightarrow> pull_cursor \<Rightarrow> failure + pull_cursor" where
  "verify_decoded_pull_chain cd [] cursor = Inr cursor"
| "verify_decoded_pull_chain cd (entry # es) cursor =
     (if dq_seq entry \<noteq> pu_seq cursor + 1 then Inl [Message ''incremental gap'']
      else if \<not> c_verify_chain cd (pu_checksum cursor) (dq_changeset entry) then Inl [Message ''checksum chain broken'']
      else verify_decoded_pull_chain cd es \<lparr>pu_seq = dq_seq entry, pu_checksum = cs_checksum (dq_changeset entry)\<rparr>)"

section \<open>Pulling into a file\<close>

definition apply_decoded_to_path :: "changeset \<Rightarrow> string \<Rightarrow> ('s world, failure, unit) action" where
  "apply_decoded_to_path cs path =
     and_then (file_at path) (\<lambda>db.
       case apply_decoded_changeset_to_db cs db of Inl e \<Rightarrow> raise [Changeset e] | Inr f \<Rightarrow> write_file path f)"

definition pulled_entries ::
    "(nat list \<Rightarrow> nat) \<Rightarrow> 's backend \<Rightarrow> 's hadb \<Rightarrow> codec \<Rightarrow> string \<Rightarrow> string \<Rightarrow> pull_cursor \<Rightarrow> ('s, failure, decoded_pull list \<times> pull_cursor) action" where
  "pulled_entries pick b h cd pre db_name current =
     and_then (active_lineage_id b h pre db_name) (\<lambda>lineage_id.
     and_then (discover_after_in_namespace b h pre db_name lineage_id GENERATION_LIVE (pu_seq current)) (\<lambda>new_files.
       if new_files = [] then return ([], current)
       else and_then (download_decode_pull_changesets pick b cd new_files) (\<lambda>decoded.
         and_then (from_result (verify_decoded_pull_chain cd decoded current)) (\<lambda>verified_cursor.
           return (decoded, verified_cursor)))))"

definition pull_incremental ::
    "(nat list \<Rightarrow> nat) \<Rightarrow> 's backend \<Rightarrow> 's hadb \<Rightarrow> codec \<Rightarrow> string \<Rightarrow> string \<Rightarrow> string \<Rightarrow> pull_cursor \<Rightarrow> ('s world, failure, pull_cursor) action" where
  "pull_incremental pick b h cd pre db_name db_path current =
     and_then (on_world (pulled_entries pick b h cd pre db_name current)) (\<lambda>(decoded, verified_cursor).
     and_then (fold_actions (\<lambda>entry _. apply_decoded_to_path (dq_changeset entry) db_path) decoded ()) (\<lambda>_.
       return verified_cursor))"

section \<open>Pulling into a sink\<close>

record 'k sink =
  sk_begin :: "('k, failure, unit) action"
  sk_apply_page :: "u32 \<Rightarrow> bytes \<Rightarrow> ('k, failure, unit) action"
  sk_commit_changeset :: "u64 \<Rightarrow> ('k, failure, unit) action"
  sk_finalize :: "('k, failure, unit) action"
  sk_abort :: "('k, failure, unit) action"

definition on_backend :: "('s, 'e, 'a) action \<Rightarrow> ('s \<times> 'k, 'e, 'a) action" where
  "on_backend m = (\<lambda>(s, k). case m s of (s', r) \<Rightarrow> ((s', k), r))"

definition on_sink :: "('k, 'e, 'a) action \<Rightarrow> ('s \<times> 'k, 'e, 'a) action" where
  "on_sink m = (\<lambda>(s, k). case m k of (k', r) \<Rightarrow> ((s, k'), r))"

definition try_abort :: "'k sink \<Rightarrow> failure \<Rightarrow> ('s \<times> 'k, failure, 'a) action" where
  "try_abort sk primary = and_then (attempt (on_sink (sk_abort sk))) (\<lambda>_. raise primary)"

definition replay_page :: "'k sink \<Rightarrow> page_entry \<Rightarrow> ('k, failure, unit) action" where
  "replay_page sk page =
     (if pe_data page = [] then return ()
      else if 2 ^ 32 \<le> unat (pid_u64 (pe_page_id page)) then raise [Message ''page_id exceeds u32'']
      else sk_apply_page sk (ucast (pid_u64 (pe_page_id page))) (pe_data page))"

definition replay_changeset :: "'k sink \<Rightarrow> decoded_pull \<Rightarrow> ('k, failure, unit) action" where
  "replay_changeset sk entry =
     and_then (fold_actions (\<lambda>page _. replay_page sk page) (cs_pages (dq_changeset entry)) ()) (\<lambda>_.
       sk_commit_changeset sk (dq_seq entry))"

definition pull_incremental_into_sink_inner ::
    "(nat list \<Rightarrow> nat) \<Rightarrow> 's backend \<Rightarrow> 's hadb \<Rightarrow> codec \<Rightarrow> string \<Rightarrow> string \<Rightarrow> 'k sink \<Rightarrow> pull_cursor \<Rightarrow> ('s \<times> 'k, failure, pull_cursor) action" where
  "pull_incremental_into_sink_inner pick b h cd pre db_name sk current =
     and_then (on_backend (pulled_entries pick b h cd pre db_name current)) (\<lambda>(decoded, verified_cursor).
     and_then (on_sink (fold_actions (\<lambda>entry _. replay_changeset sk entry) decoded ())) (\<lambda>_.
       return verified_cursor))"

definition pull_incremental_into_sink ::
    "(nat list \<Rightarrow> nat) \<Rightarrow> 's backend \<Rightarrow> 's hadb \<Rightarrow> codec \<Rightarrow> string \<Rightarrow> string \<Rightarrow> 'k sink \<Rightarrow> pull_cursor \<Rightarrow> ('s \<times> 'k, failure, pull_cursor) action" where
  "pull_incremental_into_sink pick b h cd pre db_name sk current =
     and_then (attempt (on_sink (sk_begin sk))) (\<lambda>begun.
       case begun of
         Inl begin_err \<Rightarrow> try_abort sk begin_err
       | Inr _ \<Rightarrow>
           and_then (attempt (pull_incremental_into_sink_inner pick b h cd pre db_name sk current)) (\<lambda>result.
             case result of
               Inl e \<Rightarrow> try_abort sk e
             | Inr applied_cursor \<Rightarrow>
                 and_then (attempt (on_sink (sk_finalize sk))) (\<lambda>finalized.
                   case finalized of Inl finalize_err \<Rightarrow> try_abort sk finalize_err | Inr _ \<Rightarrow> return applied_cursor)))"

section \<open>Restoring on a snapshot source\<close>

record snapshot_checkpoint =
  sc_seq :: u64
  sc_checksum :: u64

text \<open>One incremental on top of the materialized base.\<close>

definition apply_after_checkpoint ::
    "'s backend \<Rightarrow> codec \<Rightarrow> string \<Rightarrow> discovered \<Rightarrow> pull_cursor \<Rightarrow> ('s world, failure, pull_cursor) action" where
  "apply_after_checkpoint b cd staged inc cursor =
     (if dc_seq inc \<noteq> pu_seq cursor + 1 then raise [Message ''restore incremental gap'']
      else and_then (get_required b (dc_key inc)) (\<lambda>data.
        case decode_sqlite_changeset cd data of
          Inl e \<Rightarrow> raise [Message ''Failed to decode changeset'']
        | Inr cs \<Rightarrow>
            if \<not> c_verify_chain cd (pu_checksum cursor) cs then raise [Message ''Checksum chain broken'']
            else and_then (apply_decoded_to_path cs staged) (\<lambda>_. return \<lparr>pu_seq = dc_seq inc, pu_checksum = cs_checksum cs\<rparr>)))"

definition restore_with_snapshot_source ::
    "'s backend \<Rightarrow> 's hadb \<Rightarrow> codec \<Rightarrow> nat \<Rightarrow> nat \<Rightarrow> string \<Rightarrow> string \<Rightarrow> string \<Rightarrow> string \<Rightarrow>
      (string \<Rightarrow> ('s world, failure, snapshot_checkpoint) action) \<Rightarrow> ('s world, failure, u64) action" where
  "restore_with_snapshot_source b h cd pid n pre db_name dir file materialize =
     (let staged = staged_path dir file pid n; out = output_path dir file in
      with_staged staged
        (and_then (materialize staged) (\<lambda>checkpoint.
         and_then (on_world (storage_op (h_discover_after h pre db_name (sc_seq checkpoint)))) (\<lambda>incrementals.
         if incrementals = []
         then and_then (verify_sqlite_integrity h staged) (\<lambda>_. and_then (rename_file staged out) (\<lambda>_. return (sc_seq checkpoint)))
         else and_then (fold_actions (apply_after_checkpoint b cd staged) incrementals \<lparr>pu_seq = sc_seq checkpoint, pu_checksum = sc_checksum checkpoint\<rparr>) (\<lambda>cursor.
              and_then (verify_sqlite_integrity h staged) (\<lambda>_. and_then (rename_file staged out) (\<lambda>_. return (pu_seq cursor))))))))"

section \<open>Decoded entries\<close>

text \<open>What was decoded is what is stored.\<close>

definition stored_entries :: "codec \<Rightarrow> (string \<rightharpoonup> bytes) \<Rightarrow> discovered list \<Rightarrow> decoded_pull list \<Rightarrow> bool" where
  "stored_entries cd objects files es \<longleftrightarrow>
     list_all2 (\<lambda>f e. dq_seq e = dc_seq f \<and> dq_key e = dc_key f \<and>
       (\<exists>bs. objects (dc_key f) = Some bs \<and> decode_sqlite_changeset cd bs = Inr (dq_changeset e))) files es"

lemma decode_pulled_stored:
  assumes "decode_pulled cd files xs = Inr es" "length xs = length files" "\<And>i d. i < length files \<Longrightarrow> xs ! i = Inr d \<Longrightarrow> objects (dc_key (files ! i)) = Some d"
  shows "stored_entries cd objects files es"
  using assms
proof (induction cd files xs arbitrary: es rule: decode_pulled.induct)
  case (2 cd f files data downloaded)
  then obtain cs rest where r: "decode_sqlite_changeset cd data = Inr cs" "decode_pulled cd files downloaded = Inr rest"
      "es = \<lparr>dq_seq = dc_seq f, dq_key = dc_key f, dq_changeset = cs\<rparr> # rest" by (auto split: sum.splits)
  have "stored_entries cd objects files rest"
    using 2(1) [OF r(1,2)] 2(3,4) by (metis Suc_less_eq length_Cons nat.inject nth_Cons_Suc)
  then show ?case using r 2(4) [of 0 data] by (simp add: stored_entries_def)
qed (auto simp: stored_entries_def)

section \<open>Downloads complete in every order\<close>

lemma those_all: "(\<And>i. i < length rs \<Longrightarrow> \<exists>r. rs ! i = Some r \<and> ok i r) \<Longrightarrow> \<exists>xs. those rs = Some xs \<and> length xs = length rs \<and> (\<forall>i<length xs. ok i (xs ! i))"
proof (induction rs arbitrary: ok)
  case (Cons r rs)
  from Cons.prems [of 0] obtain x where x: "r = Some x" "ok 0 x" by auto
  from Cons.IH [of "\<lambda>i. ok (Suc i)"] Cons.prems [of "Suc i" for i] obtain xs where
    xs: "those rs = Some xs" "length xs = length rs" "\<forall>i<length xs. ok (Suc i) (xs ! i)" by fastforce
  then have "those (r # rs) = Some (x # xs) \<and> length (x # xs) = length (r # rs) \<and> (\<forall>i<length (x # xs). ok i ((x # xs) ! i))"
    using x by (auto simp: nth_Cons split: nat.split)
  then show ?case by blast
qed simp

context storage_backend
begin

lemma download_one_view:
  assumes "download_one b key idx s = (s', j, data)"
  shows "view s' = view s" "j = idx" "\<And>d. data = Inr d \<Longrightarrow> view s key = Some d"
  using assms get [of key s] by (auto simp: download_one_def split: prod.splits sum.splits option.splits)

text \<open>The loop: what is pending or not yet started has no result, everything else has one that is \<open>ok\<close>.\<close>

definition loop_inv :: "(nat \<Rightarrow> failure + bytes \<Rightarrow> bool) \<Rightarrow> discovered list \<Rightarrow> nat list \<Rightarrow> nat \<Rightarrow> (failure + bytes) option list \<Rightarrow> bool" where
  "loop_inv ok files pending next_idx results \<longleftrightarrow>
     length results = length files \<and> next_idx \<le> length files \<and> distinct pending \<and> set pending \<subseteq> {..<next_idx} \<and>
     (pending \<noteq> [] \<or> next_idx = length files) \<and>
     (\<forall>i<next_idx. i \<in> set pending \<or> (\<exists>r. results ! i = Some r \<and> ok i r))"

lemma set_without: "distinct xs \<Longrightarrow> i < length xs \<Longrightarrow> set (without i xs) = set xs - {xs ! i} \<and> distinct (without i xs)"
proof -
  assume d: "distinct xs" and i: "i < length xs"
  have m: "add_mset (xs ! i) (mset (without i xs)) = mset xs" using i by (rule mset_without)
  then have dw: "distinct (xs ! i # without i xs)" using d by (metis mset.simps(2) mset_eq_imp_distinct_iff)
  have "set xs = insert (xs ! i) (set (without i xs))" using m by (metis list.simps(15) mset.simps(2) set_mset_mset)
  then show ?thesis using dw by auto
qed

lemma loop_inv_step:
  assumes "loop_inv ok files pending next_idx results" "pending \<noteq> []" "ok (pending ! chosen pick pending) data"
  defines "rest \<equiv> without (chosen pick pending) pending" and "results' \<equiv> results[pending ! chosen pick pending := Some data]"
  shows "next_idx < length files \<Longrightarrow> loop_inv ok files (rest @ [next_idx]) (next_idx + 1) results'"
    and "\<not> next_idx < length files \<Longrightarrow> loop_inv ok files rest next_idx results'"
proof -
  let ?i = "chosen pick pending"
  have i: "?i < length pending" using assms(2) by simp
  have I: "length results = length files" "next_idx \<le> length files" "distinct pending" "set pending \<subseteq> {..<next_idx}"
      "\<And>i. i < next_idx \<Longrightarrow> i \<in> set pending \<or> (\<exists>r. results ! i = Some r \<and> ok i r)"
    using assms(1) by (auto simp: loop_inv_def)
  have w: "set rest = set pending - {pending ! ?i}" "distinct rest" using set_without [OF I(3) i] by (simp_all add: rest_def)
  have idx: "pending ! ?i < next_idx" using I(4) nth_mem [OF i] by auto
  have "j \<in> set rest \<or> (\<exists>r. results' ! j = Some r \<and> ok j r)" if "j < next_idx" for j
    using I(5) [OF that] w(1) assms(3) idx I(1,2) by (auto simp: results'_def nth_list_update)
  note R = this
  show "loop_inv ok files (rest @ [next_idx]) (next_idx + 1) results'" if "next_idx < length files"
    using that w I(1,4) R by (fastforce simp: loop_inv_def results'_def less_Suc_eq)
  show "loop_inv ok files rest next_idx results'" if "\<not> next_idx < length files"
    using that w I(1,2,4) R by (fastforce simp: loop_inv_def results'_def)
qed

lemma download_loop_complete:
  assumes ok: "\<And>i s s' j data. view s = objects \<Longrightarrow> i < length files \<Longrightarrow> download_one b (dc_key (files ! i)) i s = (s', j, data) \<Longrightarrow> ok i data"
    and "loop_inv ok files pending next_idx results" "view s = objects" "download_loop pick b files pending next_idx results s = (s', rs)"
  shows "view s' = objects \<and> length rs = length files \<and> (\<forall>i<length files. \<exists>r. rs ! i = Some r \<and> ok i r)"
  using assms(2-)
proof (induction "length pending + (length files - next_idx)" arbitrary: pending next_idx results s rule: less_induct)
  case less
  show ?case
  proof (cases "pending = []")
    case True
    then show ?thesis using less.prems by (subst (asm) download_loop.simps) (auto simp: loop_inv_def)
  next
    case False
    let ?i = "chosen pick pending" and ?rest = "without (chosen pick pending) pending"
    have i: "?i < length pending" using False by simp
    have idx: "pending ! ?i < length files" using less.prems(1) nth_mem [OF i] by (auto simp: loop_inv_def)
    obtain s1 j data where d: "download_one b (dc_key (files ! (pending ! ?i))) (pending ! ?i) s = (s1, j, data)" by (metis prod_cases3)
    note v = download_one_view [OF d]
    have "ok (pending ! ?i) data" by (rule ok [OF less.prems(2) idx d])
    note step = loop_inv_step [OF less.prems(1) False this]
    have s1: "view s1 = objects" using v(1) less.prems(2) by simp
    have run: "(if next_idx < length files then download_loop pick b files (?rest @ [next_idx]) (next_idx + 1) (results[pending ! ?i := Some data]) s1
        else download_loop pick b files ?rest next_idx (results[pending ! ?i := Some data]) s1) = (s', rs)"
      using less.prems(3) False d v(2) by (subst (asm) download_loop.simps) (simp add: Let_def)
    show ?thesis
    proof (cases "next_idx < length files")
      case True
      with run i show ?thesis by (intro less.hyps [OF _ step(1) s1]) auto
    next
      case nl: False
      with run i show ?thesis by (intro less.hyps [OF _ step(2) s1]) auto
    qed
  qed
qed

text \<open>Every download yields one result, in the order of the files, whatever completes first.\<close>

lemma download_parallel_complete:
  assumes ok: "\<And>i s s' j data. view s = objects \<Longrightarrow> i < length files \<Longrightarrow> download_one b (dc_key (files ! i)) i s = (s', j, data) \<Longrightarrow> ok i data"
    and "view s = objects" "0 < c" "download_parallel pick b files c s = (s', r)"
  shows "view s' = objects \<and> (\<exists>xs. r = Some xs \<and> length xs = length files \<and> (\<forall>i<length files. ok i (xs ! i)))"
proof (cases "length files \<le> 1")
  case True
  then consider "files = []" | "length files = 1" by (metis le_SucE le_zero_eq length_0_conv One_nat_def)
  then show ?thesis
  proof cases
    case 2
    obtain s1 j data where d: "download_one b (dc_key (files ! 0)) 0 s = (s1, j, data)" by (metis prod_cases3)
    moreover have "files \<noteq> []" using 2 by auto
    ultimately have "(s', r) = (s1, Some [data])" using 2 assms(4) unfolding download_parallel_def by simp
    then have "r = Some [data]" "s' = s1" by simp_all
    with ok [OF assms(2) _ d] 2 download_one_view(1) [OF d] assms(2) show ?thesis by auto
  qed (use assms(2,4) in \<open>auto simp: download_parallel_def\<close>)
next
  case False
  let ?n = "min c (length files)"
  obtain s1 rs where run: "download_loop pick b files [0..<?n] ?n (replicate (length files) None) s = (s1, rs)" by fastforce
  have "loop_inv ok files [0..<?n] ?n (replicate (length files) None)"
    using False assms(3) by (auto simp: loop_inv_def)
  from download_loop_complete [OF ok this assms(2) run] have
    R: "view s1 = objects" "length rs = length files" "\<And>i. i < length rs \<Longrightarrow> \<exists>r. rs ! i = Some r \<and> ok i r" by auto
  obtain xs where "those rs = Some xs" "length xs = length rs" "\<forall>i<length xs. ok i (xs ! i)" using those_all [of rs ok] R(3) by auto
  moreover have "files \<noteq> [] \<and> length files \<noteq> 1" using False by auto
  then have "(s', r) = (s1, those rs)" using assms(4) run unfolding download_parallel_def by (simp add: Let_def)
  ultimately show ?thesis using R(1,2) by auto
qed

lemma wp_download_decode:
  assumes "\<And>es s'. view s' = view s \<Longrightarrow> stored_entries cd (view s) files es \<Longrightarrow> Q es s'" "\<And>e s'. view s' = view s \<Longrightarrow> E e s'"
  shows "wp (download_decode_pull_changesets pick b cd files) Q E s"
proof -
  obtain s1 r where run: "download_parallel pick b files PULL_CONCURRENCY s = (s1, r)" by fastforce
  let ?ok = "\<lambda>i data. \<forall>d. data = Inr d \<longrightarrow> view s (dc_key (files ! i)) = Some d"
  have "view s1 = view s \<and> (\<exists>xs. r = Some xs \<and> length xs = length files \<and> (\<forall>i<length files. ?ok i (xs ! i)))"
    by (rule download_parallel_complete [OF _ refl _ run]) (auto simp: PULL_CONCURRENCY_def dest: download_one_view)
  then obtain xs where xs: "view s1 = view s" "r = Some xs" "length xs = length files" "\<And>i d. i < length files \<Longrightarrow> xs ! i = Inr d \<Longrightarrow> view s (dc_key (files ! i)) = Some d"
    by auto
  show ?thesis
    using xs run assms decode_pulled_stored [of cd files xs _ "view s"]
    by (cases "decode_pulled cd files xs") (auto simp: wp_def download_decode_pull_changesets_def)
qed

end

text \<open>A verified chain of stored entries, applied in turn, is what the linear path of a restore computes.\<close>

lemma verified_applies:
  assumes "stored_entries cd objects files (e # es)" "verify_decoded_pull_chain cd (e # es) cursor = Inr cursor'"
    "apply_decoded_changeset_to_db (dq_changeset e) (Some db) = Inr db1"
  obtains f fs where "files = f # fs" "stored_entries cd objects fs es"
    "verify_decoded_pull_chain cd es \<lparr>pu_seq = dq_seq e, pu_checksum = cs_checksum (dq_changeset e)\<rparr> = Inr cursor'"
    "linear_applied cd objects files (pu_seq cursor, pu_checksum cursor, db) =
       linear_applied cd objects fs (dq_seq e, cs_checksum (dq_changeset e), db1)"
  using assms
  by (auto simp: stored_entries_def list_all2_Cons2 apply_changeset_to_db_def split: if_splits)

section \<open>Pulling into a file\<close>

lemma write_file_faultless:
  assumes "\<And>w'. w_store w' = w_store w \<Longrightarrow> w_files w' = (w_files w)(path \<mapsto> bs) \<Longrightarrow> (w_faults w = [] \<Longrightarrow> w_faults w' = []) \<Longrightarrow> Q () w'"
    and "\<And>e w' junk. w_store w' = w_store w \<Longrightarrow> w_files w' = (w_files w)(path := junk) \<Longrightarrow> w_faults w \<noteq> [] \<Longrightarrow> E e w'"
  shows "wp (write_file path bs) Q E w"
  using assms by (cases "w_faults w") (auto simp: wp_def write_file_def next_fault_def split: option.split)

context hadbp_codec
begin

lemma decoded_applies_to_db:
  assumes "decode_sqlite_changeset cd bs = Inr cs"
  obtains db' where "apply_decoded_changeset_to_db cs (Some db) = Inr db'"
  using decoded_applies [OF assms refl, of db] assms by (auto simp: apply_changeset_to_db_def split: if_splits sum.splits)

lemma wp_apply_entries:
  assumes "stored_entries cd objects files es" "verify_decoded_pull_chain cd es cursor = Inr cursor'" "w_files w path = Some db"
  shows "wp (fold_actions (\<lambda>entry _. apply_decoded_to_path (dq_changeset entry) path) es ())
     (\<lambda>_ w'. w_store w' = w_store w \<and> (\<exists>db'. w_files w' = (w_files w)(path \<mapsto> db') \<and>
        linear_applied cd objects files (pu_seq cursor, pu_checksum cursor, db) = Some (pu_seq cursor', pu_checksum cursor', db')))
     (\<lambda>_ w'. w_store w' = w_store w \<and> (\<exists>junk. w_files w' = (w_files w)(path := junk)) \<and> w_faults w \<noteq> []) w"
  using assms
proof (induction es arbitrary: files cursor w db)
  case Nil
  then show ?case by (auto simp: stored_entries_def wp_return fun_upd_idem)
next
  case (Cons e es)
  from Cons.prems(1) obtain bs where "decode_sqlite_changeset cd bs = Inr (dq_changeset e)"
    by (auto simp: stored_entries_def list_all2_Cons2)
  then obtain db1 where db1: "apply_decoded_changeset_to_db (dq_changeset e) (Some db) = Inr db1" using decoded_applies_to_db by blast
  from verified_applies [OF Cons.prems(1,2) db1] obtain f fs where
    F: "files = f # fs" "stored_entries cd objects fs es"
      "verify_decoded_pull_chain cd es \<lparr>pu_seq = dq_seq e, pu_checksum = cs_checksum (dq_changeset e)\<rparr> = Inr cursor'"
      "linear_applied cd objects files (pu_seq cursor, pu_checksum cursor, db) = linear_applied cd objects fs (dq_seq e, cs_checksum (dq_changeset e), db1)" .
  show ?case
    unfolding fold_actions.simps wp_and_then apply_decoded_to_path_def [of "dq_changeset e"] wp_file_at Cons.prems(3) db1 sum.case
  proof (rule write_file_faultless, goal_cases)
    case (1 w1)
    have f1: "w_files w1 path = Some db1" using 1 by simp
    have upd: "(w_files w1)(path := x) = (w_files w)(path := x)" for x using 1(2) by simp
    from Cons.IH [OF F(2,3) f1, unfolded upd] show ?case
      by (rule wp_mono) (use 1(1,3) F(4) in \<open>auto simp: fun_upd_def cong: if_cong\<close>)
  next
    case (2 e w1 junk)
    then show ?case by auto
  qed
qed

end

context changeset_store
begin

lemma wp_pulled_entries:
  assumes "\<And>files es cursor s'. view s' = view s \<Longrightarrow> stored_entries cd (view s) files es \<Longrightarrow> verify_decoded_pull_chain cd es current = Inr cursor \<Longrightarrow> Q (es, cursor) s'"
    and "\<And>e s'. view s' = view s \<Longrightarrow> E e s'"
  shows "wp (pulled_entries pick b h cd pre db_name current) Q E s"
  unfolding pulled_entries_def wp_and_then
proof (rule wp_active_lineage, goal_cases)
  case (1 l s1)
  show ?case
  proof (rule wp_discover, goal_cases)
    case (1 ds s2)
    have v: "view s2 = view s" using 1 \<open>view s1 = view s\<close> by simp
    have none: "Q ([], current) s2" using assms(1) [OF v, of "[]" "[]"] by (simp add: stored_entries_def)
    have "wp (download_decode_pull_changesets pick b cd ds)
        (\<lambda>a. wp (and_then (from_result (verify_decoded_pull_chain cd a current)) (\<lambda>verified_cursor. return (a, verified_cursor))) Q E) E s2"
      by (rule wp_download_decode) (use v assms in \<open>auto simp: wp_and_then wp_from_result wp_return split: sum.split\<close>)
    with none show ?case by (simp add: wp_return wp_and_then)
  qed (use assms(2) \<open>view s1 = view s\<close> in auto)
qed (use assms(2) in auto)

end

text \<open>
  Claim C11: a pull is verified or leaves the database alone.  On every backend, for every completion
  order of the downloads and under every fault, a pull changes nothing in the bucket and no file but the
  database; if it succeeds, the database is the old one with stored objects applied that continue the
  cursor without gap and link to it by checksum, up to the cursor it returns; if it fails, the database
  is unchanged unless a write to the disk failed: no object is applied before all are verified.
\<close>

theorem pull_verified_or_untouched:
  assumes cs: "changeset_store b view h" and cd: "hadbp_codec cd"
    and run: "pull_incremental pick b h cd pre db_name db_path current w = (w', r)"
  shows "view (w_store w') = view (w_store w) \<and> (\<forall>p. p \<noteq> db_path \<longrightarrow> w_files w' p = w_files w p) \<and>
    (case r of
       Inl e \<Rightarrow> w_faults w = [] \<longrightarrow> w_files w' = w_files w
     | Inr cursor \<Rightarrow> w_files w' = w_files w \<and> cursor = current \<or>
         (\<exists>ds db db'. w_files w db_path = Some db \<and> w_files w' db_path = Some db' \<and>
            linear_applied cd (view (w_store w)) ds (pu_seq current, pu_checksum current, db) = Some (pu_seq cursor, pu_checksum cursor, db')))"
proof -
  let ?Q = "\<lambda>cursor w'. view (w_store w') = view (w_store w) \<and> (\<forall>p. p \<noteq> db_path \<longrightarrow> w_files w' p = w_files w p) \<and>
      (w_files w' = w_files w \<and> cursor = current \<or> (\<exists>ds db db'. w_files w db_path = Some db \<and> w_files w' db_path = Some db' \<and>
            linear_applied cd (view (w_store w)) ds (pu_seq current, pu_checksum current, db) = Some (pu_seq cursor, pu_checksum cursor, db')))"
  let ?E = "\<lambda>e w'. view (w_store w') = view (w_store w) \<and> (\<forall>p. p \<noteq> db_path \<longrightarrow> w_files w' p = w_files w p) \<and> (w_faults w = [] \<longrightarrow> w_files w' = w_files w)"
  have "wp (pull_incremental pick b h cd pre db_name db_path current) ?Q ?E w"
    unfolding pull_incremental_def wp_and_then wp_on_world
  proof (rule changeset_store.wp_pulled_entries [OF cs], goal_cases)
    case (1 files es cursor s1)
    let ?w1 = "w\<lparr>w_store := s1\<rparr>"
    show ?case
    proof (cases "w_files w db_path")
      case None
      then show ?thesis using 1 by (cases es) (auto simp: wp_simps apply_decoded_to_path_def apply_decoded_changeset_to_db_def split: sum.split)
    next
      case (Some db)
      have "w_files ?w1 db_path = Some db" using Some by simp
      from hadbp_codec.wp_apply_entries [OF cd 1(2,3) this]
      show ?thesis unfolding prod.case wp_and_then wp_return by (rule wp_mono) (use 1(1) Some in auto)
    qed
  qed auto
  from wp_run [OF this run] show ?thesis by (cases r) auto
qed

section \<open>The completion order is irrelevant\<close>

text \<open>Actions on the local part of the world only.\<close>

definition local_action :: "('s world, failure, 'a) action \<Rightarrow> bool" where
  "local_action m \<longleftrightarrow> (\<forall>w w'. local_part w = local_part w' \<longrightarrow> snd (m w) = snd (m w') \<and> local_part (fst (m w)) = local_part (fst (m w')))"

lemma local_actionI:
  "(\<And>w w'. local_part w = local_part w' \<Longrightarrow> snd (m w) = snd (m w') \<and> local_part (fst (m w)) = local_part (fst (m w'))) \<Longrightarrow> local_action m"
  unfolding local_action_def by blast

lemma local_actionD:
  "local_action m \<Longrightarrow> local_part w = local_part w' \<Longrightarrow> snd (m w) = snd (m w') \<and> local_part (fst (m w)) = local_part (fst (m w'))"
  unfolding local_action_def by blast

lemma local_and_then:
  fixes m :: "('s world, failure, 'a) action"
  assumes "local_action m" "\<And>a. local_action (f a)"
  shows "local_action (and_then m f)"
proof (rule local_actionI)
  fix w w' :: "'s world" assume w: "local_part w = local_part w'"
  obtain u r u' r' where run: "m w = (u, r)" "m w' = (u', r')" by fastforce
  then have eq: "r' = r" "local_part u = local_part u'" using local_actionD [OF assms(1) w] by simp_all
  show "snd (and_then m f w) = snd (and_then m f w') \<and> local_part (fst (and_then m f w)) = local_part (fst (and_then m f w'))"
  proof (cases r)
    case (Inr a)
    from local_actionD [OF assms(2) eq(2), of a] show ?thesis unfolding and_then_def run eq(1) Inr by simp
  qed (simp add: and_then_def run eq)
qed

lemma local_apply_decoded: "local_action (apply_decoded_to_path cs path)"
  unfolding apply_decoded_to_path_def
proof (rule local_and_then)
  show "local_action (file_at path)" by (auto simp: local_action_def file_at_def local_part_def)
  show "local_action (case apply_decoded_changeset_to_db cs db of Inl e \<Rightarrow> raise [Changeset e] | Inr f \<Rightarrow> write_file path f)" for db
    by (cases "apply_decoded_changeset_to_db cs db") (auto simp: raise_def intro!: local_actionI dest: write_file_local)
qed

lemma local_apply_entries: "local_action (fold_actions (\<lambda>entry _. apply_decoded_to_path (dq_changeset entry) path) es ())"
proof (induction es)
  case (Cons e es)
  then show ?case unfolding fold_actions.simps by (intro local_and_then local_apply_decoded) simp
qed (simp add: local_action_def return_def)

context storage_backend
begin

text \<open>On a backend that answers from its objects the downloads are a function of the objects.\<close>

lemma download_decode_answers:
  assumes "\<And>k s. snd (b_get b k s) = Inr (view s k)"
  shows "snd (download_decode_pull_changesets pick b cd files s) =
    decode_pulled cd files (map (\<lambda>f. case view s (dc_key f) of None \<Rightarrow> Inl [Message (''key '' @ dc_key f @ '' not found'')] | Some d \<Rightarrow> Inr d) files)"
    (is "_ = decode_pulled cd files ?answers")
proof -
  obtain s1 r where run: "download_parallel pick b files PULL_CONCURRENCY s = (s1, r)" by fastforce
  have "\<exists>xs. r = Some xs \<and> length xs = length files \<and> (\<forall>i<length files. xs ! i = ?answers ! i)"
  proof (rule download_parallel_complete [OF _ refl _ run, THEN conjunct2], goal_cases)
    case (1 i s' s'' j data)
    then show ?case using assms [of "dc_key (files ! i)" s'] by (auto simp: download_one_def split: prod.splits option.splits)
  qed (simp add: PULL_CONCURRENCY_def)
  then have "r = Some ?answers" by (auto intro: nth_equalityI)
  then show ?thesis using run by (simp add: download_decode_pull_changesets_def)
qed

lemma pulled_entries_deterministic:
  assumes "\<And>k s. snd (b_get b k s) = Inr (view s k)"
  shows "snd (pulled_entries pick b h cd pre db_name current s) = snd (pulled_entries pick' b h cd pre db_name current s)"
proof -
  let ?rest = "\<lambda>pick ds. if ds = [] then return ([], current) else and_then (download_decode_pull_changesets pick b cd ds) (\<lambda>decoded.
      and_then (from_result (verify_decoded_pull_chain cd decoded current)) (\<lambda>c. return (decoded, c)))"
  have step: "snd (?rest pick ds s1) = snd (?rest pick' ds s1)" for ds s1
  proof (cases "ds = []")
    case False
    obtain t r t' r' where run: "download_decode_pull_changesets pick b cd ds s1 = (t, r)" "download_decode_pull_changesets pick' b cd ds s1 = (t', r')" by fastforce
    have "r' = r" using download_decode_answers [OF assms, of pick cd ds s1] download_decode_answers [OF assms, of pick' cd ds s1] run by simp
    then show ?thesis
      using run False by (cases r) (auto simp: and_then_def from_result_def raise_def return_def split: sum.split)
  qed simp
  obtain t1 r1 where lin: "active_lineage_id b h pre db_name s = (t1, r1)" by fastforce
  show ?thesis
  proof (cases r1)
    case (Inl e)
    then show ?thesis by (simp add: pulled_entries_def and_then_def [of "active_lineage_id b h pre db_name"] lin)
  next
    case (Inr l)
    obtain t2 r2 where ds: "discover_after_in_namespace b h pre db_name l GENERATION_LIVE (pu_seq current) t1 = (t2, r2)" by fastforce
    show ?thesis
      using step by (cases r2) (simp_all add: pulled_entries_def and_then_def [of "active_lineage_id b h pre db_name"]
        and_then_def [of "discover_after_in_namespace b h pre db_name l GENERATION_LIVE (pu_seq current)"] lin Inr ds)
  qed
qed

end

text \<open>
  Claim C28: the order in which concurrent downloads complete is irrelevant.  On a backend that answers
  reads from its objects, two pulls that differ only in that order return the same cursor or error and
  leave the same files.
\<close>

theorem pull_order_irrelevant:
  assumes "storage_backend b view" "\<And>k s. snd (b_get b k s) = Inr (view s k)"
    and "pull_incremental pick b h cd pre db_name db_path current w = (w1, r1)"
    and "pull_incremental pick' b h cd pre db_name db_path current w = (w2, r2)"
  shows "r1 = r2 \<and> w_files w1 = w_files w2"
proof -
  obtain s1 a1 s2 a2 where run: "pulled_entries pick b h cd pre db_name current (w_store w) = (s1, a1)"
      "pulled_entries pick' b h cd pre db_name current (w_store w) = (s2, a2)" by fastforce
  have eq: "a2 = a1" using storage_backend.pulled_entries_deterministic [OF assms(1,2), of pick h cd pre db_name current "w_store w" pick'] run by simp
  let ?apply = "\<lambda>es c. and_then (fold_actions (\<lambda>entry _. apply_decoded_to_path (dq_changeset entry) db_path) es ()) (\<lambda>_. return c)"
  have loc: "local_action (?apply es c)" for es c by (rule local_and_then [OF local_apply_entries]) (simp add: local_action_def return_def)
  have "local_part (w\<lparr>w_store := s1\<rparr>) = local_part (w\<lparr>w_store := s2\<rparr>)" by (simp add: local_part_def)
  then have L: "snd (?apply es c (w\<lparr>w_store := s1\<rparr>)) = snd (?apply es c (w\<lparr>w_store := s2\<rparr>)) \<and>
      local_part (fst (?apply es c (w\<lparr>w_store := s1\<rparr>))) = local_part (fst (?apply es c (w\<lparr>w_store := s2\<rparr>)))" for es c
    by (rule local_actionD [OF loc])
  show ?thesis
  proof (cases a1)
    case (Inl e)
    then show ?thesis using assms(3,4) run eq by (auto simp: pull_incremental_def and_then_def on_world_def on_store_with_def)
  next
    case (Inr x)
    obtain es c where x: "x = (es, c)" by fastforce
    have "?apply es c (w\<lparr>w_store := s1\<rparr>) = (w1, r1)" "?apply es c (w\<lparr>w_store := s2\<rparr>) = (w2, r2)"
      using assms(3,4) [unfolded pull_incremental_def and_then_def [of "on_world _"]] run eq Inr x by (simp_all add: on_world_def on_store_with_def)
    then show ?thesis using L [of es c] by (simp add: local_part_def)
  qed
qed

section \<open>The calls a sink sees\<close>

datatype sink_call = Begin bool | ApplyPage u32 bytes bool | CommitChangeset u64 bool | Finalize bool | Abort bool

text \<open>A sink that also records every call and whether it succeeded.\<close>

definition record_call :: "(bool \<Rightarrow> sink_call) \<Rightarrow> ('k, failure, unit) action \<Rightarrow> ('k \<times> sink_call list, failure, unit) action" where
  "record_call call m = (\<lambda>(k, tr). case m k of (k', r) \<Rightarrow> ((k', tr @ [call (\<not> isl r)]), r))"

definition recording :: "'k sink \<Rightarrow> ('k \<times> sink_call list) sink" where
  "recording sk =
     \<lparr>sk_begin = record_call Begin (sk_begin sk), sk_apply_page = (\<lambda>p d. record_call (ApplyPage p d) (sk_apply_page sk p d)),
      sk_commit_changeset = (\<lambda>n. record_call (CommitChangeset n) (sk_commit_changeset sk n)), sk_finalize = record_call Finalize (sk_finalize sk),
      sk_abort = record_call Abort (sk_abort sk)\<rparr>"

lemma wp_record_call:
  "wp (record_call call m) Q E x = wp m (\<lambda>a k'. Q a (k', snd x @ [call True])) (\<lambda>e k'. E e (k', snd x @ [call False])) (fst x)"
  by (cases x) (simp add: record_call_def wp_def split: prod.split sum.split)

lemma wp_on_sink [wp_simps]: "wp (on_sink m) Q E x = wp m (\<lambda>a k'. Q a (fst x, k')) (\<lambda>e k'. E e (fst x, k')) (snd x)"
  by (cases x) (simp add: on_sink_def wp_def split: prod.split sum.split)

lemma wp_on_backend [wp_simps]: "wp (on_backend m) Q E x = wp m (\<lambda>a s'. Q a (s', snd x)) (\<lambda>e s'. E e (s', snd x)) (fst x)"
  by (cases x) (simp add: on_backend_def wp_def split: prod.split sum.split)

text \<open>The calls that replay one changeset, all of them successful.\<close>

definition replay_calls :: "decoded_pull \<Rightarrow> sink_call list" where
  "replay_calls e =
     map (\<lambda>p. ApplyPage (ucast (pid_u64 (pe_page_id p))) (pe_data p) True) (filter (\<lambda>p. pe_data p \<noteq> []) (cs_pages (dq_changeset e))) @
       [CommitChangeset (dq_seq e) True]"

abbreviation replayed :: "decoded_pull list \<Rightarrow> sink_call list" where
  "replayed es \<equiv> concat (map replay_calls es)"

text \<open>A replay that stopped: successful calls, then at most one that failed.\<close>

definition stopped_within :: "sink_call list \<Rightarrow> sink_call list \<Rightarrow> bool" where
  "stopped_within calls full \<longleftrightarrow> prefix calls full \<or>
     (\<exists>ok. (\<exists>p d. calls = ok @ [ApplyPage p d False] \<and> prefix (ok @ [ApplyPage p d True]) full) \<or>
           (\<exists>n. calls = ok @ [CommitChangeset n False] \<and> prefix (ok @ [CommitChangeset n True]) full))"

lemma stopped_refl [simp]: "stopped_within full full" "stopped_within [] full"
  by (simp_all add: stopped_within_def)

lemma stopped_extend: "stopped_within calls full \<Longrightarrow> stopped_within calls (full @ later)"
  unfolding stopped_within_def using prefix_prefix by metis

lemma stopped_after: "stopped_within calls full \<Longrightarrow> stopped_within (ok @ calls) (ok @ full)"
proof -
  assume "stopped_within calls full"
  then consider "prefix calls full" | x p d where "calls = x @ [ApplyPage p d False]" "prefix (x @ [ApplyPage p d True]) full"
    | x n where "calls = x @ [CommitChangeset n False]" "prefix (x @ [CommitChangeset n True]) full"
    unfolding stopped_within_def by blast
  then show ?thesis
  proof cases
    case 2
    then show ?thesis unfolding stopped_within_def by (intro disjI2 exI [of _ "ok @ x"] disjI1 exI [of _ p] exI [of _ d]) simp
  next
    case 3
    then show ?thesis unfolding stopped_within_def by (intro disjI2 exI [of _ "ok @ x"] exI [of _ n]) simp
  qed (simp add: stopped_within_def)
qed

abbreviation page_calls :: "page_entry list \<Rightarrow> sink_call list" where
  "page_calls ps \<equiv> map (\<lambda>p. ApplyPage (ucast (pid_u64 (pe_page_id p))) (pe_data p) True) (filter (\<lambda>p. pe_data p \<noteq> []) ps)"

lemma recording_apply: "sk_apply_page (recording sk) p d = record_call (ApplyPage p d) (sk_apply_page sk p d)"
  by (simp add: recording_def)

lemma recording_others:
  "sk_begin (recording sk) = record_call Begin (sk_begin sk)" "sk_finalize (recording sk) = record_call Finalize (sk_finalize sk)"
  by (simp_all add: recording_def)

lemma wp_replay_pages:
  "wp (fold_actions (\<lambda>page _. replay_page (recording sk) page) ps u)
     (\<lambda>_ x'. snd x' = snd x @ page_calls ps) (\<lambda>_ x'. \<exists>c. snd x' = snd x @ c \<and> stopped_within c (page_calls ps)) x"
proof (induction ps arbitrary: x u)
  case (Cons p ps)
  show ?case
  proof (cases "pe_data p = []")
    case True
    then show ?thesis using Cons [where x = x and u = "()"] by (simp add: replay_page_def [of _ p] wp_and_then wp_return)
  next
    case False
    let ?call = "ApplyPage (ucast (pid_u64 (pe_page_id p))) (pe_data p)"
    have "wp (fold_actions (\<lambda>page _. replay_page (recording sk) page) ps ())
        (\<lambda>_ x'. snd x' = snd x @ ?call True # page_calls ps) (\<lambda>_ x'. \<exists>c. snd x' = snd x @ c \<and> stopped_within c (?call True # page_calls ps)) (k', snd x @ [?call True])" for k'
      by (rule wp_mono [OF Cons]) (use stopped_after [where ok = "[?call True]"] in auto)
    moreover have "stopped_within [?call False] (?call True # page_calls ps)"
      unfolding stopped_within_def by (rule disjI2, rule exI [of _ "[]"]) simp
    ultimately show ?thesis
      using False
      by (auto simp: replay_page_def [of _ p] recording_apply wp_and_then wp_raise wp_record_call intro!: wp_mono [OF wp_True])
  qed
qed (simp add: wp_return)

lemma wp_replay_changeset:
  "wp (replay_changeset (recording sk) e)
     (\<lambda>_ x'. snd x' = snd x @ replay_calls e) (\<lambda>_ x'. \<exists>c. snd x' = snd x @ c \<and> stopped_within c (replay_calls e)) x"
  unfolding replay_changeset_def wp_and_then
proof (rule wp_mono [OF wp_replay_pages], goal_cases)
  case (1 u x1)
  let ?c = "CommitChangeset (dq_seq e)"
  have "stopped_within (page_calls (cs_pages (dq_changeset e)) @ [?c False]) (replay_calls e)"
    unfolding stopped_within_def replay_calls_def by auto
  then show ?case using 1 by (auto simp: recording_def wp_record_call replay_calls_def intro: wp_mono [OF wp_True])
next
  case (2 f x1)
  then show ?case by (auto simp: replay_calls_def intro: stopped_extend)
qed

lemma wp_replay_all:
  "wp (fold_actions (\<lambda>e _. replay_changeset (recording sk) e) es u)
     (\<lambda>_ x'. snd x' = snd x @ replayed es) (\<lambda>_ x'. \<exists>c. snd x' = snd x @ c \<and> stopped_within c (replayed es)) x"
proof (induction es arbitrary: x u)
  case (Cons e es)
  show ?case
    unfolding fold_actions.simps wp_and_then
  proof (rule wp_mono [OF wp_replay_changeset], goal_cases)
    case (1 u x1)
    show ?case
      by (rule wp_mono [OF Cons]) (use 1 stopped_after [where ok = "replay_calls e"] in auto)
  next
    case (2 f x1)
    then show ?case by (auto intro: stopped_extend)
  qed
qed (simp add: wp_return)

text \<open>The calls of one pull.  \<open>full\<close> is the complete replay.\<close>

definition sink_trace :: "sink_call list \<Rightarrow> bool \<Rightarrow> sink_call list \<Rightarrow> bool" where
  "sink_trace full ok trace \<longleftrightarrow>
     (if ok then trace = Begin True # full @ [Finalize True]
      else \<exists>a. trace = [Begin False, Abort a] \<or> (\<exists>calls. stopped_within calls full \<and> trace = Begin True # calls @ [Abort a]) \<or>
        trace = Begin True # full @ [Finalize False, Abort a])"

definition pulls :: "codec \<Rightarrow> (string \<rightharpoonup> bytes) \<Rightarrow> pull_cursor \<Rightarrow> decoded_pull list \<Rightarrow> pull_cursor \<Rightarrow> bool" where
  "pulls cd objects current es cursor \<longleftrightarrow> (\<exists>files. stored_entries cd objects files es) \<and> verify_decoded_pull_chain cd es current = Inr cursor"

lemma pulls_none [simp]: "pulls cd objects current [] current"
  by (auto simp: pulls_def stored_entries_def)

lemma wp_try_abort:
  "wp (try_abort (recording sk) e) Q E x \<longleftrightarrow>
     (\<forall>k' a. snd (sk_abort sk (fst (snd x))) = a \<and> fst (sk_abort sk (fst (snd x))) = k' \<longrightarrow> E e (fst x, k', snd (snd x) @ [Abort (\<not> isl a)]))"
  by (cases x) (auto simp: try_abort_def wp_and_then wp_attempt wp_on_sink recording_def wp_record_call wp_raise wp_def [of "sk_abort sk"] split: prod.split sum.split)

context changeset_store
begin

lemma wp_sink_inner:
  "wp (pull_incremental_into_sink_inner pick b h cd pre db_name (recording sk) current)
     (\<lambda>cursor x'. view (fst x') = view (fst x) \<and> (\<exists>es. pulls cd (view (fst x)) current es cursor \<and> snd (snd x') = snd (snd x) @ replayed es))
     (\<lambda>_ x'. view (fst x') = view (fst x) \<and> (\<exists>es cursor c. pulls cd (view (fst x)) current es cursor \<and> stopped_within c (replayed es) \<and> snd (snd x') = snd (snd x) @ c)) x"
  unfolding pull_incremental_into_sink_inner_def wp_and_then wp_on_backend
proof (rule wp_pulled_entries, goal_cases)
  case (1 files es cursor s1)
  then have p: "pulls cd (view (fst x)) current es cursor" by (auto simp: pulls_def)
  show ?case
    unfolding prod.case wp_and_then wp_on_sink wp_return
    by (rule wp_mono [OF wp_replay_all]) (use 1(1) p in auto)
next
  case (2 e s1)
  then show ?case by (intro conjI exI [of _ "[]"] exI [of _ current] exI [of _ "[]"]) simp_all
qed

lemma wp_sink:
  "wp (pull_incremental_into_sink pick b h cd pre db_name (recording sk) current)
     (\<lambda>cursor x'. view (fst x') = view s \<and> (\<exists>es. pulls cd (view s) current es cursor \<and> sink_trace (replayed es) True (snd (snd x'))))
     (\<lambda>_ x'. view (fst x') = view s \<and> (\<exists>es cursor. pulls cd (view s) current es cursor \<and> sink_trace (replayed es) False (snd (snd x')))) (s, k, [])"
proof -
  let ?Q = "\<lambda>cursor x'. view (fst x') = view s \<and> (\<exists>es. pulls cd (view s) current es cursor \<and> sink_trace (replayed es) True (snd (snd x')))"
  let ?E = "\<lambda>_ x'. view (fst x') = view s \<and> (\<exists>es cursor. pulls cd (view s) current es cursor \<and> sink_trace (replayed es) False (snd (snd x')))"
  have none: "sink_trace (replayed []) False [Begin False, Abort a]" for a by (simp add: sink_trace_def)
  have begin_fails: "wp (try_abort (recording sk) e) ?Q ?E (s, k', [Begin False])" for e k'
    unfolding wp_try_abort using none pulls_none by fastforce
  have fin: "wp (and_then (attempt (on_sink (sk_finalize (recording sk)))) (\<lambda>finalized.
        case finalized of Inl finalize_err \<Rightarrow> try_abort (recording sk) finalize_err | Inr _ \<Rightarrow> return cursor)) ?Q ?E (s1, k1, Begin True # replayed es)"
    if "view s1 = view s" "pulls cd (view s) current es cursor" for s1 k1 es cursor
  proof -
    have "sink_trace (replayed es) False (Begin True # replayed es @ [Finalize False, Abort a])" "sink_trace (replayed es) True (Begin True # replayed es @ [Finalize True])" for a
      by (auto simp: sink_trace_def)
    with that show ?thesis
      by (auto simp: wp_and_then wp_attempt wp_on_sink recording_others wp_record_call wp_return wp_try_abort sum.case intro!: wp_mono [OF wp_True])
  qed
  have aborted: "wp (try_abort (recording sk) e) ?Q ?E (s1, k1, Begin True # c)"
    if "view s1 = view s" "pulls cd (view s) current es cursor" "stopped_within c (replayed es)" for s1 k1 c es cursor e
  proof -
    have "sink_trace (replayed es) False (Begin True # c @ [Abort a])" for a using that(3) by (auto simp: sink_trace_def)
    with that(1,2) show ?thesis by (auto simp: wp_try_abort)
  qed
  have rest: "wp (and_then (attempt (pull_incremental_into_sink_inner pick b h cd pre db_name (recording sk) current)) (\<lambda>result.
      case result of Inl e \<Rightarrow> try_abort (recording sk) e | Inr applied_cursor \<Rightarrow> and_then (attempt (on_sink (sk_finalize (recording sk)))) (\<lambda>finalized.
        case finalized of Inl finalize_err \<Rightarrow> try_abort (recording sk) finalize_err | Inr _ \<Rightarrow> return applied_cursor))) ?Q ?E (s, k', [Begin True])" for k'
    unfolding wp_and_then [of "attempt (pull_incremental_into_sink_inner _ _ _ _ _ _ _ _)"] wp_attempt sum.case
  proof (rule wp_mono [OF wp_sink_inner], goal_cases)
    case (1 cursor x1)
    then obtain es where "view (fst x1) = view s" "pulls cd (view s) current es cursor" "x1 = (fst x1, fst (snd x1), Begin True # replayed es)"
      by (cases x1) auto
    then show ?case using fin [of "fst x1" es cursor "fst (snd x1)"] by simp
  next
    case (2 e x1)
    then obtain es cursor c where "view (fst x1) = view s" "pulls cd (view s) current es cursor" "stopped_within c (replayed es)" "x1 = (fst x1, fst (snd x1), Begin True # c)"
      by (cases x1) auto
    then show ?case using aborted [of "fst x1" es cursor c e "fst (snd x1)"] by simp
  qed
  show ?thesis
    unfolding pull_incremental_into_sink_def recording_others(1) wp_and_then [of "attempt (on_sink (record_call Begin (sk_begin sk)))"] wp_attempt
      wp_on_sink wp_record_call sum.case
    by (rule wp_mono [OF wp_True]) (use rest begin_fails in \<open>simp_all only: fst_conv snd_conv append_Nil\<close>)
qed

end

text \<open>
  Claim C29: the page-replay protocol.  Whatever the sink answers and in whatever order downloads
  complete, the calls of one pull are: begin, the pages and the commit of every changeset in sequence
  order, then either one successful finalize, exactly when the pull succeeds, or one abort, which comes
  last; a call that fails is followed by the abort only.  The sink sees pages only of stored changesets
  that were verified as one gap-free, checksum-linked chain beforehand, and the returned cursor is the
  end of that chain.
\<close>

theorem sink_protocol:
  assumes cs: "changeset_store b view h"
    and run: "pull_incremental_into_sink pick b h cd pre db_name (recording sk) current (s, k, []) = ((s', k', trace), r)"
  shows "view s' = view s \<and> (\<exists>es cursor. pulls cd (view s) current es cursor \<and> (\<forall>c. r = Inr c \<longrightarrow> c = cursor) \<and> sink_trace (replayed es) (\<not> isl r) trace)"
  using wp_run [OF changeset_store.wp_sink [OF cs] run] by (cases r) auto

text \<open>What the protocol rules out: both a finalize that succeeded and an abort, or neither.\<close>

lemma sink_trace_once:
  assumes "sink_trace (replayed es) ok trace"
  shows "(Finalize True \<in> set trace) = ok" "(\<exists>a. Abort a \<in> set trace) = (\<not> ok)"
proof -
  have pages: "Finalize x \<notin> set (replayed es)" "Abort x \<notin> set (replayed es)" for x by (auto simp: replay_calls_def)
  have stop: "x \<in> set (replayed es) \<or> (\<exists>p d. x = ApplyPage p d False) \<or> (\<exists>n. x = CommitChangeset n False)"
    if "stopped_within c (replayed es)" "x \<in> set c" for c x
    using that unfolding stopped_within_def by (elim disjE exE conjE) (auto dest!: set_mono_prefix simp del: set_concat)
  have quiet: "Finalize x \<notin> set c" "Abort x \<notin> set c" if "stopped_within c (replayed es)" for c x
    using stop [OF that, of "Finalize x"] stop [OF that, of "Abort x"] pages [of x] by blast+
  show "(Finalize True \<in> set trace) = ok" "(\<exists>a. Abort a \<in> set trace) = (\<not> ok)"
    using assms pages quiet by (auto simp: sink_trace_def simp del: set_concat split: if_splits)
qed

section \<open>Restoring on a snapshot source\<close>

context changeset_store
begin

lemma wp_apply_decoded_to_path:
  assumes "\<And>f w'. apply_decoded_changeset_to_db cs (w_files w st) = Inr f \<Longrightarrow> w_store w' = w_store w \<Longrightarrow> w_files w' = (w_files w)(st \<mapsto> f) \<Longrightarrow> Q () w'"
    and "\<And>e w'. calm st w w' \<Longrightarrow> E e w'"
  shows "wp (apply_decoded_to_path cs st) Q E w"
proof (cases "apply_decoded_changeset_to_db cs (w_files w st)")
  case (Inl e)
  then show ?thesis using assms(2) by (simp add: apply_decoded_to_path_def wp_simps calm_refl)
next
  case (Inr f)
  show ?thesis
    unfolding apply_decoded_to_path_def wp_and_then wp_file_at Inr sum.case
    by (rule wp_write_file) (use assms Inr in \<open>simp_all add: calm_def staged_only_def\<close>)
qed

text \<open>An incremental on the materialized base does what one on a decoded snapshot does.\<close>

lemma wp_apply_after_checkpoint:
  assumes ok: "\<And>bs f res w'. dc_seq inc = pu_seq cursor + 1 \<Longrightarrow> view (w_store w) (dc_key inc) = Some bs \<Longrightarrow>
      apply_changeset_to_db cd bs (w_files w st) (pu_checksum cursor) = Inr (f, res) \<Longrightarrow> calm st w w' \<Longrightarrow> w_files w' st = Some f \<Longrightarrow>
      Q \<lparr>pu_seq = dc_seq inc, pu_checksum = ar_checksum res\<rparr> w'"
    and err: "\<And>e w'. calm st w w' \<Longrightarrow> E e w'"
  shows "wp (apply_after_checkpoint b cd st inc cursor) Q E w"
proof (cases "dc_seq inc = pu_seq cursor + 1")
  case True
  let ?rest = "\<lambda>data. case decode_sqlite_changeset cd data of Inl e \<Rightarrow> raise [Message ''Failed to decode changeset'']
      | Inr cs \<Rightarrow> if \<not> c_verify_chain cd (pu_checksum cursor) cs then raise [Message ''Checksum chain broken'']
          else and_then (apply_decoded_to_path cs st) (\<lambda>_. return \<lparr>pu_seq = dc_seq inc, pu_checksum = cs_checksum cs\<rparr>)"
  have "wp (get_required b (dc_key inc)) (\<lambda>data. wp (?rest data) Q E) E w"
  proof (rule wp_get_required, goal_cases)
    case (1 data w1)
    have E1: "E e w1" for e using 1 by (intro err) (simp add: calm_refl)
    show ?case
    proof (cases "decode_sqlite_changeset cd data")
      case (Inr cs)
      show ?thesis
      proof (cases "c_verify_chain cd (pu_checksum cursor) cs")
        case ver: True
        have "wp (apply_decoded_to_path cs st) (\<lambda>_. Q \<lparr>pu_seq = dc_seq inc, pu_checksum = cs_checksum cs\<rparr>) E w1"
        proof (rule wp_apply_decoded_to_path, goal_cases)
          case (1 f w2)
          have "apply_changeset_to_db cd data (w_files w st) (pu_checksum cursor) = Inr (f, \<lparr>ar_header = cs_header cs, ar_checksum = cs_checksum cs\<rparr>)"
            using 1 \<open>w_files w1 = w_files w\<close> Inr ver by (simp add: apply_changeset_to_db_def)
          from ok [OF True \<open>view (w_store w) _ = Some data\<close> this, of w2] show ?case
            using 1 \<open>w_files w1 = w_files w\<close> \<open>view (w_store w1) = _\<close> by (simp add: calm_def staged_only_def)
        next
          case (2 e w2)
          then show ?case using \<open>w_files w1 = w_files w\<close> \<open>view (w_store w1) = _\<close> by (intro err) (simp add: calm_def staged_only_def)
        qed
        with Inr ver show ?thesis by (simp add: wp_and_then wp_return_fun)
      qed (use Inr E1 in \<open>simp add: wp_raise\<close>)
    qed (use E1 in \<open>simp add: wp_raise\<close>)
  qed (auto intro!: err calm_refl)
  with True show ?thesis by (simp add: apply_after_checkpoint_def wp_and_then)
qed (simp add: apply_after_checkpoint_def wp_raise err calm_refl)

lemma wp_after_checkpoint:
  assumes "w_files w st = Some db"
  shows "wp (fold_actions (apply_after_checkpoint b cd st) ds cursor)
     (\<lambda>c w'. calm st w w' \<and> (\<exists>db'. w_files w' st = Some db' \<and>
        linear_applied cd (view (w_store w)) ds (pu_seq cursor, pu_checksum cursor, db) = Some (pu_seq c, pu_checksum c, db')))
     (\<lambda>_. calm st w) w"
  using assms
proof (induction ds arbitrary: cursor db w)
  case Nil
  then show ?case by (simp add: wp_return calm_refl)
next
  case (Cons d ds)
  show ?case
    unfolding fold_actions.simps
  proof (rule wp_and_thenI, rule wp_apply_after_checkpoint, goal_cases)
    case (1 bs f res w1)
    have "view (w_store w1) = view (w_store w)" using 1(4) by (simp add: calm_def)
    then show ?case
      by (intro wp_mono [OF Cons.IH [OF 1(5)]]) (use 1 Cons.prems calm_trans in auto)
  qed simp
qed

text \<open>The integrity check and the rename that publish the staged file.\<close>

lemma wp_publish_staged:
  assumes "calm st w w1" "w_files w1 st = Some db" "st \<noteq> out"
    and "\<And>w'. h_integrity_check h db = Inr () \<Longrightarrow> view (w_store w') = view (w_store w) \<Longrightarrow> (\<forall>p. p \<noteq> st \<longrightarrow> p \<noteq> out \<longrightarrow> w_files w' p = w_files w p) \<Longrightarrow>
      w_files w' st = None \<Longrightarrow> w_files w' out = Some db \<Longrightarrow> Q x w'"
    and "\<And>e w'. calm st w w' \<Longrightarrow> E e w'"
  shows "wp (and_then (verify_sqlite_integrity h st) (\<lambda>_. and_then (rename_file st out) (\<lambda>_. return x))) Q E w1"
proof -
  have rename: "wp (rename_file st out) (\<lambda>_. Q x) E w1" if "h_integrity_check h db = Inr ()"
    by (rule wp_rename_file) (use assms that in \<open>auto simp: calm_def staged_only_def\<close>)
  show ?thesis
    unfolding verify_sqlite_integrity_def
    using assms(1,2,5) rename by (cases "h_integrity_check h db") (simp_all add: wp_and_then wp_file_at wp_raise wp_return wp_return_fun)
qed

text \<open>What is relied on of a snapshot source: it writes nothing but the file it is asked for, and a success has written it.\<close>

lemma wp_restore_with_source:
  assumes mat: "\<And>v v' m. materialize (staged_path dir file pid n) v = (v', m) \<Longrightarrow>
      calm (staged_path dir file pid n) v v' \<and> (\<not> isl m \<longrightarrow> w_files v' (staged_path dir file pid n) \<noteq> None)"
  shows "wp (restore_with_snapshot_source b h cd pid n pre db_name dir file materialize)
    (\<lambda>reached w'. view (w_store w') = view (w_store w) \<and> (\<forall>p. p \<noteq> staged_path dir file pid n \<longrightarrow> p \<noteq> output_path dir file \<longrightarrow> w_files w' p = w_files w p) \<and>
       w_files w' (staged_path dir file pid n) = None \<and>
       (\<exists>w1 checkpoint base ds ck db. materialize (staged_path dir file pid n) w = (w1, Inr checkpoint) \<and> w_files w1 (staged_path dir file pid n) = Some base \<and>
          linear_applied cd (view (w_store w)) ds (sc_seq checkpoint, sc_checksum checkpoint, base) = Some (reached, ck, db) \<and>
          w_files w' (output_path dir file) = Some db \<and> h_integrity_check h db = Inr ()))
    (\<lambda>_ w'. view (w_store w') = view (w_store w) \<and> (\<forall>p. p \<noteq> staged_path dir file pid n \<longrightarrow> w_files w' p = w_files w p) \<and>
       w_files w' (staged_path dir file pid n) = None) w"
    (is "wp _ ?Q ?E w")
proof -
  let ?st = "staged_path dir file pid n" and ?out = "output_path dir file"
  let ?E' = "\<lambda>_. calm ?st w"
  have E': "?E e (w'\<lparr>w_files := (w_files w')(?st := None)\<rparr>)" if "calm ?st w w'" for e w' using that by (simp add: calm_def staged_only_def)
  obtain w1 m where m: "materialize ?st w = (w1, m)" by fastforce
  have c1: "calm ?st w w1" using mat [OF m] by blast
  show ?thesis
  proof (cases m)
    case (Inl e)
    then show ?thesis
      unfolding restore_with_snapshot_source_def Let_def wp_with_staged using m E' [OF c1] by (simp add: wp_and_then wp_def [of "materialize ?st"])
  next
    case (Inr checkpoint)
    let ?cont = "\<lambda>incrementals. if incrementals = []
         then and_then (verify_sqlite_integrity h ?st) (\<lambda>_. and_then (rename_file ?st ?out) (\<lambda>_. return (sc_seq checkpoint)))
         else and_then (fold_actions (apply_after_checkpoint b cd ?st) incrementals \<lparr>pu_seq = sc_seq checkpoint, pu_checksum = sc_checksum checkpoint\<rparr>) (\<lambda>cursor.
              and_then (verify_sqlite_integrity h ?st) (\<lambda>_. and_then (rename_file ?st ?out) (\<lambda>_. return (pu_seq cursor))))"
    obtain base where base: "w_files w1 ?st = Some base" using mat [OF m] Inr by auto
    have cont: "wp (?cont ds) ?Q ?E' v" if v: "calm ?st w v" and f: "w_files v ?st = Some base" for ds v
    proof -
      have view: "view (w_store v) = view (w_store w)" using v by (simp add: calm_def)
      have pub: "wp (and_then (verify_sqlite_integrity h ?st) (\<lambda>_. and_then (rename_file ?st ?out) (\<lambda>_. return q))) ?Q ?E' v'"
        if "calm ?st w v'" "w_files v' ?st = Some db" "linear_applied cd (view (w_store w)) ds (sc_seq checkpoint, sc_checksum checkpoint, base) = Some (q, ck, db)" for v' q ck db ds
        by (rule wp_publish_staged [OF that(1,2) staged_not_output(1)]) (use m Inr base that(3) in auto)
      show ?thesis
      proof (cases "ds = []")
        case True
        then show ?thesis using pub [OF v f, of "[]"] by simp
      next
        case False
        have "wp (fold_actions (apply_after_checkpoint b cd ?st) ds \<lparr>pu_seq = sc_seq checkpoint, pu_checksum = sc_checksum checkpoint\<rparr>)
          (\<lambda>cursor. wp (and_then (verify_sqlite_integrity h ?st) (\<lambda>_. and_then (rename_file ?st ?out) (\<lambda>_. return (pu_seq cursor)))) ?Q ?E') ?E' v"
        proof (rule wp_mono [OF wp_after_checkpoint [OF f]], goal_cases)
          case (1 c v')
          then show ?case using pub [of v'] calm_trans [OF v] view by auto
        qed (use calm_trans [OF v] in auto)
        with False show ?thesis by (simp add: wp_and_then)
      qed
    qed
    obtain s2 dr where disc: "h_discover_after h pre db_name (sc_seq checkpoint) (w_store w1) = (s2, dr)" by fastforce
    have c2: "calm ?st w (w1\<lparr>w_store := s2\<rparr>)" using discover_after [OF disc] c1 by (simp add: calm_store)
    have "wp (on_world (storage_op (h_discover_after h pre db_name (sc_seq checkpoint)))) (\<lambda>ds. wp (?cont ds) ?Q ?E') ?E' w1"
      unfolding wp_on_world wp_storage_op wp_def [of "h_discover_after h pre db_name (sc_seq checkpoint)"] disc prod.case
    proof (cases dr)
      case ds: (Inr ds)
      show "case dr of Inl e \<Rightarrow> ?E' [Message e] (w1\<lparr>w_store := s2\<rparr>) | Inr ds \<Rightarrow> wp (?cont ds) ?Q ?E' (w1\<lparr>w_store := s2\<rparr>)"
        unfolding ds sum.case by (rule cont [OF c2]) (simp add: base)
    qed (simp add: c2)
    then have "wp (and_then (materialize ?st) (\<lambda>checkpoint. and_then (on_world (storage_op (h_discover_after h pre db_name (sc_seq checkpoint)))) (\<lambda>incrementals.
         if incrementals = []
         then and_then (verify_sqlite_integrity h ?st) (\<lambda>_. and_then (rename_file ?st ?out) (\<lambda>_. return (sc_seq checkpoint)))
         else and_then (fold_actions (apply_after_checkpoint b cd ?st) incrementals \<lparr>pu_seq = sc_seq checkpoint, pu_checksum = sc_checksum checkpoint\<rparr>) (\<lambda>cursor.
              and_then (verify_sqlite_integrity h ?st) (\<lambda>_. and_then (rename_file ?st ?out) (\<lambda>_. return (pu_seq cursor))))))) ?Q ?E' w"
      using m Inr by (simp add: wp_and_then [of "materialize ?st"] wp_def [of "materialize ?st"] wp_and_then [of "on_world _"])
    then show ?thesis
      unfolding restore_with_snapshot_source_def Let_def wp_with_staged by (rule wp_mono) (use E' in auto)
  qed
qed

end

text \<open>
  Claim C30: a restore on an external base is verified or leaves the output alone.  For every snapshot
  source that writes only the file it is asked for, on every backend and under every fault: a failed
  restore leaves the output as it was and no staged file; a successful one replaced the output by the
  materialized base with stored objects applied that continue its checkpoint without gap and link to it
  by checksum, up to the sequence number returned, and the result passed the integrity check.
\<close>

theorem restore_with_source_verified:
  assumes cs: "changeset_store b view h"
    and source: "\<And>v v' m. materialize (staged_path dir file pid n) v = (v', m) \<Longrightarrow> view (w_store v') = view (w_store v) \<and>
      (\<forall>p. p \<noteq> staged_path dir file pid n \<longrightarrow> w_files v' p = w_files v p) \<and> (\<not> isl m \<longrightarrow> w_files v' (staged_path dir file pid n) \<noteq> None)"
    and run: "restore_with_snapshot_source b h cd pid n pre db_name dir file materialize w = (w', r)"
  shows "view (w_store w') = view (w_store w) \<and> w_files w' (staged_path dir file pid n) = None \<and>
    (\<forall>p. p \<noteq> staged_path dir file pid n \<longrightarrow> p \<noteq> output_path dir file \<longrightarrow> w_files w' p = w_files w p) \<and>
    (case r of
       Inl e \<Rightarrow> w_files w' (output_path dir file) = w_files w (output_path dir file)
     | Inr reached \<Rightarrow>
         (\<exists>w1 checkpoint base ds ck db. materialize (staged_path dir file pid n) w = (w1, Inr checkpoint) \<and> w_files w1 (staged_path dir file pid n) = Some base \<and>
            linear_applied cd (view (w_store w)) ds (sc_seq checkpoint, sc_checksum checkpoint, base) = Some (reached, ck, db) \<and>
            w_files w' (output_path dir file) = Some db \<and> h_integrity_check h db = Inr ()))"
proof -
  have "changeset_store.calm view (staged_path dir file pid n) v v' \<and> (\<not> isl m \<longrightarrow> w_files v' (staged_path dir file pid n) \<noteq> None)"
    if "materialize (staged_path dir file pid n) v = (v', m)" for v v' m
    using source [OF that] by (simp add: changeset_store.calm_def [OF cs] staged_only_def)
  from wp_run [OF changeset_store.wp_restore_with_source [OF cs this] run] show ?thesis
    by (cases r) auto
qed

section \<open>Witnesses\<close>

text \<open>A lineage bucket with one incremental, at sequence number 2, that chains from checksum 7.\<close>

definition follow_object :: bytes where
  "follow_object = (case encode_wal_changes_with_end_page_count demo_wire [(1, zeros 512)] 512 2 7 1 of Inr (bs, c) \<Rightarrow> bs | Inl e \<Rightarrow> [])"

definition follow_key :: string where
  "follow_key = ''app/lineages/l/0000/'' @ hex_pad 16 (unat (2 :: u64)) @ ''.hadbp''"

definition follow_bucket :: "(string \<times> bytes) list" where
  "follow_bucket = [(''app/state.json'', []), (follow_key, follow_object)]"

lemma follow_store: "changeset_store alist_backend map_of demo_hadb"
  unfolding demo_hadb_def by (rule alist.listing.changeset_store_axioms)

lemma follow_decodes:
  obtains cs where "decode_sqlite_changeset demo_wire follow_object = Inr cs" "c_verify_chain demo_wire 7 cs"
    "\<exists>f. apply_decoded_changeset_to_db cs (Some (zeros 512)) = Inr f"
proof -
  obtain bs c where enc: "encode_wal_changes_with_end_page_count demo_wire [(1, zeros 512)] 512 2 7 1 = Inr (bs, c)" using demo_changes_encode by blast
  then have o: "follow_object = bs" by (simp add: follow_object_def)
  obtain cs where cs: "decode_sqlite_changeset demo_wire bs = Inr cs" "ph_prev_checksum (cs_header cs) = 7"
    using hadbp_codec.incremental_decodes [OF demo_codec_ok enc] by auto
  obtain f' where "apply_changeset_to_db demo_wire bs (Some (zeros 512)) 7 = Inr (f', \<lparr>ar_header = cs_header cs, ar_checksum = cs_checksum cs\<rparr>)"
    using hadbp_codec.decoded_applies [OF demo_codec_ok cs] by blast
  with cs that o show ?thesis by (auto simp: apply_changeset_to_db_def split: if_splits sum.splits)
qed

lemma follow_lists:
  "active_lineage_id alist_backend demo_hadb [] ''app'' follow_bucket = (follow_bucket, Inr (Some ''l''))"
  "discover_after_in_namespace alist_backend demo_hadb [] ''app'' (Some ''l'') GENERATION_LIVE 1 follow_bucket =
     (follow_bucket, Inr [\<lparr>dc_key = follow_key, dc_seq = 2\<rparr>])"
proof -
  show "active_lineage_id alist_backend demo_hadb [] ''app'' follow_bucket = (follow_bucket, Inr (Some ''l''))"
    by (simp add: active_lineage_id_def state_key_def follow_bucket_def alist_backend_def map_error_def and_then_def return_def)
  have "hex_pad 16 (unat (1 :: u64)) @ ''.hadbp'' < hex_pad 16 (unat (2 :: u64)) @ ''.hadbp''"
    by (intro list_less_append_same hex16_mono) (simp_all only: length_hex16, simp)
  then have l: "b_list alist_backend ''app/lineages/l/0000/'' (Some (''app/lineages/l/0000/'' @ hex_pad 16 (unat (1 :: u64)) @ ''.hadbp'')) follow_bucket = (follow_bucket, Inr [follow_key])"
    by (simp add: alist_backend_def follow_bucket_def follow_key_def)
  have d: "discovered_of ''app/lineages/l/0000/'' ''hadbp'' 1 follow_key = Some \<lparr>dc_key = follow_key, dc_seq = 2\<rparr>"
    using discovered_of_key [of 1 2 "''app/lineages/l/0000/''" "''hadbp''"] by (simp add: follow_key_def)
  show "discover_after_in_namespace alist_backend demo_hadb [] ''app'' (Some ''l'') GENERATION_LIVE 1 follow_bucket =
     (follow_bucket, Inr [\<lparr>dc_key = follow_key, dc_seq = 2\<rparr>])"
    using l d by (simp add: discover_after_in_namespace_def gen_prefix_of_def lineage_generation_prefix_def
      GENERATION_LIVE_def hex4_generations storage_op_def map_error_def and_then_def return_def List.map_filter_simps Let_def)
qed

lemma follow_pulled:
  obtains cs where "pulled_entries pick alist_backend demo_hadb demo_wire [] ''app'' \<lparr>pu_seq = 1, pu_checksum = 7\<rparr> follow_bucket =
      (follow_bucket, Inr ([\<lparr>dq_seq = 2, dq_key = follow_key, dq_changeset = cs\<rparr>], \<lparr>pu_seq = 2, pu_checksum = cs_checksum cs\<rparr>))"
    "\<exists>f. apply_decoded_changeset_to_db cs (Some (zeros 512)) = Inr f"
proof -
  obtain cs where cs: "decode_sqlite_changeset demo_wire follow_object = Inr cs" "c_verify_chain demo_wire 7 cs"
    "\<exists>f. apply_decoded_changeset_to_db cs (Some (zeros 512)) = Inr f" using follow_decodes by blast
  have get: "download_one alist_backend follow_key 0 follow_bucket = (follow_bucket, 0, Inr follow_object)"
    by (simp add: download_one_def alist_backend_def follow_bucket_def follow_key_def)
  have "pulled_entries pick alist_backend demo_hadb demo_wire [] ''app'' \<lparr>pu_seq = 1, pu_checksum = 7\<rparr> follow_bucket =
      (follow_bucket, Inr ([\<lparr>dq_seq = 2, dq_key = follow_key, dq_changeset = cs\<rparr>], \<lparr>pu_seq = 2, pu_checksum = cs_checksum cs\<rparr>))"
    using cs by (simp add: pulled_entries_def and_then_def follow_lists download_decode_pull_changesets_def download_parallel_def get from_result_def return_def)
  with cs(3) that show ?thesis by blast
qed

definition follow_world :: "(string \<times> bytes) list world" where
  "follow_world = \<lparr>w_store = follow_bucket, w_files = [''f.db'' \<mapsto> zeros 512], w_faults = []\<rparr>"

lemma follow_runs:
  "\<exists>w' c. pull_incremental pick alist_backend demo_hadb demo_wire [] ''app'' ''f.db'' \<lparr>pu_seq = 1, pu_checksum = 7\<rparr> follow_world = (w', Inr \<lparr>pu_seq = 2, pu_checksum = c\<rparr>)"
proof -
  obtain cs where cs: "pulled_entries pick alist_backend demo_hadb demo_wire [] ''app'' \<lparr>pu_seq = 1, pu_checksum = 7\<rparr> follow_bucket =
      (follow_bucket, Inr ([\<lparr>dq_seq = 2, dq_key = follow_key, dq_changeset = cs\<rparr>], \<lparr>pu_seq = 2, pu_checksum = cs_checksum cs\<rparr>))"
    "\<exists>f. apply_decoded_changeset_to_db cs (Some (zeros 512)) = Inr f" using follow_pulled by blast
  then show ?thesis
    by (auto simp: pull_incremental_def on_world_def on_store_with_def and_then_def follow_world_def apply_decoded_to_path_def file_at_def write_file_def
        next_fault_def return_def)
qed

theorem pull_verified_or_untouched_witness:
  "\<exists>w' c ds db'. pull_incremental (\<lambda>_. 0) alist_backend demo_hadb demo_wire [] ''app'' ''f.db'' \<lparr>pu_seq = 1, pu_checksum = 7\<rparr> follow_world =
       (w', Inr \<lparr>pu_seq = 2, pu_checksum = c\<rparr>) \<and>
     linear_applied demo_wire (map_of follow_bucket) ds (1, 7, zeros 512) = Some (2, c, db') \<and> w_files w' ''f.db'' = Some db'"
proof -
  obtain w' c where run: "pull_incremental (\<lambda>_. 0) alist_backend demo_hadb demo_wire [] ''app'' ''f.db'' \<lparr>pu_seq = 1, pu_checksum = 7\<rparr> follow_world =
      (w', Inr \<lparr>pu_seq = 2, pu_checksum = c\<rparr>)" using follow_runs by blast
  from pull_verified_or_untouched [OF follow_store demo_codec_ok run] run show ?thesis by (auto simp: follow_world_def)
qed

theorem pull_order_irrelevant_witness:
  "\<exists>w1 w2 r. pull_incremental (\<lambda>_. 0) alist_backend demo_hadb demo_wire [] ''app'' ''f.db'' \<lparr>pu_seq = 1, pu_checksum = 7\<rparr> follow_world = (w1, r) \<and>
     pull_incremental length alist_backend demo_hadb demo_wire [] ''app'' ''f.db'' \<lparr>pu_seq = 1, pu_checksum = 7\<rparr> follow_world = (w2, r) \<and> w_files w1 = w_files w2"
proof -
  have answers: "snd (b_get alist_backend k s) = Inr (map_of s k)" for k s by (simp add: alist_backend_def)
  obtain w1 r1 w2 r2 where
    "pull_incremental (\<lambda>_. 0) alist_backend demo_hadb demo_wire [] ''app'' ''f.db'' \<lparr>pu_seq = 1, pu_checksum = 7\<rparr> follow_world = (w1, r1)"
    "pull_incremental length alist_backend demo_hadb demo_wire [] ''app'' ''f.db'' \<lparr>pu_seq = 1, pu_checksum = 7\<rparr> follow_world = (w2, r2)" by fastforce
  with pull_order_irrelevant [OF alist.storage_backend_axioms answers this] show ?thesis by simp
qed

text \<open>A sink that stores pages in a map but cannot be finalized, so the pull ends in an abort.\<close>

definition follow_sink :: "(u32 \<rightharpoonup> bytes) sink" where
  "follow_sink = \<lparr>sk_begin = return (), sk_apply_page = (\<lambda>p d m. (m(p \<mapsto> d), Inr ())), sk_commit_changeset = (\<lambda>_. return ()),
     sk_finalize = raise [Message ''install failed''], sk_abort = return ()\<rparr>"

theorem sink_protocol_witness:
  "\<exists>s' k' trace r es cursor. pull_incremental_into_sink (\<lambda>_. 0) alist_backend demo_hadb demo_wire [] ''app'' (recording follow_sink) \<lparr>pu_seq = 1, pu_checksum = 7\<rparr>
       (follow_bucket, Map.empty, []) = ((s', k', trace), r) \<and>
     pulls demo_wire (map_of follow_bucket) \<lparr>pu_seq = 1, pu_checksum = 7\<rparr> es cursor \<and> sink_trace (replayed es) (\<not> isl r) trace"
proof -
  obtain s' k' trace r where run: "pull_incremental_into_sink (\<lambda>_. 0) alist_backend demo_hadb demo_wire [] ''app'' (recording follow_sink)
      \<lparr>pu_seq = 1, pu_checksum = 7\<rparr> (follow_bucket, Map.empty, []) = ((s', k', trace), r)" by (metis prod.collapse)
  from sink_protocol [OF follow_store run] run show ?thesis by blast
qed

text \<open>A snapshot source that copies a fixed database.\<close>

definition fixed_source :: "string \<Rightarrow> ((string \<times> bytes) list world, failure, snapshot_checkpoint) action" where
  "fixed_source path w = (w\<lparr>w_files := (w_files w)(path \<mapsto> zeros 512)\<rparr>, Inr \<lparr>sc_seq = 1, sc_checksum = 7\<rparr>)"

lemma fixed_source_runs:
  "\<exists>w'. restore_with_snapshot_source alist_backend demo_hadb demo_wire 42 0 [] ''app'' ''out'' ''app.db'' fixed_source follow_world = (w', Inr 1)"
proof -
  have "h_discover_after demo_hadb [] ''app'' 1 follow_bucket = (follow_bucket, Inr [])"
    by (simp add: demo_hadb_def listing_hadb_def gen_prefix_of_def hex4_generations GENERATION_LIVE_def alist_backend_def follow_bucket_def follow_key_def
        and_then_def return_def List.map_filter_simps Let_def)
  then show ?thesis
    by (simp add: restore_with_snapshot_source_def fixed_source_def follow_world_def with_staged_def and_then_def on_world_def on_store_with_def storage_op_def
        map_error_def verify_sqlite_integrity_def file_at_def rename_file_def next_fault_def return_def Let_def)
qed

theorem restore_with_source_verified_witness:
  "\<exists>w' ds ck db. restore_with_snapshot_source alist_backend demo_hadb demo_wire 42 0 [] ''app'' ''out'' ''app.db'' fixed_source follow_world = (w', Inr 1) \<and>
     linear_applied demo_wire (map_of follow_bucket) ds (1, 7, zeros 512) = Some (1, ck, db) \<and> w_files w' ''out/app.db'' = Some db"
proof -
  obtain w' where run: "restore_with_snapshot_source alist_backend demo_hadb demo_wire 42 0 [] ''app'' ''out'' ''app.db'' fixed_source follow_world = (w', Inr 1)"
    using fixed_source_runs by blast
  from restore_with_source_verified [OF follow_store _ run] run show ?thesis
    by (fastforce simp: fixed_source_def follow_world_def output_path_def)
qed

end
