(* ===== verification/ExternalBase.thy ===== *)
theory ExternalBase
  imports PublishContent
begin

text \<open>
  Publishing on top of a base that another layer owns (\<^verbatim>\<open>sync.rs\<close>, external-base mode): initializing the
  state from the base and the published chain, resuming the WAL cursor from the local progress record,
  and refusing to publish across a WAL rollover.  \<^verbatim>\<open>discover_strict_physical_chain\<close> belongs to
  \<^verbatim>\<open>hadb_changeset\<close>: it is the argument \<open>strict\<close>.
\<close>

section \<open>Initialization\<close>

record strict_head =
  ch_seq :: u64
  ch_checksum :: u64
  ch_count :: nat

definition external_same_seq_changeset_checksum ::
    "'s backend \<Rightarrow> 's hadb \<Rightarrow> codec \<Rightarrow> string \<Rightarrow> string \<Rightarrow> u64 \<Rightarrow> ('s, failure, u64 option) action" where
  "external_same_seq_changeset_checksum b h cd pre name seq =
     (if seq = 0 then return None
      else and_then (storage_op (b_get b (h_format_key h pre name GENERATION_LIVE seq))) (\<lambda>found.
        case found of
          None \<Rightarrow> return None
        | Some data \<Rightarrow>
            (case decode_sqlite_changeset cd data of
               Inl e \<Rightarrow> raise [Message ''failed to decode external base changeset'']
             | Inr cs \<Rightarrow>
                 if ph_seq (cs_header cs) \<noteq> seq then raise [Message ''external base changeset seq mismatch'']
                 else return (Some (cs_checksum cs)))))"

definition external_head ::
    "'s backend \<Rightarrow> 's hadb \<Rightarrow> codec \<Rightarrow> (string \<Rightarrow> string \<Rightarrow> u64 \<Rightarrow> u64 \<Rightarrow> ('s, string, strict_head) action) \<Rightarrow> string \<Rightarrow> string \<Rightarrow>
      external_base_cursor \<Rightarrow> ('s, failure, strict_head) action" where
  "external_head b h cd strict pre name base =
     and_then (attempt (storage_op (strict pre name (eb_seq base) (eb_checksum base)))) (\<lambda>found.
       case found of
         Inr head \<Rightarrow> return head
       | Inl base_err \<Rightarrow>
           and_then (external_same_seq_changeset_checksum b h cd pre name (eb_seq base)) (\<lambda>same_seq.
             case same_seq of
               None \<Rightarrow> raise base_err
             | Some same_seq_checksum \<Rightarrow>
                 map_error (\<lambda>e. [Message ''external base chain failed from page-base checksum and same-seq changeset checksum''])
                   (storage_op (strict pre name (eb_seq base) same_seq_checksum))))"

definition based_state :: "external_base_cursor \<Rightarrow> sync_state \<Rightarrow> sync_state" where
  "based_state base st =
     st\<lparr>ss_current_seq := eb_seq base, ss_current_txid := eb_seq base, ss_db_checksum := Some (eb_checksum base), ss_wal_offset := 0,
        ss_wal_generation := 0, ss_external_base := Some base\<rparr>"

definition headed_state :: "strict_head \<Rightarrow> sync_state \<Rightarrow> sync_state" where
  "headed_state head st =
     st\<lparr>ss_current_seq := ch_seq head, ss_current_txid := ch_seq head, ss_db_checksum := Some (ch_checksum head)\<rparr>"

definition fresh_cursor :: "sync_state \<Rightarrow> sync_state" where
  "fresh_cursor st = st\<lparr>ss_wal_offset := 0, ss_wal_generation := 0, ss_wal_salt := None, ss_wal_checksum_chain := None\<rparr>"

definition resumed_cursor :: "external_base_progress \<Rightarrow> sync_state \<Rightarrow> sync_state" where
  "resumed_cursor progress st =
     st\<lparr>ss_wal_offset := xp_wal_offset progress, ss_wal_generation := xp_wal_generation progress, ss_wal_salt := xp_wal_salt progress,
        ss_wal_checksum_chain := xp_wal_checksum_chain progress\<rparr>"

definition check_progress :: "external_base_cursor \<Rightarrow> strict_head \<Rightarrow> external_base_progress option \<Rightarrow> failure + external_base_progress" where
  "check_progress base head progress =
     (case progress of
        None \<Rightarrow> Inl [Message ''no matching local external-base progress file exists; refusing to guess WAL offset'']
      | Some p \<Rightarrow>
          if xp_base_seq p \<noteq> eb_seq base \<or> xp_base_checksum p \<noteq> eb_checksum base then Inl [Message ''local external-base progress anchor mismatch'']
          else if xp_current_seq p \<noteq> ch_seq head \<or> xp_db_checksum p \<noteq> ch_checksum head
          then Inl [Message ''local external-base progress does not match remote chain head'']
          else Inr p)"

definition initialize_external_base_state ::
    "'s backend \<Rightarrow> 's hadb \<Rightarrow> json \<Rightarrow> codec \<Rightarrow> (string \<Rightarrow> string \<Rightarrow> u64 \<Rightarrow> u64 \<Rightarrow> ('s, string, strict_head) action) \<Rightarrow> string \<Rightarrow>
      external_base_cursor \<Rightarrow> ('s site, failure, unit) action" where
  "initialize_external_base_state b h j cd strict pre base =
     and_then (update_sync (based_state base)) (\<lambda>_.
     and_then sync_state_of (\<lambda>st.
     and_then (on_site_store (external_head b h cd strict pre (ss_name st) base)) (\<lambda>head.
     and_then (update_sync (headed_state head)) (\<lambda>_.
       if ch_count head = 0 then update_sync fresh_cursor
       else and_then sync_state_of (\<lambda>st'.
         and_then (in_world (load_external_base_progress j st')) (\<lambda>found.
         and_then (from_result (check_progress base head found)) (\<lambda>progress.
           update_sync (resumed_cursor progress))))))))"

section \<open>Restarting\<close>

text \<open>What is relied on of \<^verbatim>\<open>serde_json\<close>: a progress record is read back as it was written.\<close>

definition progress_roundtrips :: "json \<Rightarrow> bool" where
  "progress_roundtrips j \<longleftrightarrow> (\<forall>p bs. j_encode_progress j p = Inr bs \<longrightarrow> j_decode_progress j bs = Inr p)"

lemma load_progress_of_file:
  assumes "w_faults w = []" "w_files w (external_base_progress_path st) = Some bs" "j_decode_progress j bs = Inr p" "xp_version p = 1"
  shows "load_external_base_progress j st w = (w, Inr (Some p))"
  using assms by (simp add: load_external_base_progress_def read_local_def next_fault_def and_then_def return_def)

lemma progress_path_cong: "ss_db_dir st' = ss_db_dir st \<Longrightarrow> ss_db_file st' = ss_db_file st \<Longrightarrow> external_base_progress_path st' = external_base_progress_path st"
  by (simp add: external_base_progress_path_def)

text \<open>
  Claim C31: an external-base publisher restarts exactly where it stopped.  If the progress record of a
  state was saved and the process starts again over the same database files, on a bucket whose chain
  from the base ends at the head of that state, then initialization succeeds without writing anything
  and restores the sequence number, the chain value and the complete WAL cursor, so no published frame
  is read twice and no unpublished one is skipped.
\<close>

theorem external_restart_roundtrip:
  assumes j: "progress_roundtrips j" and saved: "save_external_base_progress j st w = (w1, Inr ())"
    and base: "ss_external_base st = Some base"
    and z: "w_files (si_world z) (external_base_progress_path st) = w_files w1 (external_base_progress_path st)" "w_faults (si_world z) = []"
      "ss_db_dir (si_sync z) = ss_db_dir st" "ss_db_file (si_sync z) = ss_db_file st"
    and chain: "external_head b h cd strict pre (ss_name (si_sync z)) base (w_store (si_world z)) = (s', Inr head)"
      "ch_seq head = ss_current_seq st" "Some (ch_checksum head) = ss_db_checksum st" "ch_count head \<noteq> 0"
  shows "\<exists>z'. initialize_external_base_state b h j cd strict pre base z = (z', Inr ()) \<and> w_files (si_world z') = w_files (si_world z) \<and>
    ss_current_seq (si_sync z') = ss_current_seq st \<and> ss_db_checksum (si_sync z') = ss_db_checksum st \<and> ss_external_base (si_sync z') = Some base \<and>
    ss_wal_offset (si_sync z') = ss_wal_offset st \<and> ss_wal_generation (si_sync z') = ss_wal_generation st \<and>
    ss_wal_salt (si_sync z') = ss_wal_salt st \<and> ss_wal_checksum_chain (si_sync z') = ss_wal_checksum_chain st"
proof -
  have "wp (save_external_base_progress j st) (\<lambda>_ w'. \<exists>p bs. progress_from_state st = Inr p \<and> j_encode_progress j p = Inr bs \<and>
      w_files w' (external_base_progress_path st) = Some bs) (\<lambda>_ _. True) w"
    by (rule wp_save_external_base_progress) auto
  from wp_run [OF this saved] obtain p bs where p: "progress_from_state st = Inr p" "j_encode_progress j p = Inr bs"
    "w_files w1 (external_base_progress_path st) = Some bs" by auto
  have dec: "j_decode_progress j bs = Inr p" using j p(2) by (simp add: progress_roundtrips_def)
  have xp: "xp_version p = 1" "xp_base_seq p = eb_seq base" "xp_base_checksum p = eb_checksum base" "xp_current_seq p = ch_seq head"
      "xp_db_checksum p = ch_checksum head" "xp_wal_offset p = ss_wal_offset st" "xp_wal_generation p = ss_wal_generation st"
      "xp_wal_salt p = ss_wal_salt st" "xp_wal_checksum_chain p = ss_wal_checksum_chain st"
    using p(1) base chain(2,3) by (auto simp: progress_from_state_def split: option.splits)
  have st': "external_base_progress_path (headed_state head (based_state base (si_sync z))) = external_base_progress_path st"
    using z(3,4) by (intro progress_path_cong) (simp_all add: headed_state_def based_state_def)
  have load: "load_external_base_progress j (headed_state head (based_state base (si_sync z))) ((si_world z)\<lparr>w_store := s'\<rparr>) =
      ((si_world z)\<lparr>w_store := s'\<rparr>, Inr (Some p))"
    by (rule load_progress_of_file [OF _ _ dec xp(1)]) (use z(1,2) p(3) st' in simp_all)
  let ?st1 = "headed_state head (based_state base (si_sync z))"
  have ok: "check_progress base head (Some p) = Inr p" using xp by (simp add: check_progress_def)
  have name: "ss_name (based_state base (si_sync z)) = ss_name (si_sync z)" by (simp add: based_state_def)
  have "initialize_external_base_state b h j cd strict pre base z =
      (z\<lparr>si_world := (si_world z)\<lparr>w_store := s'\<rparr>, si_sync := resumed_cursor p ?st1\<rparr>, Inr ())"
    using chain(1) load ok
    by (simp add: initialize_external_base_state_def if_not_P [OF chain(4)] and_then_def update_sync_def sync_state_of_def on_site_store_def in_world_def
        on_world_def on_store_with_def from_result_def return_def name)
  then show ?thesis using xp chain(2,3) base by (simp add: based_state_def headed_state_def resumed_cursor_def)
qed

section \<open>Rollover\<close>


section \<open>The cursor after a failed sync\<close>

text \<open>
  The refusal above depends on the batch being readable.  When the read itself fails, the cursor was
  already moved to the new WAL and is not restored: no later call over that WAL detects the rollover.
\<close>

lemma rollover_forgotten:
  assumes "read_header (vs_header v) = Inr (Some header)" "batch_read v header (si_sync z) = Inl e"
    and "size_rollover v (si_sync z) \<or> salt_rollover header (si_sync z)"
  shows "\<exists>z'. sync_wal_with_sequence b h j cd sha256 hm pre sequence v sv z = (z', Inl [WalRead e]) \<and>
    \<not> size_rollover v' (si_sync z') \<and> \<not> salt_rollover header (si_sync z')"
proof -
  let ?z1 = "z\<lparr>si_sync := rollover_cursor v header (si_sync z)\<rparr>"
  have "read_next_wal_batch v header z = (?z1, Inl [WalRead e])"
    using wp_read_next_wal_batch [where v = v and header = header and z = z and Q = "\<lambda>_ _. False"
        and E = "\<lambda>f z'. f = [WalRead e] \<and> z' = ?z1"] assms(2)
    by (auto simp: wp_def split: prod.splits sum.splits)
  then have "sync_wal_with_sequence b h j cd sha256 hm pre sequence v sv z = (?z1, Inl [WalRead e])"
    using assms(1) by (simp add: sync_wal_with_sequence_def and_then_def from_result_def return_def sync_state_of_def)
  moreover have "\<not> size_rollover v' (si_sync ?z1) \<and> \<not> salt_rollover header (si_sync ?z1)"
    using assms(3) by (auto simp: size_rollover_def salt_rollover_def rollover_cursor_def)
  ultimately show ?thesis by blast
qed

text \<open>In owned mode the same happens when the snapshot that re-anchors the chain fails.\<close>

lemma owned_rollover_forgotten:
  assumes "storage_backend b view" "size_rollover v st \<or> salt_rollover header st" "si_sync z = batch_state v header r st"
    and "take_snapshot b h cd sha256 pre sv z = (z', Inl e)"
  shows "\<not> size_rollover v' (si_sync z') \<and> \<not> salt_rollover header (si_sync z')"
proof -
  have "wp (take_snapshot b h cd sha256 pre sv) (\<lambda>_ _. True) (\<lambda>_ z'. \<exists>bl. si_sync z' = (si_sync z)\<lparr>ss_blocker := bl\<rparr>) z"
    unfolding take_snapshot_via
    by (rule storage_backend.wp_snapshot_via [OF assms(1) storage_backend.put_changeset_stores [OF assms(1)]]) auto
  from wp_run [OF this assms(4)] obtain bl where "si_sync z' = (batch_state v header r st)\<lparr>ss_blocker := bl\<rparr>" using assms(3) by auto
  then show ?thesis
    using assms(2) by (auto simp: size_rollover_def salt_rollover_def batch_state_def rollover_cursor_def Let_def split: option.splits)
qed

text \<open>
  A batch that was read but not published leaves the byte offset in front of its frames and the
  checksum chain behind them: the next read starts at the old offset with the new seed.
\<close>

lemma unpublished_batch_splits_cursor:
  assumes "pm_chain r = Some chain" "\<not> size_rollover v st" "\<not> salt_rollover header st" "WAL_HEADER_SIZE < ss_wal_offset st"
  shows "ss_wal_offset (batch_state v header r st) = ss_wal_offset st" "batch_chain_seed (batch_state v header r st) = Some chain"
  using assms by (auto simp: batch_state_def rollover_cursor_def batch_chain_seed_def Let_def)

section \<open>Witnesses\<close>

definition based_sync_state :: sync_state where
  "based_sync_state = demo_sync_state\<lparr>ss_external_base := Some \<lparr>eb_seq = 0, eb_checksum = 5\<rparr>, ss_wal_offset := 568, ss_wal_checksum_chain := Some (1, 2)\<rparr>"

definition based_progress :: external_base_progress where
  "based_progress =
     \<lparr>xp_version = 1, xp_base_seq = 0, xp_base_checksum = 5, xp_current_seq = 1, xp_db_checksum = finalize (\<lambda>x. x) (zeros 512), xp_wal_offset = 568,
      xp_wal_generation = 1, xp_wal_salt = Some (1, 2), xp_wal_checksum_chain = Some (1, 2)\<rparr>"

definition based_json :: json where
  "based_json = demo_json\<lparr>j_encode_progress := (\<lambda>p. if xp_wal_offset p = 568 \<and> p = based_progress then Inr [1] else Inl ''other''),
     j_decode_progress := (\<lambda>_. Inr based_progress)\<rparr>"

definition based_strict :: "string \<Rightarrow> string \<Rightarrow> u64 \<Rightarrow> u64 \<Rightarrow> ((string \<times> bytes) list, string, strict_head) action" where
  "based_strict pre name seq checksum = return \<lparr>ch_seq = 1, ch_checksum = finalize (\<lambda>x. x) (zeros 512), ch_count = 1\<rparr>"

definition restart_site :: "(string \<times> bytes) list site" where
  "restart_site = demo_site\<lparr>si_world := \<lparr>w_store = [], w_files = [external_base_progress_path based_sync_state \<mapsto> [1]], w_faults = []\<rparr>\<rparr>"

theorem external_restart_roundtrip_witness:
  "\<exists>z'. initialize_external_base_state alist_backend demo_hadb based_json demo_wire based_strict [] \<lparr>eb_seq = 0, eb_checksum = 5\<rparr> restart_site = (z', Inr ()) \<and>
     ss_wal_offset (si_sync z') = 568 \<and> ss_wal_checksum_chain (si_sync z') = Some (1, 2) \<and> ss_current_seq (si_sync z') = 1"
proof -
  have j: "progress_roundtrips based_json" by (simp add: progress_roundtrips_def based_json_def)
  let ?w = "\<lparr>w_store = [], w_files = Map.empty, w_faults = []\<rparr> :: (string \<times> bytes) list world"
  have fields: "ss_external_base based_sync_state = Some \<lparr>eb_seq = 0, eb_checksum = 5\<rparr>" "ss_current_seq based_sync_state = 1"
      "ss_db_checksum based_sync_state = Some (finalize (\<lambda>x. x) (zeros 512))" "ss_wal_offset based_sync_state = 568"
      "ss_wal_checksum_chain based_sync_state = Some (1, 2)" "ss_db_dir based_sync_state = ss_db_dir demo_sync_state" "ss_db_file based_sync_state = ss_db_file demo_sync_state"
    by (simp_all add: based_sync_state_def)
  have "progress_from_state based_sync_state = Inr based_progress"
    by (simp add: progress_from_state_def based_sync_state_def based_progress_def demo_sync_state_def)
  then obtain w1 where saved: "save_external_base_progress based_json based_sync_state ?w = (w1, Inr ())"
      "w_files w1 (external_base_progress_path based_sync_state) = Some [1]"
    by (simp add: save_external_base_progress_def disk_op_def next_fault_def and_then_def from_result_def return_def based_json_def based_progress_def
        install_file_def write_file_def rename_file_def fsync_dir_def)
  have site: "si_sync restart_site = demo_sync_state" "w_faults (si_world restart_site) = []" "store_of restart_site = []"
      "w_files (si_world restart_site) (external_base_progress_path based_sync_state) = Some [1]"
    by (simp_all add: restart_site_def)
  have chain: "external_head alist_backend demo_hadb demo_wire based_strict [] (ss_name (si_sync restart_site)) \<lparr>eb_seq = 0, eb_checksum = 5\<rparr> (w_store (si_world restart_site)) =
      ([], Inr \<lparr>ch_seq = 1, ch_checksum = finalize (\<lambda>x. x) (zeros 512), ch_count = 1\<rparr>)"
    using site by (simp add: external_head_def based_strict_def and_then_def attempt_def storage_op_def map_error_def return_def)
  show ?thesis
    using external_restart_roundtrip [OF j saved(1) fields(1) _ _ _ _ chain] site saved(2) fields by auto
qed


end
