(* ===== verification/Cursor.thy ===== *)
theory Cursor
  imports PublishContent
begin

text \<open>
  The typing of the WAL cursor.  A page map holds pages of the page size only and ends on a frame
  boundary; the byte offset a publisher keeps is zero or a frame boundary, whatever a sync or a snapshot
  runs into.
\<close>

section \<open>Page maps\<close>

definition frame_boundary :: "nat \<Rightarrow> nat \<Rightarrow> bool" where
  "frame_boundary ps off \<longleftrightarrow> (\<exists>n. off = WAL_HEADER_SIZE + n * (FRAME_HEADER_SIZE + ps))"

definition page_map_typed :: "nat \<Rightarrow> nat \<Rightarrow> page_map_read \<Rightarrow> bool" where
  "page_map_typed ps start r \<longleftrightarrow>
     (\<forall>p d. pm_map r p = Some d \<longrightarrow> length d = ps) \<and> pm_offset r = start + pm_frames r * (FRAME_HEADER_SIZE + ps) \<and>
     (pm_frames r = 0 \<longrightarrow> pm_map r = Map.empty) \<and> (0 < pm_frames r \<longrightarrow> 0 < pm_db_size r) \<and> pm_commits r \<le> pm_frames r"

lemma read_frame_page: "read_frame f ps pos = Inr fr \<Longrightarrow> length (snd fr) = ps"
  by (auto simp: read_frame_def read_exact_def slice_def split: if_splits)

lemma fill_page_map_pages:
  "fill_page_map v ps start m i hs out pm = Inr (pm', out') \<Longrightarrow> (\<forall>p d. pm p = Some d \<longrightarrow> length d = ps) \<Longrightarrow> (\<forall>p d. pm' p = Some d \<longrightarrow> length d = ps)"
proof (induction hs arbitrary: i out pm)
  case (Cons hdr hs)
  obtain fr where fr: "read_frame (v i) ps (start + i * (FRAME_HEADER_SIZE + ps)) = Inr fr"
    using Cons.prems(1) by (cases "read_frame (v i) ps (start + i * (FRAME_HEADER_SIZE + ps))") auto
  obtain o1 where rest: "fill_page_map v ps start m (i + 1) hs o1 (pm(fst (snd hdr) \<mapsto> snd fr)) = Inr (pm', out')"
    using Cons.prems(1) fr by (auto split: if_splits option.splits)
  have "(pm(fst (snd hdr) \<mapsto> snd fr)) p = Some d \<longrightarrow> length d = ps" for p d
    using Cons.prems(2) read_frame_page [OF fr] by (cases "p = fst (snd hdr)") auto
  then show ?case by (intro Cons.IH [OF rest]) blast
qed simp

lemma last_commit_positive:
  assumes "scan_headers v ps start m 0 n running = Inr hs" "last_commit hs = Some (k, x, y)"
  shows "0 < y" "0 < k"
  using scan_headers_number [OF assms(1), of "(k, x, y)"] assms(2) by (auto simp: last_commit_def find_Some_iff) (metis nth_mem set_rev length_rev)+

lemma page_map_read_typed:
  assumes "read_frames_as_page_map_checked v psz off seed = Inr r"
  shows "page_map_typed (unat psz) (if off = 0 then WAL_HEADER_SIZE else off) r"
proof -
  let ?ps = "unat psz"
  define start where "start = (if off = 0 then WAL_HEADER_SIZE else off)"
  have none: "page_map_typed ?ps start (empty_page_map_read start c)" for c by (simp add: page_map_typed_def empty_page_map_read_def)
  have some: "page_map_typed ?ps start \<lparr>pm_map = pm, pm_frames = k, pm_offset = start + k * (FRAME_HEADER_SIZE + ?ps), pm_db_size = y,
      pm_commits = length (filter (\<lambda>(_, _, db_size). 0 < db_size) (take k hs)), pm_chain = c\<rparr>"
    if "scan_headers (v_pass1 v) ?ps start m 0 n run = Inr hs" "last_commit hs = Some (k, x, y)"
      "fill_page_map (v_pass2 v) ?ps start m 0 (take k hs) sd Map.empty = Inr (pm, c)" for m n run hs k x y sd pm c
  proof -
    have "length (filter (\<lambda>(_, _, db_size). 0 < db_size) (take k hs)) \<le> k" by (rule order_trans [OF length_filter_le]) simp
    then show ?thesis using last_commit_positive [OF that(1,2)] fill_page_map_pages [OF that(3)] by (simp add: page_map_typed_def)
  qed
  show ?thesis
    using assms unfolding read_frames_as_page_map_checked_def Let_def start_def [symmetric]
    by (auto split: option.splits if_splits prod.splits intro: none some)
qed

section \<open>The cursor\<close>

definition aligned :: "nat \<Rightarrow> sync_state \<Rightarrow> bool" where
  "aligned ps st \<longleftrightarrow> ss_wal_offset st = 0 \<or> frame_boundary ps (ss_wal_offset st)"

definition keeps_aligned :: "nat \<Rightarrow> 's site \<Rightarrow> 's site \<Rightarrow> bool" where
  "keeps_aligned ps z z' \<longleftrightarrow> (aligned ps (si_sync z) \<longrightarrow> aligned ps (si_sync z'))"

lemma keeps_aligned_preorder [simp]: "reflp (keeps_aligned ps)" "transp (keeps_aligned ps)"
  by (auto simp: keeps_aligned_def reflp_def transp_def)

lemma keeps_aligned_in_world [simp]: "confined (keeps_aligned ps) (in_world m)"
  by (simp add: confined_def keeps_aligned_def in_world_def split: prod.split)

lemma keeps_aligned_sync_state_of [simp]: "confined (keeps_aligned ps) sync_state_of"
  by (simp add: confined_def keeps_aligned_def sync_state_of_def)

lemma keeps_aligned_emit [simp]: "confined (keeps_aligned ps) (emit_rollover mode r)"
  by (simp add: confined_def keeps_aligned_def emit_rollover_def)

lemma keeps_aligned_update: "(\<And>st. aligned ps st \<Longrightarrow> aligned ps (f st)) \<Longrightarrow> confined (keeps_aligned ps) (update_sync f)"
  by (simp add: confined_def keeps_aligned_def update_sync_def)

lemma keeps_aligned_store [simp]:
  "confined (keeps_aligned ps) (on_site_store m)" "confined (keeps_aligned ps) (save_state b j pre)" "confined (keeps_aligned ps) (sqlite_answer x)"
  by (simp_all add: on_site_store_def save_state_def sqlite_answer_def confined_intros)

lemma keeps_aligned_snapshot [simp]: "confined (keeps_aligned ps) (take_snapshot b h cd sha256 pre sv)"
proof -
  have "confined (keeps_aligned ps) (update_sync (\<lambda>st. st\<lparr>ss_blocker := bl\<rparr>))" for bl by (rule keeps_aligned_update) (simp add: aligned_def)
  then have "confined (keeps_aligned ps) (prepare_snapshot cd sha256 sv)"
    by (auto simp: prepare_snapshot_def release_checkpoint_blocker_def checkpoint_wal_def reacquire_checkpoint_blocker_def Let_def split: prod.split intro!: confined_intros)
  moreover have "confined (keeps_aligned ps) (finish_snapshot sv p)" for p
    unfolding finish_snapshot_def by (rule keeps_aligned_update) (simp add: aligned_def reset_wal_cursor_after_snapshot_def)
  ultimately show ?thesis by (auto simp: take_snapshot_def intro!: confined_intros)
qed

lemma keeps_aligned_reanchor [simp]: "confined (keeps_aligned ps) (reanchor b h j cd sha256 pre sv)"
  by (simp add: reanchor_def confined_intros)

lemma keeps_aligned_publish:
  assumes "frame_boundary ps (wb_new_offset batch)"
  shows "confined (keeps_aligned ps) (publish_external b h j pre batch p)" "confined (keeps_aligned ps) (publish_owned b h j cd sha256 pre sv batch p)"
proof -
  have adv: "confined (keeps_aligned ps) (update_sync (advance_cursor batch p))"
    by (rule keeps_aligned_update) (simp add: aligned_def advance_cursor_def assms)
  have adopt: "confined (keeps_aligned ps) (update_sync (\<lambda>s. s\<lparr>ss_current_seq := a, ss_current_txid := t, ss_db_checksum := c\<rparr>))" for a t c
    by (rule keeps_aligned_update) (simp add: aligned_def)
  show "confined (keeps_aligned ps) (publish_external b h j pre batch p)" "confined (keeps_aligned ps) (publish_owned b h j cd sha256 pre sv batch p)"
    using adv adopt by (auto simp: publish_external_def publish_owned_def adopt_or_fail_def Let_def intro!: confined_intros)
qed

lemma batch_read_typed:
  assumes size: "wh_page_size header = psz" and al: "aligned (unat psz) (si_sync z)" and m: "batch_read v header (si_sync z) = Inr m"
  shows "frame_boundary (unat psz) (pm_offset m)" "\<forall>p d. pm_map m p = Some d \<longrightarrow> length d = unat psz"
proof -
  let ?ps = "unat psz"
  let ?st = "rollover_cursor v header (si_sync z)"
  have t: "page_map_typed ?ps (if ss_wal_offset ?st = 0 then WAL_HEADER_SIZE else ss_wal_offset ?st) m"
    using page_map_read_typed m size by (simp add: batch_read_def Let_def)
  have "aligned ?ps ?st" using al by (simp add: aligned_def rollover_cursor_def)
  then have "frame_boundary ?ps (if ss_wal_offset ?st = 0 then WAL_HEADER_SIZE else ss_wal_offset ?st)"
    by (cases "ss_wal_offset ?st = 0") (auto simp: aligned_def frame_boundary_def intro: exI [of _ 0])
  then obtain n where "(if ss_wal_offset ?st = 0 then WAL_HEADER_SIZE else ss_wal_offset ?st) = WAL_HEADER_SIZE + n * (FRAME_HEADER_SIZE + ?ps)"
    unfolding frame_boundary_def by blast
  then have "pm_offset m = WAL_HEADER_SIZE + (n + pm_frames m) * (FRAME_HEADER_SIZE + ?ps)" using t by (simp add: page_map_typed_def algebra_simps)
  then show "frame_boundary ?ps (pm_offset m)" by (auto simp: frame_boundary_def)
  show "\<forall>p d. pm_map m p = Some d \<longrightarrow> length d = ?ps" using t by (simp add: page_map_typed_def)
qed

lemma wp_batch_aligned:
  fixes z :: "'s site"
  assumes size: "wh_page_size header = psz" and al: "aligned (unat psz) (si_sync z)"
  shows "wp (read_next_wal_batch v header) (\<lambda>bt. wp (if wb_rollover_detected bt then on_rollover b h j cd sha256 pre sequence sv (si_sync z)
      else let pages = hm (wb_page_map bt) in if pages = [] then return 0
      else and_then (prepare_changeset cd sha256 v header bt pages) (\<lambda>p.
        case sequence of ExternalChangeCounter \<Rightarrow> publish_external b h j pre bt p | WalrustOwned \<Rightarrow> publish_owned b h j cd sha256 pre sv bt p))
      (\<lambda>_ z'. aligned (unat psz) (si_sync z')) (\<lambda>_ z'. aligned (unat psz) (si_sync z'))) (\<lambda>_ z'. aligned (unat psz) (si_sync z')) z"
proof -
  let ?ps = "unat psz"
  have cur: "aligned ?ps (rollover_cursor v header (si_sync z))" using al by (simp add: aligned_def rollover_cursor_def)
  have wp: "wp m (\<lambda>_ z'. aligned ?ps (si_sync z')) (\<lambda>_ z'. aligned ?ps (si_sync z')) y"
    if "confined (keeps_aligned ?ps) m" "aligned ?ps (si_sync y)" for y and m :: "('s site, failure, u64) action"
    using that by (simp add: wp_fst confined_def keeps_aligned_def)
  have batch: "aligned ?ps (batch_state v header m (si_sync z))" for m
    using cur by (simp add: aligned_def batch_state_def Let_def split: option.split)
  have cont: "confined (keeps_aligned ?ps) (let pages = hm (wb_page_map bt) in if pages = [] then return 0
      else and_then (prepare_changeset cd sha256 v header bt pages) (\<lambda>p.
        case sequence of ExternalChangeCounter \<Rightarrow> publish_external b h j pre bt p | WalrustOwned \<Rightarrow> publish_owned b h j cd sha256 pre sv bt p))"
    if "frame_boundary ?ps (wb_new_offset bt)" for bt
    using keeps_aligned_publish [OF that] by (auto simp: prepare_changeset_def Let_def split: delta_sequence.split prod.split intro!: confined_intros)
  have roll: "wp (on_rollover b h j cd sha256 pre sequence sv (si_sync z)) (\<lambda>_ z'. aligned ?ps (si_sync z')) (\<lambda>_ z'. aligned ?ps (si_sync z')) y"
    if "aligned ?ps (si_sync y)" for y
  proof (rule wp [OF _ that])
    have "confined (keeps_aligned ?ps) (update_sync (restore_cursor (si_sync z)))"
      by (rule keeps_aligned_update) (use al in \<open>simp add: aligned_def restore_cursor_def\<close>)
    then show "confined (keeps_aligned ?ps) (on_rollover b h j cd sha256 pre sequence sv (si_sync z))"
      by (auto simp: on_rollover_def split: delta_sequence.split intro!: confined_intros)
  qed
  show ?thesis
  proof (rule wp_read_next_wal_batch, goal_cases)
    case (1 m)
    have "frame_boundary ?ps (wb_new_offset (batch_of v header m (si_sync z)))" using batch_read_typed(1) [OF size al 1] by (simp add: batch_of_def)
    from wp [OF cont [OF this]] roll batch show ?case by (simp only: wp_if split: if_split) simp
  qed (simp add: cur)
qed

text \<open>
  Claim C33: the WAL cursor is well typed.  For every sync, owned or external, whatever SQLite does to
  the WAL meanwhile and wherever it fails, a cursor that is zero or a frame boundary of the WAL's page
  size stays one, and a page map that is read on the way consists of whole pages of that size and ends
  on a frame boundary behind its committed frames.
\<close>

theorem sync_keeps_cursor_aligned:
  assumes size: "\<And>header. read_header (vs_header v) = Inr (Some header) \<Longrightarrow> wh_page_size header = psz"
    and al: "aligned (unat psz) (si_sync z)"
    and run: "sync_wal_with_sequence b h j cd sha256 hm pre sequence v sv z = (z', r)"
  shows "aligned (unat psz) (si_sync z') \<and>
    (\<forall>header m. read_header (vs_header v) = Inr (Some header) \<and> batch_read v header (si_sync z) = Inr m \<longrightarrow>
       frame_boundary (unat psz) (pm_offset m) \<and> (\<forall>p d. pm_map m p = Some d \<longrightarrow> length d = unat psz))"
proof -
  let ?ps = "unat psz"
  have "wp (sync_wal_with_sequence b h j cd sha256 hm pre sequence v sv) (\<lambda>_ z'. aligned ?ps (si_sync z')) (\<lambda>_ z'. aligned ?ps (si_sync z')) z"
  proof (cases "read_header (vs_header v)")
    case (Inl e)
    then show ?thesis using al by (simp add: sync_wal_with_sequence_def wp_simps)
  next
    case (Inr found)
    show ?thesis
    proof (cases found)
      case None
      then show ?thesis using Inr al by (simp add: sync_wal_with_sequence_def ensure_database_in_wal_mode_def wp_simps split: sum.split)
    next
      case (Some header)
      have h: "read_header (vs_header v) = Inr (Some header)" using Inr Some by simp
      show ?thesis
        using wp_batch_aligned [OF size [OF h] al]
        by (simp only: sync_wal_with_sequence_def wp_and_then [of "from_result _"] wp_from_result h map_sum.simps id_apply sum.case option.case
          wp_and_then [of sync_state_of] wp_sync_state_of wp_and_then [of "read_next_wal_batch _ _"])
    qed
  qed
  from wp_run [OF this run] batch_read_typed [OF size al] show ?thesis by (cases r) auto
qed

theorem sync_keeps_cursor_aligned_witness:
  "\<exists>z' r. sync_wal_with_sequence alist_backend demo_hadb demo_json demo_wire (\<lambda>x. x) demo_iter [] WalrustOwned demo_wal_sight demo_snapshot_sight demo_site = (z', r) \<and>
     aligned 512 (si_sync z')"
proof -
  obtain z' r where run: "sync_wal_with_sequence alist_backend demo_hadb demo_json demo_wire (\<lambda>x. x) demo_iter [] WalrustOwned demo_wal_sight demo_snapshot_sight demo_site =
      (z', r)" by fastforce
  have "wh_page_size header = 512" if "read_header (vs_header demo_wal_sight) = Inr (Some header)" for header
    using page_wal_parsed that by (auto simp: demo_wal_sight_def)
  moreover have "aligned (unat (512 :: u32)) (si_sync demo_site)" by (simp add: aligned_def demo_sync_state_def demo_site_def)
  ultimately show ?thesis using sync_keeps_cursor_aligned [OF _ _ run, of 512] run by simp
qed

end
