(* ===== verification/Shadow.thy ===== *)
theory Shadow
  imports Publish
begin

text \<open>
  The shadow WAL (\<^verbatim>\<open>shadow.rs\<close>): committed frames of the live WAL are copied into segment files of a local
  directory, one segment per WAL generation, from where they are read for upload.

  The directory is the list of its entries in the order \<^verbatim>\<open>read_dir\<close> yields them.  Every operation that
  changes it takes its outcome from a schedule: \<open>None\<close> succeeds, \<open>Some n\<close> fails, and a write that fails
  has appended its first \<open>n\<close> bytes.  A crash is a failure after which the state in memory is lost.
  Reading an entry that was listed succeeds.  What SQLite answers is an input; the read transaction that
  blocks checkpoints is a flag.
\<close>

section \<open>State\<close>

record shadow_wal =
  sw_db_dir :: string
  sw_db_file :: string
  sw_generation :: u64
  sw_segment_index :: u64
  sw_segment_offset :: u64
  sw_page_size :: u32
  sw_blocker :: bool
  sw_wal_salt :: "u32 \<times> u32"
  sw_wal_chain :: "chain option"
  sw_header_seeded :: bool

record shadow_segment =
  sg_generation :: u64
  sg_index :: u64
  sg_path :: string
  sg_size :: nat

record shadow_disk =
  sd_entries :: "(string \<times> bytes) list"
  sd_faults :: "nat option list"

record shadow_site =
  sx_wal :: shadow_wal
  sx_disk :: shadow_disk

record shadow_sight =
  sv_exists :: bool
  sv_views :: wal_views
  sv_journal_mode :: "string + string"

section \<open>Disk operations\<close>

definition disk_outcome :: "shadow_disk \<Rightarrow> shadow_disk \<times> nat option" where
  "disk_outcome d = (case sd_faults d of [] \<Rightarrow> (d, None) | x # xs \<Rightarrow> (d\<lparr>sd_faults := xs\<rparr>, x))"

definition io :: "(shadow_disk, failure, unit) action" where
  "io = (\<lambda>d. case disk_outcome d of (d', None) \<Rightarrow> (d', Inr ()) | (d', Some _) \<Rightarrow> (d', Inl [Message ''I/O error'']))"

definition content_at :: "string \<Rightarrow> shadow_disk \<Rightarrow> bytes" where
  "content_at name d = (case map_of (sd_entries d) name of None \<Rightarrow> [] | Some f \<Rightarrow> f)"

definition set_content :: "string \<Rightarrow> bytes \<Rightarrow> shadow_disk \<Rightarrow> shadow_disk" where
  "set_content name f d = d\<lparr>sd_entries := AList.update name f (sd_entries d)\<rparr>"

text \<open>Opening in append mode creates the file.\<close>

definition open_append :: "string \<Rightarrow> (shadow_disk, failure, unit) action" where
  "open_append name = and_then io (\<lambda>_ d. (set_content name (content_at name d) d, Inr ()))"

definition append_bytes :: "string \<Rightarrow> bytes \<Rightarrow> (shadow_disk, failure, unit) action" where
  "append_bytes name bs = (\<lambda>d. case disk_outcome d of
      (d', None) \<Rightarrow> (set_content name (content_at name d' @ bs) d', Inr ())
    | (d', Some n) \<Rightarrow> (set_content name (content_at name d' @ take n bs) d', Inl [Message ''I/O error'']))"

definition set_len :: "string \<Rightarrow> nat \<Rightarrow> (shadow_disk, failure, unit) action" where
  "set_len name n = and_then io (\<lambda>_ d. (set_content name (take n (content_at name d)) d, Inr ()))"

definition read_dir :: "(shadow_disk, failure, (string \<times> bytes) list) action" where
  "read_dir = and_then io (\<lambda>_ d. (d, Inr (sd_entries d)))"

definition delete_entry :: "string \<Rightarrow> (shadow_disk, failure, unit) action" where
  "delete_entry name = and_then io (\<lambda>_ d. (d\<lparr>sd_entries := AList.delete name (sd_entries d)\<rparr>, Inr ()))"

definition on_disk :: "(shadow_disk, failure, 'a) action \<Rightarrow> (shadow_site, failure, 'a) action" where
  "on_disk m = (\<lambda>x. case m (sx_disk x) of (d', r) \<Rightarrow> (x\<lparr>sx_disk := d'\<rparr>, r))"

definition update_shadow :: "(shadow_wal \<Rightarrow> shadow_wal) \<Rightarrow> (shadow_site, failure, unit) action" where
  "update_shadow f = (\<lambda>x. (x\<lparr>sx_wal := f (sx_wal x)\<rparr>, Inr ()))"

definition shadow_of :: "(shadow_site, failure, shadow_wal) action" where
  "shadow_of = (\<lambda>x. (x, Inr (sx_wal x)))"

section \<open>Names\<close>

definition is_segment_file :: "string \<Rightarrow> bool" where
  "is_segment_file name \<longleftrightarrow> strip_suffix name ''.wal'' \<noteq> None"

text \<open>\<^verbatim>\<open>name.split('-').next()\<close>, parsed.\<close>

definition generation_of_name :: "string \<Rightarrow> u64 option" where
  "generation_of_name name = from_str_radix16 (takeWhile (\<lambda>c. c \<noteq> CHR ''-'') name)"

function trim_end_matches :: "string \<Rightarrow> string" where
  "trim_end_matches s = (case strip_suffix s ''.wal'' of None \<Rightarrow> s | Some s' \<Rightarrow> trim_end_matches s')"
  by auto
termination
  by (relation "measure length") (auto simp: strip_suffix_def Let_def split: if_splits)

declare trim_end_matches.simps [simp del]

text \<open>\<^verbatim>\<open>s.split('-')\<close>\<close>

fun split_dashes :: "string \<Rightarrow> string list" where
  "split_dashes [] = [[]]"
| "split_dashes (c # cs) =
     (if c = CHR ''-'' then [] # split_dashes cs
      else case split_dashes cs of [] \<Rightarrow> [[c]] | part # parts \<Rightarrow> (c # part) # parts)"

definition segment_of_entry :: "u64 \<Rightarrow> string \<times> bytes \<Rightarrow> shadow_segment option" where
  "segment_of_entry generation entry =
     (if is_segment_file (fst entry) then
        case split_dashes (trim_end_matches (fst entry)) of
          [g, i] \<Rightarrow>
            (case (from_str_radix16 g, from_str_radix16 i) of
               (Some gen, Some idx) \<Rightarrow>
                 if gen = generation
                 then Some \<lparr>sg_generation = gen, sg_index = idx, sg_path = fst entry, sg_size = length (snd entry)\<rparr>
                 else None
             | _ \<Rightarrow> None)
        | _ \<Rightarrow> None
      else None)"

definition shadow_dir_for :: "string \<Rightarrow> string \<Rightarrow> string" where
  "shadow_dir_for dir file = output_path dir (''.walrust-'' @ file_stem file)"

definition current_segment_name :: "shadow_wal \<Rightarrow> string" where
  "current_segment_name sw = format_segment_name (sw_generation sw) (sw_segment_index sw)"

section \<open>Starting\<close>

text \<open>The database header: 16 bytes of magic, then the page size, where 1 stands for 65536.\<close>

definition SQLITE_MAGIC :: bytes where
  "SQLITE_MAGIC = map of_char ''SQLite format 3'' @ [0]"

definition db_header_page_size :: "bytes option \<Rightarrow> u32 option" where
  "db_header_page_size db =
     (case db of
        None \<Rightarrow> None
      | Some f \<Rightarrow>
          if length f < 18 \<or> take 16 f \<noteq> SQLITE_MAGIC then None
          else let raw = be_nat (slice f 16 2) in Some (if raw = 1 then 65536 else word_of_nat raw))"

definition ensure_connection_in_wal_mode :: "string + string \<Rightarrow> failure + unit" where
  "ensure_connection_in_wal_mode mode =
     (case mode of
        Inl e \<Rightarrow> Inl [Message e]
      | Inr m \<Rightarrow>
          if map ascii_lower m = ''wal'' then Inr ()
          else Inl [Message ''SQLite journal_mode is not WAL; shadow replication cannot continue''])"

definition note_generation :: "string \<times> bytes \<Rightarrow> u64 option \<Rightarrow> u64 option" where
  "note_generation entry max_gen =
     (if is_segment_file (fst entry) then
        case generation_of_name (fst entry) of
          None \<Rightarrow> max_gen
        | Some gen \<Rightarrow> Some (case max_gen of None \<Rightarrow> gen | Some m \<Rightarrow> max m gen)
      else max_gen)"

definition find_latest_generation :: "(shadow_disk, failure, u64 option) action" where
  "find_latest_generation = and_then read_dir (\<lambda>entries. return (fold note_generation entries None))"

definition align_entry :: "nat \<Rightarrow> string \<times> bytes \<Rightarrow> unit \<Rightarrow> (shadow_disk, failure, unit) action" where
  "align_entry frame_size entry u =
     (let size = length (snd entry); aligned = size div frame_size * frame_size in
      if is_segment_file (fst entry) \<and> aligned \<noteq> size
      then and_then io (\<lambda>_. and_then (set_len (fst entry) aligned) (\<lambda>_. io))
      else return ())"

definition align_truncate_segments :: "u32 \<Rightarrow> (shadow_disk, failure, unit) action" where
  "align_truncate_segments page_size =
     (if page_size = 0 then return ()
      else and_then read_dir (\<lambda>entries.
           and_then (fold_actions (align_entry (FRAME_HEADER_SIZE + unat page_size)) entries ()) (\<lambda>_. io)))"

definition shadow_new :: "string \<Rightarrow> string \<Rightarrow> bytes option \<Rightarrow> bytes option \<Rightarrow> failure + unit \<Rightarrow> (shadow_disk, failure, shadow_wal) action" where
  "shadow_new dir file wal db open_blocker =
     and_then io (\<lambda>_.
     and_then (from_result (map_sum (\<lambda>e. [WalRead e]) id (read_header wal))) (\<lambda>found.
     let (page_size, salt, header_seeded) =
       (case found of Some header \<Rightarrow> (wh_page_size header, header_salt header, True) | None \<Rightarrow> (4096, (0, 0), False)) in
     and_then find_latest_generation (\<lambda>latest.
     and_then (align_truncate_segments (case db_header_page_size db of Some p \<Rightarrow> p | None \<Rightarrow> page_size)) (\<lambda>_.
     and_then (from_result open_blocker) (\<lambda>_.
       return \<lparr>sw_db_dir = dir, sw_db_file = file, sw_generation = (case latest of Some g \<Rightarrow> g | None \<Rightarrow> 0), sw_segment_index = 0,
         sw_segment_offset = 0, sw_page_size = page_size, sw_blocker = True, sw_wal_salt = salt, sw_wal_chain = None,
         sw_header_seeded = header_seeded\<rparr>)))))"

definition wal_read_salt :: "shadow_wal \<Rightarrow> (u32 \<times> u32) option" where
  "wal_read_salt sw = (if sw_header_seeded sw then Some (sw_wal_salt sw) else None)"

definition wal_read_chain :: "shadow_wal \<Rightarrow> chain option" where
  "wal_read_chain sw = sw_wal_chain sw"

definition restore_read_cursor :: "(u32 \<times> u32) option \<Rightarrow> chain option \<Rightarrow> shadow_wal \<Rightarrow> shadow_wal" where
  "restore_read_cursor salt chn sw =
     (case salt of None \<Rightarrow> sw | Some s \<Rightarrow> sw\<lparr>sw_wal_salt := s, sw_header_seeded := True, sw_wal_chain := chn\<rparr>)"

section \<open>Copying\<close>

definition segment_header :: "parsed_frame \<Rightarrow> bytes" where
  "segment_header frame = u32_to_be (pf_page_number frame) @ u32_to_be (pf_db_size frame) @ replicate 16 0"

definition write_frame :: "string \<Rightarrow> u32 \<Rightarrow> parsed_frame \<Rightarrow> unit \<Rightarrow> (shadow_site, failure, unit) action" where
  "write_frame name page_size frame u =
     and_then (on_disk (append_bytes name (segment_header frame))) (\<lambda>_.
     and_then (on_disk (append_bytes name (pf_data frame))) (\<lambda>_.
       update_shadow (\<lambda>sw. sw\<lparr>sw_segment_offset := sw_segment_offset sw + (word_of_nat FRAME_HEADER_SIZE + ucast page_size)\<rparr>)))"

definition write_frames_to_segment :: "parsed_frame list \<Rightarrow> u32 \<Rightarrow> (shadow_site, failure, unit) action" where
  "write_frames_to_segment frames page_size =
     and_then shadow_of (\<lambda>sw.
     let name = current_segment_name sw in
     and_then (on_disk (open_append name)) (\<lambda>_.
     and_then (fold_actions (write_frame name page_size) frames ()) (\<lambda>_.
     and_then (on_disk io) (\<lambda>_.
     and_then (on_disk io) (\<lambda>_.
       on_disk io)))))"

text \<open>The salt comparison of \<^verbatim>\<open>copy_frames\<close>: initialization, rollover or continuation.\<close>

definition observe_header :: "wal_header \<Rightarrow> shadow_wal \<Rightarrow> shadow_wal" where
  "observe_header header sw =
     (if \<not> sw_header_seeded sw
      then sw\<lparr>sw_wal_salt := header_salt header, sw_page_size := wh_page_size header, sw_header_seeded := True, sw_wal_chain := None\<rparr>
      else if header_salt header \<noteq> sw_wal_salt sw
      then sw\<lparr>sw_generation := sw_generation sw + 1, sw_segment_index := 0, sw_segment_offset := 0, sw_wal_salt := header_salt header,
              sw_page_size := wh_page_size header, sw_wal_chain := None\<rparr>
      else sw)"

definition effective_offset :: "wal_header \<Rightarrow> shadow_wal \<Rightarrow> nat \<Rightarrow> nat" where
  "effective_offset header sw off = (if sw_header_seeded sw \<and> header_salt header \<noteq> sw_wal_salt sw then 0 else off)"

definition copy_frames :: "shadow_sight \<Rightarrow> nat \<Rightarrow> (shadow_site, failure, parsed_frame list \<times> nat) action" where
  "copy_frames v off =
     (if \<not> sv_exists v then and_then (from_result (ensure_connection_in_wal_mode (sv_journal_mode v))) (\<lambda>_. return ([], off))
      else and_then (from_result (map_sum (\<lambda>e. [WalRead e]) id (read_header (v_header (sv_views v))))) (\<lambda>found.
        case found of
          None \<Rightarrow> and_then (from_result (ensure_connection_in_wal_mode (sv_journal_mode v))) (\<lambda>_. return ([], off))
        | Some header \<Rightarrow>
            and_then shadow_of (\<lambda>sw.
            and_then (update_shadow (observe_header header)) (\<lambda>_.
            and_then (from_result (map_sum (\<lambda>e. [WalRead e]) id (read_frames_as_pages_checked (sv_views v) (wh_page_size header)
                (effective_offset header sw off) (sw_wal_chain (observe_header header sw))))) (\<lambda>r.
            and_then (update_shadow (\<lambda>sw. sw\<lparr>sw_wal_chain := pr_chain r\<rparr>)) (\<lambda>_.
              if pr_frames r = [] then return ([], pr_offset r)
              else and_then (write_frames_to_segment (pr_frames r) (wh_page_size header)) (\<lambda>_.
                return (pr_frames r, pr_offset r))))))))"

section \<open>Reading back\<close>

definition list_segments :: "u64 \<Rightarrow> (shadow_site, failure, shadow_segment list) action" where
  "list_segments generation =
     and_then (on_disk read_dir) (\<lambda>entries. return (sort_key sg_index (List.map_filter (segment_of_entry generation) entries)))"

fun read_segment :: "bytes \<Rightarrow> nat \<Rightarrow> nat \<Rightarrow> nat \<Rightarrow> wal_error + parsed_frame list" where
  "read_segment f ps pos 0 = Inr []"
| "read_segment f ps pos (Suc n) =
     rbind (read_frame f ps pos) (\<lambda>(h, d).
     rbind (read_segment f ps (pos + FRAME_HEADER_SIZE + ps) n) (\<lambda>rest.
       Inr (\<lparr>pf_page_number = be32_at h 0, pf_db_size = be32_at h 4, pf_data = d\<rparr> # rest)))"

fun read_segments :: "(string \<rightharpoonup> bytes) \<Rightarrow> nat \<Rightarrow> nat \<Rightarrow> nat \<Rightarrow> (string \<times> nat) list \<Rightarrow> wal_error + parsed_frame list" where
  "read_segments files ps start_offset total_offset [] = Inr []"
| "read_segments files ps start_offset total_offset ((path, seg_size) # segments) =
     (let segment_end = total_offset + seg_size in
      if segment_end \<le> start_offset then read_segments files ps start_offset segment_end segments
      else case files path of
        None \<Rightarrow> Inl NotFound
      | Some f \<Rightarrow>
          let relative_offset = start_offset - total_offset;
              frame_count = (seg_size - relative_offset) div (FRAME_HEADER_SIZE + ps) in
          rbind (read_segment f ps relative_offset frame_count) (\<lambda>frames.
          rbind (read_segments files ps start_offset segment_end segments) (\<lambda>rest. Inr (frames @ rest))))"

definition read_frames_from_shadow :: "u64 \<Rightarrow> nat \<Rightarrow> (shadow_site, failure, parsed_frame list \<times> nat) action" where
  "read_frames_from_shadow generation start_offset =
     and_then (list_segments generation) (\<lambda>segments x.
       (x, map_sum (\<lambda>e. [WalRead e]) (\<lambda>frames. (frames, start_offset + length frames * (FRAME_HEADER_SIZE + unat (sw_page_size (sx_wal x)))))
             (read_segments (map_of (sd_entries (sx_disk x))) (unat (sw_page_size (sx_wal x))) start_offset 0 (map (\<lambda>s. (sg_path s, sg_size s)) segments))))"

section \<open>Collecting pages for upload\<close>

text \<open>
  The scan of \<^verbatim>\<open>encode_shadow_to_ltx\<close> (\<^verbatim>\<open>legacy_shadow.rs\<close>) over the segments of a generation in the order of
  their names: pages are pending until a commit frame.  \<open>None\<close> means that nothing is committed.
\<close>

definition shadow_entries :: "u64 \<Rightarrow> (string \<times> bytes) list \<Rightarrow> (string \<times> nat) list" where
  "shadow_entries generation entries =
     map (\<lambda>(name, f). (name, length f))
       (filter (\<lambda>(name, f). case split_dashes (trim_end_matches name) of
            [g, i] \<Rightarrow> (case from_str_radix16 g of None \<Rightarrow> -1 | Some gen \<Rightarrow> gen) = generation | _ \<Rightarrow> False)
          (sort_key fst (filter (\<lambda>(name, f). is_segment_file name) entries)))"

record upload_scan =
  us_page_map :: "u32 \<rightharpoonup> bytes"
  us_pending :: "u32 \<rightharpoonup> bytes"
  us_final_db_size :: u32
  us_pending_count :: nat
  us_committed_count :: nat

definition scan_frame :: "parsed_frame \<Rightarrow> upload_scan \<Rightarrow> upload_scan" where
  "scan_frame frame us =
     (let pending = (us_pending us)(pf_page_number frame \<mapsto> pf_data frame); n = us_pending_count us + 1 in
      if 0 < pf_db_size frame
      then us\<lparr>us_page_map := us_page_map us ++ pending, us_pending := Map.empty, us_final_db_size := pf_db_size frame,
             us_pending_count := 0, us_committed_count := us_committed_count us + n\<rparr>
      else us\<lparr>us_pending := pending, us_pending_count := n\<rparr>)"

definition empty_scan :: upload_scan where
  "empty_scan = \<lparr>us_page_map = Map.empty, us_pending = Map.empty, us_final_db_size = 0, us_pending_count = 0, us_committed_count = 0\<rparr>"

definition scan_shadow :: "(string \<times> bytes) list \<Rightarrow> u64 \<Rightarrow> nat \<Rightarrow> u32 \<Rightarrow> wal_error + (upload_scan \<times> nat)" where
  "scan_shadow entries generation shadow_sync_offset page_size =
     rbind (read_segments (map_of entries) (unat page_size) shadow_sync_offset 0 (shadow_entries generation entries)) (\<lambda>frames.
       let us = fold scan_frame frames empty_scan in
       Inr (us, shadow_sync_offset + us_committed_count us * (FRAME_HEADER_SIZE + unat page_size)))"

section \<open>Checkpoints and cleaning up\<close>

text \<open>
  \<open>rollback\<close> is the outcome of ending the blocking transaction, \<open>passive\<close> that of connecting and running
  the checkpoint (busy, frames in the log, frames checkpointed), \<open>reopen\<close> that of blocking again.
\<close>

definition shadow_checkpoint :: "failure + unit \<Rightarrow> failure + int \<times> int \<times> int \<Rightarrow> failure + unit \<Rightarrow> (shadow_site, failure, unit) action" where
  "shadow_checkpoint rollback passive reopen =
     and_then shadow_of (\<lambda>sw.
     and_then (update_shadow (\<lambda>sw. sw\<lparr>sw_blocker := False\<rparr>)) (\<lambda>_.
     and_then (from_result (if sw_blocker sw then rollback else Inr ())) (\<lambda>_.
     and_then (from_result passive) (\<lambda>(busy, log_frames, checkpointed_frames).
     let incomplete = busy \<noteq> 0 \<or> checkpointed_frames < log_frames in
     case reopen of
       Inl e \<Rightarrow> raise (if incomplete then [Message ''shadow checkpoint incomplete; additionally failed to re-open shadow checkpoint blocker''] else e)
     | Inr _ \<Rightarrow>
         and_then (update_shadow (\<lambda>sw. sw\<lparr>sw_blocker := True\<rparr>)) (\<lambda>_.
           if incomplete then raise [Message ''shadow checkpoint incomplete''] else return ())))))"

definition cleanup_entry :: "u64 \<Rightarrow> string \<times> bytes \<Rightarrow> nat \<Rightarrow> (shadow_disk, failure, nat) action" where
  "cleanup_entry up_to entry deleted =
     (if is_segment_file (fst entry) then
        case generation_of_name (fst entry) of
          Some gen \<Rightarrow> if gen < up_to then and_then (delete_entry (fst entry)) (\<lambda>_. return (deleted + 1)) else return deleted
        | None \<Rightarrow> return deleted
      else return deleted)"

definition cleanup_segments :: "u64 \<Rightarrow> (shadow_site, failure, nat) action" where
  "cleanup_segments up_to = on_disk (and_then read_dir (\<lambda>entries. fold_actions (cleanup_entry up_to) entries 0))"

section \<open>Segments\<close>

definition whole :: "nat \<Rightarrow> parsed_frame list \<Rightarrow> bool" where
  "whole ps frames \<longleftrightarrow> (\<forall>frame\<in>set frames. length (pf_data frame) = ps)"

definition segment_bytes :: "parsed_frame list \<Rightarrow> bytes" where
  "segment_bytes frames = concat (map (\<lambda>frame. segment_header frame @ pf_data frame) frames)"

lemma whole_simps [simp]: "whole ps []" "whole ps (frame # frames) \<longleftrightarrow> length (pf_data frame) = ps \<and> whole ps frames"
    "whole ps (xs @ ys) \<longleftrightarrow> whole ps xs \<and> whole ps ys"
  by (auto simp: whole_def)

lemma whole_take: "whole ps frames \<Longrightarrow> whole ps (take n frames)"
  by (auto simp: whole_def dest: in_set_takeD)

lemma segment_bytes_simps [simp]: "segment_bytes [] = []" "segment_bytes (frame # frames) = segment_header frame @ pf_data frame @ segment_bytes frames"
    "segment_bytes (xs @ ys) = segment_bytes xs @ segment_bytes ys"
  by (simp_all add: segment_bytes_def)

lemma length_segment_header [simp]: "length (segment_header frame) = FRAME_HEADER_SIZE"
  by (simp add: segment_header_def FRAME_HEADER_SIZE_def)

lemma length_segment_bytes: "whole ps frames \<Longrightarrow> length (segment_bytes frames) = length frames * (FRAME_HEADER_SIZE + ps)"
  by (induction frames) simp_all

lemma segment_header_fields: "be32_at (segment_header frame) 0 = pf_page_number frame" "be32_at (segment_header frame) 4 = pf_db_size frame"
  by (simp_all add: segment_header_def be32_at_def slice_def)

lemma slice_append_at: "slice (pre @ x @ post) (length pre) (length x) = x"
  by (simp add: slice_def)

lemma read_frame_segment:
  assumes "length (pf_data frame) = ps"
  shows "read_frame (pre @ segment_header frame @ pf_data frame @ post) ps (length pre) = Inr (segment_header frame, pf_data frame)"
proof -
  have "slice (pre @ segment_header frame @ pf_data frame @ post) (length pre) FRAME_HEADER_SIZE = segment_header frame"
    using slice_append_at [of pre "segment_header frame"] by simp
  moreover have "slice (pre @ segment_header frame @ pf_data frame @ post) (length pre + FRAME_HEADER_SIZE) ps = pf_data frame"
    using slice_append_at [of "pre @ segment_header frame" "pf_data frame" post] assms by simp
  ultimately show ?thesis using assms by (simp add: read_frame_def read_exact_def)
qed

lemma read_segment_bytes:
  assumes "whole ps frames"
  shows "read_segment (pre @ segment_bytes frames @ post) ps (length pre) (length frames) = Inr frames"
  using assms
proof (induction frames arbitrary: pre)
  case (Cons frame frames)
  have "read_segment (pre @ segment_bytes (frame # frames) @ post) ps (length pre + FRAME_HEADER_SIZE + ps) (length frames) = Inr frames"
    using Cons.IH [of "pre @ segment_header frame @ pf_data frame"] Cons.prems by (simp add: add.assoc)
  then show ?case
    using Cons.prems read_frame_segment [of frame ps pre "segment_bytes frames @ post"] by (simp add: segment_header_fields)
qed simp

lemma aligned_take:
  assumes "whole ps frames"
  shows "take (k div (FRAME_HEADER_SIZE + ps) * (FRAME_HEADER_SIZE + ps)) (segment_bytes frames) = segment_bytes (take (k div (FRAME_HEADER_SIZE + ps)) frames)"
proof -
  define n where "n = k div (FRAME_HEADER_SIZE + ps)"
  have "take (n * (FRAME_HEADER_SIZE + ps)) (segment_bytes frames) = segment_bytes (take n frames)"
    using assms
  proof (induction frames arbitrary: n)
    case (Cons frame frames)
    then show ?case by (cases n) simp_all
  qed simp
  then show ?thesis by (simp add: n_def)
qed

section \<open>Names of segments\<close>

lemma segment_name: "format_segment_name g i = hex_pad 16 (unat g) @ CHR ''-'' # (hex_pad 16 (unat i) @ ''.wal'')"
  by (simp add: format_segment_name_def)

lemma segment_name_file [simp]: "is_segment_file (format_segment_name g i)"
  using strip_suffix_append [of "hex_pad 16 (unat g) @ ''-'' @ hex_pad 16 (unat i)" "''.wal''"]
  by (simp add: is_segment_file_def format_segment_name_def)

lemma segment_name_generation [simp]: "generation_of_name (format_segment_name g i) = Some g"
proof -
  have "takeWhile (\<lambda>c. c \<noteq> CHR ''-'') (format_segment_name g i) = hex_pad 16 (unat g)"
    unfolding segment_name by (subst takeWhile_append2) (auto dest: hex16_not_special)
  then show ?thesis by (simp add: generation_of_name_def)
qed

lemma split_dashes_single: "CHR ''-'' \<notin> set s \<Longrightarrow> split_dashes s = [s]"
  by (induction s) auto

lemma split_dashes_append: "CHR ''-'' \<notin> set a \<Longrightarrow> split_dashes (a @ CHR ''-'' # b) = a # split_dashes b"
  by (induction a) auto

lemma trim_segment_name: "trim_end_matches (format_segment_name g i) = hex_pad 16 (unat g) @ CHR ''-'' # hex_pad 16 (unat i)"
proof -
  let ?stem = "hex_pad 16 (unat g) @ CHR ''-'' # hex_pad 16 (unat i)"
  have "strip_suffix ?stem ''.wal'' = None"
  proof (rule ccontr)
    assume "strip_suffix ?stem ''.wal'' \<noteq> None"
    then have "drop 29 ?stem = ''.wal''" by (auto simp: strip_suffix_def split: if_splits)
    moreover have "set (drop 29 ?stem) \<subseteq> set (hex_pad 16 (unat i))"
      by (auto dest: in_set_dropD)
    ultimately show False using hex16_not_special [of "CHR ''.''" i] by auto
  qed
  then have "trim_end_matches ?stem = ?stem" by (simp add: trim_end_matches.simps)
  moreover have "format_segment_name g i = ?stem @ ''.wal''" by (simp add: format_segment_name_def)
  ultimately show ?thesis by (metis trim_end_matches.simps strip_suffix_append option.simps(5))
qed

lemma split_segment_name [simp]: "split_dashes (trim_end_matches (format_segment_name g i)) = [hex_pad 16 (unat g), hex_pad 16 (unat i)]"
  by (simp add: trim_segment_name split_dashes_append split_dashes_single)

lemma segment_name_inject [simp]: "format_segment_name g i = format_segment_name g' i' \<longleftrightarrow> g = g' \<and> i = i'"
  using split_segment_name [of g i] split_segment_name [of g' i'] from_str_radix16_hex16 by (metis list.inject option.inject)

section \<open>Directories\<close>

text \<open>The segments a shadow WAL writes have index zero; there is one per generation.\<close>

definition dir_ok :: "(string \<times> bytes) list \<Rightarrow> bool" where
  "dir_ok entries \<longleftrightarrow> distinct (map fst entries) \<and> (\<forall>n\<in>dom (map_of entries). is_segment_file n \<longrightarrow> (\<exists>g. n = format_segment_name g 0))"

lemma dir_ok_Cons: "dir_ok ((n, f) # es) \<Longrightarrow> dir_ok es \<and> map_of es n = None \<and> (is_segment_file n \<longrightarrow> (\<exists>g. n = format_segment_name g 0))"
  by (auto simp: dir_ok_def map_of_eq_None_iff split: if_splits)

lemma segment_of_name:
  "segment_of_entry g (format_segment_name g' 0, f) =
     (if g' = g then Some \<lparr>sg_generation = g, sg_index = 0, sg_path = format_segment_name g 0, sg_size = length f\<rparr> else None)"
  using from_str_radix16_hex16 [of "0 :: u64"] by (simp add: segment_of_entry_def)

lemma one_segment:
  assumes "dir_ok es"
  shows "List.map_filter (segment_of_entry g) es =
    (case map_of es (format_segment_name g 0) of
       None \<Rightarrow> [] | Some f \<Rightarrow> [\<lparr>sg_generation = g, sg_index = 0, sg_path = format_segment_name g 0, sg_size = length f\<rparr>])"
  using assms
proof (induction es)
  case (Cons e es)
  obtain n f where e: "e = (n, f)" by (cases e)
  note ok = dir_ok_Cons [OF Cons.prems [unfolded e]]
  show ?case
  proof (cases "is_segment_file n")
    case True
    then obtain g' where "n = format_segment_name g' 0" using ok by blast
    then show ?thesis using Cons.IH ok unfolding e by (auto simp: segment_of_name List.map_filter_simps)
  next
    case False
    moreover from False have "n \<noteq> format_segment_name g 0" by (metis segment_name_file)
    ultimately show ?thesis using Cons.IH ok unfolding e by (simp add: segment_of_entry_def List.map_filter_simps)
  qed
qed (simp add: List.map_filter_simps)

lemma one_entry:
  assumes "dir_ok es"
  shows "shadow_entries g es = (case map_of es (format_segment_name g 0) of None \<Rightarrow> [] | Some f \<Rightarrow> [(format_segment_name g 0, length f)])"
proof -
  have "filter (\<lambda>(name, f). case split_dashes (trim_end_matches name) of
            [h, i] \<Rightarrow> (case from_str_radix16 h of None \<Rightarrow> -1 | Some gen \<Rightarrow> gen) = g | _ \<Rightarrow> False) (filter (\<lambda>(name, f). is_segment_file name) es) =
      (case map_of es (format_segment_name g 0) of None \<Rightarrow> [] | Some f \<Rightarrow> [(format_segment_name g 0, f)])"
    using assms
  proof (induction es)
    case (Cons e es)
    obtain n f where e: "e = (n, f)" by (cases e)
    note ok = dir_ok_Cons [OF Cons.prems [unfolded e]]
    show ?case
    proof (cases "is_segment_file n")
      case True
      then obtain g' where "n = format_segment_name g' 0" using ok by blast
      then show ?thesis using Cons.IH ok unfolding e by auto
    next
      case False
      moreover from False have "n \<noteq> format_segment_name g 0" by (metis segment_name_file)
      ultimately show ?thesis using Cons.IH ok unfolding e by simp
    qed
  qed simp
  then show ?thesis
    unfolding shadow_entries_def by (simp add: filter_sort) (simp split: option.split)
qed

lemma read_one_segment:
  assumes "whole ps frames" "files name = Some (segment_bytes frames)" "n \<le> length frames"
  shows "read_segments files ps (n * (FRAME_HEADER_SIZE + ps)) 0 [(name, length (segment_bytes frames))] = Inr (drop n frames)"
proof (cases "n = length frames")
  case True
  then show ?thesis using assms by (simp add: length_segment_bytes)
next
  case False
  let ?fs = "FRAME_HEADER_SIZE + ps"
  have hs: "0 < FRAME_HEADER_SIZE" by (simp add: FRAME_HEADER_SIZE_def)
  then have pos: "0 < ?fs" by simp
  have parts: "segment_bytes frames = segment_bytes (take n frames) @ segment_bytes (drop n frames) @ []"
    by (metis append_Nil2 append_take_drop_id segment_bytes_simps(3))
  have ws: "whole ps (take n frames)" "whole ps (drop n frames)"
    using assms(1) by (metis append_take_drop_id whole_simps(3))+
  have "length frames * ?fs - n * ?fs = (length frames - n) * ?fs" by (simp add: diff_mult_distrib)
  then have cnt: "(length frames * ?fs - n * ?fs) div ?fs = length frames - n" using pos by simp
  have "read_segment (segment_bytes frames) ps (n * ?fs) (length frames - n) = Inr (drop n frames)"
    using read_segment_bytes [OF ws(2), of "segment_bytes (take n frames)" "[]"] parts length_segment_bytes [OF ws(1)] assms(3) by simp
  moreover have "\<not> length frames * ?fs \<le> n * ?fs" using False assms(3) pos by simp
  ultimately show ?thesis using assms(2) cnt hs by (simp add: length_segment_bytes [OF assms(1)] Let_def)
qed

section \<open>Effects of the operations\<close>

definition files_of :: "shadow_site \<Rightarrow> string \<rightharpoonup> bytes" where
  "files_of x = map_of (sd_entries (sx_disk x))"

definition tidy :: "shadow_site \<Rightarrow> bool" where
  "tidy x \<longleftrightarrow> distinct (map fst (sd_entries (sx_disk x)))"

text \<open>The file \<open>name\<close> now holds \<open>c\<close>; nothing else changed but the segment offset and the fault schedule.\<close>

definition put_file :: "string \<Rightarrow> bytes \<Rightarrow> shadow_site \<Rightarrow> shadow_site \<Rightarrow> bool" where
  "put_file name c x x' \<longleftrightarrow> (\<exists>o'. sx_wal x' = (sx_wal x)\<lparr>sw_segment_offset := o'\<rparr>) \<and> files_of x' = (files_of x)(name \<mapsto> c) \<and>
     (tidy x \<longrightarrow> tidy x') \<and> (sd_faults (sx_disk x) = [] \<longrightarrow> sd_faults (sx_disk x') = [])"

definition left_alone :: "shadow_site \<Rightarrow> shadow_site \<Rightarrow> bool" where
  "left_alone x x' \<longleftrightarrow> sx_wal x' = sx_wal x \<and> sd_entries (sx_disk x') = sd_entries (sx_disk x) \<and>
     (sd_faults (sx_disk x) = [] \<longrightarrow> sd_faults (sx_disk x') = [])"

lemma put_file_trans: "put_file name c x y \<Longrightarrow> put_file name d y z \<Longrightarrow> put_file name d x z"
  by (auto simp: put_file_def)

lemma put_file_alone: "put_file name c x y \<Longrightarrow> left_alone y z \<Longrightarrow> put_file name c x z"
  by (auto simp: put_file_def left_alone_def files_of_def tidy_def)

lemma put_file_content: "put_file name c x y \<Longrightarrow> files_of y name = Some c"
  by (simp add: put_file_def)

lemma wp_on_disk: "wp (on_disk m) Q E x = wp m (\<lambda>a d'. Q a (x\<lparr>sx_disk := d'\<rparr>)) (\<lambda>e d'. E e (x\<lparr>sx_disk := d'\<rparr>)) (sx_disk x)"
  by (simp add: wp_def on_disk_def split: prod.split sum.split)

lemma wp_update_shadow: "wp (update_shadow f) Q E x = Q () (x\<lparr>sx_wal := f (sx_wal x)\<rparr>)"
  by (simp add: wp_def update_shadow_def)

lemma wp_shadow_of: "wp shadow_of Q E x = Q (sx_wal x) x"
  by (simp add: wp_def shadow_of_def)

lemma disk_outcome_cases:
  obtains d' where "disk_outcome d = (d', None)" "sd_entries d' = sd_entries d" "sd_faults d = [] \<longrightarrow> sd_faults d' = []"
  | d' n where "disk_outcome d = (d', Some n)" "sd_entries d' = sd_entries d" "sd_faults d \<noteq> []"
  by (cases "sd_faults d"; cases "List.hd (sd_faults d)") (simp_all add: disk_outcome_def)

lemma wp_io:
  assumes "\<And>d'. sd_entries d' = sd_entries d \<Longrightarrow> (sd_faults d = [] \<Longrightarrow> sd_faults d' = []) \<Longrightarrow> Q () d'"
    and "\<And>e d'. sd_entries d' = sd_entries d \<Longrightarrow> sd_faults d \<noteq> [] \<Longrightarrow> E e d'"
  shows "wp io Q E d"
  by (rule disk_outcome_cases [of d]) (use assms in \<open>auto simp: wp_def io_def\<close>)

lemma wp_site_io:
  assumes "\<And>x'. left_alone x x' \<Longrightarrow> Q () x'" and "\<And>e x'. left_alone x x' \<Longrightarrow> sd_faults (sx_disk x) \<noteq> [] \<Longrightarrow> E e x'"
  shows "wp (on_disk io) Q E x"
  unfolding wp_on_disk by (rule wp_io) (auto intro!: assms simp: left_alone_def)

lemma put_file_set: "sd_entries d = sd_entries (sx_disk x) \<Longrightarrow> (sd_faults (sx_disk x) = [] \<Longrightarrow> sd_faults d = []) \<Longrightarrow>
    put_file name c x (x\<lparr>sx_disk := set_content name c d\<rparr>)"
  by (auto simp: put_file_def files_of_def tidy_def set_content_def update_conv' distinct_update intro!: exI [of _ "sw_segment_offset (sx_wal x)"])

lemma content_at_eq: "sd_entries d = sd_entries (sx_disk x) \<Longrightarrow> content_at name d = (case files_of x name of None \<Rightarrow> [] | Some f \<Rightarrow> f)"
  by (simp add: content_at_def files_of_def)

lemma wp_append_bytes:
  assumes "files_of x name = Some c"
    and "\<And>x'. put_file name (c @ bs) x x' \<Longrightarrow> Q () x'"
    and "\<And>e x' k. put_file name (c @ take k bs) x x' \<Longrightarrow> sd_faults (sx_disk x) \<noteq> [] \<Longrightarrow> E e x'"
  shows "wp (on_disk (append_bytes name bs)) Q E x"
  unfolding wp_on_disk
proof (rule disk_outcome_cases [of "sx_disk x"])
  fix d' assume d: "disk_outcome (sx_disk x) = (d', None)" "sd_entries d' = sd_entries (sx_disk x)" "sd_faults (sx_disk x) = [] \<longrightarrow> sd_faults d' = []"
  then show "wp (append_bytes name bs) (\<lambda>a d'. Q a (x\<lparr>sx_disk := d'\<rparr>)) (\<lambda>e d'. E e (x\<lparr>sx_disk := d'\<rparr>)) (sx_disk x)"
    using assms(1) by (simp add: wp_def append_bytes_def content_at_eq) (auto intro!: assms(2) put_file_set)
next
  fix d' n assume d: "disk_outcome (sx_disk x) = (d', Some n)" "sd_entries d' = sd_entries (sx_disk x)" "sd_faults (sx_disk x) \<noteq> []"
  then show "wp (append_bytes name bs) (\<lambda>a d'. Q a (x\<lparr>sx_disk := d'\<rparr>)) (\<lambda>e d'. E e (x\<lparr>sx_disk := d'\<rparr>)) (sx_disk x)"
    using assms(1) by (simp add: wp_def append_bytes_def content_at_eq) (auto intro!: assms(3) put_file_set)
qed

lemma wp_write_frame:
  assumes "files_of x name = Some c"
    and "\<And>x'. put_file name (c @ segment_header frame @ pf_data frame) x x' \<Longrightarrow> Q () x'"
    and "\<And>e x' k. put_file name (c @ take k (segment_header frame @ pf_data frame)) x x' \<Longrightarrow> sd_faults (sx_disk x) \<noteq> [] \<Longrightarrow> E e x'"
  shows "wp (write_frame name page_size frame u) Q E x"
  unfolding write_frame_def wp_and_then
proof (rule wp_append_bytes [OF assms(1)], goal_cases)
  case (1 y)
  show ?case
  proof (rule wp_append_bytes [OF put_file_content [OF 1]], goal_cases)
    case (1 z)
    from put_file_trans [OF \<open>put_file name (c @ segment_header frame) x y\<close> 1] have z: "put_file name (c @ segment_header frame @ pf_data frame) x z" by simp
    show ?case unfolding wp_update_shadow
      by (rule assms(2)) (use z in \<open>auto simp: put_file_def files_of_def tidy_def\<close>)
  next
    case (2 e z k)
    from put_file_trans [OF 1 2(1)] have z: "put_file name (c @ segment_header frame @ take k (pf_data frame)) x z" by simp
    have "sd_faults (sx_disk x) \<noteq> []" using 1 2(2) by (auto simp: put_file_def)
    moreover have "take (FRAME_HEADER_SIZE + k) (segment_header frame @ pf_data frame) = segment_header frame @ take k (pf_data frame)" by simp
    ultimately show ?case using assms(3) [of "FRAME_HEADER_SIZE + k" z e] z by simp
  qed
next
  case (2 e y k)
  have "take (min k FRAME_HEADER_SIZE) (segment_header frame @ pf_data frame) = take k (segment_header frame)" by (simp add: min_def)
  then show ?case using assms(3) [of "min k FRAME_HEADER_SIZE" y e] 2 by simp
qed

lemma wp_write_frames:
  assumes "files_of x name = Some c"
    and "\<And>x'. put_file name (c @ segment_bytes frames) x x' \<Longrightarrow> Q () x'"
    and "\<And>e x' k. put_file name (c @ take k (segment_bytes frames)) x x' \<Longrightarrow> sd_faults (sx_disk x) \<noteq> [] \<Longrightarrow> E e x'"
  shows "wp (fold_actions (write_frame name page_size) frames ()) Q E x"
  using assms
proof (induction frames arbitrary: x c)
  case Nil
  have "put_file name c x x" using Nil.prems(1) by (auto simp: put_file_def intro!: exI [of _ "sw_segment_offset (sx_wal x)"])
  then show ?case using Nil.prems(2) by (simp add: wp_return)
next
  case (Cons frame frames)
  let ?c = "c @ segment_header frame @ pf_data frame"
  show ?case
    unfolding fold_actions.simps wp_and_then
  proof (rule wp_write_frame [OF Cons.prems(1)], goal_cases)
    case (1 y)
    show ?case
    proof (rule Cons.IH [OF put_file_content [OF 1]], goal_cases)
      case (1 z)
      from put_file_trans [OF \<open>put_file name ?c x y\<close> 1] show ?case by (intro Cons.prems(2)) simp
    next
      case (2 k z e)
      from put_file_trans [OF 1 2(1)] have z: "put_file name (?c @ take k (segment_bytes frames)) x z" .
      have "sd_faults (sx_disk x) \<noteq> []" using 1 2(2) by (auto simp: put_file_def)
      moreover have "take (FRAME_HEADER_SIZE + length (pf_data frame) + k) (segment_bytes (frame # frames)) =
          segment_header frame @ pf_data frame @ take k (segment_bytes frames)" by simp
      ultimately show ?case using Cons.prems(3) [of "FRAME_HEADER_SIZE + length (pf_data frame) + k" z e] z by simp
    qed
  next
    case (2 e y k)
    have "take (min k (FRAME_HEADER_SIZE + length (pf_data frame))) (segment_bytes (frame # frames)) = take k (segment_header frame @ pf_data frame)"
      by (simp add: min_def)
    then show ?case using Cons.prems(3) [of "min k (FRAME_HEADER_SIZE + length (pf_data frame))" y e] 2 by simp
  qed
qed

lemma wp_open_append:
  assumes "\<And>x'. put_file name (case files_of x name of None \<Rightarrow> [] | Some f \<Rightarrow> f) x x' \<Longrightarrow> Q () x'"
    and "\<And>e x'. left_alone x x' \<Longrightarrow> sd_faults (sx_disk x) \<noteq> [] \<Longrightarrow> E e x'"
  shows "wp (on_disk (open_append name)) Q E x"
  unfolding wp_on_disk open_append_def wp_and_then
proof (rule wp_io, goal_cases)
  case (1 d)
  then show ?case by (simp add: wp_def content_at_eq) (auto intro!: assms(1) put_file_set)
next
  case (2 e d)
  then show ?case by (intro assms(2)) (simp_all add: left_alone_def)
qed

lemma wp_write_frames_to_segment:
  fixes x
  defines "name \<equiv> current_segment_name (sx_wal x)"
  defines "c \<equiv> (case files_of x name of None \<Rightarrow> [] | Some f \<Rightarrow> f)"
  assumes "\<And>x'. put_file name (c @ segment_bytes frames) x x' \<Longrightarrow> Q () x'"
    and "\<And>e x'. left_alone x x' \<or> (\<exists>k. put_file name (c @ take k (segment_bytes frames)) x x') \<Longrightarrow> sd_faults (sx_disk x) \<noteq> [] \<Longrightarrow> E e x'"
  shows "wp (write_frames_to_segment frames page_size) Q E x"
  unfolding write_frames_to_segment_def wp_and_then wp_shadow_of Let_def name_def [symmetric]
proof (rule wp_open_append, goal_cases)
  case (1 y)
  then have y: "put_file name c x y" by (simp add: c_def)
  have f: "sd_faults (sx_disk x) \<noteq> []" if "sd_faults (sx_disk z) \<noteq> []" "put_file name d x z" for z d using that by (auto simp: put_file_def)
  have full: "\<exists>k. put_file name (c @ take k (segment_bytes frames)) x z" if "put_file name (c @ segment_bytes frames) x z" for z
    using that by (metis take_all order_refl)
  show ?case
    unfolding wp_and_then
  proof (rule wp_write_frames [OF put_file_content [OF y]], goal_cases)
    case (1 z)
    from put_file_trans [OF y 1] have z: "put_file name (c @ segment_bytes frames) x z" .
    show ?case unfolding wp_and_then
    proof (rule wp_site_io, goal_cases)
      case (1 z1)
      note z1 = put_file_alone [OF z 1]
      show ?case
      proof (rule wp_site_io, goal_cases)
        case (1 z2)
        note z2 = put_file_alone [OF z1 1]
        show ?case
          by (rule wp_site_io) (use put_file_alone [OF z2] f [OF _ z2] full in \<open>blast intro: assms(3,4)\<close>)+
      next
        case (2 e z2)
        then show ?case using put_file_alone [OF z1] f [OF _ z1] full by (blast intro: assms(4))
      qed
    next
      case (2 e z1)
      then show ?case using put_file_alone [OF z] f [OF _ z] full by (blast intro: assms(4))
    qed
  next
    case (2 e z k)
    then show ?case using put_file_trans [OF y] f [OF _ y] by (blast intro: assms(4))
  qed
next
  case (2 e y)
  then show ?case by (intro assms(4)) simp_all
qed

section \<open>One copy\<close>

text \<open>A look at a WAL file that does not change meanwhile.\<close>

definition sees :: "shadow_sight \<Rightarrow> bytes \<Rightarrow> bool" where
  "sees v f \<longleftrightarrow> sv_exists v \<and> sv_views v = Wal.stable f"

lemma wp_copy_frames:
  fixes x :: shadow_site and header :: wal_header
  defines "y ch \<equiv> x\<lparr>sx_wal := (observe_header header (sx_wal x))\<lparr>sw_wal_chain := ch\<rparr>\<rparr>"
  defines "name \<equiv> current_segment_name (observe_header header (sx_wal x))"
  defines "c \<equiv> (case files_of x name of None \<Rightarrow> [] | Some f \<Rightarrow> f)"
  assumes v: "sees v f" and h: "read_header (Some f) = Inr (Some header)"
    and r: "pages_reads (wh_page_size header) f (effective_offset header (sx_wal x) off, sw_wal_chain (observe_header header (sx_wal x))) = Some (frames, (off', ch))"
    and Q: "frames = [] \<Longrightarrow> Q ([], off') (y ch)" "\<And>x'. put_file name (c @ segment_bytes frames) (y ch) x' \<Longrightarrow> Q (frames, off') x'"
    and E: "\<And>e x'. left_alone (y ch) x' \<or> (\<exists>k. put_file name (c @ take k (segment_bytes frames)) (y ch) x') \<Longrightarrow> sd_faults (sx_disk x) \<noteq> [] \<Longrightarrow> E e x'"
  shows "wp (copy_frames v off) Q E x"
proof -
  obtain p where p: "read_frames_as_pages_checked (Wal.stable f) (wh_page_size header) (effective_offset header (sx_wal x) off)
      (sw_wal_chain (observe_header header (sx_wal x))) = Inr p" "pr_frames p = frames" "pr_offset p = off'" "pr_chain p = ch"
    using r by (auto simp: pages_reads_def split: sum.splits)
  have st: "v_header (Wal.stable f) = Some f" by (simp add: Wal.stable_def)
  have "wp (if frames = [] then return ([], off') else and_then (write_frames_to_segment frames (wh_page_size header)) (\<lambda>_. return (frames, off'))) Q E (y ch)"
  proof (cases "frames = []")
    case True
    then show ?thesis using Q(1) by (simp add: wp_return)
  next
    case False
    have n: "current_segment_name (sx_wal (y ch)) = name" by (simp add: y_def name_def current_segment_name_def)
    have fl: "files_of (y ch) = files_of x" by (simp add: y_def files_of_def)
    have "wp (write_frames_to_segment frames (wh_page_size header)) (\<lambda>_. wp (return (frames, off')) Q E) E (y ch)"
    proof (rule wp_write_frames_to_segment, unfold n fl c_def [symmetric], goal_cases)
      case (1 x')
      then show ?case using Q(2) by (simp add: wp_return)
    next
      case (2 e x')
      then show ?case using E by (simp add: y_def)
    qed
    then show ?thesis using False by (simp add: wp_and_then)
  qed
  then show ?thesis
    using v h p
    by (cases "frames = []") (simp_all add: copy_frames_def sees_def st wp_simps wp_shadow_of wp_update_shadow y_def)
qed

section \<open>Starting\<close>

definition heal :: "nat \<Rightarrow> bytes \<Rightarrow> bytes" where
  "heal fs f = take (length f div fs * fs) f"

lemma heal_torn: "whole ps old \<Longrightarrow> whole ps new \<Longrightarrow> \<exists>j. heal (FRAME_HEADER_SIZE + ps) (segment_bytes old @ take k (segment_bytes new)) = segment_bytes (old @ take j new)"
proof -
  assume w: "whole ps old" "whole ps new"
  let ?fs = "FRAME_HEADER_SIZE + ps" and ?f = "segment_bytes old @ take k (segment_bytes new)"
  define n where "n = length ?f div ?fs"
  have pos: "0 < ?fs" by (simp add: FRAME_HEADER_SIZE_def)
  have old: "length (segment_bytes old) = length old * ?fs" using w(1) by (rule length_segment_bytes)
  then have "length old \<le> n" unfolding n_def using pos by simp
  then have "take n (old @ new) = old @ take (n - length old) new" by simp
  moreover have "n * ?fs \<le> length ?f" by (simp add: n_def)
  then have "take (n * ?fs) ?f = take (n * ?fs) (segment_bytes (old @ new))"
    by (simp add: min_def split: if_splits)
  moreover have "take (n * ?fs) (segment_bytes (old @ new)) = segment_bytes (take n (old @ new))"
    unfolding n_def by (rule aligned_take) (use w in simp)
  ultimately show ?thesis unfolding heal_def n_def by metis
qed

text \<open>What a start leaves of the directory: every segment cut to whole frames.\<close>

definition healed :: "nat \<Rightarrow> shadow_disk \<Rightarrow> shadow_disk \<Rightarrow> bool" where
  "healed fs d d' \<longleftrightarrow> (distinct (map fst (sd_entries d)) \<longrightarrow> distinct (map fst (sd_entries d'))) \<and> (sd_faults d = [] \<longrightarrow> sd_faults d' = []) \<and>
     map_of (sd_entries d') = (\<lambda>n. if is_segment_file n then map_option (heal fs) (map_of (sd_entries d) n) else map_of (sd_entries d) n)"

lemma wp_set_len:
  assumes "\<And>d'. sd_faults d' = sd_faults d' \<Longrightarrow> (sd_faults d = [] \<Longrightarrow> sd_faults d' = []) \<Longrightarrow>
      sd_entries d' = AList.update name (take n (content_at name d)) (sd_entries d) \<Longrightarrow> Q () d'"
    and "\<And>e d'. E e d'"
  shows "wp (set_len name n) Q E d"
  unfolding set_len_def wp_and_then
  by (rule wp_io) (use assms in \<open>auto simp: wp_def set_content_def content_at_def\<close>)

lemma wp_align_entry:
  assumes "map_of (sd_entries d) n = Some f"
    and "\<And>d'. map_of (sd_entries d') = (map_of (sd_entries d))(n \<mapsto> (if is_segment_file n then heal fs f else f)) \<Longrightarrow>
      (distinct (map fst (sd_entries d)) \<Longrightarrow> distinct (map fst (sd_entries d'))) \<Longrightarrow> (sd_faults d = [] \<Longrightarrow> sd_faults d' = []) \<Longrightarrow> Q () d'"
  shows "wp (align_entry fs (n, f) u) Q (\<lambda>_ _. True) d"
proof (cases "is_segment_file n \<and> length f div fs * fs \<noteq> length f")
  case True
  show ?thesis
    using True unfolding align_entry_def Let_def fst_conv snd_conv if_P [OF True] wp_and_then
  proof (intro wp_io, goal_cases)
    case (1 d1)
    then have c: "content_at n d1 = f" using assms(1) by (simp add: content_at_def)
    show ?case
    proof (rule wp_set_len, unfold c, goal_cases)
      case (1 d2)
      show ?case
      proof (rule wp_io, goal_cases)
        case (1 d3)
        show ?case
          by (rule assms(2)) (use 1 \<open>sd_entries d2 = _\<close> \<open>sd_entries d1 = _\<close> \<open>sd_faults d1 = [] \<Longrightarrow> _\<close> \<open>sd_faults d = [] \<Longrightarrow> _\<close> True in
            \<open>simp_all add: update_conv' distinct_update heal_def\<close>)
      qed simp
    qed simp
  qed simp
next
  case False
  then have "heal fs f = f" if "is_segment_file n" using that by (simp add: heal_def)
  then have "map_of (sd_entries d) = (map_of (sd_entries d))(n \<mapsto> (if is_segment_file n then heal fs f else f))"
    using assms(1) by auto
  then show ?thesis using False assms(2) [of d] by (auto simp: align_entry_def Let_def wp_return)
qed

lemma wp_align_entries:
  assumes "distinct (map fst es)" "\<And>n f. (n, f) \<in> set es \<Longrightarrow> map_of (sd_entries d) n = Some f"
    and "\<And>d'. map_of (sd_entries d') = (\<lambda>n. if n \<in> fst ` set es \<and> is_segment_file n then map_option (heal fs) (map_of (sd_entries d) n) else map_of (sd_entries d) n) \<Longrightarrow>
      (distinct (map fst (sd_entries d)) \<Longrightarrow> distinct (map fst (sd_entries d'))) \<Longrightarrow> (sd_faults d = [] \<Longrightarrow> sd_faults d' = []) \<Longrightarrow> Q () d'"
  shows "wp (fold_actions (align_entry fs) es ()) Q (\<lambda>_ _. True) d"
  using assms
proof (induction es arbitrary: d)
  case Nil
  show ?case using Nil.prems(3) [of d] by (simp add: wp_return)
next
  case (Cons e es)
  obtain n f where e: "e = (n, f)" by (cases e)
  have n: "map_of (sd_entries d) n = Some f" "n \<notin> fst ` set es" using Cons.prems(1,2) e by auto
  show ?case
    unfolding fold_actions.simps wp_and_then e
  proof (rule wp_align_entry [OF n(1)], goal_cases)
    case (1 d1)
    show ?case
    proof (rule Cons.IH, goal_cases)
      case 1 then show ?case using Cons.prems(1) by simp
    next
      case (2 m g)
      then show ?case using Cons.prems(2) [of m g] n(2) \<open>map_of (sd_entries d1) = _\<close> by (force simp: image_iff)
    next
      case (3 d2)
      show ?case
      proof (rule Cons.prems(3), goal_cases)
        case 1
        show ?case unfolding 3(1) \<open>map_of (sd_entries d1) = _\<close> using n by (auto simp: e fun_eq_iff)
      qed (use 3 1 in auto)
    qed
  qed
qed

lemma wp_shadow_new:
  assumes "read_header wal = Inr found" and "distinct (map fst (sd_entries d))"
    and ps: "page_size = (case db_header_page_size db of Some p \<Rightarrow> p | None \<Rightarrow> (case found of Some header \<Rightarrow> wh_page_size header | None \<Rightarrow> 4096))" "page_size \<noteq> 0"
    and Q: "\<And>d'. healed (FRAME_HEADER_SIZE + unat page_size) d d' \<Longrightarrow>
      Q \<lparr>sw_db_dir = dir, sw_db_file = file, sw_generation = (case fold note_generation (sd_entries d) None of Some g \<Rightarrow> g | None \<Rightarrow> 0), sw_segment_index = 0,
         sw_segment_offset = 0, sw_page_size = (case found of Some header \<Rightarrow> wh_page_size header | None \<Rightarrow> 4096), sw_blocker = True,
         sw_wal_salt = (case found of Some header \<Rightarrow> header_salt header | None \<Rightarrow> (0, 0)), sw_wal_chain = None,
         sw_header_seeded = (found \<noteq> None)\<rparr> d'"
  shows "wp (shadow_new dir file wal db (Inr ())) Q (\<lambda>_ _. True) d"
proof -
  let ?fs = "FRAME_HEADER_SIZE + unat page_size"
  have align: "wp (align_truncate_segments page_size) (\<lambda>_. R) (\<lambda>_ _. True) d0"
    if d0: "sd_entries d0 = sd_entries d" "sd_faults d = [] \<Longrightarrow> sd_faults d0 = []" and R: "\<And>d'. healed ?fs d d' \<Longrightarrow> R d'" for R d0
    unfolding align_truncate_segments_def if_not_P [OF ps(2)] read_dir_def wp_and_then
  proof (rule wp_io, goal_cases)
    case (1 d1)
    then have es: "sd_entries d1 = sd_entries d" using d0 by simp
    have "wp (fold_actions (align_entry ?fs) (sd_entries d1) ()) (\<lambda>_. wp io (\<lambda>_. R) (\<lambda>_ _. True)) (\<lambda>_ _. True) d1"
    proof (rule wp_align_entries, goal_cases)
      case 1 then show ?case using assms(2) es by simp
    next
      case (2 n f) then show ?case using assms(2) es by simp
    next
      case (3 d2)
      have h: "healed ?fs d d'" if "sd_entries d' = sd_entries d2" "sd_faults d2 = [] \<Longrightarrow> sd_faults d' = []" for d'
        unfolding healed_def using that 3 1 d0 assms(2) es
        by (auto simp: fun_eq_iff dest: map_of_SomeD) (metis (no_types, lifting) dom_map_of_conv_image_fst domIff option.map_disc_iff)
      show ?case by (rule wp_io) (auto intro: R h)
    qed
    then show ?case by (simp add: wp_def split: prod.splits sum.splits)
  qed simp
  have rest: "wp (and_then find_latest_generation (\<lambda>latest. and_then (align_truncate_segments page_size) (\<lambda>_.
      and_then (from_result (Inr ())) (\<lambda>_. return (F latest))))) Q (\<lambda>_ _. True) d1"
    if d1: "sd_entries d1 = sd_entries d" "sd_faults d = [] \<Longrightarrow> sd_faults d1 = []"
      and F: "\<And>d'. healed ?fs d d' \<Longrightarrow> Q (F (fold note_generation (sd_entries d) None)) d'" for F d1
    unfolding find_latest_generation_def read_dir_def wp_and_then
  proof (rule wp_io, goal_cases)
    case (1 d2)
    then have "wp (align_truncate_segments page_size) (\<lambda>_. Q (F (fold note_generation (sd_entries d) None))) (\<lambda>_ _. True) d2"
      using d1 by (intro align F) auto
    then show ?case using 1(1) d1(1) by (simp add: wp_def [of "\<lambda>d. (d, Inr (sd_entries d))"] from_result_def wp_simps wp_return_fun)
  qed simp
  show ?thesis
    unfolding shadow_new_def
  proof (subst wp_and_then, rule wp_io, goal_cases)
    case (1 d1)
    show ?case
      using rest [OF 1, of "\<lambda>latest. \<lparr>sw_db_dir = dir, sw_db_file = file, sw_generation = (case latest of Some g \<Rightarrow> g | None \<Rightarrow> 0), sw_segment_index = 0,
         sw_segment_offset = 0, sw_page_size = (case found of Some header \<Rightarrow> wh_page_size header | None \<Rightarrow> 4096), sw_blocker = True,
         sw_wal_salt = (case found of Some header \<Rightarrow> header_salt header | None \<Rightarrow> (0, 0)), sw_wal_chain = None,
         sw_header_seeded = (found \<noteq> None)\<rparr>"] Q ps(1) [symmetric]
      by (cases found) (simp_all add: assms(1) wp_and_then [of "from_result _"] wp_from_result wp_return cong: option.case_cong)
  qed simp
qed

lemma io_quiet: "sd_faults d = [] \<Longrightarrow> io d = (d, Inr ())"
  by (simp add: io_def disk_outcome_def)

lemma align_entries_succeed:
  "sd_faults d = [] \<Longrightarrow> \<exists>d'. fold_actions (align_entry fs) es () d = (d', Inr ()) \<and> sd_faults d' = []"
proof (induction es arbitrary: d)
  case (Cons e es)
  have "\<exists>d'. align_entry fs e () d = (d', Inr ()) \<and> sd_faults d' = []"
    using Cons.prems by (simp add: align_entry_def Let_def and_then_def io_quiet set_len_def set_content_def return_def)
  then show ?case using Cons.IH by (auto simp: and_then_def)
qed (simp add: return_def)

lemma shadow_new_succeeds:
  assumes "read_header wal = Inr found" "sd_faults d = []"
  shows "\<exists>d' sw. shadow_new dir file wal db (Inr ()) d = (d', Inr sw)"
proof -
  have "\<exists>d'. align_truncate_segments psz d = (d', Inr ())" for psz
    using align_entries_succeed [OF assms(2), of "FRAME_HEADER_SIZE + unat psz" "sd_entries d"] assms(2)
    by (auto simp: align_truncate_segments_def and_then_def read_dir_def io_quiet return_def)
  note align = this
  show ?thesis
  proof (cases found)
    case None
    obtain d' where "align_truncate_segments (case db_header_page_size db of Some p \<Rightarrow> p | None \<Rightarrow> 4096) d = (d', Inr ())" using align by blast
    then show ?thesis
      using assms None by (simp add: shadow_new_def and_then_def from_result_def return_def io_quiet find_latest_generation_def read_dir_def)
  next
    case (Some header)
    obtain d' where "align_truncate_segments (case db_header_page_size db of Some p \<Rightarrow> p | None \<Rightarrow> wh_page_size header) d = (d', Inr ())" using align by blast
    then show ?thesis
      using assms Some by (simp add: shadow_new_def and_then_def from_result_def return_def io_quiet find_latest_generation_def read_dir_def)
  qed
qed

lemma note_generation_latest:
  assumes "\<And>n f g'. (n, f) \<in> set es \<Longrightarrow> is_segment_file n \<Longrightarrow> generation_of_name n = Some g' \<Longrightarrow> g' \<le> g"
    and "\<And>m. acc = Some m \<Longrightarrow> m \<le> g"
    and "acc = Some g \<or> (\<exists>n f. (n, f) \<in> set es \<and> is_segment_file n \<and> generation_of_name n = Some g)"
  shows "fold note_generation es acc = Some g"
  using assms
proof (induction es arbitrary: acc)
  case (Cons e es)
  obtain n f where e: "e = (n, f)" by (cases e)
  have le: "g' \<le> g" if "is_segment_file n" "generation_of_name n = Some g'" for g'
    using Cons.prems(1) [of n f g'] that e by simp
  show ?case
    unfolding fold_simps(2)
  proof (rule Cons.IH, goal_cases)
    case (1 m h g')
    then show ?case using Cons.prems(1) [of m h g'] by simp
  next
    case (2 m)
    then show ?case using Cons.prems(2) le e by (auto simp: note_generation_def split: if_splits option.splits)
  next
    case 3
    show ?case
      using Cons.prems(3) Cons.prems(2) le e
      by (auto simp: note_generation_def max_def split: option.split)
  qed
qed simp

section \<open>Reads of a growing WAL\<close>

lemma read_header_grows:
  assumes "read_header (Some f) = Inr (Some header)" "wal_grows f f'"
  shows "read_header (Some f') = Inr (Some header)"
proof -
  obtain e where f': "f' = f @ e" using assms(2) by (rule wal_growsE)
  have len: "WAL_HEADER_SIZE \<le> length f" using assms(1) by (auto simp: read_header_def Let_def split: if_splits)
  have "be32_at f' i = be32_at f i" if "i + 4 \<le> WAL_HEADER_SIZE" for i
    using that len by (simp add: f' be32_at_def slice_def)
  then show ?thesis using assms(1) len by (auto simp: read_header_def f' Let_def WAL_HEADER_SIZE_def split: if_splits)
qed

lemma header_seed_grows: "header_seed f = Inr hs \<Longrightarrow> read_header (Some f) = Inr (Some header) \<Longrightarrow> wal_grows f f' \<Longrightarrow> header_seed f' = Inr hs"
  by (auto simp: read_header_def Let_def header_seed_append elim!: wal_growsE split: if_splits)

lemma pages_read_some: "header_seed f = Inr hs \<Longrightarrow> \<exists>frames q. pages_reads page_size f p = Some (frames, q)"
  by (cases p) (simp add: pages_reads_spec Let_def)

text \<open>Frames that end at a commit.\<close>

definition ends_committed :: "parsed_frame list \<Rightarrow> bool" where
  "ends_committed frames \<longleftrightarrow> (frames = [] \<or> 0 < pf_db_size (last frames))"

lemma pages_read_frames:
  assumes "pages_reads page_size f p = Some (frames, q)"
  shows "whole (unat page_size) frames" "ends_committed frames"
proof -
  obtain off cs where p: "p = (off, cs)" by (cases p)
  obtain hs where hs: "header_seed f = Inr hs" using assms p by (cases "header_seed f") (auto simp: pages_reads_spec)
  let ?C = "accepted f (unat page_size) (start_of off) hs cs"
  have frames: "frames = map parse_frame ?C" using assms p hs by (simp add: pages_reads_spec Let_def)
  have "length (snd fr) = unat page_size" if "fr \<in> set ?C" for fr
  proof -
    from that obtain i where "i < length ?C" "fr = raw_frame_at f (unat page_size) (start_of off) i"
      by (subst (asm) accepted_raw) auto
    then show ?thesis
      using frame_in_file [of i f "unat page_size" "start_of off"] accepted_length [of f "unat page_size" "start_of off" hs cs]
      by (simp add: raw_frame_at_def slice_def)
  qed
  then show "whole (unat page_size) frames" by (auto simp: frames whole_def parse_frame_def)
  have "is_commit (last ?C)" if "?C \<noteq> []"
    using that last_committed unfolding accepted_def Let_def by blast
  then show "ends_committed frames" by (cases "?C = []") (simp_all add: frames ends_committed_def last_map parse_frame_def is_commit_def)
qed

section \<open>What the shadow holds\<close>

definition holds :: "u64 \<Rightarrow> nat \<Rightarrow> parsed_frame list \<Rightarrow> shadow_site \<Rightarrow> bool" where
  "holds g ps frames x \<longleftrightarrow> dir_ok (sd_entries (sx_disk x)) \<and> sw_generation (sx_wal x) = g \<and> sw_segment_index (sx_wal x) = 0 \<and> whole ps frames \<and>
     (case files_of x (format_segment_name g 0) of None \<Rightarrow> frames = [] | Some f \<Rightarrow> f = segment_bytes frames)"

text \<open>The cursor in memory belongs to the WAL with this header.\<close>

definition follows :: "wal_header \<Rightarrow> shadow_wal \<Rightarrow> bool" where
  "follows header sw \<longleftrightarrow> sw_header_seeded sw \<and> sw_wal_salt sw = header_salt header \<and> sw_page_size sw = wh_page_size header"

lemma holds_put:
  assumes "holds g ps old y" "put_file (format_segment_name g 0) (segment_bytes old @ segment_bytes new) y x" "whole ps new"
  shows "holds g ps (old @ new) x"
  using assms by (auto simp: holds_def put_file_def dir_ok_def files_of_def tidy_def)

lemma holds_content: "holds g ps frames x \<Longrightarrow> (case files_of x (format_segment_name g 0) of None \<Rightarrow> [] | Some f \<Rightarrow> f) = segment_bytes frames"
  by (auto simp: holds_def split: option.splits)

lemma holds_segments:
  assumes "holds g ps frames x" "n \<le> length frames"
  shows "read_segments (files_of x) ps (n * (FRAME_HEADER_SIZE + ps)) 0
      (case files_of x (format_segment_name g 0) of None \<Rightarrow> [] | Some f \<Rightarrow> [(format_segment_name g 0, length f)]) = Inr (drop n frames)"
  using assms read_one_segment [of ps frames "files_of x" "format_segment_name g 0" n] by (auto simp: holds_def split: option.splits)

lemma holds_reads:
  assumes "holds g (unat (sw_page_size (sx_wal x))) frames x" "n \<le> length frames" "sd_faults (sx_disk x) = []"
  shows "read_frames_from_shadow g (n * (FRAME_HEADER_SIZE + unat (sw_page_size (sx_wal x)))) x =
    (x, Inr (drop n frames, length frames * (FRAME_HEADER_SIZE + unat (sw_page_size (sx_wal x)))))"
proof -
  let ?ps = "unat (sw_page_size (sx_wal x))"
  have ok: "dir_ok (sd_entries (sx_disk x))" using assms(1) by (simp add: holds_def)
  have "map (\<lambda>s. (sg_path s, sg_size s)) (sort_key sg_index (List.map_filter (segment_of_entry g) (sd_entries (sx_disk x)))) =
      (case files_of x (format_segment_name g 0) of None \<Rightarrow> [] | Some f \<Rightarrow> [(format_segment_name g 0, length f)])"
    by (simp add: one_segment [OF ok] files_of_def split: option.split)
  moreover have "n * (FRAME_HEADER_SIZE + ?ps) + (length frames - n) * (FRAME_HEADER_SIZE + ?ps) = length frames * (FRAME_HEADER_SIZE + ?ps)"
    using assms(2) by (simp flip: add_mult_distrib)
  ultimately show ?thesis
    using holds_segments [OF assms(1,2)] assms(3)
    by (simp add: read_frames_from_shadow_def list_segments_def on_disk_def read_dir_def and_then_def io_def disk_outcome_def return_def files_of_def)
qed

section \<open>Upload\<close>

definition frames_map :: "parsed_frame list \<Rightarrow> u32 \<rightharpoonup> bytes" where
  "frames_map frames = map_of (rev (map (\<lambda>frame. (pf_page_number frame, pf_data frame)) frames))"

lemma frames_map_append: "frames_map (xs @ ys) = frames_map xs ++ frames_map ys"
  by (simp add: frames_map_def)

lemma frames_map_snoc: "frames_map (frames @ [frame]) = (frames_map frames)(pf_page_number frame \<mapsto> pf_data frame)"
  by (simp add: frames_map_def)

lemma frames_map_again: "frames_map (old @ take j new @ new) = frames_map (old @ new)"
proof -
  have "dom (frames_map (take j new)) \<subseteq> dom (frames_map new)"
    by (auto simp: frames_map_def dom_map_of_conv_image_fst image_iff dest: in_set_takeD)
  then have "frames_map (take j new) ++ frames_map new = frames_map new"
    by (auto simp: map_add_def fun_eq_iff split: option.splits)
  then show ?thesis by (simp add: frames_map_append)
qed

lemma scan_one:
  "us_page_map (scan_frame frame us) ++ us_pending (scan_frame frame us) = (us_page_map us ++ us_pending us)(pf_page_number frame \<mapsto> pf_data frame)"
  "us_committed_count (scan_frame frame us) + us_pending_count (scan_frame frame us) = us_committed_count us + us_pending_count us + 1"
  by (simp_all add: scan_frame_def Let_def map_add_upd)

lemma scan_frames:
  "us_page_map (fold scan_frame frames us) ++ us_pending (fold scan_frame frames us) = (us_page_map us ++ us_pending us) ++ frames_map frames"
  "us_committed_count (fold scan_frame frames us) + us_pending_count (fold scan_frame frames us) = us_committed_count us + us_pending_count us + length frames"
proof (induction frames rule: rev_induct)
  case (snoc frame frames)
  { case 1 show ?case using snoc(1) by (simp only: fold_append fold_simps comp_apply scan_one frames_map_snoc snoc(1) map_add_upd) }
  { case 2 show ?case using snoc(2) by (simp add: scan_one) }
qed (simp_all add: frames_map_def)

lemma scan_committed:
  assumes "ends_committed frames"
  shows "us_page_map (fold scan_frame frames empty_scan) = frames_map frames" "us_committed_count (fold scan_frame frames empty_scan) = length frames"
    "frames \<noteq> [] \<Longrightarrow> us_final_db_size (fold scan_frame frames empty_scan) = pf_db_size (last frames)"
proof -
  let ?us = "fold scan_frame frames empty_scan"
  have "us_pending ?us = Map.empty \<and> us_pending_count ?us = 0 \<and> (frames \<noteq> [] \<longrightarrow> us_final_db_size ?us = pf_db_size (last frames))"
    using assms by (cases frames rule: rev_cases) (auto simp: ends_committed_def scan_frame_def Let_def empty_scan_def)
  with scan_frames [of frames empty_scan] show "us_page_map ?us = frames_map frames" "us_committed_count ?us = length frames"
    "frames \<noteq> [] \<Longrightarrow> us_final_db_size ?us = pf_db_size (last frames)" by (simp_all add: empty_scan_def)
qed

lemma holds_scans:
  assumes "holds g (unat page_size) frames x" "n \<le> length frames"
  shows "scan_shadow (sd_entries (sx_disk x)) g (n * (FRAME_HEADER_SIZE + unat page_size)) page_size =
    Inr (fold scan_frame (drop n frames) empty_scan, n * (FRAME_HEADER_SIZE + unat page_size) +
      us_committed_count (fold scan_frame (drop n frames) empty_scan) * (FRAME_HEADER_SIZE + unat page_size))"
proof -
  have ok: "dir_ok (sd_entries (sx_disk x))" using assms(1) by (simp add: holds_def)
  show ?thesis
    using holds_segments [OF assms] by (simp add: scan_shadow_def one_entry [OF ok] files_of_def Let_def)
qed

section \<open>Mirroring and recovery\<close>

text \<open>The cursor in memory is at home in the WAL with this header, or no WAL was seen yet.\<close>

definition at_home :: "wal_header \<Rightarrow> shadow_wal \<Rightarrow> bool" where
  "at_home header sw \<longleftrightarrow> follows header sw \<or> \<not> sw_header_seeded sw"

lemma at_home_observe:
  assumes "at_home header sw"
  shows "effective_offset header sw off = off" "follows header ((observe_header header sw)\<lparr>sw_wal_chain := ch\<rparr>)"
    "sw_generation (observe_header header sw) = sw_generation sw" "sw_segment_index (observe_header header sw) = sw_segment_index sw"
    "sw_wal_chain (observe_header header sw) = (if sw_header_seeded sw then sw_wal_chain sw else None)"
  using assms by (auto simp: at_home_def follows_def effective_offset_def observe_header_def)

lemma holds_cong: "files_of y = files_of x \<Longrightarrow> sx_disk y = sx_disk x \<Longrightarrow> sw_generation (sx_wal y) = sw_generation (sx_wal x) \<Longrightarrow>
    sw_segment_index (sx_wal y) = sw_segment_index (sx_wal x) \<Longrightarrow> holds g ps frames y = holds g ps frames x"
  by (simp add: holds_def)

lemma copy_step:
  assumes v: "sees v f" and h: "read_header (Some f) = Inr (Some header)" and home: "at_home header (sx_wal x)"
    and hold: "holds g (unat (wh_page_size header)) old x" and quiet: "sd_faults (sx_disk x) = []"
    and r: "pages_reads (wh_page_size header) f (off, if sw_header_seeded (sx_wal x) then sw_wal_chain (sx_wal x) else None) = Some (frames, q)"
  shows "\<exists>x'. copy_frames v off x = (x', Inr (frames, fst q)) \<and> holds g (unat (wh_page_size header)) (old @ frames) x' \<and>
    follows header (sx_wal x') \<and> sw_wal_chain (sx_wal x') = snd q \<and> sd_faults (sx_disk x') = []"
proof -
  let ?y = "x\<lparr>sx_wal := (observe_header header (sx_wal x))\<lparr>sw_wal_chain := snd q\<rparr>\<rparr>"
  note ob = at_home_observe [OF home]
  have name: "current_segment_name (observe_header header (sx_wal x)) = format_segment_name g 0"
    using hold by (simp add: current_segment_name_def ob holds_def)
  have y: "holds g (unat (wh_page_size header)) old ?y"
    using hold by (subst holds_cong [of _ x]) (simp_all add: files_of_def ob)
  have fr: "whole (unat (wh_page_size header)) frames" using pages_read_frames [OF r] by simp
  have "wp (copy_frames v off) (\<lambda>res x'. res = (frames, fst q) \<and> holds g (unat (wh_page_size header)) (old @ frames) x' \<and>
      follows header (sx_wal x') \<and> sw_wal_chain (sx_wal x') = snd q \<and> sd_faults (sx_disk x') = []) (\<lambda>_ _. False) x"
  proof (rule wp_copy_frames [OF v h, where frames = frames and off' = "fst q" and ch = "snd q"], unfold name holds_content [OF hold], goal_cases)
    case 1 then show ?case using r by (simp add: ob)
  next
    case 2 then show ?case using y ob(2) quiet by simp
  next
    case (3 x')
    have "follows header (sx_wal x')" "sw_wal_chain (sx_wal x') = snd q" "sd_faults (sx_disk x') = []"
      using 3 ob(2) [of "snd q"] quiet by (auto simp: put_file_def follows_def)
    then show ?case using holds_put [OF y 3 fr] by simp
  next
    case 4 then show ?case using quiet by simp
  qed
  then show ?thesis by (auto simp: wp_def split: prod.splits sum.splits)
qed

fun copy_all :: "shadow_sight list \<Rightarrow> nat \<Rightarrow> (shadow_site, failure, parsed_frame list \<times> nat) action" where
  "copy_all [] off = return ([], off)"
| "copy_all (v # vs) off =
     and_then (copy_frames v off) (\<lambda>(frames, off'). and_then (copy_all vs off') (\<lambda>(rest, off''). return (frames @ rest, off'')))"

lemma growing_Cons: "growing wal_grows (f # fs) \<Longrightarrow> growing wal_grows fs \<and> (fs \<noteq> [] \<longrightarrow> wal_grows f (hd fs))"
  by (cases fs) auto

lemma copy_all_polls:
  assumes "list_all2 sees vs fs" "growing wal_grows fs" "fs \<noteq> [] \<Longrightarrow> read_header (Some (hd fs)) = Inr (Some header) \<and> header_seed (hd fs) = Inr hs"
    and "follows header (sx_wal x)" "holds g (unat (wh_page_size header)) old x" "sd_faults (sx_disk x) = []"
  shows "\<exists>x' frames q. copy_all vs off x = (x', Inr (frames, fst q)) \<and> poll (pages_reads (wh_page_size header)) fs (off, sw_wal_chain (sx_wal x)) = Some (frames, q) \<and>
    holds g (unat (wh_page_size header)) (old @ frames) x' \<and> follows header (sx_wal x') \<and> sd_faults (sx_disk x') = []"
  using assms
proof (induction vs fs arbitrary: off old x rule: list_all2_induct)
  case Nil
  then show ?case by (auto simp: return_def)
next
  case (Cons v vs f fs)
  note grow = growing_Cons [OF Cons.prems(1)]
  have f: "read_header (Some f) = Inr (Some header)" "header_seed f = Inr hs" using Cons.prems(2) by simp_all
  obtain frames q where r: "pages_reads (wh_page_size header) f (off, sw_wal_chain (sx_wal x)) = Some (frames, q)" using pages_read_some [OF f(2)] by blast
  have home: "at_home header (sx_wal x)" "sw_header_seeded (sx_wal x)" using Cons.prems(3) by (simp_all add: at_home_def follows_def)
  obtain y where y: "copy_frames v off x = (y, Inr (frames, fst q))" "holds g (unat (wh_page_size header)) (old @ frames) y"
      "follows header (sx_wal y)" "sw_wal_chain (sx_wal y) = snd q" "sd_faults (sx_disk y) = []"
    using copy_step [OF Cons.hyps(1) f(1) home(1) Cons.prems(4,5), of off frames q] r home(2) by auto
  have "fs \<noteq> [] \<Longrightarrow> read_header (Some (hd fs)) = Inr (Some header) \<and> header_seed (hd fs) = Inr hs"
    using grow f read_header_grows header_seed_grows by blast
  from Cons.IH [OF conjunct1 [OF grow] this y(3,2,5), of "fst q"] obtain x' rest q' where
    "copy_all vs (fst q) y = (x', Inr (rest, fst q'))" "poll (pages_reads (wh_page_size header)) fs q = Some (rest, q')"
    "holds g (unat (wh_page_size header)) (old @ frames @ rest) x'" "follows header (sx_wal x')" "sd_faults (sx_disk x') = []"
    using y(4) by auto
  then show ?case
    using y(1) r by (intro exI [of _ x'] exI [of _ "frames @ rest"] exI [of _ q']) (simp add: and_then_def return_def)
qed

text \<open>
  Claim C14: the shadow mirrors the WAL.  However a WAL grows between copies, once a generation is begun
  its copies succeed on a working disk, and reading the shadow back from any frame on yields exactly
  the committed frames of one read of the final WAL: none lost, repeated, reordered or altered by the
  way through the segment file.
\<close>

theorem shadow_mirrors_wal:
  assumes "list_all2 sees vs fs" "growing wal_grows fs" "fs \<noteq> []"
    and "read_header (Some (hd fs)) = Inr (Some header)" "header_seed (hd fs) = Inr hs"
    and "holds g (unat (wh_page_size header)) [] x" "sd_faults (sx_disk x) = []"
    and "\<not> sw_header_seeded (sx_wal x) \<or> follows header (sx_wal x) \<and> sw_wal_chain (sx_wal x) = None"
  shows "\<exists>x' r. copy_all vs 0 x = (x', Inr (pr_frames r, pr_offset r)) \<and>
    read_frames_as_pages_checked (Wal.stable (last fs)) (wh_page_size header) 0 None = Inr r \<and>
    (\<forall>n \<le> length (pr_frames r). read_frames_from_shadow g (n * (FRAME_HEADER_SIZE + unat (wh_page_size header))) x' =
       (x', Inr (drop n (pr_frames r), length (pr_frames r) * (FRAME_HEADER_SIZE + unat (wh_page_size header)))))"
proof -
  obtain v vs' f fs' where vf: "vs = v # vs'" "fs = f # fs'" using assms(1,3) by (cases fs) (auto simp: list_all2_Cons2)
  let ?ps = "unat (wh_page_size header)"
  have f: "read_header (Some f) = Inr (Some header)" "header_seed f = Inr hs" using assms(4,5) vf by simp_all
  note grow = growing_Cons [OF assms(2) [unfolded vf]]
  have home: "at_home header (sx_wal x)" "(if sw_header_seeded (sx_wal x) then sw_wal_chain (sx_wal x) else None) = None"
    using assms(8) by (auto simp: at_home_def)
  obtain frames q where r: "pages_reads (wh_page_size header) f (0, None) = Some (frames, q)" using pages_read_some [OF f(2)] by blast
  have sv: "sees v f" "list_all2 sees vs' fs'" using assms(1) vf by simp_all
  obtain y where y: "copy_frames v 0 x = (y, Inr (frames, fst q))" "holds g ?ps frames y" "follows header (sx_wal y)"
      "sw_wal_chain (sx_wal y) = snd q" "sd_faults (sx_disk y) = []"
    using copy_step [OF sv(1) f(1) home(1) assms(6,7), of 0 frames q] r home(2) by auto
  have "fs' \<noteq> [] \<Longrightarrow> read_header (Some (hd fs')) = Inr (Some header) \<and> header_seed (hd fs') = Inr hs"
    using grow f read_header_grows header_seed_grows by blast
  from copy_all_polls [OF sv(2) conjunct1 [OF grow] this y(3,2,5), of "fst q"] obtain x' rest q' where x':
    "copy_all vs' (fst q) y = (x', Inr (rest, fst q'))" "poll (pages_reads (wh_page_size header)) fs' q = Some (rest, q')"
    "holds g ?ps (frames @ rest) x'" "follows header (sx_wal x')" "sd_faults (sx_disk x') = []"
    using y(4) by auto
  have "poll (pages_reads (wh_page_size header)) fs (0, None) = Some (frames @ rest, q')" using r x'(2) vf by simp
  from wal_pages.poll_one_shot [OF assms(2,3) _ this] have "pages_reads (wh_page_size header) (last fs) (0, None) = Some (frames @ rest, q')"
    by (simp add: wal_pos_def)
  then obtain r where r: "read_frames_as_pages_checked (Wal.stable (last fs)) (wh_page_size header) 0 None = Inr r" "pr_frames r = frames @ rest" "pr_offset r = fst q'"
    by (auto simp: pages_reads_def split: sum.splits)
  have "sw_page_size (sx_wal x') = wh_page_size header" using x'(4) by (simp add: follows_def)
  with holds_reads [of g x' "frames @ rest"] x'(3,5) have "\<forall>n \<le> length (frames @ rest). read_frames_from_shadow g (n * (FRAME_HEADER_SIZE + ?ps)) x' =
      (x', Inr (drop n (frames @ rest), length (frames @ rest) * (FRAME_HEADER_SIZE + ?ps)))" by metis
  moreover have "copy_all vs 0 x = (x', Inr (pr_frames r, pr_offset r))" using y(1) x'(1) r vf by (simp add: and_then_def return_def)
  ultimately show ?thesis using r by metis
qed

text \<open>A copy that is interrupted anywhere leaves the old frames and a piece of what it was appending.\<close>

lemma crash_leaves:
  assumes v: "sees v f" and h: "read_header (Some f) = Inr (Some header)" and fol: "follows header (sx_wal x)"
    and hold: "holds g (unat (wh_page_size header)) old x" and seg: "files_of x (format_segment_name g 0) \<noteq> None"
    and r: "pages_reads (wh_page_size header) f (off, sw_wal_chain (sx_wal x)) = Some (new, q)"
    and run: "copy_frames v off x = (x1, res)"
  shows "\<exists>k. files_of x1 = (files_of x)(format_segment_name g 0 \<mapsto> segment_bytes old @ take k (segment_bytes new)) \<and> tidy x1"
proof -
  let ?P = "\<lambda>x1. \<exists>k. files_of x1 = (files_of x)(format_segment_name g 0 \<mapsto> segment_bytes old @ take k (segment_bytes new)) \<and> tidy x1"
  have home: "at_home header (sx_wal x)" "sw_header_seeded (sx_wal x)" using fol by (simp_all add: at_home_def follows_def)
  note ob = at_home_observe [OF home(1)]
  have name: "current_segment_name (observe_header header (sx_wal x)) = format_segment_name g 0"
    using hold by (simp add: current_segment_name_def ob holds_def)
  have t: "tidy x" using hold by (simp add: holds_def dir_ok_def tidy_def)
  have same: "(files_of x)(format_segment_name g 0 \<mapsto> segment_bytes old) = files_of x"
    using seg hold by (auto simp: holds_def split: option.splits)
  have put: "?P z" if "put_file (format_segment_name g 0) (segment_bytes old @ take k (segment_bytes new)) (x\<lparr>sx_wal := w\<rparr>) z" for k z w
    using that t by (auto simp: put_file_def files_of_def tidy_def)
  have alone: "?P z" if "sx_disk z = sx_disk y" "left_alone (x\<lparr>sx_wal := w\<rparr>) y" for y z w
    using that t same by (intro exI [of _ 0]) (simp add: left_alone_def files_of_def tidy_def)
  have "wp (copy_frames v off) (\<lambda>_. ?P) (\<lambda>_. ?P) x"
  proof (rule wp_copy_frames [OF v h, where frames = new and off' = "fst q" and ch = "snd q"], unfold name holds_content [OF hold], goal_cases)
    case 1 then show ?case using r home(2) by (simp add: ob)
  next
    case 2
    show ?case by (rule alone [of _ "x\<lparr>sx_wal := sx_wal x\<rparr>" "sx_wal x"]) (simp_all add: left_alone_def)
  next
    case (3 z)
    then show ?case using put [of "length (segment_bytes new)" _ z] by simp
  next
    case (4 e z)
    then show ?case using put alone by blast
  qed
  from wp_run [OF this run] show ?thesis by (cases res) auto
qed

text \<open>A restart cuts off the torn frame and finds the generation and the cursor again.\<close>

lemma restart_holds:
  assumes hold: "holds g (unat (wh_page_size header)) old x" and fol: "follows header (sx_wal x)"
    and latest: "files_of x (format_segment_name g 0) \<noteq> None" "\<And>g'. files_of x (format_segment_name g' 0) \<noteq> None \<Longrightarrow> g' \<le> g"
    and left: "map_of (sd_entries d) = (files_of x)(format_segment_name g 0 \<mapsto> segment_bytes old @ take k (segment_bytes new))" "distinct (map fst (sd_entries d))"
    and new: "whole (unat (wh_page_size header)) new" and h: "read_header (Some f) = Inr (Some header)" "wh_page_size header \<noteq> 0"
    and restart: "shadow_new dir file (Some f) db (Inr ()) (d\<lparr>sd_faults := []\<rparr>) = (d', Inr sw')" "db_header_page_size db = Some (wh_page_size header)"
  shows "\<exists>j. let z = \<lparr>sx_wal = restore_read_cursor (wal_read_salt (sx_wal x)) (wal_read_chain (sx_wal x)) sw', sx_disk = d'\<rparr> in
    holds g (unat (wh_page_size header)) (old @ take j new) z \<and> follows header (sx_wal z) \<and> sw_wal_chain (sx_wal z) = sw_wal_chain (sx_wal x) \<and> sd_faults d' = []"
proof -
  let ?ps = "unat (wh_page_size header)" and ?n = "format_segment_name g 0"
  have names: "\<exists>g'. n = format_segment_name g' 0 \<and> g' \<le> g" if n: "n \<in> fst ` set (sd_entries d)" "is_segment_file n" for n
  proof -
    have "map_of (sd_entries d) n \<noteq> None" using n(1) by (simp add: map_of_eq_None_iff)
    then have "files_of x n \<noteq> None" using latest(1) by (auto simp: left(1) split: if_splits)
    moreover from this obtain g' where "n = format_segment_name g' 0" using hold n(2) by (auto simp: holds_def dir_ok_def files_of_def)
    ultimately show ?thesis using latest(2) by blast
  qed
  have "?n \<in> fst ` set (sd_entries d)" using left(1) by (metis fun_upd_same map_of_eq_None_iff option.distinct(1))
  then obtain c where c: "(?n, c) \<in> set (sd_entries d)" by auto
  have gen: "fold note_generation (sd_entries d) None = Some g"
    by (rule note_generation_latest) (use names c in \<open>force+\<close>)
  let ?sw = "\<lparr>sw_db_dir = dir, sw_db_file = file, sw_generation = g, sw_segment_index = 0, sw_segment_offset = 0, sw_page_size = wh_page_size header,
     sw_blocker = True, sw_wal_salt = header_salt header, sw_wal_chain = None, sw_header_seeded = True\<rparr>"
  have "wp (shadow_new dir file (Some f) db (Inr ())) (\<lambda>sw d'. sw = ?sw \<and> healed (FRAME_HEADER_SIZE + ?ps) (d\<lparr>sd_faults := []\<rparr>) d') (\<lambda>_ _. True) (d\<lparr>sd_faults := []\<rparr>)"
    by (rule wp_shadow_new [OF h(1), where page_size = "wh_page_size header"]) (use left(2) restart(2) h(2) gen in simp_all)
  from wp_run [OF this restart(1)] have sw: "sw' = ?sw" and healed: "healed (FRAME_HEADER_SIZE + ?ps) (d\<lparr>sd_faults := []\<rparr>) d'" by simp_all
  have "whole ?ps old" using hold by (simp add: holds_def)
  from heal_torn [OF this new, of k] obtain j where j: "heal (FRAME_HEADER_SIZE + ?ps) (segment_bytes old @ take k (segment_bytes new)) = segment_bytes (old @ take j new)" by blast
  have "dom (map_of (sd_entries d')) = dom (map_of (sd_entries d))" using healed by (auto simp: healed_def dom_def)
  then have ok: "dir_ok (sd_entries d')" using names healed left(2) by (fastforce simp: dir_ok_def healed_def dom_map_of_conv_image_fst)
  have "map_of (sd_entries d') ?n = Some (segment_bytes (old @ take j new))" using healed j by (simp add: healed_def left(1))
  then show ?thesis
    using ok fol healed new hold
    by (intro exI [of _ j]) (auto simp: sw holds_def files_of_def follows_def wal_read_salt_def wal_read_chain_def restore_read_cursor_def healed_def whole_take)
qed

lemma read_prefix:
  assumes "wal_grows f f'" "wal_pos p" "pages_reads page_size f p = Some (new1, q1)" "pages_reads page_size f' p = Some (new, q)" "header_seed f' = Inr hs"
  shows "\<exists>i. take j new1 = take i new"
proof -
  obtain ys r where "pages_reads page_size f' q1 = Some (ys, r)" using pages_read_some [OF assms(5)] by blast
  from wal_pages.resume [OF assms(1-3) this] assms(4) have "new = new1 @ ys" by simp
  then have "take j new1 = take (min j (length new1)) new" by (simp add: min_def)
  then show ?thesis ..
qed

text \<open>
  Claim C13: the shadow survives a crash.  Let a copy be interrupted at any point, torn frame included,
  and the process start again over the same or a longer WAL with the cursor saved before that copy.
  Then the next copy succeeds, the shadow reads back as whole frames, and an upload from any frame that
  was already copied collects exactly the pages and the database size it would have collected without
  the crash: frames that were copied twice change nothing, and none is lost.
\<close>

theorem shadow_survives_crash:
  assumes x: "holds g (unat (wh_page_size header)) old x" "follows header (sx_wal x)" "ends_committed old"
      "files_of x (format_segment_name g 0) \<noteq> None" "\<And>g'. files_of x (format_segment_name g' 0) \<noteq> None \<Longrightarrow> g' \<le> g"
    and wal: "sees v f" "sees v' f'" "wal_grows f f'" "read_header (Some f) = Inr (Some header)" "header_seed f = Inr hs" "wh_page_size header \<noteq> 0"
      "wal_pos (off, sw_wal_chain (sx_wal x))"
    and crash: "copy_frames v off x = (x1, res)" and db: "db_header_page_size db = Some (wh_page_size header)"
  shows "\<exists>d sw x3 new q j. shadow_new dir file (Some f') db (Inr ()) ((sx_disk x1)\<lparr>sd_faults := []\<rparr>) = (d, Inr sw) \<and>
    pages_reads (wh_page_size header) f' (off, sw_wal_chain (sx_wal x)) = Some (new, q) \<and>
    copy_frames v' off \<lparr>sx_wal = restore_read_cursor (wal_read_salt (sx_wal x)) (wal_read_chain (sx_wal x)) sw, sx_disk = d\<rparr> = (x3, Inr (new, fst q)) \<and>
    (\<exists>e. read_frames_from_shadow g 0 x3 = (x3, Inr (old @ take j new @ new, e))) \<and>
    (\<forall>n \<le> length old. \<exists>us e. scan_shadow (sd_entries (sx_disk x3)) g (n * (FRAME_HEADER_SIZE + unat (wh_page_size header))) (wh_page_size header) = Inr (us, e) \<and>
       us_page_map us = frames_map (drop n old @ new) \<and> (drop n old @ new \<noteq> [] \<longrightarrow> us_final_db_size us = pf_db_size (last (drop n old @ new))))"
proof -
  let ?ps = "unat (wh_page_size header)" and ?p = "(off, sw_wal_chain (sx_wal x))"
  obtain d sw where restart: "shadow_new dir file (Some f') db (Inr ()) ((sx_disk x1)\<lparr>sd_faults := []\<rparr>) = (d, Inr sw)"
    using shadow_new_succeeds [OF read_header_grows [OF wal(4,3)]] by (metis shadow_disk.select_convs(2) shadow_disk.surjective shadow_disk.update_convs(2))
  let ?z = "\<lparr>sx_wal = restore_read_cursor (wal_read_salt (sx_wal x)) (wal_read_chain (sx_wal x)) sw, sx_disk = d\<rparr>"
  have f': "read_header (Some f') = Inr (Some header)" "header_seed f' = Inr hs"
    using read_header_grows [OF wal(4,3)] header_seed_grows [OF wal(5,4,3)] .
  obtain new1 q1 new q where reads: "pages_reads (wh_page_size header) f ?p = Some (new1, q1)" "pages_reads (wh_page_size header) f' ?p = Some (new, q)"
    using pages_read_some [OF wal(5)] pages_read_some [OF f'(2)] by metis
  obtain k where k: "files_of x1 = (files_of x)(format_segment_name g 0 \<mapsto> segment_bytes old @ take k (segment_bytes new1))" "tidy x1"
    using crash_leaves [OF wal(1,4) x(2,1,4) reads(1) crash] by blast
  have k1: "map_of (sd_entries (sx_disk x1)) = (files_of x)(format_segment_name g 0 \<mapsto> segment_bytes old @ take k (segment_bytes new1))"
    using k(1) by (simp only: files_of_def)
  obtain j where z: "holds g ?ps (old @ take j new1) ?z" "follows header (sx_wal ?z)" "sw_wal_chain (sx_wal ?z) = sw_wal_chain (sx_wal x)" "sd_faults (sx_disk ?z) = []"
    using restart_holds [OF x(1,2,4,5) k1 k(2) [unfolded tidy_def] pages_read_frames(1) [OF reads(1)] f'(1) wal(6) restart db]
    by (auto simp: Let_def)
  obtain i where i: "take j new1 = take i new" using read_prefix [OF wal(3,7) reads f'(2)] by blast
  have home: "at_home header (sx_wal ?z)" "sw_header_seeded (sx_wal ?z)" using z(2) by (simp_all only: at_home_def follows_def simp_thms)
  obtain x3 where x3: "copy_frames v' off ?z = (x3, Inr (new, fst q))" "holds g ?ps ((old @ take i new) @ new) x3" "follows header (sx_wal x3)" "sd_faults (sx_disk x3) = []"
    using copy_step [OF wal(2) f'(1) home(1) z(1)[unfolded i] z(4), of off new q] reads(2) home(2) z(3) by auto
  have "\<exists>e. read_frames_from_shadow g 0 x3 = (x3, Inr (old @ take i new @ new, e))"
    using holds_reads [of g x3 "(old @ take i new) @ new" 0] x3(2-4) by (auto simp: follows_def)
  moreover have "\<exists>us e. scan_shadow (sd_entries (sx_disk x3)) g (n * (FRAME_HEADER_SIZE + ?ps)) (wh_page_size header) = Inr (us, e) \<and>
       us_page_map us = frames_map (drop n old @ new) \<and> (drop n old @ new \<noteq> [] \<longrightarrow> us_final_db_size us = pf_db_size (last (drop n old @ new)))" if n: "n \<le> length old" for n
  proof -
    let ?fr = "drop n old @ take i new @ new"
    have "ends_committed (drop n old)" using x(3) by (cases "n < length old") (auto simp: ends_committed_def last_drop)
    then have "ends_committed ?fr" using pages_read_frames(2) [OF reads(2)] by (cases "new = []") (simp_all add: ends_committed_def)
    note scan = scan_committed [OF this]
    have "last ?fr = last (drop n old @ new)" by (cases "new = []") simp_all
    then show ?thesis
      using holds_scans [OF x3(2), of n] n scan frames_map_again [of "drop n old" i new] by auto
  qed
  ultimately show ?thesis using restart reads(2) x3(1) by blast
qed

section \<open>Behaviour worth knowing\<close>

text \<open>
  A copy that finds a new WAL without a committed frame moves the state in memory to the new WAL and
  reports position 32.  A caller that keeps its old offset because no frame was copied, as the watch
  loop does, makes the next copy start there: at an offset of the old WAL, without a checksum to check.
\<close>

lemma rollover_without_frames:
  assumes "sees v f" "read_header (Some f) = Inr (Some header)" "sw_header_seeded (sx_wal x)" "header_salt header \<noteq> sw_wal_salt (sx_wal x)"
    and "pages_reads (wh_page_size header) f (0, None) = Some ([], (off', ch))" "sd_faults (sx_disk x) = []"
  shows "\<exists>x'. copy_frames v off x = (x', Inr ([], off')) \<and> effective_offset header (sx_wal x') off = off \<and> sw_wal_chain (sx_wal x') = ch"
proof -
  have ob: "effective_offset header (sx_wal x) off = 0" "sw_wal_chain (observe_header header (sx_wal x)) = None"
      "sw_wal_salt (observe_header header (sx_wal x)) = header_salt header"
    using assms(3,4) by (simp_all add: effective_offset_def observe_header_def)
  have "wp (copy_frames v off) (\<lambda>res x'. res = ([], off') \<and> effective_offset header (sx_wal x') off = off \<and> sw_wal_chain (sx_wal x') = ch) (\<lambda>_ _. False) x"
  proof (rule wp_copy_frames [OF assms(1,2), where frames = "[]" and off' = off' and ch = ch], goal_cases)
    case 1 then show ?case using assms(5) ob by simp
  next
    case 2 then show ?case using ob by (simp add: effective_offset_def)
  next
    case (3 x')
    then obtain o' where "sx_wal x' = (observe_header header (sx_wal x))\<lparr>sw_wal_chain := ch, sw_segment_offset := o'\<rparr>" by (auto simp: put_file_def)
    then show ?case using ob by (simp add: effective_offset_def)
  next
    case 4 then show ?case using assms(6) by simp
  qed
  then show ?thesis by (auto simp: wp_def split: prod.splits sum.splits)
qed

text \<open>A checkpoint whose pragma fails returns before the blocking transaction is opened again.\<close>

lemma failed_pragma_unblocks:
  "shadow_checkpoint (Inr ()) (Inl e) reopen x = (x\<lparr>sx_wal := (sx_wal x)\<lparr>sw_blocker := False\<rparr>\<rparr>, Inl e)"
  by (simp add: shadow_checkpoint_def and_then_def shadow_of_def update_shadow_def from_result_def return_def raise_def)

text \<open>Cleaning up removes segments of earlier generations only.\<close>

lemma cleanup_keeps:
  assumes "cleanup_segments up_to x = (x', r)" "up_to \<le> g"
  shows "files_of x' (format_segment_name g i) = files_of x (format_segment_name g i)"
proof -
  have step: "wp (fold_actions (cleanup_entry up_to) es n) (\<lambda>_ d'. map_of (sd_entries d') (format_segment_name g i) = c) (\<lambda>_ d'. map_of (sd_entries d') (format_segment_name g i) = c) d"
    if "map_of (sd_entries d) (format_segment_name g i) = c" for es n c d
    using that
  proof (induction es arbitrary: n d)
    case (Cons e es)
    show ?case
    proof (cases "is_segment_file (fst e) \<and> (\<exists>gen. generation_of_name (fst e) = Some gen \<and> gen < up_to)")
      case True
      then obtain gen where gen: "generation_of_name (fst e) = Some gen" "gen < up_to" by blast
      then have ne: "fst e \<noteq> format_segment_name g i" using assms(2) by auto
      have "cleanup_entry up_to e n = and_then (delete_entry (fst e)) (\<lambda>_. return (n + 1))" using True gen by (simp add: cleanup_entry_def)
      moreover have del: "wp (delete_entry (fst e)) (\<lambda>_ d'. map_of (sd_entries d') (format_segment_name g i) = c) (\<lambda>_ d'. map_of (sd_entries d') (format_segment_name g i) = c) d"
        unfolding delete_entry_def wp_and_then
        by (rule wp_io) (use Cons.prems ne in \<open>simp_all add: wp_def AList.delete_conv'\<close>)
      ultimately show ?thesis
        unfolding fold_actions.simps by (simp only: wp_and_then wp_return_fun) (rule wp_mono [OF del], rule Cons.IH, assumption+)
    next
      case False
      then have "cleanup_entry up_to e n = return n" by (auto simp: cleanup_entry_def split: option.split)
      then show ?thesis using Cons by (simp add: wp_and_then wp_return)
    qed
  qed (simp add: wp_return)
  have "wp (cleanup_segments up_to) (\<lambda>_ x'. files_of x' (format_segment_name g i) = files_of x (format_segment_name g i))
      (\<lambda>_ x'. files_of x' (format_segment_name g i) = files_of x (format_segment_name g i)) x"
    unfolding cleanup_segments_def wp_on_disk read_dir_def wp_and_then files_of_def
    by (rule wp_io) (auto simp: wp_def [of "\<lambda>d. (d, Inr (sd_entries d))"] intro!: step)
  from wp_run [OF this assms(1)] show ?thesis by (cases r) auto
qed

section \<open>Witnesses\<close>

text \<open>A WAL of two frames with pages of eight bytes.\<close>

definition small_wal :: bytes where
  "small_wal =
     [55, 127, 6, 131, 0, 45, 226, 24, 0, 0, 0, 8, 0, 0, 0, 0, 0, 0, 0, 1, 0, 0, 0, 2, 22, 4, 198, 232, 188, 221, 158, 171,
      0, 0, 0, 1, 0, 0, 0, 0, 0, 0, 0, 1, 0, 0, 0, 2, 99, 163, 106, 212, 244, 100, 112, 20, 1, 1, 1, 1, 1, 1, 1, 1,
      0, 0, 0, 2, 0, 0, 0, 2, 0, 0, 0, 1, 0, 0, 0, 2, 166, 118, 39, 236, 244, 228, 116, 238, 2, 2, 2, 2, 2, 2, 2, 2]"

definition small_header :: wal_header where
  "small_header = \<lparr>wh_magic = 0x377F0683, wh_format_version = 3007000, wh_page_size = 8, wh_checkpoint_seq = 0, wh_salt1 = 1, wh_salt2 = 2,
     wh_checksum1 = 369411816, wh_checksum2 = 3168640683\<rparr>"

definition small_frames :: "parsed_frame list" where
  "small_frames = [\<lparr>pf_page_number = 1, pf_db_size = 0, pf_data = [1, 1, 1, 1, 1, 1, 1, 1]\<rparr>, \<lparr>pf_page_number = 2, pf_db_size = 2, pf_data = [2, 2, 2, 2, 2, 2, 2, 2]\<rparr>]"

definition look :: "bytes \<Rightarrow> shadow_sight" where
  "look f = \<lparr>sv_exists = True, sv_views = Wal.stable f, sv_journal_mode = Inr ''wal''\<rparr>"

lemma look_sees [simp]: "sees (look f) f"
  by (simp add: sees_def look_def)

lemma small_read_header: "read_header (Some small_wal) = Inr (Some small_header)"
  by (simp add: read_header_def small_wal_def small_header_def wal_eval)

lemma small_header_seed: "header_seed small_wal = Inr (Some ((369411816, 3168640683), True, (1, 2)))"
  by (simp add: header_seed_def small_wal_def wal_eval)

lemma small_raw: "raw_frames small_wal 8 32 = [(take 24 (drop 32 small_wal), [1, 1, 1, 1, 1, 1, 1, 1]), (take 24 (drop 64 small_wal), [2, 2, 2, 2, 2, 2, 2, 2])]"
  by (simp add: raw_frames_def frame_count_def raw_frame_at_def small_wal_def slice_def FRAME_HEADER_SIZE_def upt_rec)

lemma small_read: "pages_reads 8 small_wal (0, None) = Some (small_frames, (96, Some (2792761324, 4108612846)))"
  by (simp add: pages_reads_spec small_header_seed start_of_def WAL_HEADER_SIZE_def FRAME_HEADER_SIZE_def accepted_def small_raw chain_mode_of_def
    chain_at_def Let_def)
  (simp add: check_frame_def verify_frame_checksum_def frame_salt_def small_wal_def wal_eval is_commit_def parse_frame_def chain_at_def small_frames_def)

definition small_shadow :: "nat option list \<Rightarrow> shadow_site" where
  "small_shadow faults =
     \<lparr>sx_wal = \<lparr>sw_db_dir = ''d'', sw_db_file = ''app.db'', sw_generation = 0, sw_segment_index = 0, sw_segment_offset = 0, sw_page_size = 8,
        sw_blocker = True, sw_wal_salt = (1, 2), sw_wal_chain = None, sw_header_seeded = True\<rparr>,
      sx_disk = \<lparr>sd_entries = [(format_segment_name 0 0, [])], sd_faults = faults\<rparr>\<rparr>"

lemma small_holds: "holds 0 8 [] (small_shadow faults)" "follows small_header (sx_wal (small_shadow faults))"
    "files_of (small_shadow faults) = [format_segment_name 0 0 \<mapsto> []]"
  by (auto simp: holds_def dir_ok_def small_shadow_def files_of_def follows_def small_header_def header_salt_def)

text \<open>Two copies, before and after the WAL got its frames.\<close>

theorem shadow_mirrors_wal_witness:
  "\<exists>x'. copy_all [look (take 40 small_wal), look small_wal] 0 (small_shadow []) = (x', Inr (small_frames, 96)) \<and>
     read_frames_from_shadow 0 0 x' = (x', Inr (small_frames, 64))"
proof -
  let ?f = "take 40 small_wal"
  have ps: "unat (wh_page_size small_header) = 8" "wh_page_size small_header = 8" by (simp_all add: small_header_def)
  have grow: "growing wal_grows [?f, small_wal]" by (simp add: wal_grows_def small_wal_def)
  have h: "read_header (Some ?f) = Inr (Some small_header)" by (simp add: read_header_def small_wal_def small_header_def wal_eval)
  have hs: "header_seed ?f = Inr (Some ((369411816, 3168640683), True, (1, 2)))"
    using header_seed_append [of ?f "drop 40 small_wal"] small_header_seed by (simp add: small_wal_def WAL_HEADER_SIZE_def)
  have all: "list_all2 sees [look ?f, look small_wal] [?f, small_wal]" by simp
  have start: "\<not> sw_header_seeded (sx_wal (small_shadow [])) \<or>
      follows small_header (sx_wal (small_shadow [])) \<and> sw_wal_chain (sx_wal (small_shadow [])) = None"
    using small_holds(2) by (simp add: small_shadow_def)
  have quiet: "sd_faults (sx_disk (small_shadow [])) = []" by (simp add: small_shadow_def)
  have hold: "holds 0 (unat (wh_page_size small_header)) [] (small_shadow [])" using small_holds(1) ps by simp
  have "read_header (Some (hd [?f, small_wal])) = Inr (Some small_header)" "header_seed (hd [?f, small_wal]) = Inr (Some ((369411816, 3168640683), True, (1, 2)))"
    using h hs by simp_all
  from shadow_mirrors_wal [OF all grow _ this hold quiet start, unfolded ps] obtain x' r where
    r: "copy_all [look ?f, look small_wal] 0 (small_shadow []) = (x', Inr (pr_frames r, pr_offset r))"
      "read_frames_as_pages_checked (Wal.stable small_wal) 8 0 None = Inr r"
      "\<forall>n\<le>length (pr_frames r). read_frames_from_shadow 0 (n * (FRAME_HEADER_SIZE + 8)) x' = (x', Inr (drop n (pr_frames r), length (pr_frames r) * (FRAME_HEADER_SIZE + 8)))"
    by auto
  have "pr_frames r = small_frames" "pr_offset r = 96" using small_read r(2) by (simp_all add: pages_reads_def)
  then show ?thesis using r(1) r(3) [rule_format, of 0] by (auto simp: small_frames_def FRAME_HEADER_SIZE_def)
qed

text \<open>The disk fails within the page of the first frame; the process starts again.\<close>

theorem shadow_survives_crash_witness:
  "\<exists>x1 res d sw x3 us e. copy_frames (look small_wal) 0 (small_shadow [None, None, Some 5]) = (x1, res) \<and>
     shadow_new ''d'' ''app.db'' (Some small_wal) (Some (SQLITE_MAGIC @ [0, 8])) (Inr ()) ((sx_disk x1)\<lparr>sd_faults := []\<rparr>) = (d, Inr sw) \<and>
     copy_frames (look small_wal) 0 \<lparr>sx_wal = restore_read_cursor (Some (1, 2)) None sw, sx_disk = d\<rparr> = (x3, Inr (small_frames, 96)) \<and>
     scan_shadow (sd_entries (sx_disk x3)) 0 0 8 = Inr (us, e) \<and> us_page_map us = frames_map small_frames \<and> us_final_db_size us = 2"
proof -
  let ?x = "small_shadow [None, None, Some 5]" and ?db = "Some (SQLITE_MAGIC @ [0, 8])"
  have ps: "unat (wh_page_size small_header) = 8" "wh_page_size small_header = 8" by (simp_all add: small_header_def)
  obtain x1 res where run: "copy_frames (look small_wal) 0 ?x = (x1, res)" by fastforce
  have db: "db_header_page_size ?db = Some (wh_page_size small_header)"
    by (simp add: db_header_page_size_def SQLITE_MAGIC_def slice_def be_nat_def ps)
  have cur: "wal_read_salt (sx_wal ?x) = Some (1, 2)" "wal_read_chain (sx_wal ?x) = None" "sw_wal_chain (sx_wal ?x) = None"
    by (simp_all add: small_shadow_def wal_read_salt_def wal_read_chain_def)
  have seg: "files_of ?x (format_segment_name 0 0) \<noteq> None" "\<And>g'. files_of ?x (format_segment_name g' 0) \<noteq> None \<Longrightarrow> g' \<le> 0"
    by (auto simp: small_holds(3) split: if_splits)
  have hold: "holds 0 (unat (wh_page_size small_header)) [] ?x" using small_holds(1) ps by simp
  have grow: "wal_grows small_wal small_wal" by (simp add: wal_grows_def)
  have nz: "wh_page_size small_header \<noteq> 0" and pos: "wal_pos (0, sw_wal_chain (sx_wal ?x))" and none: "ends_committed []"
    by (simp_all add: ps wal_pos_def ends_committed_def)
  from shadow_survives_crash [OF hold small_holds(2) none seg look_sees look_sees grow small_read_header small_header_seed nz pos run db, unfolded cur ps]
  obtain d sw x3 new q us e where r: "shadow_new ''d'' ''app.db'' (Some small_wal) ?db (Inr ()) ((sx_disk x1)\<lparr>sd_faults := []\<rparr>) = (d, Inr sw)"
      "pages_reads 8 small_wal (0, None) = Some (new, q)"
      "copy_frames (look small_wal) 0 \<lparr>sx_wal = restore_read_cursor (Some (1, 2)) None sw, sx_disk = d\<rparr> = (x3, Inr (new, fst q))"
      "scan_shadow (sd_entries (sx_disk x3)) 0 0 8 = Inr (us, e)" "us_page_map us = frames_map new" "new \<noteq> [] \<longrightarrow> us_final_db_size us = pf_db_size (last new)"
    by fastforce
  have "new = small_frames" "fst q = 96" using r(2) small_read by auto
  then show ?thesis using run r by (auto simp: small_frames_def)
qed

end
