(* ===== verification/Spec2Isabelle.thy ===== *)
theory Spec2Isabelle
  imports Levels Wal Changeset Fenced Replication Follower ExternalBase Cursor Shadow
begin

text \<open>
  A verification library for walrust, which replicates SQLite databases to object storage.

  \<^bold>\<open>The program.\<close>  A publisher reads the committed frames of a SQLite WAL (\<^verbatim>\<open>wal.rs\<close>), encodes them as HADBP
  changesets (\<^verbatim>\<open>ltx.rs\<close>) and puts them, one object per sequence number, into a bucket (\<^verbatim>\<open>sync.rs\<close>); snapshots of
  the whole database start a chain, and a checksum in each changeset links it to the one before.  Compaction
  (\<^verbatim>\<open>compaction/\<close>) merges runs of changesets into objects of higher levels.  Restore plans a path through
  snapshots and levels and applies it to a staged file that replaces the output in the end.  Followers pull new
  changesets into a file or a page sink.  In external-base mode another layer owns the base and the publisher only
  adds deltas, optionally fenced by epoch and writer (\<^verbatim>\<open>external_delta.rs\<close>).  The shadow WAL (\<^verbatim>\<open>shadow.rs\<close>) keeps
  a local copy of WAL frames for a slower uploader.  Paths below are relative to \<^verbatim>\<open>src/crates/walrust-core/src\<close>.

  \<^bold>\<open>How code is modelled.\<close>  Pure functions are HOL functions with the same names and branches; \<^verbatim>\<open>u32\<close> and \<^verbatim>\<open>u64\<close>
  are words, so sequence numbers wrap; file offsets and lengths are naturals.  A fallible function returns a sum
  with its error on the left.  An \<^verbatim>\<open>async fn\<close> with effects is an action: a function from the state of the world to a
  new state and a result (theory Actions), composed by \<open>and_then\<close> where the code has \<^verbatim>\<open>?\<close>.  Storage is a record of
  operations over an abstract state (theory Storage); local files live in a map with a schedule of disk faults
  (theories World and Shadow), and theorems hold for every schedule.  A file that SQLite changes while it is read is
  given by its content at each look.  A crash is a failure at some point, after which only objects and files
  remain.

  \<^bold>\<open>Theories, in dependency order.\<close>

  \<^item> Prelude, Actions: byte codecs, slices, words; actions and their weakest preconditions.
  \<^item> Keys: object keys and range names (\<^verbatim>\<open>compaction/layout.rs\<close>, \<^verbatim>\<open>sync.rs\<close>), parsed and printed; lexical order is
    numeric order.
  \<^item> Planner, Levels: \<^verbatim>\<open>planner.rs\<close>, \<^verbatim>\<open>coverage.rs\<close>, \<^verbatim>\<open>prune.rs\<close>, \<^verbatim>\<open>trigger.rs\<close> and the range logic of \<^verbatim>\<open>engine.rs\<close>.
    A plan covers the requested span exactly; it is found whenever one exists; pruning changes no restore.
  \<^item> Wal: all readers of \<^verbatim>\<open>wal.rs\<close>.  The checked readers return exactly the committed, checksum-valid frames, agree
    with each other, fail closed when the file is reset under them, and polling equals one read.
  \<^item> Changeset, HadbpCodec: \<^verbatim>\<open>ltx.rs\<close>.  Encoding and applying a snapshot or a WAL batch are inverse; application is
    characterized page by page.
  \<^item> Merge, MergeApply: \<^verbatim>\<open>merge.rs\<close>.  The k-way merge ends, keeps at most one page per source in memory, refines a
    last-writer specification, and applying its output equals applying its sources.
  \<^item> Storage, Durable: the backend contract as locales, and the fault-injecting backend of
    \<^verbatim>\<open>walrust-dst/src/mock_storage.rs\<close> as an instance of them.
  \<^item> Layout, Engine: page streams, layouts and \<^verbatim>\<open>run_level_compaction\<close>.  Under every fault compaction loses no page:
    sources are deleted only when a verified object covers them.
  \<^item> Errors, World: error chains and exit codes (\<^verbatim>\<open>errors.rs\<close>); files and faults.
  \<^item> RestorePlan, Discovery, SyncRestore: \<^verbatim>\<open>compaction/restore.rs\<close> and \<^verbatim>\<open>restore\<close> of \<^verbatim>\<open>sync.rs\<close>.  A restore ends in a
    verified database or leaves the output as it was; prefetching changes nothing.
  \<^item> SyncState, Publish, PublishRules, PublishChain, PublishContent, Cursor: \<^verbatim>\<open>SyncState\<close> with its saved forms,
    \<^verbatim>\<open>sync_wal\<close>, \<^verbatim>\<open>take_snapshot\<close>, intents and adoption after a crash.  Publication refines an abstract chain machine;
    at every point of every history the bucket restores to the publisher's head; published objects never change; a
    sync replicates exactly the committed pages; the cursor stays on frame boundaries.
  \<^item> Replication: \<^verbatim>\<open>run_replication\<close>, \<^verbatim>\<open>run_wal_replication\<close>, retries, \<^verbatim>\<open>resume_owned_after_restore\<close>.
  \<^item> Fenced: delta envelopes, their writer and \<^verbatim>\<open>reconstruct_fenced_follower\<close>: nothing but the fenced chain is applied,
    and all of it is when storage answers.
  \<^item> Follower: \<^verbatim>\<open>pull_incremental\<close>, \<^verbatim>\<open>pull_incremental_into_sink\<close>, \<^verbatim>\<open>restore_with_snapshot_source\<close>.  Every chain is
    verified before it is applied, in whatever order downloads complete, and a sink sees its protocol.
  \<^item> ExternalBase: \<^verbatim>\<open>initialize_external_base_state\<close>; a restart resumes the cursor, a rollover is refused.
  \<^item> Shadow: \<^verbatim>\<open>shadow.rs\<close> and the segment scan of \<^verbatim>\<open>legacy_shadow.rs\<close>: the shadow mirrors the WAL and survives crashes.

  \<^item> Spec2Isabelle (this theory) composes publisher and follower: pages committed to the WAL of the one arrive in the
    database of the other.

  \<^bold>\<open>Interfaces.\<close>  \<open>storage_backend\<close>, \<open>durable_backend\<close>, \<open>changeset_store\<close>, \<open>page_source\<close>, \<open>compaction_layout\<close>,
  \<open>hadbp_codec\<close>, \<open>incremental_reader\<close>, \<open>retry_policy\<close> and \<open>envelope_format\<close> state what one part relies on of another;
  each is interpreted on the definitions of the model that provide it, or, for code outside the repository, on a
  concrete implementation that shows the contract can be met.

  \<^bold>\<open>Code outside the repository\<close> is a parameter: the HADBP codec and chain discovery of \<^verbatim>\<open>hadb_changeset\<close>, the storage
  trait, the retry policy of \<^verbatim>\<open>hadb_io\<close>, SHA-256, BLAKE3, CBOR, JSON, the LTX decoder, the random generator of the
  fault injector, SQLite (integrity check, checkpoint, journal mode, locks) and the embedder's sinks, snapshot sources
  and leases.  Theorems that need laws of such code name them as hypotheses.

  \<^bold>\<open>Loops.\<close>  Structural loops are recursive functions; the rest have measures.  The planner loop and the merge loop
  are partial functions whose termination is proved on the inputs the code gives them; no fuel is used.  The
  replication loops run over a finite sequence of timer events, and their theorems hold for every such sequence.

  \<^bold>\<open>Not modelled.\<close>  \<^verbatim>\<open>replicator.rs\<close> spawns and joins the loops above and adds no protocol decision.  The binary
  under \<^verbatim>\<open>src/src\<close> (argument parsing, configuration, dashboard, webhooks, S3 client, watch tasks) and the Python
  bindings are input and output around the library.  The legacy LTX modules (\<^verbatim>\<open>legacy_*\<close>) are the format of earlier
  releases; only the shadow scan that feeds them is modelled.  The simulation harness under \<^verbatim>\<open>walrust-dst\<close> is a test
  driver; its storage backend is modelled.  Wall-clock time, log output and the text of error messages are left out.
\<close>

section \<open>From the publisher to a follower\<close>

text \<open>A chain of stored objects that applies is decoded and verified by a pull.\<close>

lemma applied_chain_decodes:
  assumes "linear_applied cd objects ds (n, ck, db) = Some (n', ck', db')"
  shows "\<exists>es. decode_pulled cd ds (map (\<lambda>f. case objects (dc_key f) of None \<Rightarrow> Inl [Message (''key '' @ dc_key f @ '' not found'')] | Some d \<Rightarrow> Inr d) ds) = Inr es \<and>
    stored_entries cd objects ds es \<and> verify_decoded_pull_chain cd es \<lparr>pu_seq = n, pu_checksum = ck\<rparr> = Inr \<lparr>pu_seq = n', pu_checksum = ck'\<rparr>"
  using assms
proof (induction ds arbitrary: n ck db)
  case (Cons d ds)
  from Cons.prems obtain bs db1 res where d: "dc_seq d = n + 1" "objects (dc_key d) = Some bs" "apply_changeset_to_db cd bs (Some db) ck = Inr (db1, res)"
      "linear_applied cd objects ds (dc_seq d, ar_checksum res, db1) = Some (n', ck', db')"
    by (auto split: if_splits option.splits sum.splits)
  from d(3) obtain cs where cs: "decode_sqlite_changeset cd bs = Inr cs" "c_verify_chain cd ck cs" "ar_checksum res = cs_checksum cs"
    by (auto simp: apply_changeset_to_db_def split: if_splits sum.splits)
  from Cons.IH [OF d(4)] obtain es where
    "decode_pulled cd ds (map (\<lambda>f. case objects (dc_key f) of None \<Rightarrow> Inl [Message (''key '' @ dc_key f @ '' not found'')] | Some d \<Rightarrow> Inr d) ds) = Inr es"
    "stored_entries cd objects ds es"
    "verify_decoded_pull_chain cd es \<lparr>pu_seq = dc_seq d, pu_checksum = ar_checksum res\<rparr> = Inr \<lparr>pu_seq = n', pu_checksum = ck'\<rparr>" by blast
  then show ?case
    using d(1,2) cs
    by (intro exI [of _ "\<lparr>dq_seq = dc_seq d, dq_key = dc_key d, dq_changeset = cs\<rparr> # es"]) (simp add: stored_entries_def)
qed (simp add: stored_entries_def)

lemma pull_complete:
  assumes sb: "storage_backend b view" and cd: "hadbp_codec cd" and get: "\<And>k s. snd (b_get b k s) = Inr (view s k)"
    and state: "view (w_store w) (state_key pre db_name) = Some bs" "h_parse_state h bs = Inr (Some l)"
    and listed: "snd (b_list b (gen_prefix_of pre db_name (Some l) GENERATION_LIVE)
        (Some (gen_prefix_of pre db_name (Some l) GENERATION_LIVE @ hex_pad 16 (unat n) @ ''.'' @ h_ext h)) (fst (b_get b (state_key pre db_name) (w_store w)))) = Inr keys"
      "sort_key dc_seq (List.map_filter (discovered_of (gen_prefix_of pre db_name (Some l) GENERATION_LIVE) (h_ext h) n) keys) = ds"
    and local: "w_files w db_path = Some db" "w_faults w = []"
    and chn: "linear_applied cd (view (w_store w)) ds (n, ck, db) = Some (n', ck', db')"
  shows "\<exists>w'. pull_incremental pick b h cd pre db_name db_path \<lparr>pu_seq = n, pu_checksum = ck\<rparr> w = (w', Inr \<lparr>pu_seq = n', pu_checksum = ck'\<rparr>) \<and>
    w_files w' = (w_files w)(db_path \<mapsto> db') \<and> view (w_store w') = view (w_store w)"
proof -
  let ?s = "w_store w" and ?cur = "\<lparr>pu_seq = n, pu_checksum = ck\<rparr>" and ?new = "\<lparr>pu_seq = n', pu_checksum = ck'\<rparr>"
  obtain s1 where s1: "b_get b (state_key pre db_name) ?s = (s1, Inr (Some bs))" "view s1 = view ?s"
    using get [of "state_key pre db_name" ?s] state(1) storage_backend.get [OF sb] by (metis prod.collapse)
  have lin: "active_lineage_id b h pre db_name ?s = (s1, Inr (Some l))"
    using s1(1) state(2) by (simp add: active_lineage_id_def map_error_def and_then_def return_def)
  let ?gp = "gen_prefix_of pre db_name (Some l) GENERATION_LIVE"
  obtain s2 where s2: "b_list b ?gp (Some (?gp @ hex_pad 16 (unat n) @ ''.'' @ h_ext h)) s1 = (s2, Inr keys)" "view s2 = view ?s"
    using listed(1) s1 storage_backend.list [OF sb] by (metis fst_conv prod.collapse)
  have disc: "discover_after_in_namespace b h pre db_name (Some l) GENERATION_LIVE n s1 = (s2, Inr ds)"
    using s2(1) listed(2) by (simp add: discover_after_in_namespace_def storage_op_def map_error_def and_then_def return_def Let_def)
  obtain es where es: "decode_pulled cd ds (map (\<lambda>f. case view ?s (dc_key f) of None \<Rightarrow> Inl [Message (''key '' @ dc_key f @ '' not found'')] | Some d \<Rightarrow> Inr d) ds) = Inr es"
      "stored_entries cd (view ?s) ds es" "verify_decoded_pull_chain cd es ?cur = Inr ?new"
    using applied_chain_decodes [OF chn] by blast
  obtain s3 where dl: "download_decode_pull_changesets pick b cd ds s2 = (s3, Inr es)"
    using storage_backend.download_decode_answers [OF sb get, of pick cd ds s2] es(1) s2(2) by (metis prod.collapse)
  have v3: "view s3 = view ?s"
    using storage_backend.wp_download_decode [OF sb, of s2 cd ds "\<lambda>_ s'. view s' = view s2" "\<lambda>_ s'. view s' = view s2" pick] dl s2(2) by (simp add: wp_def)
  have pulled: "\<exists>s4. pulled_entries pick b h cd pre db_name ?cur ?s = (s4, Inr (es, ?new)) \<and> view s4 = view ?s"
  proof (cases "ds = []")
    case True
    then show ?thesis using es(2,3) lin disc s2(2) by (simp add: pulled_entries_def and_then_def return_def stored_entries_def)
  next
    case False
    then show ?thesis using es(3) lin disc dl v3 by (simp add: pulled_entries_def and_then_def return_def from_result_def)
  qed
  then obtain s4 where s4: "pulled_entries pick b h cd pre db_name ?cur ?s = (s4, Inr (es, ?new))" "view s4 = view ?s" by blast
  let ?w = "w\<lparr>w_store := s4\<rparr>"
  have f: "w_files ?w db_path = Some db" using local(1) by simp
  have "wp (fold_actions (\<lambda>entry _. apply_decoded_to_path (dq_changeset entry) db_path) es ())
      (\<lambda>_ w'. w_store w' = s4 \<and> w_files w' = (w_files w)(db_path \<mapsto> db')) (\<lambda>_ _. False) ?w"
    by (rule wp_mono [OF hadbp_codec.wp_apply_entries [OF cd es(2,3) f]]) (use chn local(2) in auto)
  then obtain w' where "fold_actions (\<lambda>entry _. apply_decoded_to_path (dq_changeset entry) db_path) es () ?w = (w', Inr ())" "w_store w' = s4"
      "w_files w' = (w_files w)(db_path \<mapsto> db')"
    by (auto simp: wp_def split: prod.splits sum.splits)
  then show ?thesis using s4 by (simp add: pull_incremental_def and_then_def on_world_def on_store_with_def return_def)
qed

text \<open>
  Claim C3: what is committed at the publisher arrives at a follower.  Let a follower stand at the head of
  the publisher, with the database of that head.  If the publisher reads newly committed frames and its
  sync succeeds, and storage then answers the follower and lists the new object and no later one, the
  follower's pull succeeds: its cursor is the new head of the publisher, and its database is the old one
  overlaid with exactly the committed pages of the WAL and cut or filled to the committed size.
\<close>

theorem committed_pages_reach_follower:
  assumes d: "durable_backend b view" and cd: "hadbp_codec cd" and hm: "iterates hm"
    and apart: "state_key pre (ss_name (si_sync z)) \<notin> range (live_key h pre (si_sync z)) \<union> range (snap_key h pre (si_sync z))"
    and header: "read_header (vs_header v) = Inr (Some header)"
    and noroll: "\<not> size_rollover v (si_sync z)" "\<not> salt_rollover header (si_sync z)"
    and read: "batch_read v header (si_sync z) = Inr r" "hm (pm_map r) \<noteq> []"
    and absent: "view (store_of z) (next_key h pre (si_sync z) GENERATION_LIVE) = None"
    and ck: "ss_db_checksum (si_sync z) = Some ck"
    and head: "chain_head cd sha256 (live_key h pre (si_sync z)) (snap_key h pre (si_sync z)) (view (store_of z)) s m =
        Some (ss_current_seq (si_sync z), ck, concat L)" "page_list (unat (wh_page_size header)) L"
    and run: "sync_wal b h j cd sha256 hm pre v sv z = (z', Inr k)"
    and lineage: "ss_lineage_id (si_sync z) = Some l" "\<And>bs. state_json_bytes j (si_sync z') = Inr bs \<Longrightarrow> h_parse_state h bs = Inr (ss_lineage_id (si_sync z'))"
    and get: "\<And>k s. snd (b_get b k s) = Inr (view s k)"
    and listed: "snd (b_list b (gen_prefix_of pre (ss_name (si_sync z)) (Some l) GENERATION_LIVE)
        (Some (gen_prefix_of pre (ss_name (si_sync z)) (Some l) GENERATION_LIVE @ hex_pad 16 (unat (ss_current_seq (si_sync z))) @ ''.'' @ h_ext h))
        (fst (b_get b (state_key pre (ss_name (si_sync z))) (store_of z')))) = Inr keys"
      "List.map_filter (discovered_of (gen_prefix_of pre (ss_name (si_sync z)) (Some l) GENERATION_LIVE) (h_ext h) (ss_current_seq (si_sync z))) keys =
        [\<lparr>dc_key = next_key h pre (si_sync z) GENERATION_LIVE, dc_seq = ss_current_seq (si_sync z) + 1\<rparr>]"
    and w: "w_store w = store_of z'" "w_files w db_path = Some (concat L)" "w_faults w = []"
  shows "\<exists>w' L' ck'. pull_incremental pick b h cd pre (ss_name (si_sync z)) db_path \<lparr>pu_seq = ss_current_seq (si_sync z), pu_checksum = ck\<rparr> w =
      (w', Inr \<lparr>pu_seq = ss_current_seq (si_sync z'), pu_checksum = ck'\<rparr>) \<and>
    ss_db_checksum (si_sync z') = Some ck' \<and> w_files w' = (w_files w)(db_path \<mapsto> concat L') \<and> overlaid (unat (wh_page_size header)) r L L'"
proof -
  from sync_wal_publishes [OF d cd hm apart header noroll read absent ck head run] obtain L' ck' bs where
    P: "overlaid (unat (wh_page_size header)) r L L'" "ss_current_seq (si_sync z') = ss_current_seq (si_sync z) + 1" "ss_db_checksum (si_sync z') = Some ck'"
      "state_json_bytes j (si_sync z') = Inr bs" "view (store_of z') (state_key pre (ss_name (si_sync z'))) = Some bs"
      "linear_applied cd (view (store_of z')) [\<lparr>dc_key = live_key h pre (si_sync z') (ss_current_seq (si_sync z')), dc_seq = ss_current_seq (si_sync z')\<rparr>]
        (ss_current_seq (si_sync z), ck, concat L) = Some (ss_current_seq (si_sync z'), ck', concat L')" "same_identity (si_sync z) (si_sync z')"
    by blast
  have id: "ss_name (si_sync z') = ss_name (si_sync z)" "ss_lineage_id (si_sync z') = Some l" using P(7) lineage(1) by (simp_all add: same_identity_def)
  let ?ds = "[\<lparr>dc_key = next_key h pre (si_sync z) GENERATION_LIVE, dc_seq = ss_current_seq (si_sync z) + 1\<rparr>]"
  have chn: "linear_applied cd (view (w_store w)) ?ds (ss_current_seq (si_sync z), ck, concat L) = Some (ss_current_seq (si_sync z'), ck', concat L')"
    using P(6) unfolding w(1) same_identity_keys [OF P(7)] P(2) .
  have sb: "storage_backend b view" using d by (rule durable_backend.axioms(1))
  have st: "view (w_store w) (state_key pre (ss_name (si_sync z))) = Some bs" "h_parse_state h bs = Inr (Some l)"
    using P(5) id w(1) lineage(2) [OF P(4)] by simp_all
  have ls: "sort_key dc_seq (List.map_filter (discovered_of (gen_prefix_of pre (ss_name (si_sync z)) (Some l) GENERATION_LIVE) (h_ext h) (ss_current_seq (si_sync z))) keys) = ?ds"
    unfolding listed(2) by simp
  from pull_complete [OF sb cd get st listed(1) [folded w(1)] ls w(2,3) chn] P(1,3) show ?thesis by blast
qed

text \<open>The demonstration stream with a follower that holds the database of its snapshot.\<close>

theorem committed_pages_reach_follower_witness:
  "\<exists>z' k w' L' ck'. sync_wal alist_backend demo_hadb demo_json demo_wire (\<lambda>x. x) demo_iter [] demo_wal_sight demo_snapshot_sight demo_site = (z', Inr k) \<and>
     pull_incremental (\<lambda>_. 0) alist_backend demo_hadb demo_wire [] ''app'' ''f.db'' \<lparr>pu_seq = 1, pu_checksum = finalize (\<lambda>x. x) (zeros 512)\<rparr>
       \<lparr>w_store = store_of z', w_files = [''f.db'' \<mapsto> zeros 512], w_faults = []\<rparr> = (w', Inr \<lparr>pu_seq = ss_current_seq (si_sync z'), pu_checksum = ck'\<rparr>) \<and>
     ss_db_checksum (si_sync z') = Some ck' \<and> w_files w' ''f.db'' = Some (concat L') \<and> overlaid 512 page_wal_batch [zeros 512] L'"
proof -
  obtain hdr where hdr: "read_header (Some page_wal) = Inr (Some hdr)" "wh_page_size hdr = 512" "header_salt hdr = (1, 2)"
    using page_wal_parsed by blast
  note B = demo_batch [OF hdr]
  obtain z' k bs where run: "sync_wal alist_backend demo_hadb demo_json demo_wire (\<lambda>x. x) demo_iter [] demo_wal_sight demo_snapshot_sight demo_site = (z', Inr k)"
    and store: "store_of z' = AList.update (state_key [] ''app'') [] (AList.update (live_key demo_hadb [] demo_sync_state 2) bs (store_of demo_site))"
    using demo_sync_runs by blast
  let ?st = "si_sync demo_site" and ?gp = "''app/lineages/l/0000/''" and ?key = "''app/lineages/l/0000/'' @ hex_pad 16 (unat (2 :: u64)) @ ''.hadbp''"
  have gp: "gen_prefix_of [] (ss_name ?st) (Some ''l'') GENERATION_LIVE = ?gp"
    by (simp add: gen_prefix_of_def lineage_generation_prefix_def GENERATION_LIVE_def hex4_generations)
  have key: "live_key demo_hadb [] demo_sync_state 2 = ?key" "snap_key demo_hadb [] demo_sync_state 1 = ''app/lineages/l/0001/'' @ hex_pad 16 (unat (1 :: u64)) @ ''.hadbp''"
    by (simp_all add: build_state_changeset_key_def build_lineage_changeset_key_def GENERATION_LIVE_def GENERATION_SNAPSHOT_def hex4_generations)
  have less: "?gp @ hex_pad 16 (unat (1 :: u64)) @ ''.hadbp'' < ?key"
    by (intro list_less_append_prefix list_less_append_same hex16_mono) (simp_all only: length_hex16, simp)
  have names: "map fst (store_of z') = [''app/lineages/l/0001/'' @ hex_pad 16 (unat (1 :: u64)) @ ''.hadbp'', ?key, ''app/state.json'']"
    unfolding store key by (simp add: demo_site_def key state_key_def)
  have listed: "snd (b_list alist_backend ?gp (Some (?gp @ hex_pad 16 (unat (ss_current_seq ?st)) @ ''.'' @ h_ext demo_hadb))
      (fst (b_get alist_backend (state_key [] (ss_name ?st)) (store_of z')))) = Inr [?key]"
    using less by (simp add: alist_backend_def names)
  have found: "List.map_filter (discovered_of ?gp (h_ext demo_hadb) (ss_current_seq ?st)) [?key] =
      [\<lparr>dc_key = next_key demo_hadb [] ?st GENERATION_LIVE, dc_seq = ss_current_seq ?st + 1\<rparr>]"
    using discovered_of_key [of 1 2 ?gp "''hadbp''"] key by (simp add: List.map_filter_simps)
  have apart: "state_key [] (ss_name ?st) \<notin> range (live_key demo_hadb [] ?st) \<union> range (snap_key demo_hadb [] ?st)"
    by (rule state_key_apart) simp_all
  have h: "read_header (vs_header demo_wal_sight) = Inr (Some hdr)" using hdr(1) by (simp add: demo_wal_sight_def)
  have pages: "demo_iter (pm_map page_wal_batch) \<noteq> []" using demo_iter_one by (simp add: page_wal_batch_def)
  have absent: "map_of (store_of demo_site) (next_key demo_hadb [] ?st GENERATION_LIVE) = None"
    by (simp add: demo_site_def build_state_changeset_key_def build_lineage_changeset_key_def hex4_generations GENERATION_LIVE_def GENERATION_SNAPSHOT_def)
  have pl: "page_list (unat (wh_page_size hdr)) [zeros 512]" by (simp add: hdr(2) page_list_def zeros_def)
  have head: "chain_head demo_wire (\<lambda>x. x) (live_key demo_hadb [] ?st) (snap_key demo_hadb [] ?st) (map_of (store_of demo_site)) 1 0 =
      Some (ss_current_seq ?st, finalize (\<lambda>x. x) (zeros 512), concat [zeros 512])"
    using demo_head by (simp add: demo_site_def)
  have same: "same_identity ?st (si_sync z')"
    using sync_wal_publishes [OF alist_durable.durable_backend_axioms demo_codec_ok demo_iterates apart h _ _ _ pages absent _ head pl run] B by fastforce
  have parse: "h_parse_state demo_hadb x = Inr (ss_lineage_id (si_sync z'))" for x using same by (simp add: same_identity_def)
  have get: "\<And>k s. snd (b_get alist_backend k s) = Inr (map_of s k)" by (simp add: alist_backend_def)
  let ?w = "\<lparr>w_store = store_of z', w_files = [''f.db'' \<mapsto> zeros 512], w_faults = []\<rparr>"
  have w: "w_store ?w = store_of z'" "w_files ?w ''f.db'' = Some (concat [zeros 512])" "w_faults ?w = []" by simp_all
  from committed_pages_reach_follower [OF alist_durable.durable_backend_axioms demo_codec_ok demo_iterates apart h _ _ _ pages absent _ head pl run _ parse get
      listed [folded gp] found [folded gp] w, of "\<lambda>_. 0"] B
  show ?thesis using run hdr(2) by (fastforce simp: page_wal_batch_def)
qed


end
